(* ===== verification/Prelude.thy ===== *)
theory Prelude
  imports Main "HOL-Library.Word" "HOL-Library.Monad_Syntax"
begin

text \<open>
  Shared vocabulary of the development.  C++ machine integers are words of their
  width, C arrays and \<^verbatim>\<open>std::vector\<close>s are lists that are read and written through
  \<open>rd\<close> and \<open>wr\<close>, and every C++ \<^verbatim>\<open>assert\<close>, \<^verbatim>\<open>panic\<close>, null dereference or
  out-of-range access is the value \<open>None\<close>.  A theorem that an operation returns
  \<open>Some\<close> therefore says that none of these happens.
\<close>

unbundle bit_operations_syntax

type_synonym UINT32 = "32 word"
type_synonym UINT64 = "64 word"
type_synonym UINT128 = "128 word"

named_theorems arr_simps \<open>array accesses in range\<close>
named_theorems wbounds \<open>bounds on masked and shifted words\<close>

section \<open>Assertions and array accesses\<close>

definition assert_that :: "bool \<Rightarrow> unit option" where
  "assert_that b = (if b then Some () else None)"

definition rd :: "'a list \<Rightarrow> nat \<Rightarrow> 'a option" where
  "rd xs i = (if i < length xs then Some (xs ! i) else None)"

definition wr :: "'a list \<Rightarrow> nat \<Rightarrow> 'a \<Rightarrow> 'a list option" where
  "wr xs i v = (if i < length xs then Some (xs[i := v]) else None)"

definition rd2 :: "'a list list \<Rightarrow> nat \<Rightarrow> nat \<Rightarrow> 'a option" where
  "rd2 t i j = do { r \<leftarrow> rd t i; rd r j }"

definition wr2 :: "'a list list \<Rightarrow> nat \<Rightarrow> nat \<Rightarrow> 'a \<Rightarrow> 'a list list option" where
  "wr2 t i j v = do { r \<leftarrow> rd t i; r' \<leftarrow> wr r j v; wr t i r' }"

lemma assert_that_simps [simp]: "assert_that True = Some ()" "assert_that False = None"
  by (simp_all add: assert_that_def)

lemma assert_that_eq_Some [simp]: "(assert_that b = Some u) = b"
  by (simp add: assert_that_def)

lemma bind_assert [simp]:
  "(assert_that b \<bind> f = Some y) = (b \<and> f () = Some y)"
  by (cases b) simp_all

lemma rd_in [arr_simps]: "i < length xs \<Longrightarrow> rd xs i = Some (xs ! i)"
  by (simp add: rd_def)

lemma rd_eq_Some [simp]: "(rd xs i = Some v) = (i < length xs \<and> v = xs ! i)"
  by (auto simp: rd_def)

lemma wr_in [arr_simps]: "i < length xs \<Longrightarrow> wr xs i v = Some (xs[i := v])"
  by (simp add: wr_def)

lemma wr_eq_Some [simp]: "(wr xs i v = Some ys) = (i < length xs \<and> ys = xs[i := v])"
  by (auto simp: wr_def)

lemma rd2_in [arr_simps]:
  "i < length t \<Longrightarrow> j < length (t ! i) \<Longrightarrow> rd2 t i j = Some (t ! i ! j)"
  by (simp add: rd2_def rd_in)

lemma wr2_in [arr_simps]:
  "i < length t \<Longrightarrow> j < length (t ! i) \<Longrightarrow> wr2 t i j v = Some (t[i := (t ! i)[j := v]])"
  by (simp add: wr2_def rd_in wr_in)

lemma rd2_eq_Some [simp]:
  "(rd2 t i j = Some v) = (i < length t \<and> j < length (t ! i) \<and> v = t ! i ! j)"
  by (auto simp: rd2_def bind_eq_Some_conv)

lemma wr2_eq_Some [simp]:
  "(wr2 t i j v = Some u) =
     (i < length t \<and> j < length (t ! i) \<and> u = t[i := (t ! i)[j := v]])"
  by (auto simp: wr2_def bind_eq_Some_conv)

text \<open>Writing one cell of a two-dimensional table keeps a property of all its cells.\<close>

definition all_cells :: "('a \<Rightarrow> bool) \<Rightarrow> 'a list list \<Rightarrow> bool" where
  "all_cells P t = (\<forall>r\<in>set t. \<forall>c\<in>set r. P c)"

definition dims :: "nat \<Rightarrow> nat \<Rightarrow> 'a list list \<Rightarrow> bool" where
  "dims n m t = (length t = n \<and> (\<forall>r\<in>set t. length r = m))"

lemma dims_length: "dims n m t \<Longrightarrow> length t = n"
  by (simp add: dims_def)

lemma dims_row: "dims n m t \<Longrightarrow> i < n \<Longrightarrow> length (t ! i) = m"
  by (auto simp: dims_def)

lemma dims_upd: "dims n m t \<Longrightarrow> i < n \<Longrightarrow> dims n m (t[i := (t ! i)[j := v]])"
  by (simp add: dims_def all_set_conv_all_nth nth_list_update)

lemma all_cells_upd:
  "all_cells P t \<Longrightarrow> i < length t \<Longrightarrow> P v \<Longrightarrow> all_cells P (t[i := (t ! i)[j := v]])"
  by (cases "j < length (t ! i)") (auto simp: all_cells_def all_set_conv_all_nth nth_list_update)

lemma all_cells_nth:
  "all_cells P t \<Longrightarrow> i < length t \<Longrightarrow> j < length (t ! i) \<Longrightarrow> P (t ! i ! j)"
  by (simp add: all_cells_def all_set_conv_all_nth)

lemma all_cells_replicate: "P c \<Longrightarrow> all_cells P (replicate n (replicate m c))"
  by (simp add: all_cells_def)

lemma dims_replicate: "dims n m (replicate n (replicate m c))"
  by (simp add: dims_def)

lemma list_all_upd: "list_all P xs \<Longrightarrow> P v \<Longrightarrow> list_all P (xs[i := v])"
  by (cases "i < length xs") (auto simp: list_all_length nth_list_update)

lemma list_all_nth: "list_all P xs \<Longrightarrow> i < length xs \<Longrightarrow> P (xs ! i)"
  by (simp add: list_all_length)

section \<open>Operations that return\<close>

text \<open>\<open>succeeds m Q\<close>: the operation returns, and its result satisfies \<open>Q\<close>.\<close>

definition succeeds :: "'a option \<Rightarrow> ('a \<Rightarrow> bool) \<Rightarrow> bool" where
  "succeeds m Q = (case m of None \<Rightarrow> False | Some x \<Rightarrow> Q x)"

lemma succeeds_iff: "succeeds m Q = (\<exists>x. m = Some x \<and> Q x)"
  by (cases m) (auto simp: succeeds_def)

lemma succeeds_simps [simp]: "succeeds (Some x) Q = Q x" "\<not> succeeds None Q"
  by (simp_all add: succeeds_def)

lemma succeeds_bind:
  "succeeds m P \<Longrightarrow> (\<And>x. P x \<Longrightarrow> succeeds (f x) Q) \<Longrightarrow> succeeds (m \<bind> f) Q"
  by (cases m) (auto simp: succeeds_def)

lemma succeeds_mono: "succeeds m P \<Longrightarrow> (\<And>x. P x \<Longrightarrow> Q x) \<Longrightarrow> succeeds m Q"
  by (auto simp: succeeds_iff)

lemma succeeds_mono2:
  "succeeds m (\<lambda>(a, b). P a b) \<Longrightarrow> (\<And>a b. P a b \<Longrightarrow> Q a b) \<Longrightarrow> succeeds m (\<lambda>(a, b). Q a b)"
  by (auto simp: succeeds_iff)

lemma succeeds_eq: "succeeds m Q \<Longrightarrow> m = Some x \<Longrightarrow> Q x"
  by simp

section \<open>Loops over lists\<close>

text \<open>A loop over two vectors of the same length, elementwise and with an early exit.\<close>

fun map2_opt :: "('a \<Rightarrow> 'b \<Rightarrow> 'c option) \<Rightarrow> 'a list \<Rightarrow> 'b list \<Rightarrow> 'c list option" where
  "map2_opt f (x # xs) (y # ys) = do { z \<leftarrow> f x y; zs \<leftarrow> map2_opt f xs ys; Some (z # zs) }"
| "map2_opt f _ _ = Some []"

fun all2_opt :: "('a \<Rightarrow> 'b \<Rightarrow> bool option) \<Rightarrow> 'a list \<Rightarrow> 'b list \<Rightarrow> bool option" where
  "all2_opt f (x # xs) (y # ys) = do { b \<leftarrow> f x y; if b then all2_opt f xs ys else Some False }"
| "all2_opt f _ _ = Some True"

lemma map2_opt_ok:
  "length xs = length ys \<Longrightarrow> (\<And>i. i < length xs \<Longrightarrow> succeeds (f (xs ! i) (ys ! i)) (Q i)) \<Longrightarrow>
   succeeds (map2_opt f xs ys) (\<lambda>zs. length zs = length xs \<and> (\<forall>i<length xs. Q i (zs ! i)))"
proof (induction xs ys arbitrary: Q rule: list_induct2)
  case Nil
  then show ?case by simp
next
  case (Cons x xs y ys)
  obtain z where z: "f x y = Some z" "Q 0 z" using Cons.prems [of 0] by (auto simp: succeeds_iff)
  obtain zs where "map2_opt f xs ys = Some zs" "length zs = length xs" "\<forall>i<length xs. Q (Suc i) (zs ! i)"
    using Cons.IH [of "\<lambda>i. Q (Suc i)"] Cons.prems [of "Suc _"] by (auto simp: succeeds_iff)
  with z show ?case by (auto simp: less_Suc_eq_0_disj)
qed

lemma all2_opt_eq:
  "length xs = length ys \<Longrightarrow> (\<And>i. i < length xs \<Longrightarrow> f (xs ! i) (ys ! i) = Some (P i)) \<Longrightarrow>
   all2_opt f xs ys = Some (\<forall>i<length xs. P i)"
proof (induction xs ys arbitrary: P rule: list_induct2)
  case Nil
  then show ?case by simp
next
  case (Cons x xs y ys)
  have "all2_opt f xs ys = Some (\<forall>i<length xs. P (Suc i))"
    using Cons.IH [of "\<lambda>i. P (Suc i)"] Cons.prems [of "Suc _"] by simp
  with Cons.prems [of 0] show ?case by (auto simp: less_Suc_eq_0_disj)
qed

section \<open>Masked words\<close>

lemma unat_and_le: "unat (x AND m) \<le> unat m" for x m :: "'a::len word"
  using word_and_le1 [of x m] by (simp add: word_le_nat_alt)

lemma unat_and_less: "unat m < k \<Longrightarrow> unat (x AND m) < k" for x m :: "'a::len word"
  using unat_and_le [of x m] by linarith

lemma unat_lt_nz_dec: "x \<noteq> 0 \<Longrightarrow> unat (x - 1) = unat x - 1" for x :: "'a::len word"
  by (metis One_nat_def unat_minus_one)

lemma unat_inc_below:
  "unat x < k \<Longrightarrow> k < 2 ^ LENGTH('a) \<Longrightarrow> unat (x + 1) = Suc (unat x)" for x :: "'a::len word"
  by (simp add: unat_word_ariths)

lemma sint_small: "uint w < 2 ^ 31 \<Longrightarrow> sint w = uint w" for w :: "32 word"
  unfolding sint_uint by (rule signed_take_bit_int_eq_self) (auto intro: order_trans [OF _ uint_ge_0])

lemma unat_drop: "unat (drop_bit k x) = unat x div 2 ^ k" for x :: "'a::len word"
  unfolding unat_drop_bit_eq by (simp add: drop_bit_eq_div)

lemma unat_exp: "k < LENGTH('a) \<Longrightarrow> unat (2 ^ k :: 'a::len word) = 2 ^ k"
  using unat_of_nat [of "2 ^ k", where ?'a = 'a] by (simp add: power_strict_increasing)

lemma unat_minus_one_exp: "k < LENGTH('a) \<Longrightarrow> unat (2 ^ k - 1 :: 'a::len word) = 2 ^ k - 1"
  using unat_exp [of k, where ?'a = 'a]
  by (subst unat_lt_nz_dec) (auto simp: unat_eq_0 [symmetric])

section \<open>Blocks of memory\<close>

text \<open>\<^verbatim>\<open>memcpy\<close> from and to an array at an offset; a copy that leaves the array is \<open>None\<close>.\<close>

type_synonym uint8 = "8 word"

definition read_at :: "'a list \<Rightarrow> nat \<Rightarrow> nat \<Rightarrow> 'a list option" where
  "read_at xs off n = (if off + n \<le> length xs then Some (take n (drop off xs)) else None)"

definition write_at :: "'a list \<Rightarrow> nat \<Rightarrow> 'a list \<Rightarrow> 'a list option" where
  "write_at xs off ys =
     (if off + length ys \<le> length xs then Some (take off xs @ ys @ drop (off + length ys) xs) else None)"

text \<open>The bytes of a 32-bit integer, least significant first, as the host stores them.\<close>

definition le32 :: "uint8 list \<Rightarrow> UINT32" where
  "le32 b = ucast (b ! 0) OR push_bit 8 (ucast (b ! 1)) OR push_bit 16 (ucast (b ! 2))
            OR push_bit 24 (ucast (b ! 3))"

definition le32_bytes :: "UINT32 \<Rightarrow> uint8 list" where
  "le32_bytes w = [ucast w, ucast (drop_bit 8 w), ucast (drop_bit 16 w), ucast (drop_bit 24 w)]"

lemma length_le32_bytes [simp]: "length (le32_bytes w) = 4"
  by (simp add: le32_bytes_def)

lemma le32_le32_bytes [simp]: "le32 (le32_bytes w) = w"
proof (rule bit_word_eqI)
  fix n assume "n < LENGTH(32)"
  then consider "n < 8" | "8 \<le> n" "n < 16" | "16 \<le> n" "n < 24" | "24 \<le> n" "n < 32" by fastforce
  then show "bit (le32 (le32_bytes w)) n = bit w n"
    by cases (auto simp: le32_def le32_bytes_def bit_simps nth_Cons')
qed

lemma write_at_length: "write_at xs off ys = Some zs \<Longrightarrow> length zs = length xs"
  by (auto simp: write_at_def split: if_splits)

lemma read_write_at: "write_at xs off ys = Some zs \<Longrightarrow> read_at zs off (length ys) = Some ys"
  by (auto simp: write_at_def read_at_def split: if_splits)

text \<open>A copy inside one part of a concatenation of equal parts.\<close>

lemma length_concat_equal: "\<forall>p\<in>set ps. length p = n \<Longrightarrow> length (concat ps) = length ps * n"
  by (induction ps) auto

lemma concat_part:
  assumes "\<forall>p\<in>set ps. length p = n" "i < length ps"
  shows "concat ps = concat (take i ps) @ ps ! i @ concat (drop (Suc i) ps)"
    "length (concat (take i ps)) = i * n" "length (ps ! i) = n"
proof -
  show "concat ps = concat (take i ps) @ ps ! i @ concat (drop (Suc i) ps)"
    using id_take_nth_drop [OF assms(2)] by (metis concat.simps(2) concat_append)
  have "\<forall>p\<in>set (take i ps). length p = n" using assms(1) by (meson in_set_takeD)
  then show "length (concat (take i ps)) = i * n" 
    using assms(2) length_concat_equal [of "take i ps" n] by (simp add: min_def)
  show "length (ps ! i) = n" using assms by simp
qed

lemma read_at_concat:
  assumes "\<forall>p\<in>set ps. length p = n" "i < length ps" "off + m \<le> n"
  shows "read_at (concat ps) (i * n + off) m = read_at (ps ! i) off m"
  using concat_part [OF assms(1,2)] assms(3)
  by (simp add: read_at_def drop_append take_append)

lemma write_at_concat:
  assumes "\<forall>p\<in>set ps. length p = n" "i < length ps" "off + length d \<le> n"
  shows "write_at (concat ps) (i * n + off) d = Some (concat (ps[i := take off (ps ! i) @ d @ drop (off + length d) (ps ! i)]))"
  using concat_part [OF assms(1,2)] assms(2,3)
  by (simp add: write_at_def upd_conv_take_nth_drop)

end
