(* ===== verification/Branch_Predictors.thy ===== *)
theory Branch_Predictors
  imports Prelude
begin

text \<open>
  The two fixed-size predictors of \<^verbatim>\<open>src/Lab2/cbp4-assign2/predictor.cc\<close>: the 2-bit
  saturating predictor and the two-level predictor, and the interface \<open>branch_predictor\<close>
  through which \<^verbatim>\<open>main.cc\<close> drives all its predictors.  The C globals are the fields of a
  record; \<open>None\<close> is an array access out of range.
\<close>

section \<open>The interface used by the driver\<close>

text \<open>A conditional branch of a trace: its address, its outcome and its target.\<close>

type_synonym branch = "UINT32 \<times> bool \<times> UINT32"

text \<open>The loop of \<^verbatim>\<open>main.cc\<close> for one predictor: predict, then train with the outcome.\<close>

fun pred_run :: "('s \<Rightarrow> UINT32 \<Rightarrow> (bool \<times> 's) option)
    \<Rightarrow> ('s \<Rightarrow> UINT32 \<Rightarrow> bool \<Rightarrow> bool \<Rightarrow> UINT32 \<Rightarrow> 's option)
    \<Rightarrow> 's \<Rightarrow> branch list \<Rightarrow> bool list option" where
  "pred_run get upd s [] = Some []"
| "pred_run get upd s ((PC, taken, tgt) # bs) = do {
     (d, s) \<leftarrow> get s PC;
     s \<leftarrow> upd s PC taken d tgt;
     ds \<leftarrow> pred_run get upd s bs;
     Some (d # ds)
   }"

locale branch_predictor =
  fixes init_pred :: "'s"
    and get_pred :: "'s \<Rightarrow> UINT32 \<Rightarrow> (bool \<times> 's) option"
    and upd_pred :: "'s \<Rightarrow> UINT32 \<Rightarrow> bool \<Rightarrow> bool \<Rightarrow> UINT32 \<Rightarrow> 's option"
    and pred_inv :: "'s \<Rightarrow> bool"
  assumes init_ok: "pred_inv init_pred"
    and get_ok: "pred_inv s \<Longrightarrow> \<exists>d s'. get_pred s pc = Some (d, s') \<and> pred_inv s'"
    and upd_ok: "pred_inv s \<Longrightarrow> \<exists>s'. upd_pred s pc r p tgt = Some s' \<and> pred_inv s'"
begin

lemma round_ok:
  assumes "pred_inv s"
  shows "\<exists>d s' s''. get_pred s pc = Some (d, s') \<and> upd_pred s' pc r d tgt = Some s''
           \<and> pred_inv s' \<and> pred_inv s''"
proof -
  obtain d s' where g: "get_pred s pc = Some (d, s')" "pred_inv s'"
    using get_ok [OF assms] by blast
  then obtain s'' where "upd_pred s' pc r d tgt = Some s''" "pred_inv s''"
    using upd_ok by blast
  with g show ?thesis by blast
qed

lemma run_ok: "pred_inv s \<Longrightarrow> succeeds (pred_run get_pred upd_pred s bs) (\<lambda>ds. length ds = length bs)"
proof (induction bs arbitrary: s)
  case Nil
  then show ?case by simp
next
  case (Cons b bs)
  obtain pc r tgt where b: "b = (pc, r, tgt)" by (cases b)
  obtain d s' s'' where "get_pred s pc = Some (d, s')" "upd_pred s' pc r d tgt = Some s''"
    "pred_inv s''"
    using round_ok [OF Cons.prems] by blast
  with b show ?case by (auto intro: succeeds_bind [OF Cons.IH])
qed

end

section \<open>Saturating counters of two bits\<close>

definition NOT_TAKEN :: UINT32 where "NOT_TAKEN = 0"
definition TAKEN :: UINT32 where "TAKEN = 1"
definition S_NT :: UINT32 where "S_NT = 0"
definition W_NT :: UINT32 where "W_NT = 1"
definition W_T :: UINT32 where "W_T = 2"
definition S_T :: UINT32 where "S_T = 3"

lemmas pred_consts = NOT_TAKEN_def TAKEN_def S_NT_def W_NT_def W_T_def S_T_def

text \<open>The \<^verbatim>\<open>switch\<close> both predictors share, with its default branch.\<close>

definition direction :: "UINT32 \<Rightarrow> bool" where
  "direction c = (if c = S_NT then False
                  else if c = W_NT then False
                  else if c = W_T then True
                  else if c = S_T then True
                  else True)"

definition bump :: "bool \<Rightarrow> UINT32 \<Rightarrow> UINT32" where
  "bump taken c = (if taken then (if c \<noteq> S_T then c + 1 else c)
                   else (if c \<noteq> S_NT then c - 1 else c))"

definition two_bit :: "UINT32 \<Rightarrow> bool" where
  "two_bit c = (unat c \<le> 3)"

lemma two_bit_cases: "two_bit c \<Longrightarrow> c \<in> {0, 1, 2, 3}"
proof -
  assume "two_bit c"
  then have "unat c = 0 \<or> unat c = 1 \<or> unat c = 2 \<or> unat c = 3"
    by (auto simp: two_bit_def)
  then show ?thesis
    by (auto simp: word_unat_eq_iff)
qed

lemma bump_two_bit: "two_bit c \<Longrightarrow> two_bit (bump t c)"
  by (drule two_bit_cases) (auto simp: bump_def two_bit_def pred_consts)

lemma direction_iff: "two_bit c \<Longrightarrow> direction c = (2 \<le> unat c)"
  by (drule two_bit_cases) (auto simp: direction_def pred_consts)

text \<open>Two equal outcomes in a row decide the next prediction whatever the counter held.\<close>

lemma bump_twice: "two_bit c \<Longrightarrow> direction (bump t (bump t c)) = t"
  by (drule two_bit_cases) (auto simp: direction_def bump_def pred_consts)

text \<open>One exception does not flip a prediction made from a saturated counter.\<close>

lemma bump_hysteresis:
  "direction (bump (\<not> t) (bump t (bump t (bump t c)))) = t" if "two_bit c"
  using two_bit_cases [OF that] by (cases t) (auto simp: direction_def bump_def pred_consts)

section \<open>The 2-bit saturating predictor\<close>

record sat_state =
  Two_bit_sat_PHT :: "UINT32 list"

definition sat_idx :: "UINT32 \<Rightarrow> nat" where
  "sat_idx PC = unat (PC AND 0xFFF)"

definition InitPredictor_2bitsat :: sat_state where
  "InitPredictor_2bitsat = \<lparr> Two_bit_sat_PHT = replicate 4096 W_T \<rparr>"

definition GetPrediction_2bitsat :: "sat_state \<Rightarrow> UINT32 \<Rightarrow> (bool \<times> sat_state) option" where
  "GetPrediction_2bitsat s PC = do {
     c \<leftarrow> rd (Two_bit_sat_PHT s) (sat_idx PC);
     Some (direction c, s)
   }"

definition UpdatePredictor_2bitsat ::
  "sat_state \<Rightarrow> UINT32 \<Rightarrow> bool \<Rightarrow> bool \<Rightarrow> UINT32 \<Rightarrow> sat_state option" where
  "UpdatePredictor_2bitsat s PC resolveDir predDir branchTarget = do {
     c \<leftarrow> rd (Two_bit_sat_PHT s) (sat_idx PC);
     t \<leftarrow> wr (Two_bit_sat_PHT s) (sat_idx PC) (bump resolveDir c);
     Some (s\<lparr> Two_bit_sat_PHT := t \<rparr>)
   }"

definition sat_inv :: "sat_state \<Rightarrow> bool" where
  "sat_inv s = (length (Two_bit_sat_PHT s) = 4096 \<and> list_all two_bit (Two_bit_sat_PHT s))"

lemma sat_idx_less [wbounds]: "sat_idx PC < 4096"
  unfolding sat_idx_def by (rule unat_and_less) simp

lemma sat_get:
  "sat_inv s \<Longrightarrow>
   GetPrediction_2bitsat s PC = Some (direction (Two_bit_sat_PHT s ! sat_idx PC), s)"
  by (simp add: GetPrediction_2bitsat_def sat_inv_def arr_simps wbounds)

lemma sat_upd:
  "sat_inv s \<Longrightarrow>
   UpdatePredictor_2bitsat s PC r p b =
     Some (s\<lparr> Two_bit_sat_PHT := (Two_bit_sat_PHT s)[sat_idx PC :=
                bump r (Two_bit_sat_PHT s ! sat_idx PC)] \<rparr>)"
  by (simp add: UpdatePredictor_2bitsat_def sat_inv_def arr_simps wbounds)

lemma sat_inv_upd:
  "sat_inv s \<Longrightarrow> sat_inv (s\<lparr> Two_bit_sat_PHT := (Two_bit_sat_PHT s)[sat_idx PC :=
                bump r (Two_bit_sat_PHT s ! sat_idx PC)] \<rparr>)"
  by (simp add: sat_inv_def list_all_upd bump_two_bit list_all_nth wbounds)

interpretation sat: branch_predictor InitPredictor_2bitsat GetPrediction_2bitsat
  UpdatePredictor_2bitsat sat_inv
proof unfold_locales
  show "sat_inv InitPredictor_2bitsat"
    by (simp add: sat_inv_def InitPredictor_2bitsat_def list_all_iff two_bit_def pred_consts)
next
  fix s pc assume "sat_inv s"
  then show "\<exists>d s'. GetPrediction_2bitsat s pc = Some (d, s') \<and> sat_inv s'"
    by (simp add: sat_get)
next
  fix s pc r p tgt assume "sat_inv s"
  then show "\<exists>s'. UpdatePredictor_2bitsat s pc r p tgt = Some s' \<and> sat_inv s'"
    by (simp add: sat_upd sat_inv_upd)
qed

section \<open>The two-level predictor\<close>

record two_level_state =
  Two_level_BHT :: "UINT32 list"
  Two_level_PHT :: "UINT32 list list"

definition pht_row :: "UINT32 \<Rightarrow> nat" where
  "pht_row PC = unat (PC AND 0x7)"

definition bht_idx :: "UINT32 \<Rightarrow> nat" where
  "bht_idx PC = unat (drop_bit 3 (PC AND 0xFF8))"

definition InitPredictor_2level :: two_level_state where
  "InitPredictor_2level =
     \<lparr> Two_level_BHT = replicate 512 NOT_TAKEN,
       Two_level_PHT = replicate 8 (replicate 64 W_NT) \<rparr>"

definition GetPrediction_2level ::
  "two_level_state \<Rightarrow> UINT32 \<Rightarrow> (bool \<times> two_level_state) option" where
  "GetPrediction_2level s PC = do {
     h \<leftarrow> rd (Two_level_BHT s) (bht_idx PC);
     c \<leftarrow> rd2 (Two_level_PHT s) (pht_row PC) (unat h);
     Some (direction c, s)
   }"

definition shift_history :: "bool \<Rightarrow> UINT32 \<Rightarrow> UINT32" where
  "shift_history taken h = (if taken then (push_bit 1 h OR 0x1) AND 0x3F
                            else push_bit 1 h AND (0x3F - 0b1))"

definition UpdatePredictor_2level ::
  "two_level_state \<Rightarrow> UINT32 \<Rightarrow> bool \<Rightarrow> bool \<Rightarrow> UINT32 \<Rightarrow> two_level_state option" where
  "UpdatePredictor_2level s PC resolveDir predDir branchTarget = do {
     h \<leftarrow> rd (Two_level_BHT s) (bht_idx PC);
     c \<leftarrow> rd2 (Two_level_PHT s) (pht_row PC) (unat h);
     t \<leftarrow> wr2 (Two_level_PHT s) (pht_row PC) (unat h) (bump resolveDir c);
     b \<leftarrow> wr (Two_level_BHT s) (bht_idx PC) (shift_history resolveDir h);
     Some (s\<lparr> Two_level_PHT := t, Two_level_BHT := b \<rparr>)
   }"

definition six_bit :: "UINT32 \<Rightarrow> bool" where
  "six_bit h = (unat h < 64)"

definition two_level_inv :: "two_level_state \<Rightarrow> bool" where
  "two_level_inv s =
     (length (Two_level_BHT s) = 512 \<and> list_all six_bit (Two_level_BHT s)
      \<and> dims 8 64 (Two_level_PHT s) \<and> all_cells two_bit (Two_level_PHT s))"

lemma pht_row_less [wbounds]: "pht_row PC < 8"
  unfolding pht_row_def by (rule unat_and_less) simp

lemma bht_idx_less [wbounds]: "bht_idx PC < 512"
proof -
  have "unat (PC AND 0xFF8) \<le> 4088"
    using unat_and_le [of PC "0xFF8"] by simp
  then show ?thesis
    by (simp add: bht_idx_def drop_bit_eq_div unat_div)
qed

lemma six_bit_shift: "six_bit (shift_history t h)"
  unfolding six_bit_def shift_history_def
  by (cases t) (simp_all add: unat_and_less)

lemma two_level_hist: "two_level_inv s \<Longrightarrow> unat (Two_level_BHT s ! bht_idx PC) < 64"
  using list_all_nth [of six_bit "Two_level_BHT s" "bht_idx PC"]
  by (simp add: two_level_inv_def six_bit_def wbounds)

lemma two_level_cell:
  assumes "two_level_inv s" "r < 8" "k < 64"
  shows "r < length (Two_level_PHT s)" "k < length (Two_level_PHT s ! r)"
    "two_bit (Two_level_PHT s ! r ! k)"
proof -
  have d: "dims 8 64 (Two_level_PHT s)" and a: "all_cells two_bit (Two_level_PHT s)"
    using assms(1) by (simp_all add: two_level_inv_def)
  show l: "r < length (Two_level_PHT s)" using dims_length [OF d] assms(2) by simp
  show k: "k < length (Two_level_PHT s ! r)" using dims_row [OF d assms(2)] assms(3) by simp
  show "two_bit (Two_level_PHT s ! r ! k)" by (rule all_cells_nth [OF a l k])
qed

lemma two_level_get:
  assumes "two_level_inv s"
  shows "GetPrediction_2level s PC =
    Some (direction (Two_level_PHT s ! pht_row PC ! unat (Two_level_BHT s ! bht_idx PC)), s)"
proof -
  note c = two_level_cell [OF assms pht_row_less [of PC] two_level_hist [OF assms, of PC]]
  have "bht_idx PC < length (Two_level_BHT s)"
    using assms by (simp add: two_level_inv_def wbounds)
  with c show ?thesis
    by (simp add: GetPrediction_2level_def arr_simps)
qed

lemma two_level_upd:
  fixes s PC
  defines "h \<equiv> Two_level_BHT s ! bht_idx PC"
  assumes "two_level_inv s"
  shows "UpdatePredictor_2level s PC r p b = Some
    (s\<lparr> Two_level_PHT := (Two_level_PHT s)[pht_row PC :=
            (Two_level_PHT s ! pht_row PC)[unat h := bump r (Two_level_PHT s ! pht_row PC ! unat h)]],
        Two_level_BHT := (Two_level_BHT s)[bht_idx PC := shift_history r h] \<rparr>)"
proof -
  note c = two_level_cell [OF assms(2) pht_row_less [of PC] two_level_hist [OF assms(2), of PC]]
  have "bht_idx PC < length (Two_level_BHT s)"
    using assms by (simp add: two_level_inv_def wbounds)
  with c show ?thesis
    by (simp add: UpdatePredictor_2level_def arr_simps h_def)
qed

lemma two_level_inv_upd:
  assumes "two_level_inv s" "UpdatePredictor_2level s PC r p b = Some s'"
  shows "two_level_inv s'"
proof -
  note c = two_level_cell [OF assms(1) pht_row_less [of PC] two_level_hist [OF assms(1), of PC]]
  show ?thesis
    using assms c
    by (auto simp: two_level_upd two_level_inv_def list_all_upd six_bit_shift dims_upd wbounds
        intro!: all_cells_upd bump_two_bit)
qed

interpretation lvl2: branch_predictor InitPredictor_2level GetPrediction_2level
  UpdatePredictor_2level two_level_inv
proof unfold_locales
  show "two_level_inv InitPredictor_2level"
    by (simp add: two_level_inv_def InitPredictor_2level_def list_all_iff six_bit_def two_bit_def
        pred_consts dims_replicate all_cells_replicate)
next
  fix s pc assume "two_level_inv s"
  then show "\<exists>d s'. GetPrediction_2level s pc = Some (d, s') \<and> two_level_inv s'"
    by (simp add: two_level_get)
next
  fix s pc r p tgt assume i: "two_level_inv s"
  obtain s' where "UpdatePredictor_2level s pc r p tgt = Some s'"
    using two_level_upd [OF i] by blast
  with two_level_inv_upd [OF i]
  show "\<exists>s'. UpdatePredictor_2level s pc r p tgt = Some s' \<and> two_level_inv s'" by blast
qed

section \<open>Abstract two-level prediction\<close>

text \<open>
  What the two-level predictor promises: every branch address selects a history register
  that holds the last six outcomes seen by it (newest first) and a row of counters
  indexed by such a history; counters count between 0 and 3.
\<close>

record abs_two_level =
  hist :: "nat \<Rightarrow> bool list"
  counter :: "nat \<Rightarrow> bool list \<Rightarrow> nat"

definition abs_init :: abs_two_level where
  "abs_init = \<lparr> hist = (\<lambda>_. replicate 6 False), counter = (\<lambda>_ _. 1) \<rparr>"

definition abs_predict :: "abs_two_level \<Rightarrow> UINT32 \<Rightarrow> bool" where
  "abs_predict a PC = (2 \<le> counter a (pht_row PC) (hist a (bht_idx PC)))"

definition abs_update :: "abs_two_level \<Rightarrow> UINT32 \<Rightarrow> bool \<Rightarrow> abs_two_level" where
  "abs_update a PC taken =
     (let h = hist a (bht_idx PC); r = pht_row PC; c = counter a r h
      in a\<lparr> hist := (hist a)(bht_idx PC := taken # take 5 h),
            counter := (counter a)(r := (counter a r)(h := if taken then min 3 (c + 1) else c - 1)) \<rparr>)"

fun abs_run :: "abs_two_level \<Rightarrow> branch list \<Rightarrow> bool list" where
  "abs_run a [] = []"
| "abs_run a ((PC, taken, tgt) # bs) = abs_predict a PC # abs_run (abs_update a PC taken) bs"

definition bits6 :: "UINT32 \<Rightarrow> bool list" where
  "bits6 h = map (bit h) [0..<6]"

definition sim2 :: "two_level_state \<Rightarrow> abs_two_level \<Rightarrow> bool" where
  "sim2 s a = (two_level_inv s
     \<and> (\<forall>i<512. hist a i = bits6 (Two_level_BHT s ! i))
     \<and> (\<forall>r<8. \<forall>h. six_bit h \<longrightarrow> counter a r (bits6 h) = unat (Two_level_PHT s ! r ! unat h)))"

lemma bits6_inj: "six_bit x \<Longrightarrow> six_bit y \<Longrightarrow> bits6 x = bits6 y \<Longrightarrow> x = y"
proof -
  assume x: "six_bit x" and y: "six_bit y" and e: "bits6 x = bits6 y"
  have "horner_sum of_bool 2 (bits6 w) = w" if "six_bit w" for w :: UINT32
  proof -
    have "horner_sum of_bool 2 (bits6 w) = take_bit 6 w"
      by (simp add: bits6_def horner_sum_bit_eq_take_bit)
    also have "\<dots> = w"
      using that by (simp add: take_bit_eq_mod six_bit_def word_unat_eq_iff unat_mod)
    finally show ?thesis .
  qed
  with x y e show "x = y" by metis
qed

lemma bits6_shift: "bits6 (shift_history t h) = t # take 5 (bits6 h)"
  by (cases t) (simp_all add: bits6_def shift_history_def upt_rec bit_simps del: push_bit_Suc)

lemma unat_bump:
  "two_bit c \<Longrightarrow> unat (bump t c) = (if t then min 3 (unat c + 1) else unat c - 1)"
  by (drule two_bit_cases) (auto simp: bump_def pred_consts)

lemma bits6_0: "bits6 0 = replicate 6 False"
  by (simp add: bits6_def upt_rec numeral_eq_Suc)

lemma sim2_init: "sim2 InitPredictor_2level abs_init"
  unfolding sim2_def
  by (intro conjI lvl2.init_ok)
    (simp_all add: InitPredictor_2level_def abs_init_def bits6_0 pred_consts six_bit_def)

lemma sim2_predict:
  assumes "sim2 s a"
  shows "GetPrediction_2level s PC = Some (abs_predict a PC, s)"
proof -
  have i: "two_level_inv s" using assms by (simp add: sim2_def)
  let ?h = "Two_level_BHT s ! bht_idx PC"
  have h: "six_bit ?h" using two_level_hist [OF i] by (simp add: six_bit_def)
  note c = two_level_cell(3) [OF i pht_row_less [of PC] two_level_hist [OF i, of PC]]
  show ?thesis
    using assms h c i
    by (simp add: two_level_get sim2_def abs_predict_def direction_iff wbounds)
qed

lemma sim2_update:
  assumes "sim2 s a"
  shows "\<exists>s'. UpdatePredictor_2level s PC t p b = Some s' \<and> sim2 s' (abs_update a PC t)"
proof -
  have i: "two_level_inv s" and hs: "\<forall>i<512. hist a i = bits6 (Two_level_BHT s ! i)"
    and cs: "\<forall>r<8. \<forall>h. six_bit h \<longrightarrow> counter a r (bits6 h) = unat (Two_level_PHT s ! r ! unat h)"
    using assms by (simp_all add: sim2_def)
  let ?h = "Two_level_BHT s ! bht_idx PC" and ?r = "pht_row PC"
  obtain s' where u: "UpdatePredictor_2level s PC t p b = Some s'"
    using two_level_upd [OF i] by blast
  note i' = two_level_inv_upd [OF i u]
  have h6: "six_bit ?h" using two_level_hist [OF i] by (simp add: six_bit_def)
  note c = two_level_cell [OF i pht_row_less [of PC] two_level_hist [OF i, of PC]]
  have len: "length (Two_level_BHT s) = 512" using i by (simp add: two_level_inv_def)
  have "hist (abs_update a PC t) j = bits6 (Two_level_BHT s' ! j)" if "j < 512" for j
    using that hs u len
    by (auto simp: two_level_upd [OF i] abs_update_def Let_def bits6_shift nth_list_update wbounds)
  moreover have "counter (abs_update a PC t) r (bits6 h) = unat (Two_level_PHT s' ! r ! unat h)"
    if r: "r < 8" and h: "six_bit h" for r h
  proof (cases "r = ?r \<and> h = ?h")
    case True
    with u c hs cs r h show ?thesis
      by (auto simp: two_level_upd [OF i] abs_update_def Let_def unat_bump wbounds)
  next
    case False
    then have "bits6 h \<noteq> bits6 ?h \<or> r \<noteq> ?r" using bits6_inj [OF h h6] by blast
    with False u c hs cs r h show ?thesis
      by (auto simp: two_level_upd [OF i] abs_update_def Let_def wbounds nth_list_update
          word_unat_eq_iff)
  qed
  ultimately show ?thesis using u i' by (simp add: sim2_def)
qed

lemma two_level_run_sim:
  "sim2 s a \<Longrightarrow>
   pred_run GetPrediction_2level UpdatePredictor_2level s bs = Some (abs_run a bs)"
proof (induction bs arbitrary: s a)
  case Nil
  then show ?case by simp
next
  case (Cons b bs)
  obtain PC t tgt where b: "b = (PC, t, tgt)" by (cases b)
  obtain s' where "UpdatePredictor_2level s PC t (abs_predict a PC) tgt = Some s'"
    and "sim2 s' (abs_update a PC t)"
    using sim2_update [OF Cons.prems] by blast
  with Cons.IH b show ?case by (simp add: sim2_predict [OF Cons.prems])
qed

section \<open>Properties\<close>

text \<open>C15: On every branch trace the two-level predictor never indexes its tables out of range, and
  its predictions are those of the textbook predictor with one six-outcome history per history
  register, held as a list, and one two-bit counter per history and pattern table.\<close>

theorem two_level_refines:
  "pred_run GetPrediction_2level UpdatePredictor_2level InitPredictor_2level bs
     = Some (abs_run abs_init bs)"
  by (rule two_level_run_sim [OF sim2_init])

text \<open>From any well-formed table, the 2-bit predictor follows two equal outcomes of a branch and
  keeps its prediction through a single exception once it has seen three of them.\<close>

theorem sat_hysteresis:
  assumes "sat_inv s"
  shows "\<exists>d1 d2. pred_run GetPrediction_2bitsat UpdatePredictor_2bitsat s
      [(PC, t, a), (PC, t, a), (PC, t, a), (PC, \<not> t, a), (PC, t, a)] = Some [d1, d2, t, t, t]"
proof -
  have "two_bit (Two_bit_sat_PHT s ! sat_idx PC)"
    using assms by (simp add: sat_inv_def list_all_nth wbounds)
  from two_bit_cases [OF this] assms show ?thesis
    by (cases t)
      (auto simp: sat_get sat_upd sat_inv_upd direction_def bump_def pred_consts sat_inv_def
        nth_list_update list_all_upd two_bit_def wbounds GetPrediction_2bitsat_def
        UpdatePredictor_2bitsat_def arr_simps)
qed

theorem sat_hysteresis_witness:
  "\<exists>d1 d2. pred_run GetPrediction_2bitsat UpdatePredictor_2bitsat InitPredictor_2bitsat
      [(0x1004, True, 0), (0x1004, True, 0), (0x1004, True, 0), (0x1004, False, 0), (0x1004, True, 0)]
    = Some [d1, d2, True, True, True]"
  using sat_hysteresis [OF sat.init_ok, of "0x1004" True 0] by simp

end
