(* ===== verification/Tage.thy ===== *)
theory Tage
  imports Branch_Predictors
begin

text \<open>
  The open-ended predictor of \<^verbatim>\<open>src/Lab2/cbp4-assign2/predictor.cc\<close>: a TAGE predictor with
  a base table and seven tagged tables indexed by folded global history.
  The macro \<^verbatim>\<open>MASK_OF_SIZE\<close> shifts an \<^verbatim>\<open>int\<close>; a shift by 32 or more has no defined value
  in C++, and \<^verbatim>\<open>folded_xor\<close> does such shifts.  What the compiled program computes there is the
  parameter \<open>ub\<close> of the model, and every theorem holds for all values of it.
\<close>

section \<open>Macros\<close>

definition int_shl1 :: "(UINT32 \<Rightarrow> UINT32) \<Rightarrow> UINT32 \<Rightarrow> UINT32" where
  "int_shl1 ub n = (if unat n < 32 then push_bit (unat n) 1 else ub n)"

definition MASK_OF_SIZE :: "(UINT32 \<Rightarrow> UINT32) \<Rightarrow> UINT32 \<Rightarrow> UINT32" where
  "MASK_OF_SIZE ub sz = int_shl1 ub sz - 1"

definition WEAK_TAKEN :: "nat \<Rightarrow> UINT32" where
  "WEAK_TAKEN sz = push_bit (sz - 1) 1"

definition WEAK_NOT_TAKEN :: "nat \<Rightarrow> UINT32" where
  "WEAK_NOT_TAKEN sz = WEAK_TAKEN sz - 1"

definition LOW_CONFIDENCE :: "UINT32 \<Rightarrow> nat \<Rightarrow> bool" where
  "LOW_CONFIDENCE cnt sz = (cnt = WEAK_TAKEN sz \<or> cnt = WEAK_NOT_TAKEN sz)"

definition MAPPING_RESULT :: "UINT32 \<Rightarrow> nat \<Rightarrow> UINT32" where
  "MAPPING_RESULT prediction sz =
     (if drop_bit (sz - 1) prediction = TAKEN then TAKEN else NOT_TAKEN)"

definition INC_SAT_CNT :: "UINT32 \<Rightarrow> nat \<Rightarrow> UINT32" where
  "INC_SAT_CNT cnt sz = (if cnt = push_bit sz 1 - 1 then cnt else cnt + 1)"

definition DEC_SAT_CNT :: "UINT32 \<Rightarrow> nat \<Rightarrow> UINT32" where
  "DEC_SAT_CNT cnt sz = (if cnt = 0 then cnt else cnt - 1)"

abbreviation (input) BASE_CNT_SIZE :: nat where "BASE_CNT_SIZE \<equiv> 4"
abbreviation (input) NUM_TAGE_PHT :: nat where "NUM_TAGE_PHT \<equiv> 7"
abbreviation (input) TAGE_CNT_SIZE :: nat where "TAGE_CNT_SIZE \<equiv> 3"
abbreviation (input) TAGE_U_SIZE :: nat where "TAGE_U_SIZE \<equiv> 2"
abbreviation (input) BIAS_SIZE :: nat where "BIAS_SIZE \<equiv> 6"

definition CYC_RST_U :: UINT128 where
  "CYC_RST_U = push_bit 4 (512 + 1024 * 7)"

section \<open>State\<close>

record tage_entry =
  t_cnt :: UINT32
  t_tag :: UINT32
  t_useful :: UINT32

record tage_state =
  BHT :: "UINT128 list"
  BASE_PHT :: "UINT32 list"
  TAGE_PHT :: "tage_entry list list"
  use_alt :: UINT32
  lh_pred :: UINT32
  lh_PHT_num :: int
  lh_PHT_idx :: UINT32
  alt_pred :: UINT32
  alt_PHT_num :: int
  alt_PHT_idx :: UINT32
  num_prediction_made :: UINT128

section \<open>Folding, index and tag\<close>

fun folded_xor_loop :: "nat \<Rightarrow> UINT32 \<Rightarrow> UINT128 \<Rightarrow> UINT32 \<Rightarrow> UINT32" where
  "folded_xor_loop 0 targ_size value temp = temp"
| "folded_xor_loop (Suc i) targ_size value temp =
     (let value' = drop_bit (unat targ_size) value
      in folded_xor_loop i targ_size value' (ucast (ucast temp XOR value')))"

definition folded_xor ::
  "(UINT32 \<Rightarrow> UINT32) \<Rightarrow> UINT128 \<Rightarrow> UINT32 \<Rightarrow> UINT32 \<Rightarrow> UINT32" where
  "folded_xor ub value sz targ_size =
     (let mask = MASK_OF_SIZE ub targ_size;
          temp = ucast (value AND ucast mask);
          value = (if sz < 128 then value AND scast (MASK_OF_SIZE ub sz) else value)
      in folded_xor_loop (unat ((sz - 1) div targ_size)) targ_size value temp AND mask)"

definition get_tag :: "(UINT32 \<Rightarrow> UINT32) \<Rightarrow> UINT32 \<Rightarrow> UINT128 \<Rightarrow> nat \<Rightarrow> UINT32" where
  "get_tag ub PC history PHT_number =
     (let folded_PC = folded_xor ub (ucast PC) 32 11;
          folded_HIS1 = folded_xor ub history (push_bit PHT_number 2) 11;
          folded_HIS2 = folded_xor ub history (push_bit PHT_number 2) (11 - 1);
          combined = folded_PC XOR folded_HIS1 XOR push_bit 1 folded_HIS2
      in combined AND MASK_OF_SIZE ub 11)"

definition get_idx :: "(UINT32 \<Rightarrow> UINT32) \<Rightarrow> UINT32 \<Rightarrow> UINT128 \<Rightarrow> nat \<Rightarrow> UINT32" where
  "get_idx ub PC history PHT_number =
     (let folded_PC1 = folded_xor ub (ucast PC) 32 10;
          folded_PC2 = folded_xor ub (ucast PC) 32 (10 - 1);
          folded_HIS = folded_xor ub history (push_bit PHT_number 2) 10;
          combined = folded_PC1 XOR push_bit 1 folded_PC2 XOR folded_HIS
      in combined AND MASK_OF_SIZE ub 10)"

section \<open>Initialisation and prediction\<close>

definition tage_globals :: tage_state where
  \<comment> \<open>C globals start at zero\<close>
  "tage_globals =
     \<lparr> BHT = replicate 2 0, BASE_PHT = replicate 512 0,
       TAGE_PHT = replicate 7 (replicate 1024 \<lparr> t_cnt = 0, t_tag = 0, t_useful = 0 \<rparr>),
       use_alt = 0, lh_pred = 0, lh_PHT_num = 0, lh_PHT_idx = 0,
       alt_pred = 0, alt_PHT_num = 0, alt_PHT_idx = 0, num_prediction_made = 0 \<rparr>"

definition InitPredictor_openend :: "tage_state \<Rightarrow> tage_state" where
  "InitPredictor_openend s =
     s\<lparr> BHT := replicate 2 0,
        BASE_PHT := replicate 512 (WEAK_TAKEN BASE_CNT_SIZE),
        TAGE_PHT := replicate 7 (replicate 1024
          \<lparr> t_cnt = WEAK_TAKEN TAGE_CNT_SIZE, t_tag = 0, t_useful = 0 \<rparr>),
        use_alt := WEAK_NOT_TAKEN BIAS_SIZE,
        num_prediction_made := 0 \<rparr>"

definition bht_reg :: "UINT32 \<Rightarrow> nat" where
  "bht_reg PC = unat (drop_bit 1 PC AND 1)"

definition base_idx :: "UINT32 \<Rightarrow> nat" where
  "base_idx PC = unat (PC AND 511)"

type_synonym hit = "UINT32 \<times> int \<times> UINT32"

text \<open>The search loop over the tables from the longest history to the shortest: the first
  match is the long-history prediction, the second one the alternate, where it stops.\<close>

fun tage_search :: "(UINT32 \<Rightarrow> UINT32) \<Rightarrow> tage_entry list list \<Rightarrow> UINT32 \<Rightarrow> UINT128
    \<Rightarrow> nat list \<Rightarrow> hit option \<Rightarrow> (hit option \<times> hit option) option" where
  "tage_search ub t PC h [] lh = Some (lh, None)"
| "tage_search ub t PC h (i # is) lh = do {
     let idx = get_idx ub PC h i;
     let tg = get_tag ub PC h i;
     e \<leftarrow> rd2 t i (unat idx);
     if t_tag e = tg then
       (case lh of
          None \<Rightarrow> tage_search ub t PC h is (Some (MAPPING_RESULT (t_cnt e) TAGE_CNT_SIZE, int i, idx))
        | Some _ \<Rightarrow> Some (lh, Some (MAPPING_RESULT (t_cnt e) TAGE_CNT_SIZE, int i, idx)))
     else tage_search ub t PC h is lh
   }"

text \<open>An entry of a tagged table named by a table number that may be \<open>-1\<close>.\<close>

definition tage_at :: "tage_state \<Rightarrow> int \<Rightarrow> UINT32 \<Rightarrow> tage_entry option" where
  "tage_at s i j = (if i < 0 then None else rd2 (TAGE_PHT s) (nat i) (unat j))"

definition tage_set :: "tage_state \<Rightarrow> int \<Rightarrow> UINT32 \<Rightarrow> tage_entry \<Rightarrow> tage_state option" where
  "tage_set s i j e =
     (if i < 0 then None
      else do { t \<leftarrow> wr2 (TAGE_PHT s) (nat i) (unat j) e; Some (s\<lparr> TAGE_PHT := t \<rparr>) })"

definition GetPrediction_openend ::
  "(UINT32 \<Rightarrow> UINT32) \<Rightarrow> tage_state \<Rightarrow> UINT32 \<Rightarrow> (bool \<times> tage_state) option" where
  "GetPrediction_openend ub s PC = do {
     h \<leftarrow> rd (BHT s) (bht_reg PC);
     (lh, alt) \<leftarrow> tage_search ub (TAGE_PHT s) PC h (rev [0..<NUM_TAGE_PHT]) None;
     b \<leftarrow> rd (BASE_PHT s) (base_idx PC);
     let base = MAPPING_RESULT b BASE_CNT_SIZE;
     case lh of
       Some (lp, ln, li) \<Rightarrow> do {
         let (ap, an, ai) = (case alt of Some x \<Rightarrow> x | None \<Rightarrow> (base, -1, PC AND 511));
         let s = s\<lparr> lh_pred := lp, lh_PHT_num := ln, lh_PHT_idx := li,
                    alt_pred := ap, alt_PHT_num := an, alt_PHT_idx := ai \<rparr>;
         e \<leftarrow> tage_at s ln li;
         let predDir = (if MAPPING_RESULT (use_alt s) BIAS_SIZE \<noteq> 0 \<and> t_useful e = 0
                           \<and> LOW_CONFIDENCE (t_cnt e) TAGE_CNT_SIZE then ap else lp);
         Some (predDir \<noteq> 0, s)
       }
     | None \<Rightarrow>
         Some (base \<noteq> 0, s\<lparr> lh_pred := base, lh_PHT_num := -1, lh_PHT_idx := PC AND 511,
                    alt_pred := base, alt_PHT_num := -1, alt_PHT_idx := PC AND 511 \<rparr>)
   }"

section \<open>Training\<close>

definition upd_base :: "UINT32 \<Rightarrow> bool \<Rightarrow> tage_state \<Rightarrow> tage_state option" where
  "upd_base PC resolveDir s = do {
     c \<leftarrow> rd (BASE_PHT s) (base_idx PC);
     t \<leftarrow> wr (BASE_PHT s) (base_idx PC)
            (if resolveDir then INC_SAT_CNT c BASE_CNT_SIZE else DEC_SAT_CNT c BASE_CNT_SIZE);
     Some (s\<lparr> BASE_PHT := t \<rparr>)
   }"

definition upd_bias :: "bool \<Rightarrow> tage_state \<Rightarrow> tage_state option" where
  "upd_bias resolveDir s =
     (if lh_PHT_num s \<noteq> -1 \<and> lh_pred s \<noteq> alt_pred s then do {
        e \<leftarrow> tage_at s (lh_PHT_num s) (lh_PHT_idx s);
        if t_useful e = 0 \<and> LOW_CONFIDENCE (t_cnt e) TAGE_CNT_SIZE then
          Some (s\<lparr> use_alt := (if alt_pred s = of_bool resolveDir
                               then INC_SAT_CNT (use_alt s) BIAS_SIZE
                               else DEC_SAT_CNT (use_alt s) BIAS_SIZE) \<rparr>)
        else Some s
      } else Some s)"

definition upd_useful :: "bool \<Rightarrow> tage_state \<Rightarrow> tage_state option" where
  "upd_useful resolveDir s =
     (if lh_PHT_num s \<noteq> -1 \<and> lh_pred s \<noteq> alt_pred s then do {
        e \<leftarrow> tage_at s (lh_PHT_num s) (lh_PHT_idx s);
        tage_set s (lh_PHT_num s) (lh_PHT_idx s)
          (e\<lparr> t_useful := (if lh_pred s = of_bool resolveDir
                            then INC_SAT_CNT (t_useful e) TAGE_U_SIZE
                            else DEC_SAT_CNT (t_useful e) TAGE_U_SIZE) \<rparr>)
      } else Some s)"

definition weaken_all :: "tage_state \<Rightarrow> tage_state" where
  "weaken_all s =
     (if num_prediction_made s = CYC_RST_U then
        s\<lparr> TAGE_PHT := map (map (\<lambda>e. e\<lparr> t_useful := t_useful e AND (3 - 1) \<rparr>)) (TAGE_PHT s),
           num_prediction_made := 0 \<rparr>
      else s)"

definition upd_cnt :: "bool \<Rightarrow> tage_state \<Rightarrow> tage_state option" where
  "upd_cnt resolveDir s =
     (if lh_PHT_num s \<noteq> -1 then do {
        e \<leftarrow> tage_at s (lh_PHT_num s) (lh_PHT_idx s);
        tage_set s (lh_PHT_num s) (lh_PHT_idx s)
          (e\<lparr> t_cnt := (if resolveDir then INC_SAT_CNT (t_cnt e) TAGE_CNT_SIZE
                         else DEC_SAT_CNT (t_cnt e) TAGE_CNT_SIZE) \<rparr>)
      } else Some s)"

text \<open>The allocation loop stops at the first entry whose usefulness is zero; the result says
  whether one was found.\<close>

fun alloc_loop :: "(UINT32 \<Rightarrow> UINT32) \<Rightarrow> UINT32 \<Rightarrow> UINT128 \<Rightarrow> nat list \<Rightarrow> tage_state
    \<Rightarrow> (bool \<times> tage_state) option" where
  "alloc_loop ub PC h [] s = Some (False, s)"
| "alloc_loop ub PC h (i # is) s = do {
     let idx = get_idx ub PC h i;
     e \<leftarrow> tage_at s (int i) idx;
     if t_useful e = 0 then do {
       s \<leftarrow> tage_set s (int i) idx
              (e\<lparr> t_cnt := WEAK_TAKEN TAGE_CNT_SIZE, t_tag := get_tag ub PC h i \<rparr>);
       Some (True, s)
     } else alloc_loop ub PC h is s
   }"

fun decay_loop :: "(UINT32 \<Rightarrow> UINT32) \<Rightarrow> UINT32 \<Rightarrow> UINT128 \<Rightarrow> nat list \<Rightarrow> tage_state
    \<Rightarrow> tage_state option" where
  "decay_loop ub PC h [] s = Some s"
| "decay_loop ub PC h (i # is) s = do {
     let idx = get_idx ub PC h i;
     e \<leftarrow> tage_at s (int i) idx;
     s \<leftarrow> tage_set s (int i) idx (e\<lparr> t_useful := DEC_SAT_CNT (t_useful e) TAGE_U_SIZE \<rparr>);
     decay_loop ub PC h is s
   }"

definition alloc_start :: "tage_state \<Rightarrow> int" where
  "alloc_start s = sint (of_int (lh_PHT_num s + 1) + use_alt s mod 7 :: UINT32)"

text \<open>A negative start of one of the two loops would index before the table: \<open>None\<close>.\<close>

definition allocate_entry ::
  "(UINT32 \<Rightarrow> UINT32) \<Rightarrow> UINT32 \<Rightarrow> bool \<Rightarrow> tage_state \<Rightarrow> tage_state option" where
  "allocate_entry ub PC resolveDir s =
     (if lh_pred s \<noteq> of_bool resolveDir then do {
        h \<leftarrow> rd (BHT s) (bht_reg PC);
        assert_that (0 \<le> alloc_start s \<and> 0 \<le> lh_PHT_num s + 1);
        (space_found, s) \<leftarrow>
          alloc_loop ub PC h [nat (alloc_start s)..<NUM_TAGE_PHT] s;
        if \<not> space_found
        then decay_loop ub PC h [nat (lh_PHT_num s + 1)..<NUM_TAGE_PHT] s
        else Some s
      } else Some s)"

definition upd_history :: "UINT32 \<Rightarrow> bool \<Rightarrow> tage_state \<Rightarrow> tage_state option" where
  "upd_history PC resolveDir s = do {
     h \<leftarrow> rd (BHT s) (bht_reg PC);
     t \<leftarrow> wr (BHT s) (bht_reg PC) (push_bit 1 h OR of_bool resolveDir);
     Some (s\<lparr> BHT := t \<rparr>)
   }"

definition UpdatePredictor_openend :: "(UINT32 \<Rightarrow> UINT32) \<Rightarrow> tage_state \<Rightarrow> UINT32 \<Rightarrow> bool
    \<Rightarrow> bool \<Rightarrow> UINT32 \<Rightarrow> tage_state option" where
  "UpdatePredictor_openend ub s PC resolveDir predDir branchTarget = do {
     let s = s\<lparr> num_prediction_made := num_prediction_made s + 1 \<rparr>;
     s \<leftarrow> upd_base PC resolveDir s;
     s \<leftarrow> upd_bias resolveDir s;
     s \<leftarrow> upd_useful resolveDir s;
     let s = weaken_all s;
     s \<leftarrow> upd_cnt resolveDir s;
     s \<leftarrow> allocate_entry ub PC resolveDir s;
     upd_history PC resolveDir s
   }"

section \<open>The invariant\<close>

definition entry_ok :: "tage_entry \<Rightarrow> bool" where
  "entry_ok e = (unat (t_cnt e) < 8 \<and> unat (t_tag e) < 2048 \<and> unat (t_useful e) < 4)"

definition tage_inv :: "tage_state \<Rightarrow> bool" where
  "tage_inv s =
     (length (BHT s) = 2
      \<and> length (BASE_PHT s) = 512 \<and> list_all (\<lambda>c. unat c < 16) (BASE_PHT s)
      \<and> dims 7 1024 (TAGE_PHT s) \<and> all_cells entry_ok (TAGE_PHT s)
      \<and> unat (use_alt s) < 64
      \<and> -1 \<le> lh_PHT_num s \<and> lh_PHT_num s < 7
      \<and> (lh_PHT_num s \<noteq> -1 \<longrightarrow> unat (lh_PHT_idx s) < 1024))"

lemma mask10: "MASK_OF_SIZE ub 10 = 1023" and mask11: "MASK_OF_SIZE ub 11 = 2047"
  by (simp_all add: MASK_OF_SIZE_def int_shl1_def)

lemma get_idx_less [wbounds]: "unat (get_idx ub PC h i) < 1024"
  unfolding get_idx_def Let_def mask10 by (rule unat_and_less) simp

lemma get_tag_less [wbounds]: "unat (get_tag ub PC h i) < 2048"
  unfolding get_tag_def Let_def mask11 by (rule unat_and_less) simp

lemma bht_reg_less [wbounds]: "bht_reg PC < 2"
  unfolding bht_reg_def by (rule unat_and_less) simp

lemma base_idx_less [wbounds]: "base_idx PC < 512"
  unfolding base_idx_def by (rule unat_and_less) simp

lemma inc_sat_less:
  "unat c < 4 \<Longrightarrow> unat (INC_SAT_CNT c 2) < 4" "unat c < 8 \<Longrightarrow> unat (INC_SAT_CNT c 3) < 8"
  "unat c < 16 \<Longrightarrow> unat (INC_SAT_CNT c 4) < 16" "unat c < 64 \<Longrightarrow> unat (INC_SAT_CNT c 6) < 64"
  by (auto simp: INC_SAT_CNT_def unat_word_ariths word_unat_eq_iff)

lemma dec_sat_less: "unat c < k \<Longrightarrow> unat (DEC_SAT_CNT c n) < k"
  by (auto simp: DEC_SAT_CNT_def unat_lt_nz_dec)

lemmas sat_less = inc_sat_less dec_sat_less

lemma tage_at_ok:
  "tage_inv s \<Longrightarrow> 0 \<le> i \<Longrightarrow> i < 7 \<Longrightarrow> unat j < 1024 \<Longrightarrow> succeeds (tage_at s i j) entry_ok"
  unfolding tage_inv_def tage_at_def
  by (auto simp: arr_simps dims_length dims_row all_cells_nth)

lemma tage_set_ok:
  "tage_inv s \<Longrightarrow> 0 \<le> i \<Longrightarrow> i < 7 \<Longrightarrow> unat j < 1024 \<Longrightarrow> entry_ok e \<Longrightarrow>
   succeeds (tage_set s i j e)
     (\<lambda>s'. tage_inv s' \<and> BHT s' = BHT s \<and> lh_PHT_num s' = lh_PHT_num s)"
  unfolding tage_inv_def tage_set_def
  by (auto simp: arr_simps dims_length dims_row intro!: dims_upd all_cells_upd)

lemma weak_taken_vals:
  "WEAK_TAKEN 4 = 8" "WEAK_TAKEN 3 = 4" "WEAK_NOT_TAKEN 6 = 31"
  by (simp_all add: WEAK_TAKEN_def WEAK_NOT_TAKEN_def)

lemma tage_inv_init: "tage_inv (InitPredictor_openend tage_globals)"
  by (simp add: tage_inv_def InitPredictor_openend_def tage_globals_def weak_taken_vals
      list_all_iff dims_replicate all_cells_replicate entry_ok_def)

section \<open>Every access is in range and the invariant is kept\<close>

definition hit_ok :: "hit option \<Rightarrow> bool" where
  "hit_ok x = (case x of None \<Rightarrow> True | Some (p, n, i) \<Rightarrow> 0 \<le> n \<and> n < 7 \<and> unat i < 1024)"

lemma hit_ok_simps [simp]:
  "hit_ok None" "hit_ok (Some (p, n, i)) = (0 \<le> n \<and> n < 7 \<and> unat i < 1024)"
  by (simp_all add: hit_ok_def)

lemma tage_search_ok:
  assumes "tage_inv s"
  shows "hit_ok lh \<Longrightarrow> \<forall>i\<in>set is. i < 7 \<Longrightarrow>
    succeeds (tage_search ub (TAGE_PHT s) PC h is lh) (\<lambda>(lh', alt). hit_ok lh' \<and> hit_ok alt)"
proof (induction "is" arbitrary: lh)
  case Nil
  then show ?case by simp
next
  case (Cons i "is")
  have "succeeds (rd2 (TAGE_PHT s) i (unat (get_idx ub PC h i))) (\<lambda>_. True)"
    using assms Cons.prems get_idx_less [of ub PC h i]
    by (auto simp: tage_inv_def arr_simps dims_length dims_row)
  then show ?case
    using Cons get_idx_less [of ub PC h i]
    by (auto simp: Let_def split: option.splits intro!: succeeds_bind)
qed

lemma get_openend_ok:
  assumes "tage_inv s"
  shows "succeeds (GetPrediction_openend ub s PC) (\<lambda>(d, s'). tage_inv s' \<and>
     BHT s' = BHT s \<and> BASE_PHT s' = BASE_PHT s \<and> TAGE_PHT s' = TAGE_PHT s \<and> use_alt s' = use_alt s)"
proof -
  have b: "bht_reg PC < length (BHT s)" "base_idx PC < length (BASE_PHT s)"
    using assms by (simp_all add: tage_inv_def wbounds)
  obtain lh alt where srch: "tage_search ub (TAGE_PHT s) PC (BHT s ! bht_reg PC)
      (rev [0..<NUM_TAGE_PHT]) None = Some (lh, alt)" and "hit_ok lh"
    using tage_search_ok [OF assms, of None "rev [0..<NUM_TAGE_PHT]" ub PC "BHT s ! bht_reg PC"]
    by (auto simp: succeeds_iff)
  show ?thesis
  proof (cases lh)
    case None
    then show ?thesis using assms b srch
      by (auto simp: GetPrediction_openend_def arr_simps Let_def tage_inv_def)
  next
    case (Some x)
    obtain lp ln li where x: "x = (lp, ln, li)" by (cases x)
    have r: "0 \<le> ln" "ln < 7" "unat li < 1024" using \<open>hit_ok lh\<close> Some x by auto
    show ?thesis
    proof (cases "case alt of Some x \<Rightarrow> x | None \<Rightarrow>
          (MAPPING_RESULT (BASE_PHT s ! base_idx PC) BASE_CNT_SIZE, -1, PC AND 511)")
      case (fields ap an ai)
      let ?s = "s\<lparr> lh_pred := lp, lh_PHT_num := ln, lh_PHT_idx := li,
                    alt_pred := ap, alt_PHT_num := an, alt_PHT_idx := ai \<rparr>"
      have i: "tage_inv ?s" using assms r by (simp add: tage_inv_def)
      then show ?thesis
        using b srch Some x fields tage_at_ok [OF i r]
        by (force simp: GetPrediction_openend_def arr_simps Let_def succeeds_iff)
    qed
  qed
qed

lemma upd_base_ok: "tage_inv s \<Longrightarrow> succeeds (upd_base PC r s) tage_inv"
  by (auto simp: upd_base_def tage_inv_def arr_simps wbounds
      intro!: list_all_upd sat_less list_all_nth [of "\<lambda>c. unat c < 16"])

lemma upd_bias_ok: "tage_inv s \<Longrightarrow> succeeds (upd_bias r s) tage_inv"
proof -
  assume i: "tage_inv s"
  show ?thesis
  proof (cases "lh_PHT_num s = -1")
    case False
    with i have "succeeds (tage_at s (lh_PHT_num s) (lh_PHT_idx s)) entry_ok"
      by (intro tage_at_ok) (auto simp: tage_inv_def)
    with i show ?thesis
      by (auto simp: upd_bias_def tage_inv_def sat_less intro!: succeeds_bind)
  qed (simp add: upd_bias_def i)
qed

lemma upd_lh_entry_ok:
  assumes "tage_inv s" "lh_PHT_num s \<noteq> -1" "\<And>e. entry_ok e \<Longrightarrow> entry_ok (f e)"
  shows "succeeds (do { e \<leftarrow> tage_at s (lh_PHT_num s) (lh_PHT_idx s);
                        tage_set s (lh_PHT_num s) (lh_PHT_idx s) (f e) }) tage_inv"
proof -
  have r: "0 \<le> lh_PHT_num s" "lh_PHT_num s < 7" "unat (lh_PHT_idx s) < 1024"
    using assms by (auto simp: tage_inv_def)
  show ?thesis
    by (rule succeeds_bind [OF tage_at_ok [OF assms(1) r]])
      (rule succeeds_mono [OF tage_set_ok [OF assms(1) r assms(3)]], auto)
qed

lemma upd_useful_ok: "tage_inv s \<Longrightarrow> succeeds (upd_useful r s) tage_inv"
  by (auto simp: upd_useful_def entry_ok_def sat_less intro!: upd_lh_entry_ok)

lemma upd_cnt_ok: "tage_inv s \<Longrightarrow> succeeds (upd_cnt r s) tage_inv"
  by (auto simp: upd_cnt_def entry_ok_def sat_less intro!: upd_lh_entry_ok)

lemma weaken_all_ok: "tage_inv s \<Longrightarrow> tage_inv (weaken_all s)"
  by (auto simp: weaken_all_def tage_inv_def dims_def all_cells_def entry_ok_def
      intro!: unat_and_less)

lemma alloc_loop_ok:
  "tage_inv s \<Longrightarrow> \<forall>i\<in>set is. i < 7 \<Longrightarrow>
   succeeds (alloc_loop ub PC h is s)
     (\<lambda>(f, s'). tage_inv s' \<and> BHT s' = BHT s \<and> lh_PHT_num s' = lh_PHT_num s)"
proof (induction "is")
  case Nil
  then show ?case by simp
next
  case (Cons i "is")
  have r: "0 \<le> int i" "int i < 7" "unat (get_idx ub PC h i) < 1024"
    using Cons.prems by (auto simp: wbounds)
  obtain e where e: "tage_at s (int i) (get_idx ub PC h i) = Some e" "entry_ok e"
    using tage_at_ok [OF Cons.prems(1) r] by (auto simp: succeeds_iff)
  then have "entry_ok (e\<lparr> t_cnt := WEAK_TAKEN TAGE_CNT_SIZE, t_tag := get_tag ub PC h i \<rparr>)"
    by (simp add: entry_ok_def weak_taken_vals wbounds)
  from tage_set_ok [OF Cons.prems(1) r this] e Cons show ?case
    by (auto simp: Let_def intro!: succeeds_bind elim: succeeds_mono)
qed

lemma decay_loop_ok:
  "tage_inv s \<Longrightarrow> \<forall>i\<in>set is. i < 7 \<Longrightarrow> succeeds (decay_loop ub PC h is s) tage_inv"
proof (induction "is" arbitrary: s)
  case Nil
  then show ?case by simp
next
  case (Cons i "is")
  have r: "0 \<le> int i" "int i < 7" "unat (get_idx ub PC h i) < 1024"
    using Cons.prems by (auto simp: wbounds)
  obtain e where e: "tage_at s (int i) (get_idx ub PC h i) = Some e" "entry_ok e"
    using tage_at_ok [OF Cons.prems(1) r] by (auto simp: succeeds_iff)
  then have "entry_ok (e\<lparr> t_useful := DEC_SAT_CNT (t_useful e) TAGE_U_SIZE \<rparr>)"
    by (simp add: entry_ok_def sat_less)
  from tage_set_ok [OF Cons.prems(1) r this] e Cons show ?case
    by (auto simp: Let_def intro!: succeeds_bind)
qed

lemma alloc_start_nonneg: "tage_inv s \<Longrightarrow> 0 \<le> alloc_start s"
proof -
  assume i: "tage_inv s"
  let ?w = "of_int (lh_PHT_num s + 1) + use_alt s mod 7 :: UINT32"
  have l: "0 \<le> lh_PHT_num s + 1" "lh_PHT_num s + 1 < 8" using i by (auto simp: tage_inv_def)
  have small: "uint (of_int k :: UINT32) < 8" if "0 \<le> k" "k < 8" for k
    using that by (simp add: uint_word_of_int)
  have "uint (of_int (lh_PHT_num s + 1) :: UINT32) < 8"
    using small [OF l] .
  moreover have "uint (use_alt s mod 7) < 7" by (simp add: uint_mod)
  ultimately have "uint ?w < 2 ^ 31" by (simp add: uint_word_ariths)
  from sint_small [OF this] show ?thesis
    unfolding alloc_start_def by (metis uint_ge_0)
qed

lemma allocate_entry_ok:
  assumes "tage_inv s"
  shows "succeeds (allocate_entry ub PC r s) tage_inv"
proof -
  have "bht_reg PC < length (BHT s)" "0 \<le> lh_PHT_num s + 1"
    using assms by (simp_all add: tage_inv_def wbounds)
  with assms alloc_start_nonneg [OF assms] show ?thesis
    by (auto simp: allocate_entry_def arr_simps intro!: succeeds_bind [OF alloc_loop_ok]
        decay_loop_ok)
qed

lemma upd_history_ok: "tage_inv s \<Longrightarrow> succeeds (upd_history PC r s) tage_inv"
  by (simp add: upd_history_def tage_inv_def arr_simps wbounds)

lemma update_openend_ok:
  assumes "tage_inv s"
  shows "succeeds (UpdatePredictor_openend ub s PC r p b) tage_inv"
  unfolding UpdatePredictor_openend_def Let_def
  using assms
  by (intro succeeds_bind [where P = tage_inv] upd_base_ok upd_bias_ok upd_useful_ok upd_cnt_ok
      allocate_entry_ok upd_history_ok weaken_all_ok) (simp_all add: tage_inv_def)

interpretation tage: branch_predictor "InitPredictor_openend tage_globals"
  "GetPrediction_openend ub" "UpdatePredictor_openend ub" tage_inv for ub
proof unfold_locales
  show "tage_inv (InitPredictor_openend tage_globals)" by (rule tage_inv_init)
next
  fix s pc assume "tage_inv s"
  from get_openend_ok [OF this, of ub pc]
  show "\<exists>d s'. GetPrediction_openend ub s pc = Some (d, s') \<and> tage_inv s'"
    by (auto simp: succeeds_iff)
next
  fix s pc r p tgt assume "tage_inv s"
  from update_openend_ok [OF this, of ub pc r p tgt]
  show "\<exists>s'. UpdatePredictor_openend ub s pc r p tgt = Some s' \<and> tage_inv s'"
    by (auto simp: succeeds_iff)
qed

section \<open>What is predicted\<close>

text \<open>
  The specification: among the tables whose entry carries the tag of the branch, the one with
  the longest history predicts, unless its entry is fresh (no usefulness, a weak counter) and
  the bias counter favours the alternate, which is the next longest match or the base table.
\<close>

definition entry_of :: "(UINT32 \<Rightarrow> UINT32) \<Rightarrow> tage_state \<Rightarrow> UINT32 \<Rightarrow> nat \<Rightarrow> tage_entry" where
  "entry_of ub s PC i = TAGE_PHT s ! i ! unat (get_idx ub PC (BHT s ! bht_reg PC) i)"

definition matches :: "(UINT32 \<Rightarrow> UINT32) \<Rightarrow> tage_state \<Rightarrow> UINT32 \<Rightarrow> nat list" where
  "matches ub s PC = filter (\<lambda>i. t_tag (entry_of ub s PC i) = get_tag ub PC (BHT s ! bht_reg PC) i)
     (rev [0..<NUM_TAGE_PHT])"

definition tage_spec :: "(UINT32 \<Rightarrow> UINT32) \<Rightarrow> tage_state \<Rightarrow> UINT32 \<Rightarrow> bool" where
  "tage_spec ub s PC =
     (let base = (8 \<le> unat (BASE_PHT s ! base_idx PC));
          guess = (\<lambda>i. 4 \<le> unat (t_cnt (entry_of ub s PC i)))
      in case matches ub s PC of
           [] \<Rightarrow> base
         | i # rest \<Rightarrow>
             let e = entry_of ub s PC i;
                 alt = (case rest of [] \<Rightarrow> base | j # _ \<Rightarrow> guess j)
             in if 32 \<le> unat (use_alt s) \<and> t_useful e = 0 \<and> unat (t_cnt e) \<in> {3, 4}
                then alt else guess i)"

lemma mapping_result:
  "unat c < 8 \<Longrightarrow> (MAPPING_RESULT c 3 \<noteq> 0) = (4 \<le> unat c)"
  "unat c < 16 \<Longrightarrow> (MAPPING_RESULT c 4 \<noteq> 0) = (8 \<le> unat c)"
  "unat c < 64 \<Longrightarrow> (MAPPING_RESULT c 6 \<noteq> 0) = (32 \<le> unat c)"
  by (auto simp: MAPPING_RESULT_def pred_consts drop_bit_eq_div word_unat_eq_iff unat_div)

lemma low_confidence: "LOW_CONFIDENCE c 3 = (unat c \<in> {3, 4})"
  by (auto simp: LOW_CONFIDENCE_def WEAK_NOT_TAKEN_def WEAK_TAKEN_def word_unat_eq_iff)

lemma tage_search_eq:
  fixes s PC ub
  defines "h \<equiv> BHT s ! bht_reg PC"
  defines "m \<equiv> (\<lambda>i. t_tag (entry_of ub s PC i) = get_tag ub PC h i)"
  defines "the_hit \<equiv> (\<lambda>i. (MAPPING_RESULT (t_cnt (entry_of ub s PC i)) 3, int i, get_idx ub PC h i))"
  assumes "tage_inv s"
  shows "\<forall>i\<in>set is. i < 7 \<Longrightarrow> tage_search ub (TAGE_PHT s) PC h is lh = Some
    (case lh of
       None \<Rightarrow> (case filter m is of [] \<Rightarrow> (None, None)
                | i # r \<Rightarrow> (Some (the_hit i), case r of [] \<Rightarrow> None | j # _ \<Rightarrow> Some (the_hit j)))
     | Some x \<Rightarrow> (Some x, case filter m is of [] \<Rightarrow> None | j # _ \<Rightarrow> Some (the_hit j)))"
proof (induction "is" arbitrary: lh)
  case Nil
  then show ?case by (simp split: option.split)
next
  case (Cons i "is")
  have "i < length (TAGE_PHT s)" "unat (get_idx ub PC h i) < length (TAGE_PHT s ! i)"
    using assms(4) Cons.prems get_idx_less [of ub PC h i]
    by (auto simp: tage_inv_def dims_length dims_row)
  moreover have "entry_of ub s PC i = TAGE_PHT s ! i ! unat (get_idx ub PC h i)"
    by (simp add: entry_of_def h_def)
  ultimately show ?case
    using Cons by (cases lh) (auto simp: Let_def m_def the_hit_def arr_simps split: list.split)
qed

lemma entry_of_ok: "tage_inv s \<Longrightarrow> i < 7 \<Longrightarrow> entry_ok (entry_of ub s PC i)"
  unfolding entry_of_def tage_inv_def
  by (rule all_cells_nth) (auto simp: dims_length dims_row wbounds)

lemma tage_get_spec:
  assumes "tage_inv s"
  shows "succeeds (GetPrediction_openend ub s PC) (\<lambda>(d, s'). d = tage_spec ub s PC)"
proof -
  let ?h = "BHT s ! bht_reg PC"
  have b: "bht_reg PC < length (BHT s)" "base_idx PC < length (BASE_PHT s)"
    "unat (BASE_PHT s ! base_idx PC) < 16" "unat (use_alt s) < 64"
    using assms list_all_nth [of "\<lambda>c. unat c < 16" "BASE_PHT s" "base_idx PC"]
    by (simp_all add: tage_inv_def wbounds)
  have ok: "unat (t_cnt (entry_of ub s PC i)) < 8" if "i < 7" for i
    using entry_of_ok [OF assms that] by (simp add: entry_ok_def)
  have at: "tage_at (s\<lparr> lh_pred := lp, lh_PHT_num := ln, lh_PHT_idx := li,
      alt_pred := ap, alt_PHT_num := an, alt_PHT_idx := ai \<rparr>) (int i) (get_idx ub PC ?h i)
      = Some (entry_of ub s PC i)" if "i < 7" for i lp ln li ap an ai
    using assms that get_idx_less [of ub PC ?h i]
    by (auto simp: tage_at_def tage_inv_def dims_length dims_row entry_of_def)
  have lt: "i < 7" if "i \<in> set (matches ub s PC)" for i
    using that by (auto simp: matches_def)
  note srch = tage_search_eq [OF assms, of "rev [0..<7]" ub PC None,
      folded matches_def]
  show ?thesis
  proof (cases "matches ub s PC")
    case Nil
    then show ?thesis using b srch
      by (simp add: GetPrediction_openend_def arr_simps tage_spec_def mapping_result Let_def)
  next
    case (Cons i r)
    then have i: "i < 7" using lt by simp
    show ?thesis
    proof (cases r)
      case Nil
      with Cons i show ?thesis using b srch at [OF i] ok [OF i]
        by (auto simp: GetPrediction_openend_def arr_simps tage_spec_def mapping_result
            low_confidence Let_def)
    next
      case (Cons j r')
      then have j: "j < 7" using lt \<open>matches ub s PC = i # r\<close> by simp
      with Cons \<open>matches ub s PC = i # r\<close> i show ?thesis using b srch at [OF i] ok [OF i] ok [OF j]
        by (auto simp: GetPrediction_openend_def arr_simps tage_spec_def mapping_result
            low_confidence Let_def)
    qed
  qed
qed

section \<open>Short histories\<close>

text \<open>
  \<^verbatim>\<open>folded_xor\<close> takes the low bits of the history before it masks the history to its length,
  so a history shorter than the fold is not masked at all.
\<close>

lemma folded_xor_short:
  assumes "0 < sz" "sz \<le> targ"
  shows "folded_xor ub v sz targ =
    ucast (v AND ucast (MASK_OF_SIZE ub targ)) AND MASK_OF_SIZE ub targ"
proof -
  have "unat sz \<noteq> 0" "unat sz \<le> unat targ"
    using assms by (auto simp: word_le_nat_alt unat_eq_0)
  then have "unat ((sz - 1) div targ) = 0"
    using assms by (subst unat_div, subst unat_lt_nz_dec) auto
  then show ?thesis by (simp add: folded_xor_def Let_def)
qed

lemma short_sizes: "i \<le> 2 \<Longrightarrow> push_bit i (2::UINT32) \<in> {2, 4, 8}"
proof -
  assume "i \<le> 2"
  then have "i = 0 \<or> i = 1 \<or> i = 2" by arith
  then show ?thesis by auto
qed

lemma short_fold:
  "i \<le> 2 \<Longrightarrow> targ \<in> {10, 11} \<Longrightarrow>
   folded_xor ub h (push_bit i 2) targ = folded_xor ub h 2 targ"
  using short_sizes [of i] by (auto simp: folded_xor_short)

section \<open>Properties\<close>

text \<open>C16: On every branch trace the TAGE predictor runs to the end: no table is indexed out of range,
  whatever value the undefined 32-bit shift of its macro produces.\<close>

theorem openend_total:
  "\<exists>ds. pred_run (GetPrediction_openend ub) (UpdatePredictor_openend ub)
     (InitPredictor_openend tage_globals) bs = Some ds \<and> length ds = length bs"
  using tage.run_ok [OF tage.init_ok, of ub bs] by (simp add: succeeds_iff)

text \<open>C17: The TAGE prediction is the one of the matching tagged table with the longest history, of the
  second longest (or the base table) when that entry is new, weak and the bias counter prefers the
  alternative, and of the base table when no table matches.\<close>

theorem openend_prediction:
  "tage_inv s \<Longrightarrow> \<exists>s'. GetPrediction_openend ub s PC = Some (tage_spec ub s PC, s')"
  using tage_get_spec [of s ub PC] by (auto simp: succeeds_iff)

theorem openend_prediction_witness:
  "tage_inv (InitPredictor_openend tage_globals)
   \<and> (\<exists>s'. GetPrediction_openend id (InitPredictor_openend tage_globals) 0x400120
        = Some (tage_spec id (InitPredictor_openend tage_globals) 0x400120, s'))"
  using openend_prediction [OF tage_inv_init] tage_inv_init by blast

text \<open>C19: The tagged tables 0, 1 and 2, meant for histories of 2, 4 and 8 branches, use the same index
  and the same tag for every address and history, since the fold does not mask a history that is
  shorter than the folded width.\<close>

theorem short_tables_alias:
  "i \<le> 2 \<Longrightarrow> j \<le> 2 \<Longrightarrow>
   get_idx ub PC h i = get_idx ub PC h j \<and> get_tag ub PC h i = get_tag ub PC h j"
  by (simp add: get_idx_def get_tag_def Let_def short_fold)

theorem short_tables_alias_witness:
  "get_idx id 0x400120 0xFF 0 = get_idx id 0x400120 0xFF 2
   \<and> get_tag id 0x400120 0xFF 0 = get_tag id 0x400120 0xFF 2"
  using short_tables_alias [of 0 2 id] by simp

end
