(* ===== verification/Cbp_Driver.thy ===== *)
theory Cbp_Driver
  imports Tage
begin

text \<open>
  The trace reader \<^verbatim>\<open>tracer.cc\<close> and the simulation loop \<^verbatim>\<open>main.cc\<close> of
  \<^verbatim>\<open>src/Lab2/cbp4-assign2\<close>.  The decompressed trace is the list of its bytes; a record is ten of
  them.  \<open>None\<close> is a failed assertion, an access out of range, or a \<^verbatim>\<open>bool\<close> read from a byte
  other than 0 and 1.
\<close>

section \<open>The trace reader\<close>

record CBP_TRACE_RECORD =
  r_PC :: UINT32
  r_opType :: nat
  r_branchTaken :: bool
  r_branchTarget :: UINT32

abbreviation (input) OPTYPE_BRANCH_COND :: nat where "OPTYPE_BRANCH_COND \<equiv> 6"
abbreviation (input) OPTYPE_MAX :: nat where "OPTYPE_MAX \<equiv> 8"

record CBP_TRACER =
  traceFile :: "8 word list"
  numInst :: UINT64
  numCondBranch :: UINT64
  lastHeartBeat :: UINT64

text \<open>The constructor leaves \<^verbatim>\<open>lastHeartBeat\<close> uninitialised: its value is the parameter \<open>garbage\<close>.\<close>

definition new_tracer :: "UINT64 \<Rightarrow> 8 word list \<Rightarrow> CBP_TRACER" where
  "new_tracer garbage bytes =
     \<lparr> traceFile = bytes, numInst = 0, numCondBranch = 0, lastHeartBeat = garbage \<rparr>"

definition CheckHeartBeat :: "CBP_TRACER \<Rightarrow> CBP_TRACER" where
  "CheckHeartBeat t =
     (if 1000000 \<le> numInst t - lastHeartBeat t then t\<lparr> lastHeartBeat := numInst t \<rparr> else t)"

definition parse_record :: "8 word list \<Rightarrow> CBP_TRACE_RECORD option" where
  "parse_record b =
     (if 1 < b ! 9 then None
      else Some \<lparr> r_PC = le32 b, r_opType = unat (b ! 8), r_branchTaken = (b ! 9 = 1),
                  r_branchTarget = le32 (drop 4 b) \<rparr>)"

text \<open>The outer result \<open>Some (None, t)\<close> is \<^verbatim>\<open>FAILURE\<close>: the end of the file was hit.\<close>

definition GetNextRecord :: "CBP_TRACER \<Rightarrow> (CBP_TRACE_RECORD option \<times> CBP_TRACER) option" where
  "GetNextRecord t =
     (if length (traceFile t) < 10 then Some (None, t\<lparr> traceFile := [] \<rparr>)
      else do {
        rec \<leftarrow> parse_record (take 10 (traceFile t));
        let t = t\<lparr> traceFile := drop 10 (traceFile t) \<rparr>;
        assert_that (r_opType rec < OPTYPE_MAX);
        let t = t\<lparr> numInst := numInst t + 1 \<rparr>;
        let t = CheckHeartBeat t;
        let t = (if r_opType rec = OPTYPE_BRANCH_COND
                 then t\<lparr> numCondBranch := numCondBranch t + 1 \<rparr> else t);
        Some (Some rec, t)
      })"

section \<open>The simulation loop\<close>

record cbp =
  p_sat :: sat_state
  p_two :: two_level_state
  p_tage :: tage_state
  numMispred_2bitsat :: UINT64
  numMispred_2level :: UINT64
  numMispred_openend :: UINT64

definition cbp_init :: cbp where
  "cbp_init = \<lparr> p_sat = InitPredictor_2bitsat, p_two = InitPredictor_2level,
     p_tage = InitPredictor_openend tage_globals,
     numMispred_2bitsat = 0, numMispred_2level = 0, numMispred_openend = 0 \<rparr>"

definition cbp_branch :: "(UINT32 \<Rightarrow> UINT32) \<Rightarrow> cbp \<Rightarrow> branch \<Rightarrow> cbp option" where
  "cbp_branch ub m br = (case br of (PC, taken, target) \<Rightarrow> do {
     (d1, s1) \<leftarrow> GetPrediction_2bitsat (p_sat m) PC;
     (d2, s2) \<leftarrow> GetPrediction_2level (p_two m) PC;
     (d3, s3) \<leftarrow> GetPrediction_openend ub (p_tage m) PC;
     s1 \<leftarrow> UpdatePredictor_2bitsat s1 PC taken d1 target;
     s2 \<leftarrow> UpdatePredictor_2level s2 PC taken d2 target;
     s3 \<leftarrow> UpdatePredictor_openend ub s3 PC taken d3 target;
     Some \<lparr> p_sat = s1, p_two = s2, p_tage = s3,
       numMispred_2bitsat = numMispred_2bitsat m + of_bool (d1 \<noteq> taken),
       numMispred_2level = numMispred_2level m + of_bool (d2 \<noteq> taken),
       numMispred_openend = numMispred_openend m + of_bool (d3 \<noteq> taken) \<rparr>
   })"

definition branch_of :: "CBP_TRACE_RECORD \<Rightarrow> branch" where
  "branch_of rec = (r_PC rec, r_branchTaken rec, r_branchTarget rec)"

lemma GetNextRecord_shrinks:
  "GetNextRecord t = Some (Some rec, t') \<Longrightarrow> length (traceFile t') < length (traceFile t)"
  by (auto simp: GetNextRecord_def CheckHeartBeat_def Let_def bind_eq_Some_conv split: if_splits)

function main_loop :: "(UINT32 \<Rightarrow> UINT32) \<Rightarrow> CBP_TRACER \<Rightarrow> cbp \<Rightarrow> (CBP_TRACER \<times> cbp) option" where
  "main_loop ub t m =
     (case GetNextRecord t of
        None \<Rightarrow> None
      | Some (None, t') \<Rightarrow> Some (t', m)
      | Some (Some rec, t') \<Rightarrow>
          (if r_opType rec = OPTYPE_BRANCH_COND
           then case cbp_branch ub m (branch_of rec) of
                  None \<Rightarrow> None
                | Some m' \<Rightarrow> main_loop ub t' m'
           else main_loop ub t' m))"
  by pat_completeness auto
termination
  by (relation "measure (\<lambda>(ub, t, m). length (traceFile t))") (auto dest: GetNextRecord_shrinks)

declare main_loop.simps [simp del]

definition main_sim :: "(UINT32 \<Rightarrow> UINT32) \<Rightarrow> UINT64 \<Rightarrow> 8 word list \<Rightarrow> (CBP_TRACER \<times> cbp) option" where
  "main_sim ub garbage bytes = main_loop ub (new_tracer garbage bytes) cbp_init"

section \<open>What a simulation reports\<close>

text \<open>The records of a well-formed trace, ten bytes each; a shorter tail is dropped.\<close>

function records :: "8 word list \<Rightarrow> CBP_TRACE_RECORD list option" where
  "records b =
     (if length b < 10 then Some []
      else do {
        r \<leftarrow> parse_record (take 10 b);
        assert_that (r_opType r < OPTYPE_MAX);
        rs \<leftarrow> records (drop 10 b);
        Some (r # rs)
      })"
  by pat_completeness auto
termination by (relation "measure length") auto

declare records.simps [simp del]

definition cond_branches :: "CBP_TRACE_RECORD list \<Rightarrow> branch list" where
  "cond_branches rs = map branch_of (filter (\<lambda>r. r_opType r = OPTYPE_BRANCH_COND) rs)"

definition mispredicted :: "bool list \<Rightarrow> branch list \<Rightarrow> nat" where
  "mispredicted ds bs = length (filter (\<lambda>(d, (pc, taken, tgt)). d \<noteq> taken) (zip ds bs))"

abbreviation "run_2bitsat \<equiv> pred_run GetPrediction_2bitsat UpdatePredictor_2bitsat"
abbreviation "run_2level \<equiv> pred_run GetPrediction_2level UpdatePredictor_2level"
abbreviation "run_openend ub \<equiv> pred_run (GetPrediction_openend ub) (UpdatePredictor_openend ub)"

definition cbp_inv :: "cbp \<Rightarrow> bool" where
  "cbp_inv m = (sat_inv (p_sat m) \<and> two_level_inv (p_two m) \<and> tage_inv (p_tage m))"

text \<open>\<open>counted m bs m'\<close>: from \<open>m\<close> the branches \<open>bs\<close> lead to \<open>m'\<close>, whose counters grew by the
  mispredictions of each predictor's own run.\<close>

definition counted :: "(UINT32 \<Rightarrow> UINT32) \<Rightarrow> cbp \<Rightarrow> branch list \<Rightarrow> cbp \<Rightarrow> bool" where
  "counted ub m bs m' = (\<exists>d1 d2 d3.
     run_2bitsat (p_sat m) bs = Some d1 \<and> run_2level (p_two m) bs = Some d2
     \<and> run_openend ub (p_tage m) bs = Some d3
     \<and> numMispred_2bitsat m' = numMispred_2bitsat m + of_nat (mispredicted d1 bs)
     \<and> numMispred_2level m' = numMispred_2level m + of_nat (mispredicted d2 bs)
     \<and> numMispred_openend m' = numMispred_openend m + of_nat (mispredicted d3 bs))"

lemma counted_Nil: "counted ub m [] m"
  by (simp add: counted_def mispredicted_def)

lemma mispredicted_Cons:
  "mispredicted (d # ds) ((pc, t, tgt) # bs) = of_bool (d \<noteq> t) + mispredicted ds bs"
  by (simp add: mispredicted_def)

lemma cbp_branch_ok:
  assumes "cbp_inv m"
  obtains m' where "cbp_branch ub m b = Some m'" "cbp_inv m'"
    "\<And>bs m''. counted ub m' bs m'' \<Longrightarrow> counted ub m (b # bs) m''"
proof -
  obtain pc r tgt where b: "b = (pc, r, tgt)" by (cases b)
  have i: "sat_inv (p_sat m)" "two_level_inv (p_two m)" "tage_inv (p_tage m)"
    using assms by (simp_all add: cbp_inv_def)
  obtain d1 s1 s1' where 1: "GetPrediction_2bitsat (p_sat m) pc = Some (d1, s1)"
    "UpdatePredictor_2bitsat s1 pc r d1 tgt = Some s1'" "sat_inv s1'"
    using sat.round_ok [OF i(1)] by blast
  obtain d2 s2 s2' where 2: "GetPrediction_2level (p_two m) pc = Some (d2, s2)"
    "UpdatePredictor_2level s2 pc r d2 tgt = Some s2'" "two_level_inv s2'"
    using lvl2.round_ok [OF i(2)] by blast
  obtain d3 s3 s3' where 3: "GetPrediction_openend ub (p_tage m) pc = Some (d3, s3)"
    "UpdatePredictor_openend ub s3 pc r d3 tgt = Some s3'" "tage_inv s3'"
    using tage.round_ok [OF i(3)] by blast
  let ?m = "\<lparr> p_sat = s1', p_two = s2', p_tage = s3',
       numMispred_2bitsat = numMispred_2bitsat m + of_bool (d1 \<noteq> r),
       numMispred_2level = numMispred_2level m + of_bool (d2 \<noteq> r),
       numMispred_openend = numMispred_openend m + of_bool (d3 \<noteq> r) \<rparr>"
  show ?thesis
  proof
    show "cbp_branch ub m b = Some ?m" using 1 2 3 by (simp add: cbp_branch_def b)
    show "cbp_inv ?m" using 1 2 3 by (simp add: cbp_inv_def)
    show "counted ub m (b # bs) m''" if "counted ub ?m bs m''" for bs m''
      using that 1(1,2) 2(1,2) 3(1,2)
      by (fastforce simp: counted_def b mispredicted_Cons algebra_simps of_bool_def)
  qed
qed

lemma GetNextRecord_Cons:
  assumes "\<not> length (traceFile t) < 10" "parse_record (take 10 (traceFile t)) = Some r"
    "r_opType r < OPTYPE_MAX"
  obtains t' where "GetNextRecord t = Some (Some r, t')" "traceFile t' = drop 10 (traceFile t)"
    "numInst t' = numInst t + 1"
    "numCondBranch t' = numCondBranch t + of_bool (r_opType r = OPTYPE_BRANCH_COND)"
  using assms by (auto simp: GetNextRecord_def CheckHeartBeat_def Let_def)

lemma main_loop_counts:
  "records b = Some rs \<Longrightarrow> traceFile t = b \<Longrightarrow> cbp_inv m \<Longrightarrow>
   \<exists>t' m'. main_loop ub t m = Some (t', m') \<and> counted ub m (cond_branches rs) m'
     \<and> numInst t' = numInst t + of_nat (length rs)
     \<and> numCondBranch t' = numCondBranch t + of_nat (length (cond_branches rs))"
proof (induction b arbitrary: rs t m rule: records.induct)
  case (1 b)
  show ?case
  proof (cases "length b < 10")
    case True
    then have "rs = []" using "1.prems"(1) by (simp add: records.simps [of b])
    with True "1.prems" show ?thesis
      by (simp add: main_loop.simps [of ub t] GetNextRecord_def cond_branches_def counted_Nil)
  next
    case False
    obtain r rs' where r: "parse_record (take 10 b) = Some r" "r_opType r < OPTYPE_MAX"
      and rs: "rs = r # rs'" and tl: "records (drop 10 b) = Some rs'"
      using "1.prems"(1) False by (auto simp: records.simps [of b] bind_eq_Some_conv)
    obtain t1 where t1: "GetNextRecord t = Some (Some r, t1)" "traceFile t1 = drop 10 b"
      "numInst t1 = numInst t + 1"
      "numCondBranch t1 = numCondBranch t + of_bool (r_opType r = OPTYPE_BRANCH_COND)"
      using GetNextRecord_Cons [of t r] False r "1.prems"(2) by auto
    note IH = "1.IH" [OF False r(1) _ tl t1(2)]
    show ?thesis
    proof (cases "r_opType r = OPTYPE_BRANCH_COND")
      case True
      obtain m1 where m1: "cbp_branch ub m (branch_of r) = Some m1" "cbp_inv m1"
        "\<And>bs m''. counted ub m1 bs m'' \<Longrightarrow> counted ub m (branch_of r # bs) m''"
        using cbp_branch_ok [OF "1.prems"(3)] by blast
      show ?thesis
        using IH [OF _ m1(2)] m1 t1 True rs r
        by (force simp: main_loop.simps [of ub t] cond_branches_def)
    next
      case f: False
      show ?thesis
        using IH [OF _ "1.prems"(3)] t1 f rs r
        by (force simp: main_loop.simps [of ub t] cond_branches_def)
    qed
  qed
qed

lemma cbp_inv_init: "cbp_inv cbp_init"
  using sat.init_ok lvl2.init_ok tage.init_ok by (simp add: cbp_inv_def cbp_init_def)

section \<open>Properties\<close>

text \<open>C18: On a well-formed trace the simulation ends without a failed check and reports the number of
  its records, the number of its conditional branches and, for each of the three predictors, the
  number of branches that predictor mispredicts when run alone on the conditional branches.\<close>

theorem main_sim_counts:
  assumes "records bytes = Some rs"
  shows "\<exists>t m d1 d2 d3. main_sim ub garbage bytes = Some (t, m)
     \<and> numInst t = of_nat (length rs) \<and> numCondBranch t = of_nat (length (cond_branches rs))
     \<and> run_2bitsat InitPredictor_2bitsat (cond_branches rs) = Some d1
     \<and> run_2level InitPredictor_2level (cond_branches rs) = Some d2
     \<and> run_openend ub (InitPredictor_openend tage_globals) (cond_branches rs) = Some d3
     \<and> numMispred_2bitsat m = of_nat (mispredicted d1 (cond_branches rs))
     \<and> numMispred_2level m = of_nat (mispredicted d2 (cond_branches rs))
     \<and> numMispred_openend m = of_nat (mispredicted d3 (cond_branches rs))"
  using main_loop_counts [OF assms, of "new_tracer garbage bytes" cbp_init ub] cbp_inv_init
  by (auto simp: main_sim_def new_tracer_def counted_def cbp_init_def)

theorem main_sim_counts_witness:
  "\<exists>t m. main_sim id 7 [0, 0, 0x40, 0, 8, 0, 0x40, 0, 6, 1, 4, 0, 0x40, 0, 0, 0, 0, 0, 2, 0]
      = Some (t, m) \<and> numInst t = 2 \<and> numCondBranch t = 1"
proof -
  have r: "records [0, 0, 0x40, 0, 8, 0, 0x40, 0, 6, 1, 4, 0, 0x40, 0, 0, 0, 0, 0, 2, 0]
      = Some [\<lparr> r_PC = 0x400000, r_opType = 6, r_branchTaken = True, r_branchTarget = 0x400008 \<rparr>,
              \<lparr> r_PC = 0x400004, r_opType = 2, r_branchTaken = False, r_branchTarget = 0 \<rparr>]"
    by (simp add: records.simps parse_record_def le32_def)
  show ?thesis
    using main_sim_counts [OF r, of id 7] by (auto simp: cond_branches_def branch_of_def)
qed

end
