(* ===== verification/Int_Math.thy ===== *)
theory Int_Math
  imports Prelude
begin

text \<open>
  The integer helpers of \<^verbatim>\<open>src/Lab5/gem5/src/base/intmath.hh\<close> and \<^verbatim>\<open>intmath.cc\<close> that the
  caches, the directory and the predictors size their tables with.  Unsigned arguments are
  words of their width; \<open>None\<close> is a failed \<^verbatim>\<open>assert\<close>.
\<close>

section \<open>Powers of two and logarithms\<close>

definition leastSigBit :: "'a::len word \<Rightarrow> 'a word" where
  "leastSigBit n = n AND NOT (n - 1)"

definition isPowerOf2 :: "'a::len word \<Rightarrow> bool" where
  "isPowerOf2 n = (n \<noteq> 0 \<and> leastSigBit n = n)"

text \<open>One line of the binary search: test the upper half, and shift it down.\<close>

definition log_step :: "'a::len word \<Rightarrow> nat \<Rightarrow> nat \<times> 'a word \<Rightarrow> nat \<times> 'a word" where
  "log_step m k yx = (case yx of (y, x) \<Rightarrow>
     if x AND m \<noteq> 0 then (y + k, drop_bit k x) else (y, x))"

definition floorLog2_32 :: "UINT32 \<Rightarrow> nat option" where
  "floorLog2_32 x = do {
     assert_that (0 < x);
     Some (fst (log_step 0x2 1 (log_step 0xc 2 (log_step 0xf0 4 (log_step 0xff00 8
           (log_step 0xffff0000 16 (0, x)))))))
   }"

definition floorLog2_64 :: "UINT64 \<Rightarrow> nat option" where
  "floorLog2_64 x = do {
     assert_that (0 < x);
     Some (fst (log_step 0x2 1 (log_step 0xc 2 (log_step 0xf0 4 (log_step 0xff00 8
           (log_step 0xffff0000 16 (log_step 0xffffffff00000000 32 (0, x))))))))
   }"

definition ceilLog2_64 :: "UINT64 \<Rightarrow> nat option" where
  "ceilLog2_64 n = (if n = 1 then Some 0 else do { l \<leftarrow> floorLog2_64 (n - 1); Some (l + 1) })"

definition floorPow2_64 :: "UINT64 \<Rightarrow> UINT64 option" where
  "floorPow2_64 n = do { l \<leftarrow> floorLog2_64 n; Some (push_bit l 1) }"

definition divCeil :: "'a::len word \<Rightarrow> 'a word \<Rightarrow> 'a word option" where
  "divCeil a b = (if b = 0 then None else Some ((a + b - 1) div b))"

definition roundUp :: "'a::len word \<Rightarrow> 'a word \<Rightarrow> 'a word" where
  "roundUp val align = (let mask = align - 1 in (val + mask) AND NOT mask)"

definition roundDown :: "'a::len word \<Rightarrow> 'a word \<Rightarrow> 'a word" where
  "roundDown val align = (let mask = align - 1 in val AND NOT mask)"

subsection \<open>The logarithm is right\<close>

text \<open>\<open>log_inv x0 k (y, x)\<close>: \<open>y\<close> bits were shifted out of \<open>x0\<close>, leaving \<open>x\<close> of \<open>2 k\<close> bits.\<close>

definition log_inv :: "nat \<Rightarrow> nat \<Rightarrow> nat \<times> 'a::len word \<Rightarrow> bool" where
  "log_inv x0 w yx = (case yx of (y, x) \<Rightarrow> x0 div 2 ^ y = unat x \<and> 0 < unat x \<and> unat x < 2 ^ w)"

lemma upper_half_test:
  fixes x :: "'a::len word"
  assumes "unat x < 2 ^ (2 * k)" "m = push_bit k (mask k)"
  shows "(x AND m = 0) = (unat x < 2 ^ k)"
proof -
  have *: "take_bit k (drop_bit k x) = drop_bit k x"
  proof -
    have "unat x div 2 ^ k < 2 ^ k"
      using assms(1) by (simp add: less_mult_imp_div_less mult_2 power_add)
    then show ?thesis
      by (simp add: word_unat_eq_iff unsigned_take_bit_eq unat_drop take_bit_nat_eq_self)
  qed
  have dz: "(drop_bit k x = 0) = (unat x < 2 ^ k)"
    by (simp add: word_unat_eq_iff unat_drop div_eq_0_iff)
  have "(x AND m = 0) = (drop_bit k x = 0)"
  proof
    assume a: "x AND m = 0"
    have "take_bit k (drop_bit k x) = 0"
    proof (rule bit_word_eqI)
      fix n assume "n < LENGTH('a)"
      have "\<not> bit (x AND m) (k + n)" using a by simp
      then show "bit (take_bit k (drop_bit k x)) n = bit (0::'a word) n"
        by (auto simp: assms(2) bit_simps dest: bit_imp_le_length)
    qed
    with * show "drop_bit k x = 0" by simp
  next
    assume d: "drop_bit k x = 0"
    show "x AND m = 0"
    proof (rule bit_word_eqI)
      fix n assume "n < LENGTH('a)"
      have "\<not> bit (drop_bit k x) (n - k)" using d by simp
      then show "bit (x AND m) n = bit (0::'a word) n"
        by (auto simp: assms(2) bit_simps)
    qed
  qed
  with dz show ?thesis by simp
qed

lemma log_step_inv:
  fixes yx :: "nat \<times> 'a::len word"
  assumes "log_inv x0 (2 * k) yx" "m = push_bit k (mask k)"
  shows "log_inv x0 k (log_step m k yx)"
proof -
  obtain y x where yx: "yx = (y, x)" by force
  have i: "x0 div 2 ^ y = unat x" "0 < unat x" "unat x < 2 ^ (2 * k)"
    using assms(1) by (simp_all add: log_inv_def yx)
  note t = upper_half_test [OF i(3) assms(2)]
  show ?thesis
  proof (cases "unat x < 2 ^ k")
    case True
    with t i show ?thesis by (simp add: log_step_def log_inv_def yx)
  next
    case False
    have "unat x div 2 ^ k < 2 ^ k"
      using i(3) by (simp add: less_mult_imp_div_less mult_2 power_add)
    moreover have "0 < unat x div 2 ^ k" using False by (simp add: div_greater_zero_iff)
    moreover have "x0 div 2 ^ (y + k) = unat x div 2 ^ k"
      by (simp add: power_add div_mult2_eq i(1))
    ultimately show ?thesis
      using t False by (simp add: log_step_def log_inv_def yx unat_drop)
  qed
qed

lemma log_inv_final: "log_inv x0 1 yx \<Longrightarrow> 2 ^ fst yx \<le> x0 \<and> x0 < 2 ^ (fst yx + 1)"
proof -
  assume "log_inv x0 1 yx"
  then have "x0 div 2 ^ fst yx = 1" by (auto simp: log_inv_def split: prod.splits)
  then have "0 < x0 div 2 ^ fst yx" "x0 div 2 ^ fst yx < 2" by simp_all
  then show ?thesis
    by (simp add: div_greater_zero_iff div_less_iff_less_mult)
qed

lemma masks_32:
  "(0x2::'a::len word) = push_bit 1 (mask 1)" "(0xc::'a word) = push_bit 2 (mask 2)"
  "(0xf0::'a word) = push_bit 4 (mask 4)" "(0xff00::'a word) = push_bit 8 (mask 8)"
  "(0xffff0000::'a word) = push_bit 16 (mask 16)"
  "(0xffffffff00000000::'a word) = push_bit 32 (mask 32)"
  by (simp_all add: mask_eq_exp_minus_1 push_bit_eq_mult)

lemma log_inv_start: "0 < x \<Longrightarrow> unat x < 2 ^ w \<Longrightarrow> log_inv (unat x) w (0, x)"
  by (simp add: log_inv_def unat_gt_0)

lemma log_chain:
  fixes yx :: "nat \<times> 'a::len word"
  assumes "log_inv x0 32 yx"
  shows "log_inv x0 1 (log_step 0x2 1 (log_step 0xc 2 (log_step 0xf0 4 (log_step 0xff00 8
           (log_step 0xffff0000 16 yx)))))"
proof -
  have "log_inv x0 16 (log_step 0xffff0000 16 yx)"
    using log_step_inv [of x0 16 yx, OF _ masks_32(5)] assms by simp
  then have "log_inv x0 8 (log_step 0xff00 8 (log_step 0xffff0000 16 yx))"
    using log_step_inv [of x0 8 _, OF _ masks_32(4)] by simp
  then have "log_inv x0 4 (log_step 0xf0 4 (log_step 0xff00 8 (log_step 0xffff0000 16 yx)))"
    using log_step_inv [of x0 4 _, OF _ masks_32(3)] by simp
  then have "log_inv x0 2 (log_step 0xc 2 (log_step 0xf0 4 (log_step 0xff00 8
      (log_step 0xffff0000 16 yx))))"
    using log_step_inv [of x0 2 _, OF _ masks_32(2)] by simp
  then show ?thesis
    using log_step_inv [of x0 1 _, OF _ masks_32(1)] by simp
qed

lemma floorLog2_32_correct:
  assumes "0 < x"
  shows "succeeds (floorLog2_32 x) (\<lambda>y. 2 ^ y \<le> unat x \<and> unat x < 2 ^ (y + 1))"
proof -
  have "unat x < 2 ^ 32" using unsigned_less [of x] by simp
  from log_inv_final [OF log_chain [OF log_inv_start [OF assms this]]] assms
  show ?thesis by (simp add: floorLog2_32_def)
qed

lemma floorLog2_64_correct:
  assumes "0 < x"
  shows "succeeds (floorLog2_64 x) (\<lambda>y. 2 ^ y \<le> unat x \<and> unat x < 2 ^ (y + 1))"
proof -
  have "unat x < 2 ^ 64" using unsigned_less [of x] by simp
  from log_inv_start [OF assms this]
  have "log_inv (unat x) 32 (log_step 0xffffffff00000000 32 (0, x))"
    using log_step_inv [of "unat x" 32 "(0, x)", OF _ masks_32(6)] by simp
  from log_inv_final [OF log_chain [OF this]] assms
  show ?thesis by (simp add: floorLog2_64_def)
qed

lemma pow2_bounds_unique:
  "2 ^ y \<le> n \<Longrightarrow> n < 2 ^ (y + 1) \<Longrightarrow> 2 ^ z \<le> n \<Longrightarrow> n < 2 ^ (z + 1) \<Longrightarrow> y = z"
  for n y z :: nat
proof (rule ccontr)
  assume a: "2 ^ y \<le> n" "n < 2 ^ (y + 1)" "2 ^ z \<le> n" "n < 2 ^ (z + 1)" "y \<noteq> z"
  then consider "y + 1 \<le> z" | "z + 1 \<le> y" by linarith
  then show False
  proof cases
    case 1
    then have "(2::nat) ^ (y + 1) \<le> 2 ^ z" by (rule power_increasing) simp
    with a show False by linarith
  next
    case 2
    then have "(2::nat) ^ (z + 1) \<le> 2 ^ y" by (rule power_increasing) simp
    with a show False by linarith
  qed
qed

lemma floorLog2_64_eq:
  "2 ^ y \<le> unat x \<Longrightarrow> unat x < 2 ^ (y + 1) \<Longrightarrow> floorLog2_64 x = Some y"
proof -
  assume a: "2 ^ y \<le> unat x" "unat x < 2 ^ (y + 1)"
  have "unat x \<noteq> 0" using a(1) by (metis le_zero_eq power_not_zero zero_neq_numeral)
  then have "0 < x" by (simp add: word_greater_zero_iff unat_eq_0)
  from floorLog2_64_correct [OF this] a pow2_bounds_unique show ?thesis
    by (auto simp: succeeds_iff)
qed

subsection \<open>Powers of two and rounding\<close>

lemma isPowerOf2_exp: "k < LENGTH('a) \<Longrightarrow> isPowerOf2 (2 ^ k :: 'a::len word)"
proof -
  assume k: "k < LENGTH('a)"
  have "(2 ^ k :: 'a word) - 1 = mask k" by (simp add: mask_eq_exp_minus_1)
  then have "(2 ^ k :: 'a word) AND NOT ((2 ^ k) - 1) = 2 ^ k"
    by (intro bit_word_eqI) (auto simp: bit_simps)
  with k show ?thesis by (simp add: isPowerOf2_def leastSigBit_def)
qed

lemma roundDown_exp:
  fixes v :: "'a::len word"
  assumes "k < LENGTH('a)"
  shows "unat (roundDown v (2 ^ k)) = unat v - unat v mod 2 ^ k"
proof -
  have "roundDown v (2 ^ k) = push_bit k (drop_bit k v)"
    by (auto simp: roundDown_def Let_def mask_eq_exp_minus_1 [symmetric] bit_eq_iff bit_simps
        dest: bit_imp_le_length)
  then have "unat (roundDown v (2 ^ k)) = unat (push_bit k (drop_bit k v))" by simp
  also have "\<dots> = (unat v div 2 ^ k * 2 ^ k) mod 2 ^ LENGTH('a)"
    unfolding unsigned_push_bit_eq unat_drop by (simp add: push_bit_eq_mult take_bit_eq_mod)
  also have "\<dots> = unat v div 2 ^ k * 2 ^ k"
    using unsigned_less [of v] by (metis div_times_less_eq_dividend le_less_trans mod_less)
  finally show ?thesis by (simp add: minus_mod_eq_div_mult)
qed

lemma roundUp_exp:
  fixes v :: "'a::len word"
  assumes "k < LENGTH('a)" "unat v + 2 ^ k \<le> 2 ^ LENGTH('a)"
  shows "2 ^ k dvd unat (roundUp v (2 ^ k))" "unat v \<le> unat (roundUp v (2 ^ k))"
    "unat (roundUp v (2 ^ k)) < unat v + 2 ^ k"
proof -
  let ?m = "2 ^ k - 1 :: 'a word"
  have m: "unat ?m = 2 ^ k - 1"
    using assms(1) by (simp add: unat_minus_one_exp)
  have p: "(0::nat) < 2 ^ k" by simp
  have "unat v + (2 ^ k - 1) < 2 ^ LENGTH('a)" using assms(2) p by linarith
  then have s: "unat (v + ?m) = unat v + (2 ^ k - 1)"
    unfolding unat_word_ariths m by (rule mod_less)
  have e: "unat (roundUp v (2 ^ k)) = unat (v + ?m) - unat (v + ?m) mod 2 ^ k"
    using roundDown_exp [OF assms(1), of "v + ?m"] by (simp add: roundUp_def roundDown_def Let_def)
  have lt: "unat (v + ?m) mod 2 ^ k < 2 ^ k" by simp
  show "2 ^ k dvd unat (roundUp v (2 ^ k))"
    unfolding e by (simp add: minus_mod_eq_mult_div)
  show "unat v \<le> unat (roundUp v (2 ^ k))" using e s lt by linarith
  show "unat (roundUp v (2 ^ k)) < unat v + 2 ^ k"
    using e s p by linarith
qed

section \<open>Properties\<close>

text \<open>C27: The shift-and-mask cascade of \<^verbatim>\<open>floorLog2\<close> returns, for every positive 64-bit value, the
  exponent of its highest set bit, and \<^verbatim>\<open>floorPow2\<close> the power of two itself.\<close>

theorem floorLog2_highest_bit:
  assumes "0 < x"
  shows "\<exists>y. floorLog2_64 x = Some y \<and> 2 ^ y \<le> unat x \<and> unat x < 2 ^ (y + 1)
     \<and> floorPow2_64 x = Some (2 ^ y)"
  using floorLog2_64_correct [OF assms] by (auto simp: succeeds_iff floorPow2_64_def)

theorem floorLog2_highest_bit_witness:
  "floorLog2_64 1000 = Some 9 \<and> floorPow2_64 1000 = Some 512"
proof -
  obtain y where y: "floorLog2_64 1000 = Some y" "2 ^ y \<le> unat (1000 :: UINT64)"
    "unat (1000 :: UINT64) < 2 ^ (y + 1)" "floorPow2_64 1000 = Some (2 ^ y)"
    using floorLog2_highest_bit [of 1000] by (auto simp: word_greater_zero_iff)
  then have "y = 9" using pow2_bounds_unique [of y 1000 9] by simp
  with y show ?thesis by simp
qed

text \<open>With an alignment that is a power of two, \<^verbatim>\<open>roundDown\<close> gives the largest multiple that is not
  above the value and \<^verbatim>\<open>roundUp\<close> the least one that is not below it, when it fits.\<close>

theorem rounding:
  fixes v :: "'a::len word"
  assumes "k < LENGTH('a)" "unat v + 2 ^ k \<le> 2 ^ LENGTH('a)"
  shows "unat (roundDown v (2 ^ k)) = unat v div 2 ^ k * 2 ^ k
     \<and> unat (roundUp v (2 ^ k)) = (unat v + 2 ^ k - 1) div 2 ^ k * 2 ^ k"
proof -
  obtain q where q: "unat (roundUp v (2 ^ k)) = 2 ^ k * q"
    using roundUp_exp(1) [OF assms] by (auto simp: dvd_def)
  have "(unat v + 2 ^ k - 1) div 2 ^ k = q"
  proof (rule div_nat_eqI)
    show "2 ^ k * q \<le> unat v + 2 ^ k - 1" using roundUp_exp(3) [OF assms] q by simp
    have "unat v \<le> 2 ^ k * q" "(0::nat) < 2 ^ k" using roundUp_exp(2) [OF assms] q by simp_all
    then show "unat v + 2 ^ k - 1 < 2 ^ k * Suc q" unfolding mult_Suc_right by linarith
  qed
  with q roundDown_exp [OF assms(1), of v] show ?thesis
    by (simp add: minus_mod_eq_div_mult mult.commute)
qed

theorem rounding_witness:
  "unat (roundDown (100 :: 32 word) (2 ^ 6)) = 64 \<and> unat (roundUp (100 :: 32 word) (2 ^ 6)) = 128"
  using rounding [of 6 "100 :: 32 word"] by simp

end
