(* ===== verification/Ruby_Address.thy ===== *)
theory Ruby_Address
  imports Int_Math
begin

text \<open>
  Physical addresses of the Ruby memory system, \<^verbatim>\<open>src/Lab5/gem5/src/mem/ruby/common/Address.hh\<close>
  and \<^verbatim>\<open>Address.cc\<close>.  The block size of \<^verbatim>\<open>RubySystem\<close> is the argument \<open>bb\<close> (its logarithm).
  \<open>None\<close> is a failed \<^verbatim>\<open>assert\<close> or a shift by 64 bits or more, which C++ leaves undefined.
\<close>

type_synonym addr = UINT64

definition shr :: "UINT64 \<Rightarrow> nat \<Rightarrow> UINT64 option" where
  "shr a n = (if n < 64 then Some (drop_bit n a) else None)"

definition bitSelect :: "addr \<Rightarrow> nat \<Rightarrow> nat \<Rightarrow> UINT64 option" where
  "bitSelect a small big = do {
     assert_that (small \<le> big);
     if 63 \<le> big then shr a small
     else do {
       let mask = NOT (push_bit (big + 1) (NOT 0));
       let partial = a AND mask;
       shr partial small
     }
   }"

definition bitRemove :: "addr \<Rightarrow> nat \<Rightarrow> nat \<Rightarrow> UINT64 option" where
  "bitRemove a small big = do {
     assert_that (small \<le> big);
     if 63 \<le> small then Some a
     else if 63 \<le> big then Some (a AND drop_bit small (NOT 0))
     else if small = 0 then Some (a AND push_bit big (NOT 0))
     else do {
       let lower_bits = a AND NOT (push_bit small (NOT 0));
       let higher_bits = a AND push_bit (big + 1) (NOT 0);
       higher_bits \<leftarrow> shr higher_bits (big - small + 1);
       Some (higher_bits OR lower_bits)
     }
   }"

definition maskLowOrderBits :: "addr \<Rightarrow> nat \<Rightarrow> UINT64" where
  "maskLowOrderBits a number =
     (let mask = (if 63 \<le> number then NOT 0 else push_bit number (NOT 0)) in a AND mask)"

definition maskHighOrderBits :: "addr \<Rightarrow> nat \<Rightarrow> UINT64" where
  "maskHighOrderBits a number =
     (let mask = (if 63 \<le> number then NOT 0 else drop_bit number (NOT 0)) in a AND mask)"

definition shiftLowOrderBits :: "addr \<Rightarrow> nat \<Rightarrow> UINT64 option" where
  "shiftLowOrderBits a number = shr a number"

definition getLineAddress :: "nat \<Rightarrow> addr \<Rightarrow> UINT64 option" where
  "getLineAddress bb a = bitSelect a bb 64"

text \<open>With 0 block bits \<^verbatim>\<open>getOffset\<close> selects the bits 0 to -1: the assertion compares the bounds as unsigned numbers
  and holds, and the mask is 0.\<close>

definition getOffset :: "nat \<Rightarrow> addr \<Rightarrow> UINT64 option" where
  "getOffset bb a = (if bb = 0 then Some 0 else bitSelect a 0 (bb - 1))"

definition makeLineAddress :: "nat \<Rightarrow> addr \<Rightarrow> addr" where
  "makeLineAddress bb a = maskLowOrderBits a bb"

definition line_address :: "nat \<Rightarrow> addr \<Rightarrow> addr" where
  "line_address bb a = makeLineAddress bb a"

definition makeNextStrideAddress :: "nat \<Rightarrow> int \<Rightarrow> addr \<Rightarrow> addr" where
  "makeNextStrideAddress bb stride a =
     maskLowOrderBits a bb + of_int (2 ^ bb * stride)"

text \<open>The parameter of \<^verbatim>\<open>setOffset\<close> is an \<^verbatim>\<open>int\<close>, extended to the width of an address; \<open>offset\<close> is the extended value.\<close>

definition setOffset :: "nat \<Rightarrow> UINT64 \<Rightarrow> addr \<Rightarrow> addr" where
  "setOffset bb offset a = makeLineAddress bb a OR offset"

section \<open>Selecting and removing bits\<close>

lemma bitSelect_bits:
  assumes "small \<le> big" "small < 64"
  shows "\<exists>r. bitSelect a small big = Some r \<and>
           (\<forall>n. bit r n = (n \<le> big - small \<and> bit a (small + n)))"
proof (cases "63 \<le> big")
  case True
  then have "bit a (small + n) = (n \<le> big - small \<and> bit a (small + n))" for n
    using bit_imp_le_length [of a "small + n"] assms by auto
  with True assms show ?thesis
    by (simp add: bitSelect_def shr_def bit_drop_bit_eq)
next
  case False
  have "bit (drop_bit small (a AND NOT (push_bit (big + 1) (NOT 0)))) n
      = (n \<le> big - small \<and> bit a (small + n))" for n
    using bit_imp_le_length [of a "small + n"] assms False
    by (auto simp: bit_simps simp del: push_bit_minus_one_eq_not_mask)
  with False assms show ?thesis
    by (simp add: bitSelect_def shr_def del: push_bit_minus_one_eq_not_mask)
qed

lemma bitSelect_eq:
  "small \<le> big \<Longrightarrow> small < 64 \<Longrightarrow>
   bitSelect a small big = Some (take_bit (big + 1 - small) (drop_bit small a))"
proof -
  assume a: "small \<le> big" "small < 64"
  then obtain r where r: "bitSelect a small big = Some r"
    and b: "\<forall>n. bit r n = (n \<le> big - small \<and> bit a (small + n))"
    using bitSelect_bits by blast
  have "r = take_bit (big + 1 - small) (drop_bit small a)"
    using a b by (intro bit_word_eqI) (auto simp: bit_simps)
  with r show ?thesis by simp
qed

lemma bitSelect_less:
  "small \<le> big \<Longrightarrow> small < 64 \<Longrightarrow>
   succeeds (bitSelect a small big) (\<lambda>r. unat r < 2 ^ (big + 1 - small))"
  by (simp add: bitSelect_eq unsigned_take_bit_eq)

lemma bitRemove_bits:
  assumes "0 < small" "small \<le> big" "big < 63"
  shows "\<exists>r. bitRemove a small big = Some r \<and>
           (\<forall>n. bit r n = bit a (if n < small then n else n + (big + 1 - small)))"
proof -
  obtain d where d: "big = small + d" using assms(2) le_iff_add by blast
  let ?h = "drop_bit (d + 1) (a AND push_bit (small + d + 1) (NOT 0))"
    and ?l = "a AND NOT (push_bit small (NOT 0))"
  have h: "bit ?h n = (small \<le> n \<and> bit a (n + (d + 1)))" for n
    using bit_imp_le_length [of a "n + (d + 1)"] assms(3) d
    by (simp add: bit_simps add.commute del: push_bit_minus_one_eq_not_mask) linarith
  have l: "bit ?l n = (n < small \<and> bit a n)" for n
    using bit_imp_le_length [of a n] assms(3) d
    by (auto simp: bit_simps simp del: push_bit_minus_one_eq_not_mask)
  have "bitRemove a small big = Some (?h OR ?l)"
    using assms d by (auto simp: bitRemove_def shr_def simp del: push_bit_minus_one_eq_not_mask)
  then show ?thesis using h l d by (auto simp: bit_or_iff)
qed

section \<open>Line addresses\<close>

lemma bit_line_address: "bb < 63 \<Longrightarrow> bit (line_address bb a) n = (bb \<le> n \<and> bit a n)"
  using bit_imp_le_length [of a n]
  by (auto simp: line_address_def makeLineAddress_def maskLowOrderBits_def bit_simps
      simp del: push_bit_minus_one_eq_not_mask)

lemma line_address_idem: "bb < 63 \<Longrightarrow> line_address bb (line_address bb a) = line_address bb a"
  by (intro bit_word_eqI) (auto simp: bit_line_address)

text \<open>An address is its line number and its offset in the line.\<close>

lemma line_offset_split:
  assumes "0 < bb" "bb < 63"
  shows "\<exists>l off. getLineAddress bb a = Some l \<and> getOffset bb a = Some off
           \<and> unat off < 2 ^ bb \<and> a = push_bit bb l OR off
           \<and> line_address bb a = push_bit bb l \<and> setOffset bb off (line_address bb a) = a"
proof -
  let ?l = "take_bit (65 - bb) (drop_bit bb a)" and ?o = "take_bit bb a"
  have l: "getLineAddress bb a = Some ?l" and o: "getOffset bb a = Some ?o"
    using assms by (simp_all add: getLineAddress_def getOffset_def bitSelect_eq)
  have la: "line_address bb a = push_bit bb ?l"
    using assms by (intro bit_word_eqI) (auto simp: bit_line_address bit_simps)
  have "a = push_bit bb ?l OR ?o"
    by (intro bit_word_eqI) (auto simp: bit_simps)
  moreover have "unat ?o < 2 ^ bb" by (simp add: unsigned_take_bit_eq)
  moreover have "setOffset bb ?o (line_address bb a) = a"
    using assms by (intro bit_word_eqI)
      (auto simp: setOffset_def line_address_idem [unfolded line_address_def] bit_simps
        bit_line_address [unfolded line_address_def] line_address_def)
  ultimately show ?thesis using l o la by blast
qed

section \<open>Properties\<close>

text \<open>C26: \<^verbatim>\<open>bitSelect\<close> returns exactly the bits \<open>small\<close> to \<open>big\<close> of an address, shifted down.\<close>

theorem bitSelect_selects:
  assumes "small \<le> big" "small < 64"
  shows "\<exists>r. bitSelect a small big = Some r \<and> unat r < 2 ^ (big + 1 - small)
     \<and> (\<forall>n. bit r n = (n \<le> big - small \<and> bit a (small + n)))"
  using bitSelect_bits [OF assms, of a] bitSelect_less [OF assms, of a]
  by (auto simp: succeeds_iff)

theorem bitSelect_selects_witness: "bitSelect 0xABCD 4 7 = Some 0xC"
proof -
  obtain r where r: "bitSelect 0xABCD 4 7 = Some r"
    using bitSelect_selects [of 4 7 "0xABCD"] by auto
  have "bitSelect 0xABCD 4 7 = Some 0xC" by (simp add: bitSelect_def shr_def mask_eq_exp_minus_1)
  with r show ?thesis by simp
qed

text \<open>C25: An address splits into its line number and an offset below the block size, its line address
  is the line number shifted back, and setting the offset on it gives the address again.\<close>

theorem address_roundtrip:
  assumes "0 < bb" "bb < 63"
  shows "\<exists>l off. getLineAddress bb a = Some l \<and> getOffset bb a = Some off
     \<and> unat off < 2 ^ bb \<and> a = push_bit bb l OR off
     \<and> line_address bb a = push_bit bb l \<and> setOffset bb off (line_address bb a) = a"
  by (rule line_offset_split [OF assms])

theorem address_roundtrip_witness:
  "\<exists>l off. getLineAddress 6 0x1234 = Some l \<and> getOffset 6 0x1234 = Some off
     \<and> 0x1234 = push_bit 6 l OR off \<and> setOffset 6 off (line_address 6 0x1234) = 0x1234"
  using address_roundtrip [of 6 "0x1234"] by auto

end
