(* ===== verification/Line_Store.thy ===== *)
theory Line_Store
  imports Ruby_Address
begin

text \<open>
  The contract shared by the address-indexed stores of the Ruby controllers: a cache, a TBE
  table and a perfect cache all map line addresses to entries, allocate an entry where there is
  none and room for one, and deallocate the entry of an address.  \<open>look\<close> is the store's map.
\<close>

datatype AccessPermission = Read_Only | Read_Write | Maybe_Stale | Backing_Store
  | Invalid | NotPresent | Busy

datatype RubyRequestType = LD | ST | ATOMIC | IFETCH | IO | REPLACEMENT | Load_Linked
  | Store_Conditional | RMW_Read | RMW_Write | Locked_RMW_Read | Locked_RMW_Write
  | COMMIT | RT_NULL | FLUSH

definition is_line :: "nat \<Rightarrow> addr \<Rightarrow> bool" where
  "is_line bb a = (a = line_address bb a)"

text \<open>A client's sequence of operations on a store, and its effect on a map: adding a present
  line, removing an absent one or using an address that is no line of the store is an error.\<close>

datatype 'e store_op = Add_Line addr 'e | Remove_Line addr

fun store_run :: "('s \<Rightarrow> addr \<Rightarrow> 'e \<Rightarrow> 's option) \<Rightarrow> ('s \<Rightarrow> addr \<Rightarrow> 's option) \<Rightarrow> 'e store_op list
    \<Rightarrow> 's \<Rightarrow> 's option" where
  "store_run alloc dealloc [] s = Some s"
| "store_run alloc dealloc (Add_Line a e # ops) s = do { s' \<leftarrow> alloc s a e; store_run alloc dealloc ops s' }"
| "store_run alloc dealloc (Remove_Line a # ops) s = do { s' \<leftarrow> dealloc s a; store_run alloc dealloc ops s' }"

fun map_run :: "(addr \<Rightarrow> bool) \<Rightarrow> (addr \<Rightarrow> 'e \<Rightarrow> 'e) \<Rightarrow> 'e store_op list \<Rightarrow> (addr \<rightharpoonup> 'e)
    \<Rightarrow> (addr \<rightharpoonup> 'e) option" where
  "map_run line stored [] m = Some m"
| "map_run line stored (Add_Line a e # ops) m =
     (if line a \<and> m a = None then map_run line stored ops (m(a \<mapsto> stored a e)) else None)"
| "map_run line stored (Remove_Line a # ops) m =
     (if line a \<and> m a \<noteq> None then map_run line stored ops (m(a := None)) else None)"

locale line_store =
  fixes line :: "addr \<Rightarrow> bool"
    and look :: "'s \<Rightarrow> addr \<Rightarrow> 'e option"
    and alloc :: "'s \<Rightarrow> addr \<Rightarrow> 'e \<Rightarrow> 's option"
    and dealloc :: "'s \<Rightarrow> addr \<Rightarrow> 's option"
    and room :: "'s \<Rightarrow> addr \<Rightarrow> bool"
    and stored :: "addr \<Rightarrow> 'e \<Rightarrow> 'e"
    and store_inv :: "'s \<Rightarrow> bool"
  assumes alloc_ok: "store_inv s \<Longrightarrow> line a \<Longrightarrow> look s a = None \<Longrightarrow> room s a \<Longrightarrow>
      succeeds (alloc s a e) (\<lambda>s'. store_inv s' \<and> look s' = (look s)(a \<mapsto> stored a e))"
    and dealloc_ok: "store_inv s \<Longrightarrow> line a \<Longrightarrow> look s a \<noteq> None \<Longrightarrow>
      succeeds (dealloc s a) (\<lambda>s'. store_inv s' \<and> look s' = (look s)(a := None) \<and> room s' a)"
begin

text \<open>Allocating and deallocating an address leaves the map as it was.\<close>

lemma alloc_dealloc:
  assumes "store_inv s" "line a" "look s a = None" "room s a"
  shows "succeeds (do { s' \<leftarrow> alloc s a e; dealloc s' a })
    (\<lambda>s'. store_inv s' \<and> look s' = look s \<and> room s' a)"
  by (rule succeeds_bind [OF alloc_ok [OF assms]], rule succeeds_mono [OF dealloc_ok])
    (use assms in \<open>auto simp: fun_upd_idem\<close>)

text \<open>Replacing the entry of \<open>b\<close> by one for \<open>a\<close> never fails and touches no third address.\<close>

lemma replace_entry:
  assumes "store_inv s" "line a" "line b" "look s a = None" "look s b \<noteq> None"
    and room: "\<And>s'. store_inv s' \<Longrightarrow> look s' = (look s)(b := None) \<Longrightarrow> room s' b \<Longrightarrow> room s' a"
  shows "succeeds (do { s' \<leftarrow> dealloc s b; alloc s' a e })
    (\<lambda>s'. store_inv s' \<and> look s' = (look s)(b := None, a \<mapsto> stored a e))"
proof (rule succeeds_bind [OF dealloc_ok [OF assms(1,3,5)]])
  fix s' assume s': "store_inv s' \<and> look s' = (look s)(b := None) \<and> room s' b"
  then show "succeeds (alloc s' a e)
      (\<lambda>s'. store_inv s' \<and> look s' = (look s)(b := None, a \<mapsto> stored a e))"
    using alloc_ok [of s' a e] room [of s'] assms(2,4) by (auto split: if_splits)
qed

text \<open>A store that never runs out of room implements the map over every sequence of operations.\<close>

lemma run_refines_map:
  assumes "\<And>s a. store_inv s \<Longrightarrow> room s a"
  shows "store_inv s \<Longrightarrow> map_run line stored ops (look s) = Some m \<Longrightarrow>
    succeeds (store_run alloc dealloc ops s) (\<lambda>s'. store_inv s' \<and> look s' = m)"
proof (induction ops arbitrary: s)
  case (Cons op ops)
  show ?case
  proof (cases op)
    case (Add_Line a e)
    with Cons.prems have a: "line a" "look s a = None" "map_run line stored ops ((look s)(a \<mapsto> stored a e)) = Some m"
      by (simp_all split: if_splits)
    show ?thesis unfolding Add_Line store_run.simps
      by (rule succeeds_bind [OF alloc_ok [OF Cons.prems(1) a(1,2) assms [OF Cons.prems(1)]]])
        (rule Cons.IH, use a(3) in \<open>auto simp del: fun_upd_apply\<close>)
  next
    case (Remove_Line a)
    with Cons.prems have a: "line a" "look s a \<noteq> None" "map_run line stored ops ((look s)(a := None)) = Some m"
      by (simp_all split: if_splits)
    show ?thesis unfolding Remove_Line store_run.simps
      by (rule succeeds_bind [OF dealloc_ok [OF Cons.prems(1) a(1,2)]]) (rule Cons.IH, use a(3) in \<open>auto simp del: fun_upd_apply\<close>)
  qed
qed simp

end

end
