(* ===== verification/Replacement.thy ===== *)
theory Replacement
  imports Prelude
begin

text \<open>
  The replacement policies of Ruby caches:
  \<^verbatim>\<open>AbstractReplacementPolicy.hh\<close>, \<^verbatim>\<open>LRUPolicy.hh\<close> and \<^verbatim>\<open>PseudoLRUPolicy.hh\<close> under
  \<^verbatim>\<open>src/Lab5/gem5/src/mem/ruby/system\<close>.  The virtual calls \<^verbatim>\<open>touch\<close> and \<^verbatim>\<open>getVictim\<close> are the
  locale \<open>replacement_policy\<close>, which both classes and their tagged union \<open>policy\<close> interpret.
  Indices are natural numbers (the callers pass bit selections) and time stamps integers.
\<close>

section \<open>The abstract policy\<close>

locale replacement_policy =
  fixes touch :: "'p \<Rightarrow> nat \<Rightarrow> nat \<Rightarrow> int \<Rightarrow> 'p option"
    and victim :: "'p \<Rightarrow> nat \<Rightarrow> nat option"
    and num_sets :: "'p \<Rightarrow> nat"
    and num_ways :: "'p \<Rightarrow> nat"
    and policy_ok :: "'p \<Rightarrow> bool"
    and fresh :: "'p \<Rightarrow> nat \<Rightarrow> int \<Rightarrow> bool"
  assumes touch_ok: "policy_ok p \<Longrightarrow> st < num_sets p \<Longrightarrow> way < num_ways p \<Longrightarrow>
      succeeds (touch p st way t)
        (\<lambda>p'. policy_ok p' \<and> num_sets p' = num_sets p \<and> num_ways p' = num_ways p)"
    and victim_ok: "policy_ok p \<Longrightarrow> st < num_sets p \<Longrightarrow>
      succeeds (victim p st) (\<lambda>v. v < num_ways p)"
    and not_last_touched: "policy_ok p \<Longrightarrow> st < num_sets p \<Longrightarrow> way < num_ways p \<Longrightarrow> 1 < num_ways p \<Longrightarrow>
      touch p st way t = Some p' \<Longrightarrow> fresh p st t \<Longrightarrow> victim p' st \<noteq> Some way"
begin

lemma touch_then_victim:
  assumes "policy_ok p" "st < num_sets p" "way < num_ways p" "1 < num_ways p" "fresh p st t"
  shows "\<exists>p' v. touch p st way t = Some p' \<and> victim p' st = Some v \<and> v < num_ways p \<and> v \<noteq> way"
proof -
  obtain p' where p': "touch p st way t = Some p'" "policy_ok p'" "num_sets p' = num_sets p"
    "num_ways p' = num_ways p"
    using touch_ok [OF assms(1-3)] by (auto simp: succeeds_iff)
  then obtain v where "victim p' st = Some v" "v < num_ways p"
    using victim_ok [of p' st] assms(2) by (auto simp: succeeds_iff)
  with p' not_last_touched [OF assms(1-4) p'(1) assms(5)] show ?thesis by auto
qed

end

section \<open>True LRU\<close>

record LRUPolicy =
  l_num_sets :: nat
  l_assoc :: nat
  m_last_ref_ptr :: "int list list"

definition new_LRUPolicy :: "nat \<Rightarrow> nat \<Rightarrow> LRUPolicy" where
  "new_LRUPolicy n a =
     \<lparr> l_num_sets = n, l_assoc = a, m_last_ref_ptr = replicate n (replicate a 0) \<rparr>"

definition lru_touch :: "LRUPolicy \<Rightarrow> nat \<Rightarrow> nat \<Rightarrow> int \<Rightarrow> LRUPolicy option" where
  "lru_touch p st index time = do {
     assert_that (index < l_assoc p);
     assert_that (st < l_num_sets p);
     t \<leftarrow> wr2 (m_last_ref_ptr p) st index time;
     Some (p\<lparr> m_last_ref_ptr := t \<rparr>)
   }"

fun lru_scan :: "int list \<Rightarrow> nat list \<Rightarrow> nat \<times> int \<Rightarrow> (nat \<times> int) option" where
  "lru_scan row [] best = Some best"
| "lru_scan row (i # is) (smallest_index, smallest_time) = do {
     time \<leftarrow> rd row i;
     lru_scan row is (if time < smallest_time then (i, time) else (smallest_index, smallest_time))
   }"

definition lru_getVictim :: "LRUPolicy \<Rightarrow> nat \<Rightarrow> nat option" where
  "lru_getVictim p st = do {
     row \<leftarrow> rd (m_last_ref_ptr p) st;
     t0 \<leftarrow> rd row 0;
     (i, t) \<leftarrow> lru_scan row [0..<l_assoc p] (0, t0);
     Some i
   }"

definition getLastAccess :: "int list list \<Rightarrow> nat \<Rightarrow> nat \<Rightarrow> int option" where
  "getLastAccess refs st way = rd2 refs st way"

definition lru_ok :: "LRUPolicy \<Rightarrow> bool" where
  "lru_ok p = (0 < l_assoc p \<and> dims (l_num_sets p) (l_assoc p) (m_last_ref_ptr p))"

lemma lru_scan_min:
  "b < length row \<Longrightarrow> k \<le> length row \<Longrightarrow> (\<forall>w<n. row ! b \<le> row ! w) \<Longrightarrow>
   (\<forall>w<b. row ! b < row ! w) \<Longrightarrow> b \<le> n \<Longrightarrow>
   succeeds (lru_scan row [n..<k] (b, row ! b))
     (\<lambda>(i, t). i < length row \<and> (\<forall>w<max n k. row ! i \<le> row ! w) \<and> (\<forall>w<i. row ! i < row ! w))"
proof (induction "k - n" arbitrary: n b)
  case 0
  then show ?case by auto
next
  case (Suc d)
  then have nk: "n < k" by simp
  have "succeeds (lru_scan row [Suc n..<k]
      (if row ! n < row ! b then (n, row ! n) else (b, row ! b)))
     (\<lambda>(i, t). i < length row \<and> (\<forall>w<max (Suc n) k. row ! i \<le> row ! w) \<and> (\<forall>w<i. row ! i < row ! w))"
  proof (cases "row ! n < row ! b")
    case True
    then have "\<forall>w<n. row ! n < row ! w" using Suc.prems(3) by (meson less_le_trans)
    with True Suc.prems nk Suc.hyps(2) Suc.hyps(1) [of "Suc n" n] show ?thesis
      by (auto simp: less_Suc_eq less_imp_le)
  next
    case False
    with Suc.prems nk Suc.hyps(2) Suc.hyps(1) [of "Suc n" b] show ?thesis
      by (auto simp: less_Suc_eq)
  qed
  with nk Suc.prems(2) show ?case
    by (simp add: upt_conv_Cons arr_simps max_def split: if_splits)
qed

lemma lru_victim_least:
  assumes "lru_ok p" "st < l_num_sets p"
  defines "row \<equiv> m_last_ref_ptr p ! st"
  shows "succeeds (lru_getVictim p st)
    (\<lambda>v. v < l_assoc p \<and> (\<forall>w<l_assoc p. row ! v \<le> row ! w) \<and> (\<forall>w<v. row ! v < row ! w))"
proof -
  have d: "dims (l_num_sets p) (l_assoc p) (m_last_ref_ptr p)" "0 < l_assoc p"
    using assms(1) by (simp_all add: lru_ok_def)
  have l: "length row = l_assoc p" and s: "st < length (m_last_ref_ptr p)"
    using dims_row [OF d(1) assms(2)] dims_length [OF d(1)] assms(2) by (simp_all add: row_def)
  from lru_scan_min [of 0 row "l_assoc p" 0] l d(2) s show ?thesis
    by (auto simp: lru_getVictim_def arr_simps row_def [symmetric] succeeds_iff)
qed

lemma lru_touch_eq:
  assumes "lru_ok p" "st < l_num_sets p" "way < l_assoc p"
  shows "lru_touch p st way t = Some (p\<lparr> m_last_ref_ptr :=
     (m_last_ref_ptr p)[st := (m_last_ref_ptr p ! st)[way := t]] \<rparr>)"
  using assms by (simp add: lru_touch_def lru_ok_def arr_simps dims_length dims_row)

text \<open>\<open>lru_fresh p st t\<close>: the time \<open>t\<close> is later than every stamp of the set, as the event
  queue's clock is when it has advanced since the last touch.  \<^verbatim>\<open>touch\<close> does not check it.\<close>

definition lru_fresh :: "LRUPolicy \<Rightarrow> nat \<Rightarrow> int \<Rightarrow> bool" where
  "lru_fresh p st t = (\<forall>w<l_assoc p. m_last_ref_ptr p ! st ! w < t)"

interpretation lru: replacement_policy lru_touch lru_getVictim l_num_sets l_assoc lru_ok lru_fresh
proof unfold_locales
  fix p st way t
  assume a: "lru_ok p" "st < l_num_sets p" "way < l_assoc p"
  then show "succeeds (lru_touch p st way t)
      (\<lambda>p'. lru_ok p' \<and> l_num_sets p' = l_num_sets p \<and> l_assoc p' = l_assoc p)"
    by (simp add: lru_touch_eq) (simp add: lru_ok_def dims_upd)
next
  fix p st
  assume a: "lru_ok p" "st < l_num_sets p"
  show "succeeds (lru_getVictim p st) (\<lambda>v. v < l_assoc p)"
    by (rule succeeds_mono [OF lru_victim_least [OF a]]) simp
next
  fix p st way t p'
  assume a: "lru_ok p" "st < l_num_sets p" "way < l_assoc p" "1 < l_assoc p"
    and p': "lru_touch p st way t = Some p'" and f: "lru_fresh p st t"
  have d: "dims (l_num_sets p) (l_assoc p) (m_last_ref_ptr p)" using a(1) by (simp add: lru_ok_def)
  have ok': "lru_ok p'" and g: "l_num_sets p' = l_num_sets p" "l_assoc p' = l_assoc p"
    and row: "m_last_ref_ptr p' ! st = (m_last_ref_ptr p ! st)[way := t]"
    using p' a d by (auto simp: lru_touch_eq lru_ok_def dims_upd dims_length)
  obtain w where w: "w < l_assoc p" "w \<noteq> way"
    using a(3,4) by (metis One_nat_def less_Suc_eq less_one not_less_zero zero_less_Suc)
  show "lru_getVictim p' st \<noteq> Some way"
  proof
    assume "lru_getVictim p' st = Some way"
    then have "m_last_ref_ptr p' ! st ! way \<le> m_last_ref_ptr p' ! st ! w"
      using lru_victim_least [OF ok', of st] g a(2) w by (auto simp: succeeds_iff)
    with row w f a(3) dims_row [OF d a(2)] show False by (auto simp: lru_fresh_def)
  qed
qed

section \<open>Tree-based pseudo LRU\<close>

record PseudoLRUPolicy =
  t_num_sets :: nat
  t_assoc :: nat
  t_last_ref_ptr :: "int list list"
  m_effective_assoc :: nat
  m_num_levels :: nat
  m_trees :: "UINT64 list"

function effective_assoc :: "nat \<Rightarrow> nat \<Rightarrow> nat" where
  "effective_assoc a e = (if 0 < e \<and> e < a then effective_assoc a (2 * e) else e)"
  by pat_completeness auto
termination by (relation "measure (\<lambda>(a, e). a - e)") auto

declare effective_assoc.simps [simp del]

fun tree_levels :: "nat \<Rightarrow> nat" where
  "tree_levels a = (if a div 2 = 0 then 0 else tree_levels (a div 2) + 1)"

declare tree_levels.simps [simp del]

definition new_PseudoLRUPolicy :: "nat \<Rightarrow> nat \<Rightarrow> PseudoLRUPolicy option" where
  "new_PseudoLRUPolicy n a = do {
     assert_that (0 < n \<and> 1 < a \<and> a \<le> 8 * 4);
     let e = effective_assoc a 1;
     let l = tree_levels e;
     assert_that (l < 4 * 4);
     Some \<lparr> t_num_sets = n, t_assoc = a, t_last_ref_ptr = replicate n (replicate a 0),
            m_effective_assoc = e, m_num_levels = l, m_trees = replicate n 0 \<rparr>
   }"

text \<open>At most 31 tree nodes are used, so the \<^verbatim>\<open>int\<close> shifts of the source stay in range.\<close>

fun plru_touch_loop :: "nat \<Rightarrow> nat \<Rightarrow> nat \<Rightarrow> UINT64 \<Rightarrow> UINT64" where
  "plru_touch_loop 0 index tree_index tree = tree"
| "plru_touch_loop (Suc i) index tree_index tree =
     (let node_val = odd (index div 2 ^ i)
      in plru_touch_loop i index (if node_val then tree_index * 2 + 2 else tree_index * 2 + 1)
           (if node_val then set_bit tree_index tree else unset_bit tree_index tree))"

definition plru_touch :: "PseudoLRUPolicy \<Rightarrow> nat \<Rightarrow> nat \<Rightarrow> int \<Rightarrow> PseudoLRUPolicy option" where
  "plru_touch p st index time = do {
     assert_that (index < t_assoc p);
     assert_that (st < t_num_sets p);
     tree \<leftarrow> rd (m_trees p) st;
     trees \<leftarrow> wr (m_trees p) st (plru_touch_loop (m_num_levels p) index 0 tree);
     t \<leftarrow> wr2 (t_last_ref_ptr p) st index time;
     Some (p\<lparr> m_trees := trees, t_last_ref_ptr := t \<rparr>)
   }"

fun plru_victim_loop :: "nat \<Rightarrow> nat \<Rightarrow> nat \<Rightarrow> UINT64 \<Rightarrow> nat \<Rightarrow> nat \<Rightarrow> nat" where
  "plru_victim_loop 0 eff i tree tree_index index = index"
| "plru_victim_loop (Suc k) eff i tree tree_index index =
     (let node_val = bit tree tree_index
      in plru_victim_loop k eff (i + 1) tree
           (if node_val then tree_index * 2 + 1 else tree_index * 2 + 2)
           (index + (if node_val then 0 else eff div 2 ^ (i + 1))))"

definition plru_getVictim :: "PseudoLRUPolicy \<Rightarrow> nat \<Rightarrow> nat option" where
  "plru_getVictim p st = do {
     tree \<leftarrow> rd (m_trees p) st;
     let index = plru_victim_loop (m_num_levels p) (m_effective_assoc p) 0 tree 0 0;
     assert_that (index < m_effective_assoc p);
     Some (if t_assoc p - 1 < index then t_assoc p - 1 else index)
   }"

definition plru_ok :: "PseudoLRUPolicy \<Rightarrow> bool" where
  "plru_ok p = (dims (t_num_sets p) (t_assoc p) (t_last_ref_ptr p)
     \<and> length (m_trees p) = t_num_sets p
     \<and> 1 < t_assoc p \<and> t_assoc p \<le> 32
     \<and> m_effective_assoc p = 2 ^ m_num_levels p
     \<and> t_assoc p \<le> m_effective_assoc p \<and> m_effective_assoc p < 2 * t_assoc p)"

lemma effective_assoc_exp:
  "2 ^ j < 2 * a \<Longrightarrow>
   \<exists>l. effective_assoc a (2 ^ j) = 2 ^ l \<and> a \<le> 2 ^ l \<and> 2 ^ l < 2 * a"
proof (induction "a - 2 ^ j" arbitrary: j rule: less_induct)
  case less
  show ?case
  proof (cases "2 ^ j < a")
    case True
    then have "a - 2 ^ (j + 1) < a - 2 ^ j" by (simp add: diff_less_mono2)
    with less.hyps [of "j + 1"] True show ?thesis
      by (simp add: effective_assoc.simps [of a "2 ^ j"])
  next
    case False
    with less.prems show ?thesis
      by (auto simp: effective_assoc.simps [of a "2 ^ j"])
  qed
qed

lemma tree_levels_exp: "tree_levels (2 ^ l) = l"
  by (induction l) (simp_all add: tree_levels.simps)

lemma new_plru_ok:
  assumes "0 < n" "1 < a" "a \<le> 32"
  shows "succeeds (new_PseudoLRUPolicy n a)
    (\<lambda>p. plru_ok p \<and> t_num_sets p = n \<and> t_assoc p = a)"
proof -
  obtain l where l: "effective_assoc a 1 = 2 ^ l" "a \<le> 2 ^ l" "2 ^ l < 2 * a"
    using effective_assoc_exp [of 0 a] assms by auto
  have "(2::nat) ^ l < 2 ^ 6" using l assms by simp
  then have "l < 6" using power_less_imp_less_exp [of "2::nat" l 6] by simp
  with assms l show ?thesis
    by (simp add: new_PseudoLRUPolicy_def Let_def tree_levels_exp plru_ok_def dims_replicate)
qed

lemma plru_victim_range:
  "plru_victim_loop k (2 ^ (i + k)) i tree ti index < index + 2 ^ k
     \<and> index \<le> plru_victim_loop k (2 ^ (i + k)) i tree ti index"
proof (induction k arbitrary: i ti index)
  case 0
  then show ?case by simp
next
  case (Suc k)
  have e: "(2::nat) ^ (i + Suc k) div 2 ^ (i + 1) = 2 ^ k"
    using power_diff [of "2::nat" "i + 1" "i + Suc k"] by simp
  have "plru_victim_loop k (2 ^ (i + 1 + k)) (i + 1) tree ti' index' < index' + 2 ^ k
     \<and> index' \<le> plru_victim_loop k (2 ^ (i + 1 + k)) (i + 1) tree ti' index'" for ti' index'
    by (rule Suc.IH [of "i + 1" ti' index'])
  from this [of "if bit tree ti then ti * 2 + 1 else ti * 2 + 2"
      "index + (if bit tree ti then 0 else 2 ^ k)"] e
  show ?case by (auto simp: Let_def)
qed

text \<open>Touching only writes nodes of the subtree it walks: the root keeps what it was set to.\<close>

lemma plru_touch_root: "0 < ti \<Longrightarrow> bit (plru_touch_loop i index ti tree) 0 = bit tree 0"
  by (induction i arbitrary: ti tree)
    (auto simp: Let_def bit_set_bit_iff bit_unset_bit_iff)

lemma plru_root_bit:
  "bit (plru_touch_loop (Suc l) index 0 tree) 0 = odd (index div 2 ^ l)"
  by (auto simp: Let_def plru_touch_root bit_set_bit_iff bit_unset_bit_iff)

lemma plru_first_turn:
  assumes "root = bit tree 0"
  shows "plru_victim_loop (Suc l) (2 ^ Suc l) 0 tree 0 0 < (if root then 2 ^ l else 2 ^ Suc l)
    \<and> (if root then 0 else 2 ^ l) \<le> plru_victim_loop (Suc l) (2 ^ Suc l) 0 tree 0 0"
  using plru_victim_range [of l 1 tree "if root then 1 else Suc (Suc 0)"
      "if root then 0 else 2 ^ l"] assms
  by (auto simp: Let_def)

lemma odd_upper_half: "index < 2 ^ Suc l \<Longrightarrow> odd (index div 2 ^ l) = (2 ^ l \<le> index)"
  for index :: nat
proof -
  assume "index < 2 ^ Suc l"
  then have "index div 2 ^ l < 2" by (simp add: div_less_iff_less_mult)
  then have "odd (index div 2 ^ l) = (0 < index div 2 ^ l)" by (cases "index div 2 ^ l") auto
  then show ?thesis by (simp add: div_greater_zero_iff)
qed

lemma plru_levels: "plru_ok p \<Longrightarrow> \<exists>l. m_num_levels p = Suc l"
  by (cases "m_num_levels p") (auto simp: plru_ok_def)

lemma plru_victim_eq:
  assumes "plru_ok p" "st < t_num_sets p" "m_num_levels p = Suc l"
  defines "i \<equiv> plru_victim_loop (Suc l) (2 ^ Suc l) 0 (m_trees p ! st) 0 0"
  shows "plru_getVictim p st = Some (min i (t_assoc p - 1))"
proof -
  have "i < 2 ^ Suc l"
    using plru_victim_range [of "Suc l" 0 "m_trees p ! st" 0 0] by (simp add: i_def)
  with assms show ?thesis
    by (auto simp: plru_getVictim_def plru_ok_def arr_simps Let_def min_def i_def)
qed

lemma plru_touch_eq:
  assumes "plru_ok p" "st < t_num_sets p" "way < t_assoc p"
  shows "plru_touch p st way t = Some (p\<lparr>
     m_trees := (m_trees p)[st := plru_touch_loop (m_num_levels p) way 0 (m_trees p ! st)],
     t_last_ref_ptr := (t_last_ref_ptr p)[st := (t_last_ref_ptr p ! st)[way := t]] \<rparr>)"
  using assms by (auto simp: plru_touch_def plru_ok_def arr_simps dims_length dims_row)

lemma plru_touch_ok:
  assumes "plru_ok p" "st < t_num_sets p" "way < t_assoc p"
  shows "succeeds (plru_touch p st way t)
    (\<lambda>p'. plru_ok p' \<and> t_num_sets p' = t_num_sets p \<and> t_assoc p' = t_assoc p)"
  using assms by (simp add: plru_touch_eq) (simp add: plru_ok_def dims_upd)

lemma plru_not_last:
  assumes "plru_ok p" "st < t_num_sets p" "way < t_assoc p" "plru_touch p st way t = Some p'"
  shows "plru_getVictim p' st \<noteq> Some way"
proof -
  obtain l where l: "m_num_levels p = Suc l" using plru_levels [OF assms(1)] by blast
  have ok: "plru_ok p'" "t_num_sets p' = t_num_sets p" "t_assoc p' = t_assoc p"
    using plru_touch_ok [OF assms(1-3), of t] assms(4) by (auto simp: succeeds_iff)
  have l': "m_num_levels p' = Suc l" and
    tr: "m_trees p' ! st = plru_touch_loop (Suc l) way 0 (m_trees p ! st)"
    using assms l by (auto simp: plru_touch_eq plru_ok_def)
  have b: "t_assoc p \<le> 2 ^ Suc l" "2 ^ Suc l < 2 * t_assoc p"
    using assms(1) l by (auto simp: plru_ok_def)
  let ?root = "bit (m_trees p' ! st) 0"
  have root: "?root = (2 ^ l \<le> way)"
    unfolding tr plru_root_bit using odd_upper_half [of way l] assms(3) b(1) by linarith
  show ?thesis
    using plru_victim_eq [OF ok(1) _ l', of st] ok assms(2)
      plru_first_turn [OF refl, where tree = "m_trees p' ! st" and l = l] root b assms(3)
    by (auto split: if_splits)
qed

interpretation plru: replacement_policy plru_touch plru_getVictim t_num_sets t_assoc plru_ok
  "\<lambda>p st t. True"
proof unfold_locales
  fix p st way t
  assume "plru_ok p" "st < t_num_sets p" "way < t_assoc p"
  then show "succeeds (plru_touch p st way t)
      (\<lambda>p'. plru_ok p' \<and> t_num_sets p' = t_num_sets p \<and> t_assoc p' = t_assoc p)"
    by (rule plru_touch_ok)
next
  fix p st
  assume a: "plru_ok p" "st < t_num_sets p"
  obtain l where "m_num_levels p = Suc l" using plru_levels [OF a(1)] by blast
  with a show "succeeds (plru_getVictim p st) (\<lambda>v. v < t_assoc p)"
    by (auto simp: plru_victim_eq plru_ok_def)
next
  fix p st way t p'
  assume "plru_ok p" "st < t_num_sets p" "way < t_assoc p" "plru_touch p st way t = Some p'"
  then show "plru_getVictim p' st \<noteq> Some way" by (rule plru_not_last)
qed

section \<open>The policy of a cache\<close>

text \<open>A cache holds a pointer to one of the two policies; its virtual calls dispatch on it.\<close>

datatype policy = PLru LRUPolicy | PTree PseudoLRUPolicy

fun touch :: "policy \<Rightarrow> nat \<Rightarrow> nat \<Rightarrow> int \<Rightarrow> policy option" where
  "touch (PLru p) st way time = map_option PLru (lru_touch p st way time)"
| "touch (PTree p) st way time = map_option PTree (plru_touch p st way time)"

fun getVictim :: "policy \<Rightarrow> nat \<Rightarrow> nat option" where
  "getVictim (PLru p) st = lru_getVictim p st"
| "getVictim (PTree p) st = plru_getVictim p st"

fun last_access :: "policy \<Rightarrow> nat \<Rightarrow> nat \<Rightarrow> int option" where
  "last_access (PLru p) st way = getLastAccess (m_last_ref_ptr p) st way"
| "last_access (PTree p) st way = getLastAccess (t_last_ref_ptr p) st way"

fun policy_sets :: "policy \<Rightarrow> nat" where
  "policy_sets (PLru p) = l_num_sets p"
| "policy_sets (PTree p) = t_num_sets p"

fun policy_ways :: "policy \<Rightarrow> nat" where
  "policy_ways (PLru p) = l_assoc p"
| "policy_ways (PTree p) = t_assoc p"

fun policy_inv :: "policy \<Rightarrow> bool" where
  "policy_inv (PLru p) = lru_ok p"
| "policy_inv (PTree p) = plru_ok p"

fun policy_fresh :: "policy \<Rightarrow> nat \<Rightarrow> int \<Rightarrow> bool" where
  "policy_fresh (PLru p) st t = lru_fresh p st t"
| "policy_fresh (PTree p) st t = True"

lemma succeeds_map_option [simp]: "succeeds (map_option f m) Q = succeeds m (\<lambda>x. Q (f x))"
  by (cases m) simp_all

interpretation pol: replacement_policy touch getVictim policy_sets policy_ways policy_inv policy_fresh
proof unfold_locales
  fix p st way t
  assume "policy_inv p" "st < policy_sets p" "way < policy_ways p"
  then show "succeeds (touch p st way t)
      (\<lambda>p'. policy_inv p' \<and> policy_sets p' = policy_sets p \<and> policy_ways p' = policy_ways p)"
    by (cases p) (simp_all add: lru.touch_ok plru.touch_ok)
next
  fix p st
  assume "policy_inv p" "st < policy_sets p"
  then show "succeeds (getVictim p st) (\<lambda>v. v < policy_ways p)"
    by (cases p) (simp_all add: lru.victim_ok plru.victim_ok)
next
  fix p st way t p'
  assume "policy_inv p" "st < policy_sets p" "way < policy_ways p" "1 < policy_ways p"
    "touch p st way t = Some p'" "policy_fresh p st t"
  then show "getVictim p' st \<noteq> Some way"
    by (cases p) (auto dest: lru.not_last_touched plru.not_last_touched)
qed

text \<open>The way touched at time \<open>t\<close> is the next victim of its set.  Under LRU that is so when no other way has an older stamp,
  nor an earlier way the same one; a later time than every stamp (\<open>policy_fresh\<close>, which the code does not
  enforce) excludes it when there is another way.\<close>

fun oldest_after_touch :: "policy \<Rightarrow> nat \<Rightarrow> nat \<Rightarrow> int \<Rightarrow> bool" where
  "oldest_after_touch (PLru p) st way t =
     (\<forall>w<l_assoc p. (w < way \<longrightarrow> t < m_last_ref_ptr p ! st ! w) \<and> (way < w \<longrightarrow> t \<le> m_last_ref_ptr p ! st ! w))"
| "oldest_after_touch (PTree p) st way t = False"

lemma fresh_not_oldest:
  assumes "way < policy_ways p" "1 < policy_ways p" "policy_fresh p st t"
  shows "\<not> oldest_after_touch p st way t"
proof (cases p)
  case (PLru q)
  define w where "w = (if way = 0 then 1 else 0 :: nat)"
  have "w < l_assoc q" "w \<noteq> way" using assms(1,2) PLru by (auto simp: w_def)
  with assms(3) PLru show ?thesis by (fastforce simp: lru_fresh_def)
qed (use assms in simp)

lemma lru_touched_victim:
  assumes "lru_ok p" "st < l_num_sets p" "way < l_assoc p" "lru_touch p st way t = Some p'" "lru_getVictim p' st = Some v"
  shows "v = way \<longleftrightarrow> oldest_after_touch (PLru p) st way t"
proof -
  have d: "dims (l_num_sets p) (l_assoc p) (m_last_ref_ptr p)" using assms(1) by (simp add: lru_ok_def)
  have p': "lru_ok p'" "l_num_sets p' = l_num_sets p" "l_assoc p' = l_assoc p"
    "m_last_ref_ptr p' ! st = (m_last_ref_ptr p ! st)[way := t]"
    using assms d by (auto simp: lru_touch_eq lru_ok_def dims_upd dims_length)
  have row: "m_last_ref_ptr p' ! st ! w = (if w = way then t else m_last_ref_ptr p ! st ! w)" if "w < l_assoc p" for w
    using that p'(4) dims_row [OF d assms(2)] by simp
  have v: "v < l_assoc p" "\<And>w. w < l_assoc p \<Longrightarrow> m_last_ref_ptr p' ! st ! v \<le> m_last_ref_ptr p' ! st ! w"
    "\<And>w. w < v \<Longrightarrow> m_last_ref_ptr p' ! st ! v < m_last_ref_ptr p' ! st ! w"
    using lru_victim_least [OF p'(1), of st] p'(2,3) assms(2,5) by (auto simp: succeeds_iff)
  show ?thesis
  proof
    assume "v = way"
    then show "oldest_after_touch (PLru p) st way t" using v row by (metis nat_neq_iff oldest_after_touch.simps(1))
  next
    assume o: "oldest_after_touch (PLru p) st way t"
    show "v = way"
    proof (rule ccontr)
      assume ne: "v \<noteq> way"
      then consider "v < way" | "way < v" by linarith
      then show False
      proof cases
        case 1
        then show False using o v(1) v(2) [OF assms(3)] row [OF v(1)] row [OF assms(3)] by fastforce
      next
        case 2
        then show False using o v(1) v(3) [OF 2] row [OF v(1)] row [OF assms(3)] by fastforce
      qed
    qed
  qed
qed

section \<open>Properties\<close>

text \<open>C24: The LRU victim of a set is the first way with the oldest access time of the set.\<close>

theorem lru_victim_oldest:
  assumes "lru_ok p" "st < l_num_sets p"
  shows "\<exists>v<l_assoc p. lru_getVictim p st = Some v
     \<and> (\<forall>w. w < l_assoc p \<longrightarrow> m_last_ref_ptr p ! st ! v \<le> m_last_ref_ptr p ! st ! w)
     \<and> (\<forall>w. w < v \<longrightarrow> m_last_ref_ptr p ! st ! v < m_last_ref_ptr p ! st ! w)"
  using lru_victim_least [OF assms] by (auto simp: succeeds_iff)

theorem lru_victim_oldest_witness:
  "lru_getVictim \<lparr> l_num_sets = 1, l_assoc = 4, m_last_ref_ptr = [[7, 3, 9, 3]] \<rparr> 0 = Some 1"
proof -
  let ?p = "\<lparr> l_num_sets = 1, l_assoc = 4, m_last_ref_ptr = [[7, 3, 9, 3]] \<rparr>"
  have "lru_ok ?p" by (simp add: lru_ok_def dims_def)
  from lru_victim_oldest [OF this, of 0] obtain v where
    v: "v < 4" "lru_getVictim ?p 0 = Some v"
      "\<And>w. w < 4 \<Longrightarrow> [7, 3, 9, 3 :: int] ! v \<le> [7, 3, 9, 3] ! w"
      "\<And>w. w < v \<Longrightarrow> [7, 3, 9, 3 :: int] ! v < [7, 3, 9, 3] ! w" by auto
  have "v = 0 \<or> v = 1 \<or> v = 2 \<or> v = 3" using v(1) by arith
  with v(3) [of 1] v(4) [of 1] have "v = 1" by (auto simp: numeral_eq_Suc)
  with v(2) show ?thesis by simp
qed

text \<open>C23: When the way touched last is the victim.  Under either policy of a cache, a touch of a way and a search for a victim
  succeed and the victim is a way of the cache.  With pseudo LRU, which is
  created only for more than one way, it is never the way just touched.  With LRU it is the way just touched exactly when no other way of the set has an older stamp than
  the time of the touch, and no earlier way the same one: the code keeps the way that it finds first and
  does not compare the time of a touch with the stamps.  So in a cache of more than one way the way touched last is safe when
  the time of the touch is later than every stamp of its set; it may be the victim when another way was touched at the same
  time, and it is the victim when there is no other way.\<close>

theorem touched_victim_iff:
  assumes "policy_inv p" "st < policy_sets p" "way < policy_ways p"
  shows "\<exists>p' v. touch p st way t = Some p' \<and> policy_inv p' \<and> getVictim p' st = Some v
     \<and> v < policy_ways p \<and> (v = way \<longleftrightarrow> oldest_after_touch p st way t)"
proof -
  obtain p' v where p': "touch p st way t = Some p'" "policy_inv p'" "getVictim p' st = Some v" "v < policy_ways p"
    using pol.touch_ok [OF assms, of t] pol.victim_ok [of _ st] assms(2) by (fastforce simp: succeeds_iff)
  moreover have "v = way \<longleftrightarrow> oldest_after_touch p st way t"
  proof (cases p)
    case (PLru q)
    with p'(1) obtain q' where q': "lru_touch q st way t = Some q'" "p' = PLru q'" by auto
    with PLru p'(3) assms show ?thesis using lru_touched_victim [OF _ _ _ q'(1), of v] by simp
  next
    case (PTree q)
    moreover from this have "1 < t_assoc q" using assms(1) by (simp add: plru_ok_def)
    ultimately show ?thesis using plru.not_last_touched [of q st way t] p' assms by auto
  qed
  ultimately show ?thesis by blast
qed

theorem touched_victim_iff_witness:
  "(\<exists>p' v. touch (PTree \<lparr> t_num_sets = 1, t_assoc = 4, t_last_ref_ptr = [[0, 0, 0, 0]],
       m_effective_assoc = 4, m_num_levels = 2, m_trees = [0] \<rparr>) 0 3 5 = Some p'
     \<and> getVictim p' 0 = Some v \<and> v < 4 \<and> v \<noteq> 3)
   \<and> (\<exists>p' v. touch (PLru \<lparr> l_num_sets = 1, l_assoc = 2, m_last_ref_ptr = [[3, 4]] \<rparr>) 0 0 5 = Some p'
     \<and> getVictim p' 0 = Some v \<and> v \<noteq> 0)
   \<and> (\<exists>p'. touch (PLru \<lparr> l_num_sets = 1, l_assoc = 2, m_last_ref_ptr = [[5, 5]] \<rparr>) 0 0 5 = Some p' \<and> getVictim p' 0 = Some 0)"
  using touched_victim_iff [of "PTree \<lparr> t_num_sets = 1, t_assoc = 4,
      t_last_ref_ptr = [[0, 0, 0, 0]], m_effective_assoc = 4, m_num_levels = 2, m_trees = [0] \<rparr>" 0 3 5]
    touched_victim_iff [of "PLru \<lparr> l_num_sets = 1, l_assoc = 2, m_last_ref_ptr = [[3, 4]] \<rparr>" 0 0 5]
    touched_victim_iff [of "PLru \<lparr> l_num_sets = 1, l_assoc = 2, m_last_ref_ptr = [[5, 5]] \<rparr>" 0 0 5]
  by (auto simp: plru_ok_def lru_ok_def dims_def less_2_cases_iff)

end
