(* ===== verification/Cache_Memory.thy ===== *)
theory Cache_Memory
  imports Line_Store Replacement
begin

text \<open>
  The set-associative Ruby cache, \<^verbatim>\<open>src/Lab5/gem5/src/mem/ruby/system/CacheMemory.cc\<close>.
  \<^verbatim>\<open>m_cache\<close> is a table of entry pointers (\<open>None\<close> is \<^verbatim>\<open>NULL\<close>), \<^verbatim>\<open>m_tag_index\<close> the hash map from
  tags to ways.  The outer option of an operation is \<open>None\<close> for a failed assertion, a panic, a null
  dereference or an access out of range; \<open>bb\<close> is \<^verbatim>\<open>RubySystem::getBlockSizeBits()\<close> and \<open>now\<close> the
  time of the event queue.
\<close>

section \<open>State\<close>

record 'd cache_entry =
  m_Address :: addr
  m_Permission :: AccessPermission
  m_locked :: int
  m_DataBlk :: 'd

definition changePermission :: "AccessPermission \<Rightarrow> 'd cache_entry \<Rightarrow> 'd cache_entry" where
  "changePermission new_perm e =
     (let e = e\<lparr> m_Permission := new_perm \<rparr>
      in if new_perm = Invalid \<or> new_perm = NotPresent then e\<lparr> m_locked := -1 \<rparr> else e)"

record 'd cache_memory =
  m_cache_num_sets :: nat
  m_cache_num_set_bits :: nat
  m_cache_assoc :: nat
  m_start_index_bit :: nat
  m_cache :: "'d cache_entry option list list"
  m_tag_index :: "addr \<rightharpoonup> nat"
  m_replacementPolicy :: policy

section \<open>Operations\<close>

definition cm_init :: "nat \<Rightarrow> nat \<Rightarrow> nat \<Rightarrow> string \<Rightarrow> nat \<Rightarrow> 'd cache_memory option" where
  "cm_init bb sz assoc policy start = do {
     assert_that (0 < assoc);
     let num_sets = (sz div assoc) div 2 ^ bb;
     assert_that (1 < num_sets);
     set_bits \<leftarrow> floorLog2_32 (of_nat num_sets);
     assert_that (0 < set_bits);
     pol \<leftarrow> (if policy = ''PSEUDO_LRU'' then map_option PTree (new_PseudoLRUPolicy num_sets assoc)
             else if policy = ''LRU'' then Some (PLru (new_LRUPolicy num_sets assoc))
             else None);
     Some \<lparr> m_cache_num_sets = num_sets, m_cache_num_set_bits = set_bits, m_cache_assoc = assoc,
            m_start_index_bit = start, m_cache = replicate num_sets (replicate assoc None),
            m_tag_index = Map.empty, m_replacementPolicy = pol \<rparr>
   }"

definition addressToCacheSet :: "nat \<Rightarrow> 'd cache_memory \<Rightarrow> addr \<Rightarrow> nat option" where
  "addressToCacheSet bb c address = do {
     assert_that (is_line bb address);
     i \<leftarrow> bitSelect address (m_start_index_bit c) (m_start_index_bit c + m_cache_num_set_bits c - 1);
     Some (unat i)
   }"

text \<open>The result \<^verbatim>\<open>-1\<close> is the inner \<open>None\<close>.\<close>

definition findTagInSet :: "nat \<Rightarrow> 'd cache_memory \<Rightarrow> nat \<Rightarrow> addr \<Rightarrow> nat option option" where
  "findTagInSet bb c cacheSet tag = do {
     assert_that (is_line bb tag);
     case m_tag_index c tag of
       None \<Rightarrow> Some None
     | Some w \<Rightarrow> do {
         slot \<leftarrow> rd2 (m_cache c) cacheSet w;
         e \<leftarrow> slot;
         Some (if m_Permission e \<noteq> NotPresent then Some w else None)
       }
   }"

definition findTagInSetIgnorePermissions ::
  "nat \<Rightarrow> 'd cache_memory \<Rightarrow> nat \<Rightarrow> addr \<Rightarrow> nat option option" where
  "findTagInSetIgnorePermissions bb c cacheSet tag = do {
     assert_that (is_line bb tag);
     Some (m_tag_index c tag)
   }"

definition locate :: "nat \<Rightarrow> 'd cache_memory \<Rightarrow> addr \<Rightarrow> (nat \<times> nat option) option" where
  "locate bb c address = do {
     assert_that (is_line bb address);
     cacheSet \<leftarrow> addressToCacheSet bb c address;
     loc \<leftarrow> findTagInSet bb c cacheSet address;
     Some (cacheSet, loc)
   }"

definition cm_touch :: "'d cache_memory \<Rightarrow> nat \<Rightarrow> nat \<Rightarrow> int \<Rightarrow> 'd cache_memory option" where
  "cm_touch c cacheSet loc now = do {
     p \<leftarrow> touch (m_replacementPolicy c) cacheSet loc now;
     Some (c\<lparr> m_replacementPolicy := p \<rparr>)
   }"

definition tryCacheAccess :: "nat \<Rightarrow> int \<Rightarrow> 'd cache_memory \<Rightarrow> addr \<Rightarrow> RubyRequestType
    \<Rightarrow> (bool \<times> 'd option \<times> 'd cache_memory) option" where
  "tryCacheAccess bb now c address type = do {
     (cacheSet, loc) \<leftarrow> locate bb c address;
     case loc of
       None \<Rightarrow> Some (False, None, c)
     | Some w \<Rightarrow> do {
         slot \<leftarrow> rd2 (m_cache c) cacheSet w;
         entry \<leftarrow> slot;
         c \<leftarrow> cm_touch c cacheSet w now;
         if m_Permission entry = Read_Write then Some (True, Some (m_DataBlk entry), c)
         else if m_Permission entry = Read_Only \<and> (type = LD \<or> type = IFETCH)
         then Some (True, Some (m_DataBlk entry), c)
         else Some (False, None, c)
       }
   }"

definition testCacheAccess :: "nat \<Rightarrow> int \<Rightarrow> 'd cache_memory \<Rightarrow> addr \<Rightarrow> RubyRequestType
    \<Rightarrow> (bool \<times> 'd option \<times> 'd cache_memory) option" where
  "testCacheAccess bb now c address type = do {
     (cacheSet, loc) \<leftarrow> locate bb c address;
     case loc of
       None \<Rightarrow> Some (False, None, c)
     | Some w \<Rightarrow> do {
         slot \<leftarrow> rd2 (m_cache c) cacheSet w;
         entry \<leftarrow> slot;
         c \<leftarrow> cm_touch c cacheSet w now;
         Some (m_Permission entry \<noteq> NotPresent, Some (m_DataBlk entry), c)
       }
   }"

definition isTagPresent :: "nat \<Rightarrow> 'd cache_memory \<Rightarrow> addr \<Rightarrow> bool option" where
  "isTagPresent bb c address = do {
     (cacheSet, loc) \<leftarrow> locate bb c address;
     Some (loc \<noteq> None)
   }"

fun avail_in :: "addr \<Rightarrow> 'd cache_entry option list \<Rightarrow> bool" where
  "avail_in address [] = False"
| "avail_in address (slot # slots) =
     (case slot of
        Some entry \<Rightarrow> if m_Address entry = address \<or> m_Permission entry = NotPresent then True
                      else avail_in address slots
      | None \<Rightarrow> True)"

definition cacheAvail :: "nat \<Rightarrow> 'd cache_memory \<Rightarrow> addr \<Rightarrow> bool option" where
  "cacheAvail bb c address = do {
     assert_that (is_line bb address);
     cacheSet \<leftarrow> addressToCacheSet bb c address;
     row \<leftarrow> rd (m_cache c) cacheSet;
     Some (avail_in address (take (m_cache_assoc c) row))
   }"

fun first_open :: "nat \<Rightarrow> 'd cache_entry option list \<Rightarrow> nat option" where
  "first_open i [] = None"
| "first_open i (slot # slots) =
     (case slot of
        None \<Rightarrow> Some i
      | Some e \<Rightarrow> if m_Permission e = NotPresent then Some i else first_open (i + 1) slots)"

definition cm_allocate ::
  "nat \<Rightarrow> int \<Rightarrow> 'd cache_memory \<Rightarrow> addr \<Rightarrow> 'd cache_entry \<Rightarrow> 'd cache_memory option" where
  "cm_allocate bb now c address entry = do {
     assert_that (is_line bb address);
     present \<leftarrow> isTagPresent bb c address;
     assert_that (\<not> present);
     avail \<leftarrow> cacheAvail bb c address;
     assert_that avail;
     cacheSet \<leftarrow> addressToCacheSet bb c address;
     row \<leftarrow> rd (m_cache c) cacheSet;
     i \<leftarrow> first_open 0 (take (m_cache_assoc c) row);
     let entry = entry\<lparr> m_Address := address, m_Permission := Invalid, m_locked := -1 \<rparr>;
     cache \<leftarrow> wr2 (m_cache c) cacheSet i (Some entry);
     let c = c\<lparr> m_cache := cache, m_tag_index := (m_tag_index c)(address \<mapsto> i) \<rparr>;
     cm_touch c cacheSet i now
   }"

definition cm_deallocate :: "nat \<Rightarrow> 'd cache_memory \<Rightarrow> addr \<Rightarrow> 'd cache_memory option" where
  "cm_deallocate bb c address = do {
     present \<leftarrow> isTagPresent bb c address;
     assert_that present;
     (cacheSet, loc) \<leftarrow> locate bb c address;
     case loc of
       None \<Rightarrow> Some c
     | Some w \<Rightarrow> do {
         cache \<leftarrow> wr2 (m_cache c) cacheSet w None;
         Some (c\<lparr> m_cache := cache, m_tag_index := (m_tag_index c)(address := None) \<rparr>)
       }
   }"

definition cacheProbe :: "nat \<Rightarrow> 'd cache_memory \<Rightarrow> addr \<Rightarrow> addr option" where
  "cacheProbe bb c address = do {
     assert_that (is_line bb address);
     avail \<leftarrow> cacheAvail bb c address;
     assert_that (\<not> avail);
     cacheSet \<leftarrow> addressToCacheSet bb c address;
     v \<leftarrow> getVictim (m_replacementPolicy c) cacheSet;
     slot \<leftarrow> rd2 (m_cache c) cacheSet v;
     e \<leftarrow> slot;
     Some (m_Address e)
   }"

text \<open>The result \<^verbatim>\<open>NULL\<close> is the inner \<open>None\<close>.\<close>

definition cm_lookup :: "nat \<Rightarrow> 'd cache_memory \<Rightarrow> addr \<Rightarrow> 'd cache_entry option option" where
  "cm_lookup bb c address = do {
     (cacheSet, loc) \<leftarrow> locate bb c address;
     case loc of
       None \<Rightarrow> Some None
     | Some w \<Rightarrow> rd2 (m_cache c) cacheSet w
   }"

definition setMRU :: "nat \<Rightarrow> int \<Rightarrow> 'd cache_memory \<Rightarrow> addr \<Rightarrow> 'd cache_memory option" where
  "setMRU bb now c address = do {
     (cacheSet, loc) \<leftarrow> locate bb c address;
     case loc of None \<Rightarrow> Some c | Some w \<Rightarrow> cm_touch c cacheSet w now
   }"

text \<open>Writing through the pointer that \<^verbatim>\<open>lookup\<close> returned.\<close>

definition cm_modify ::
  "nat \<Rightarrow> 'd cache_memory \<Rightarrow> addr \<Rightarrow> ('d cache_entry \<Rightarrow> 'd cache_entry) \<Rightarrow> 'd cache_memory option" where
  "cm_modify bb c address f = do {
     (cacheSet, loc) \<leftarrow> locate bb c address;
     w \<leftarrow> loc;
     slot \<leftarrow> rd2 (m_cache c) cacheSet w;
     e \<leftarrow> slot;
     cache \<leftarrow> wr2 (m_cache c) cacheSet w (Some (f e));
     Some (c\<lparr> m_cache := cache \<rparr>)
   }"

definition setLocked :: "nat \<Rightarrow> 'd cache_memory \<Rightarrow> addr \<Rightarrow> int \<Rightarrow> 'd cache_memory option" where
  "setLocked bb c address context = cm_modify bb c address (\<lambda>e. e\<lparr> m_locked := context \<rparr>)"

definition clearLocked :: "nat \<Rightarrow> 'd cache_memory \<Rightarrow> addr \<Rightarrow> 'd cache_memory option" where
  "clearLocked bb c address = cm_modify bb c address (\<lambda>e. e\<lparr> m_locked := -1 \<rparr>)"

definition isLocked :: "nat \<Rightarrow> 'd cache_memory \<Rightarrow> addr \<Rightarrow> int \<Rightarrow> bool option" where
  "isLocked bb c address context = do {
     (cacheSet, loc) \<leftarrow> locate bb c address;
     w \<leftarrow> loc;
     slot \<leftarrow> rd2 (m_cache c) cacheSet w;
     e \<leftarrow> slot;
     Some (m_locked e = context)
   }"

section \<open>The invariant and the map a cache represents\<close>

definition cset :: "'d cache_memory \<Rightarrow> addr \<Rightarrow> nat" where
  "cset c a = unat (take_bit (m_cache_num_set_bits c) (drop_bit (m_start_index_bit c) a))"

definition cm_geometry :: "nat \<Rightarrow> 'd cache_memory \<Rightarrow> bool" where
  "cm_geometry bb c =
     (0 < m_cache_assoc c \<and> 0 < m_cache_num_set_bits c
      \<and> 2 ^ m_cache_num_set_bits c \<le> m_cache_num_sets c
      \<and> m_start_index_bit c < 64
      \<and> dims (m_cache_num_sets c) (m_cache_assoc c) (m_cache c)
      \<and> policy_inv (m_replacementPolicy c)
      \<and> policy_sets (m_replacementPolicy c) = m_cache_num_sets c
      \<and> policy_ways (m_replacementPolicy c) = m_cache_assoc c)"

text \<open>Every occupied slot is indexed by its own tag, every tag points at its slot, and no entry
  has the permission \<^verbatim>\<open>NotPresent\<close> (the controllers deallocate entries instead).\<close>

definition cm_tags :: "nat \<Rightarrow> 'd cache_memory \<Rightarrow> bool" where
  "cm_tags bb c =
     ((\<forall>st<m_cache_num_sets c. \<forall>w<m_cache_assoc c. \<forall>e. m_cache c ! st ! w = Some e \<longrightarrow>
         is_line bb (m_Address e) \<and> cset c (m_Address e) = st
         \<and> m_tag_index c (m_Address e) = Some w \<and> m_Permission e \<noteq> NotPresent)
      \<and> (\<forall>a w. m_tag_index c a = Some w \<longrightarrow> is_line bb a \<and> w < m_cache_assoc c
         \<and> (\<exists>e. m_cache c ! cset c a ! w = Some e \<and> m_Address e = a)))"

definition cm_inv :: "nat \<Rightarrow> 'd cache_memory \<Rightarrow> bool" where
  "cm_inv bb c = (cm_geometry bb c \<and> cm_tags bb c)"

definition cm_map :: "'d cache_memory \<Rightarrow> addr \<Rightarrow> 'd cache_entry option" where
  "cm_map c a = (case m_tag_index c a of None \<Rightarrow> None | Some w \<Rightarrow> m_cache c ! cset c a ! w)"

definition free_way :: "'d cache_memory \<Rightarrow> nat \<Rightarrow> bool" where
  "free_way c st = (\<exists>w<m_cache_assoc c. m_cache c ! st ! w = None)"

lemma cset_less: "cm_geometry bb c \<Longrightarrow> cset c a < m_cache_num_sets c"
proof -
  assume "cm_geometry bb c"
  then have "2 ^ m_cache_num_set_bits c \<le> m_cache_num_sets c" by (simp add: cm_geometry_def)
  moreover have "cset c a < 2 ^ m_cache_num_set_bits c"
    by (simp add: cset_def unsigned_take_bit_eq)
  ultimately show ?thesis by simp
qed

lemma address_set:
  "cm_geometry bb c \<Longrightarrow> is_line bb a \<Longrightarrow> addressToCacheSet bb c a = Some (cset c a)"
  by (cases "m_cache_num_set_bits c")
    (simp_all add: addressToCacheSet_def cm_geometry_def bitSelect_eq cset_def)

lemma cm_row:
  assumes "cm_geometry bb c" "st < m_cache_num_sets c"
  shows "st < length (m_cache c)" "length (m_cache c ! st) = m_cache_assoc c"
  using assms dims_length dims_row unfolding cm_geometry_def by metis+

lemma tag_entry:
  assumes "cm_inv bb c" "m_tag_index c a = Some w"
  obtains e where "m_cache c ! cset c a ! w = Some e" "m_Address e = a" "w < m_cache_assoc c"
    "m_Permission e \<noteq> NotPresent" "is_line bb a"
proof -
  have g: "cm_geometry bb c" and t: "cm_tags bb c" using assms(1) by (simp_all add: cm_inv_def)
  obtain e where e: "m_cache c ! cset c a ! w = Some e" "m_Address e = a" "w < m_cache_assoc c"
    "is_line bb a"
    using t assms(2) unfolding cm_tags_def by blast
  have "m_Permission e \<noteq> NotPresent"
    using t cset_less [OF g, of a] e unfolding cm_tags_def by blast
  with e that show thesis by blast
qed

lemma slot_entry:
  assumes "cm_inv bb c" "st < m_cache_num_sets c" "w < m_cache_assoc c"
    "m_cache c ! st ! w = Some e"
  shows "is_line bb (m_Address e)" "cset c (m_Address e) = st" "m_tag_index c (m_Address e) = Some w"
    "m_Permission e \<noteq> NotPresent"
  using assms by (auto simp: cm_inv_def cm_tags_def)

lemma locate_eq:
  assumes "cm_inv bb c" "is_line bb a"
  shows "locate bb c a = Some (cset c a, m_tag_index c a)"
proof -
  have g: "cm_geometry bb c" using assms(1) by (simp add: cm_inv_def)
  note r = cm_row [OF g cset_less [OF g, of a]]
  show ?thesis
  proof (cases "m_tag_index c a")
    case None
    with assms(2) g show ?thesis
      by (simp add: locate_def address_set findTagInSet_def)
  next
    case (Some w)
    from tag_entry [OF assms(1) this] obtain e where "m_cache c ! cset c a ! w = Some e"
      "w < m_cache_assoc c" "m_Permission e \<noteq> NotPresent" by blast
    with Some assms(2) g r show ?thesis
      by (simp add: locate_def address_set findTagInSet_def arr_simps)
  qed
qed

lemma lookup_eq:
  assumes "cm_inv bb c" "is_line bb a"
  shows "cm_lookup bb c a = Some (cm_map c a)"
proof -
  have g: "cm_geometry bb c" using assms(1) by (simp add: cm_inv_def)
  note r = cm_row [OF g cset_less [OF g, of a]]
  show ?thesis
  proof (cases "m_tag_index c a")
    case None
    with assms show ?thesis by (simp add: cm_lookup_def locate_eq cm_map_def)
  next
    case (Some w)
    from tag_entry [OF assms(1) this] have "w < m_cache_assoc c" by blast
    with Some assms r show ?thesis by (simp add: cm_lookup_def locate_eq cm_map_def arr_simps)
  qed
qed

lemma map_dom: "cm_inv bb c \<Longrightarrow> (cm_map c a = None) = (m_tag_index c a = None)"
  by (auto simp: cm_map_def split: option.split elim: tag_entry)

lemma present_eq: "cm_inv bb c \<Longrightarrow> is_line bb a \<Longrightarrow> isTagPresent bb c a = Some (cm_map c a \<noteq> None)"
  by (simp add: isTagPresent_def locate_eq map_dom)

lemma avail_in_iff:
  "avail_in a row = (\<exists>w<length row. row ! w = None \<or>
     (\<exists>e. row ! w = Some e \<and> (m_Address e = a \<or> m_Permission e = NotPresent)))"
proof -
  have "avail_in a row = (\<exists>s\<in>set row. s = None \<or>
     (\<exists>e. s = Some e \<and> (m_Address e = a \<or> m_Permission e = NotPresent)))"
    by (induction row) (auto split: option.splits)
  then show ?thesis by (metis in_set_conv_nth)
qed

lemma avail_eq:
  assumes "cm_inv bb c" "is_line bb a"
  shows "cacheAvail bb c a = Some (cm_map c a \<noteq> None \<or> free_way c (cset c a))"
proof -
  have g: "cm_geometry bb c" using assms(1) by (simp add: cm_inv_def)
  note r = cm_row [OF g cset_less [OF g, of a]]
  have "avail_in a (m_cache c ! cset c a) = (cm_map c a \<noteq> None \<or> free_way c (cset c a))"
  proof
    assume "avail_in a (m_cache c ! cset c a)"
    then obtain w where w: "w < m_cache_assoc c" and w2: "m_cache c ! cset c a ! w = None \<or>
        (\<exists>e. m_cache c ! cset c a ! w = Some e \<and> (m_Address e = a \<or> m_Permission e = NotPresent))"
      unfolding avail_in_iff r(2) by blast
    show "cm_map c a \<noteq> None \<or> free_way c (cset c a)"
    proof (cases "m_cache c ! cset c a ! w")
      case None
      with w show ?thesis unfolding free_way_def by blast
    next
      case (Some e)
      with w2 slot_entry [OF assms(1) cset_less [OF g] w Some] map_dom [OF assms(1), of a]
      show ?thesis by auto
    qed
  next
    assume "cm_map c a \<noteq> None \<or> free_way c (cset c a)"
    then show "avail_in a (m_cache c ! cset c a)"
    proof
      assume "cm_map c a \<noteq> None"
      then obtain w where "m_tag_index c a = Some w"
        using map_dom [OF assms(1), of a] by (cases "m_tag_index c a") auto
      from tag_entry [OF assms(1) this] show ?thesis unfolding avail_in_iff r(2) by blast
    next
      assume "free_way c (cset c a)"
      then show ?thesis unfolding avail_in_iff free_way_def r(2) by blast
    qed
  qed
  with g r assms(2) show ?thesis
    by (simp add: cacheAvail_def address_set arr_simps)
qed

subsection \<open>Touching, allocating and deallocating\<close>

lemma policy_frame:
  "cset (c\<lparr> m_replacementPolicy := p \<rparr>) = cset c"
  "cm_map (c\<lparr> m_replacementPolicy := p \<rparr>) = cm_map c"
  "free_way (c\<lparr> m_replacementPolicy := p \<rparr>) = free_way c"
  "cm_tags bb (c\<lparr> m_replacementPolicy := p \<rparr>) = cm_tags bb c"
proof -
  show cs: "cset (c\<lparr> m_replacementPolicy := p \<rparr>) = cset c" by (simp add: cset_def fun_eq_iff)
  show "cm_map (c\<lparr> m_replacementPolicy := p \<rparr>) = cm_map c"
    unfolding cm_map_def fun_eq_iff cs by (simp split: option.split)
  show "free_way (c\<lparr> m_replacementPolicy := p \<rparr>) = free_way c"
    by (simp add: free_way_def fun_eq_iff)
  show "cm_tags bb (c\<lparr> m_replacementPolicy := p \<rparr>) = cm_tags bb c"
    unfolding cm_tags_def cs by simp
qed

lemma cm_touch_ok:
  assumes "cm_inv bb c" "st < m_cache_num_sets c" "w < m_cache_assoc c"
  shows "succeeds (cm_touch c st w now) (\<lambda>c'. cm_inv bb c' \<and> cm_map c' = cm_map c
    \<and> cset c' = cset c \<and> free_way c' = free_way c \<and> m_cache_assoc c' = m_cache_assoc c)"
proof -
  have g: "cm_geometry bb c" using assms(1) by (simp add: cm_inv_def)
  obtain p where p: "touch (m_replacementPolicy c) st w now = Some p" "policy_inv p"
    "policy_sets p = m_cache_num_sets c" "policy_ways p = m_cache_assoc c"
    using pol.touch_ok [of "m_replacementPolicy c" st w now] g assms(2,3)
    by (auto simp: cm_geometry_def succeeds_iff)
  have "cm_geometry bb (c\<lparr> m_replacementPolicy := p \<rparr>)"
    using g p by (simp add: cm_geometry_def)
  with p(1) assms(1) show ?thesis
    by (simp add: cm_touch_def cm_inv_def policy_frame)
qed

lemma first_open_spec:
  "\<forall>e\<in>set row. e = None \<or> m_Permission (the e) \<noteq> NotPresent \<Longrightarrow> None \<in> set row \<Longrightarrow>
   \<exists>w<length row. first_open n row = Some (n + w) \<and> row ! w = None"
proof (induction row arbitrary: n)
  case Nil
  then show ?case by simp
next
  case (Cons x row)
  show ?case
  proof (cases x)
    case None
    then show ?thesis by (intro exI [of _ 0]) simp
  next
    case (Some e)
    then obtain w where "w < length row" "first_open (n + 1) row = Some (n + 1 + w)" "row ! w = None"
      using Cons.IH [of "n + 1"] Cons.prems by auto
    then show ?thesis using Some Cons.prems by (intro exI [of _ "Suc w"]) simp
  qed
qed

lemma open_way:
  assumes "cm_inv bb c" "free_way c st" "st < m_cache_num_sets c"
  obtains w where "w < m_cache_assoc c" "first_open 0 (m_cache c ! st) = Some w"
    "m_cache c ! st ! w = None"
proof -
  have g: "cm_geometry bb c" using assms(1) by (simp add: cm_inv_def)
  note r = cm_row [OF g assms(3)]
  have "\<forall>e\<in>set (m_cache c ! st). e = None \<or> m_Permission (the e) \<noteq> NotPresent"
    using slot_entry(4) [OF assms(1,3)] r(2) by (metis in_set_conv_nth option.collapse)
  moreover have "None \<in> set (m_cache c ! st)"
    using assms(2) r(2) unfolding free_way_def by (metis nth_mem)
  ultimately show thesis using first_open_spec [of "m_cache c ! st" 0] that r(2) by auto
qed

text \<open>Filling a free slot, before the replacement policy is told.\<close>

lemma insert_slot_inv:
  assumes "cm_inv bb c" "is_line bb a" "m_tag_index c a = None" "w < m_cache_assoc c"
    "m_cache c ! cset c a ! w = None" "m_Address e = a" "m_Permission e \<noteq> NotPresent"
  defines "c' \<equiv> c\<lparr> m_cache := (m_cache c)[cset c a := (m_cache c ! cset c a)[w := Some e]],
                     m_tag_index := (m_tag_index c)(a \<mapsto> w) \<rparr>"
  shows "cm_inv bb c'" "cm_map c' = (cm_map c)(a \<mapsto> e)"
proof -
  have g: "cm_geometry bb c" using assms(1) by (simp add: cm_inv_def)
  note l = cset_less [OF g, of a]
  note r = cm_row [OF g l]
  have cs: "cset c' = cset c" by (simp add: cset_def fun_eq_iff c'_def)
  have slot: "m_cache c' ! st ! v = (if st = cset c a \<and> v = w then Some e else m_cache c ! st ! v)"
    for st v using r assms(4) by (auto simp: c'_def nth_list_update)
  have "cm_geometry bb c'"
    using g l by (auto simp: cm_geometry_def c'_def dims_upd)
  moreover have "cm_tags bb c'"
    unfolding cm_tags_def cs slot
  proof (intro conjI allI impI)
    fix st v f
    assume st: "st < m_cache_num_sets c'" "v < m_cache_assoc c'"
      and f: "(if st = cset c a \<and> v = w then Some e else m_cache c ! st ! v) = Some f"
    have st': "st < m_cache_num_sets c" "v < m_cache_assoc c" using st by (simp_all add: c'_def)
    show "is_line bb (m_Address f)" "cset c (m_Address f) = st"
      "m_tag_index c' (m_Address f) = Some v" "m_Permission f \<noteq> NotPresent"
      using f slot_entry [OF assms(1) st', of f] assms(2,3,6,7)
      by (auto simp: c'_def split: if_splits)
  next
    fix b v
    assume bv: "m_tag_index c' b = Some v"
    have "is_line bb b \<and> v < m_cache_assoc c \<and> (\<exists>f. (if cset c b = cset c a \<and> v = w then Some e
        else m_cache c ! cset c b ! v) = Some f \<and> m_Address f = b)"
    proof (cases "b = a")
      case True
      with bv have "v = w" by (simp add: c'_def)
      with True assms(2,4,6) show ?thesis by simp
    next
      case False
      with bv have "m_tag_index c b = Some v" by (simp add: c'_def)
      from tag_entry [OF assms(1) this] obtain f where f: "m_cache c ! cset c b ! v = Some f"
        "m_Address f = b" "v < m_cache_assoc c" "is_line bb b" by blast
      with assms(5) have "\<not> (cset c b = cset c a \<and> v = w)" by auto
      then have "(if cset c b = cset c a \<and> v = w then Some e
        else m_cache c ! cset c b ! v) = Some f" using f(1) by (simp only: if_False)
      with f show ?thesis by blast
    qed
    then show "is_line bb b" "v < m_cache_assoc c'"
      "\<exists>f. (if cset c b = cset c a \<and> v = w then Some e else m_cache c ! cset c b ! v) = Some f
           \<and> m_Address f = b"
      by (simp_all only: c'_def) simp_all
  qed
  ultimately show "cm_inv bb c'" by (simp add: cm_inv_def)
  show "cm_map c' = (cm_map c)(a \<mapsto> e)"
  proof
    fix b
    have ti: "m_tag_index c' = (m_tag_index c)(a \<mapsto> w)" by (simp add: c'_def)
    show "cm_map c' b = ((cm_map c)(a \<mapsto> e)) b"
    proof (cases "m_tag_index c b")
      case None
      then show ?thesis by (simp add: cm_map_def cs slot ti)
    next
      case (Some v)
      from tag_entry [OF assms(1) this] obtain f where "m_cache c ! cset c b ! v = Some f" by blast
      with Some assms(3,5) show ?thesis by (auto simp: cm_map_def cs slot ti)
    qed
  qed
qed

lemma remove_slot_inv:
  assumes "cm_inv bb c" "m_tag_index c a = Some w"
  defines "c' \<equiv> c\<lparr> m_cache := (m_cache c)[cset c a := (m_cache c ! cset c a)[w := None]],
                     m_tag_index := (m_tag_index c)(a := None) \<rparr>"
  shows "cm_inv bb c'" "cm_map c' = (cm_map c)(a := None)" "free_way c' (cset c a)"
    "cset c' = cset c"
proof -
  have g: "cm_geometry bb c" using assms(1) by (simp add: cm_inv_def)
  note l = cset_less [OF g, of a]
  note r = cm_row [OF g l]
  obtain e where e: "m_cache c ! cset c a ! w = Some e" "m_Address e = a" "w < m_cache_assoc c"
    using tag_entry [OF assms(1,2)] by blast
  show cs: "cset c' = cset c" by (simp add: cset_def fun_eq_iff c'_def)
  have slot: "m_cache c' ! st ! v = (if st = cset c a \<and> v = w then None else m_cache c ! st ! v)"
    for st v using r e by (auto simp: c'_def nth_list_update)
  have "cm_geometry bb c'" using g l by (auto simp: cm_geometry_def c'_def dims_upd)
  moreover have "cm_tags bb c'"
    unfolding cm_tags_def cs slot
  proof (intro conjI allI impI)
    fix st v f
    assume st: "st < m_cache_num_sets c'" "v < m_cache_assoc c'"
      and f: "(if st = cset c a \<and> v = w then None else m_cache c ! st ! v) = Some f"
    have st': "st < m_cache_num_sets c" "v < m_cache_assoc c" using st by (simp_all add: c'_def)
    note se = slot_entry [OF assms(1) st', of f]
    show "is_line bb (m_Address f)" "cset c (m_Address f) = st"
      "m_tag_index c' (m_Address f) = Some v" "m_Permission f \<noteq> NotPresent"
      using f se assms(2) by (auto simp: c'_def split: if_splits)
  next
    fix b v
    assume "m_tag_index c' b = Some v"
    then have b: "b \<noteq> a" "m_tag_index c b = Some v" by (auto simp: c'_def split: if_splits)
    from tag_entry [OF assms(1) b(2)] obtain f where f: "m_cache c ! cset c b ! v = Some f"
      "m_Address f = b" "v < m_cache_assoc c" "is_line bb b" by blast
    have "\<not> (cset c b = cset c a \<and> v = w)" using e(1,2) b(1) f(1,2) by auto
    then have "(if cset c b = cset c a \<and> v = w then None else m_cache c ! cset c b ! v) = Some f"
      using f(1) by (simp only: if_False)
    with f(2) show "\<exists>f. (if cset c b = cset c a \<and> v = w then None
        else m_cache c ! cset c b ! v) = Some f \<and> m_Address f = b" by blast
    show "is_line bb b" "v < m_cache_assoc c'" using f(3,4) by (simp_all add: c'_def)
  qed
  ultimately show "cm_inv bb c'" by (simp add: cm_inv_def)
  show "cm_map c' = (cm_map c)(a := None)"
  proof
    fix b
    have ti: "m_tag_index c' = (m_tag_index c)(a := None)" by (simp add: c'_def)
    show "cm_map c' b = ((cm_map c)(a := None)) b"
    proof (cases "m_tag_index c b")
      case None
      then show ?thesis by (simp add: cm_map_def ti)
    next
      case (Some v)
      from tag_entry [OF assms(1) this] obtain f where "m_cache c ! cset c b ! v = Some f"
        "m_Address f = b" by blast
      with Some e show ?thesis by (auto simp: cm_map_def cs slot ti)
    qed
  qed
  show "free_way c' (cset c a)"
    unfolding free_way_def using e(3) slot [of "cset c a" w] by (auto simp: c'_def)
qed

text \<open>The entry as \<^verbatim>\<open>allocate\<close> leaves it: tagged, invalid and unlocked.\<close>

definition cm_stored :: "addr \<Rightarrow> 'd cache_entry \<Rightarrow> 'd cache_entry" where
  "cm_stored a e = e\<lparr> m_Address := a, m_Permission := Invalid, m_locked := -1 \<rparr>"

lemma cm_allocate_ok:
  assumes "cm_inv bb c" "is_line bb a" "cm_map c a = None" "free_way c (cset c a)"
  shows "succeeds (cm_allocate bb now c a e)
    (\<lambda>c'. cm_inv bb c' \<and> cm_map c' = (cm_map c)(a \<mapsto> cm_stored a e))"
proof -
  have g: "cm_geometry bb c" using assms(1) by (simp add: cm_inv_def)
  note l = cset_less [OF g, of a]
  note r = cm_row [OF g l]
  obtain w where w: "w < m_cache_assoc c" "first_open 0 (m_cache c ! cset c a) = Some w"
    "m_cache c ! cset c a ! w = None" using open_way [OF assms(1,4) l] by blast
  have ti: "m_tag_index c a = None" using assms(1,3) map_dom by blast
  let ?c = "c\<lparr> m_cache := (m_cache c)[cset c a := (m_cache c ! cset c a)[w := Some (cm_stored a e)]],
                     m_tag_index := (m_tag_index c)(a \<mapsto> w) \<rparr>"
  have i: "cm_inv bb ?c" "cm_map ?c = (cm_map c)(a \<mapsto> cm_stored a e)"
    using insert_slot_inv [OF assms(1,2) ti w(1,3), of "cm_stored a e"]
    by (simp_all add: cm_stored_def)
  have "cm_allocate bb now c a e = cm_touch ?c (cset c a) w now"
    using assms(2-4) w r
    by (simp add: cm_allocate_def present_eq [OF assms(1,2)] avail_eq [OF assms(1,2)]
        address_set [OF g assms(2)] arr_simps cm_stored_def [symmetric])
  moreover have "succeeds (cm_touch ?c (cset c a) w now)
      (\<lambda>c'. cm_inv bb c' \<and> cm_map c' = (cm_map c)(a \<mapsto> cm_stored a e))"
    by (rule succeeds_mono [OF cm_touch_ok [OF i(1)]]) (use l w i in simp_all)
  ultimately show ?thesis by simp
qed

lemma cm_deallocate_ok:
  assumes "cm_inv bb c" "is_line bb a" "cm_map c a \<noteq> None"
  shows "succeeds (cm_deallocate bb c a) (\<lambda>c'. cm_inv bb c' \<and> cm_map c' = (cm_map c)(a := None)
    \<and> free_way c' (cset c a) \<and> cset c' = cset c)"
proof -
  have g: "cm_geometry bb c" using assms(1) by (simp add: cm_inv_def)
  note r = cm_row [OF g cset_less [OF g, of a]]
  obtain w where w: "m_tag_index c a = Some w"
    using map_dom [OF assms(1), of a] assms(3) by (cases "m_tag_index c a") auto
  from tag_entry [OF assms(1) w] have "w < m_cache_assoc c" by blast
  with w r assms(3) show ?thesis
    by (simp add: cm_deallocate_def present_eq [OF assms(1,2)] locate_eq [OF assms(1,2)] arr_simps
        remove_slot_inv [OF assms(1) w])
qed

interpretation cm: line_store "is_line bb" cm_map "cm_allocate bb now" "cm_deallocate bb"
    "\<lambda>c a. free_way c (cset c a)" cm_stored "cm_inv bb" for bb now
proof unfold_locales
  fix c :: "'a cache_memory" and a e
  assume "cm_inv bb c" "is_line bb a" "cm_map c a = None" "free_way c (cset c a)"
  then show "succeeds (cm_allocate bb now c a e)
      (\<lambda>c'. cm_inv bb c' \<and> cm_map c' = (cm_map c)(a \<mapsto> cm_stored a e))"
    by (rule cm_allocate_ok)
next
  fix c :: "'a cache_memory" and a
  assume "cm_inv bb c" "is_line bb a" "cm_map c a \<noteq> None"
  from cm_deallocate_ok [OF this]
  show "succeeds (cm_deallocate bb c a)
      (\<lambda>c'. cm_inv bb c' \<and> cm_map c' = (cm_map c)(a := None) \<and> free_way c' (cset c' a))"
    by (rule succeeds_mono) simp
qed

section \<open>Initialisation, replacement, accesses and locks\<close>

lemma cm_init_ok:
  assumes "0 < assoc" "1 < sz div assoc div 2 ^ bb" "sz div assoc div 2 ^ bb < 2 ^ 31"
    and "pol = ''LRU'' \<or> pol = ''PSEUDO_LRU'' \<and> 1 < assoc \<and> assoc \<le> 32" "start < 64"
  shows "succeeds (cm_init bb sz assoc pol start) (\<lambda>c. cm_inv bb c \<and> cm_map c = Map.empty
    \<and> m_cache_assoc c = assoc \<and> m_cache_num_sets c = sz div assoc div 2 ^ bb)"
proof -
  define n where "n = sz div assoc div 2 ^ bb"
  have n: "unat (of_nat n :: 32 word) = n"
    using assms(3) unfolding n_def [symmetric] by (simp add: unsigned_of_nat take_bit_nat_eq_self)
  then have "0 < (of_nat n :: 32 word)" using assms(2) unfolding n_def [symmetric]
    by (metis not_one_less_zero word_greater_zero_iff unsigned_0)
  from floorLog2_32_correct [OF this] obtain k where k: "floorLog2_32 (of_nat n) = Some k"
    "2 ^ k \<le> n" "n < 2 ^ (k + 1)" by (auto simp: n succeeds_iff)
  have k0: "0 < k" using k(3) assms(2) unfolding n_def [symmetric] by (cases k) auto
  have "\<exists>p. (if pol = ''PSEUDO_LRU'' then map_option PTree (new_PseudoLRUPolicy n assoc)
             else if pol = ''LRU'' then Some (PLru (new_LRUPolicy n assoc)) else None) = Some p
      \<and> policy_inv p \<and> policy_sets p = n \<and> policy_ways p = assoc"
    using assms(1,2,4) new_plru_ok [of n assoc] unfolding n_def [symmetric]
    by (auto simp: succeeds_iff new_LRUPolicy_def lru_ok_def dims_replicate)
  then obtain p where p: "(if pol = ''PSEUDO_LRU'' then map_option PTree (new_PseudoLRUPolicy n assoc)
             else if pol = ''LRU'' then Some (PLru (new_LRUPolicy n assoc)) else None) = Some p"
      "policy_inv p" "policy_sets p = n" "policy_ways p = assoc" by blast
  show ?thesis
    unfolding cm_init_def n_def [symmetric] Let_def
    using assms(1,2,5) p k k0 unfolding n_def [symmetric]
    by (simp add: cm_inv_def cm_geometry_def cm_tags_def dims_replicate cm_map_def fun_eq_iff)
qed

text \<open>The victim of a full set is a resident line of that set.\<close>

lemma cm_probe_ok:
  assumes "cm_inv bb c" "is_line bb a" "cm_map c a = None" "\<not> free_way c (cset c a)"
  shows "succeeds (cacheProbe bb c a) (\<lambda>v. is_line bb v \<and> cset c v = cset c a \<and> cm_map c v \<noteq> None)"
proof -
  have g: "cm_geometry bb c" using assms(1) by (simp add: cm_inv_def)
  note l = cset_less [OF g, of a]
  note r = cm_row [OF g l]
  obtain v where v: "getVictim (m_replacementPolicy c) (cset c a) = Some v" "v < m_cache_assoc c"
    using pol.victim_ok [of "m_replacementPolicy c" "cset c a"] g l
    by (auto simp: cm_geometry_def succeeds_iff)
  then obtain e where e: "m_cache c ! cset c a ! v = Some e"
    using assms(4) by (auto simp: free_way_def)
  note s = slot_entry [OF assms(1) l v(2) e]
  have "cm_map c (m_Address e) = Some e" using s(2,3) e by (simp add: cm_map_def)
  with assms(2-4) v e s r show ?thesis
    by (simp add: cacheProbe_def avail_eq [OF assms(1,2)] address_set [OF g assms(2)] arr_simps)
qed

definition make_room :: "nat \<Rightarrow> int \<Rightarrow> 'd cache_memory \<Rightarrow> addr \<Rightarrow> 'd cache_entry \<Rightarrow> 'd cache_memory option" where
  "make_room bb now c a e = do {
     avail \<leftarrow> cacheAvail bb c a;
     c \<leftarrow> (if avail then Some c else do { v \<leftarrow> cacheProbe bb c a; cm_deallocate bb c v });
     cm_allocate bb now c a e
   }"

lemma make_room_ok:
  assumes "cm_inv bb c" "is_line bb a" "cm_map c a = None"
  shows "succeeds (make_room bb now c a e) (\<lambda>c'. cm_inv bb c' \<and>
    (\<exists>b. cset c b = cset c a \<and> cm_map c' = (cm_map c)(b := None, a \<mapsto> cm_stored a e)))"
proof (cases "free_way c (cset c a)")
  case True
  have "succeeds (cm_allocate bb now c a e) (\<lambda>c'. cm_inv bb c' \<and>
    (\<exists>b. cset c b = cset c a \<and> cm_map c' = (cm_map c)(b := None, a \<mapsto> cm_stored a e)))"
    by (rule succeeds_mono [OF cm_allocate_ok [OF assms True]])
      (auto intro!: exI [of _ a])
  with True show ?thesis by (simp add: make_room_def avail_eq [OF assms(1,2)])
next
  case False
  obtain v where v: "cacheProbe bb c a = Some v" "is_line bb v" "cset c v = cset c a"
      "cm_map c v \<noteq> None"
    using cm_probe_ok [OF assms False] by (auto simp: succeeds_iff)
  have "succeeds (do { c' \<leftarrow> cm_deallocate bb c v; cm_allocate bb now c' a e })
      (\<lambda>c'. cm_inv bb c' \<and> cm_map c' = (cm_map c)(v := None, a \<mapsto> cm_stored a e))"
  proof (rule succeeds_bind [OF cm_deallocate_ok [OF assms(1) v(2,4)]])
    fix c' :: "'a cache_memory"
    assume c': "cm_inv bb c' \<and> cm_map c' = (cm_map c)(v := None)
      \<and> free_way c' (cset c v) \<and> cset c' = cset c"
    then have "cm_map c' a = None" "free_way c' (cset c' a)"
      using assms(3) v(3) by simp_all
    moreover have "cm_inv bb c'" and m: "cm_map c' = (cm_map c)(v := None)" using c' by blast+
    ultimately show "succeeds (cm_allocate bb now c' a e)
      (\<lambda>c'. cm_inv bb c' \<and> cm_map c' = (cm_map c)(v := None, a \<mapsto> cm_stored a e))"
      using cm_allocate_ok [of bb c' a now e] assms(2) unfolding m by blast
  qed
  then have "succeeds (do { c' \<leftarrow> cm_deallocate bb c v; cm_allocate bb now c' a e })
      (\<lambda>c'. cm_inv bb c' \<and> (\<exists>b. cset c b = cset c a \<and>
         cm_map c' = (cm_map c)(b := None, a \<mapsto> cm_stored a e)))"
    by (rule succeeds_mono) (use v(3) in \<open>intro conjI exI [of _ v]; simp\<close>)
  with False assms(3) v(1) show ?thesis by (simp add: make_room_def avail_eq [OF assms(1,2)])
qed

definition permits :: "AccessPermission \<Rightarrow> RubyRequestType \<Rightarrow> bool" where
  "permits p type = (p = Read_Write \<or> p = Read_Only \<and> (type = LD \<or> type = IFETCH))"

lemma try_access_ok:
  assumes "cm_inv bb c" "is_line bb a"
  shows "succeeds (tryCacheAccess bb now c a type) (\<lambda>(hit, d, c'). cm_inv bb c' \<and> cm_map c' = cm_map c
    \<and> (hit = (case cm_map c a of None \<Rightarrow> False | Some e \<Rightarrow> permits (m_Permission e) type))
    \<and> (hit \<longrightarrow> d = map_option m_DataBlk (cm_map c a)))"
proof (cases "m_tag_index c a")
  case None
  then show ?thesis by (simp add: tryCacheAccess_def locate_eq [OF assms] cm_map_def assms(1))
next
  case (Some w)
  have g: "cm_geometry bb c" using assms(1) by (simp add: cm_inv_def)
  note l = cset_less [OF g, of a]
  note r = cm_row [OF g l]
  from tag_entry [OF assms(1) Some] obtain e where e: "m_cache c ! cset c a ! w = Some e"
    "w < m_cache_assoc c" by blast
  then have m: "cm_map c a = Some e" using Some by (simp add: cm_map_def)
  obtain c' where "cm_touch c (cset c a) w now = Some c'" "cm_inv bb c'" "cm_map c' = cm_map c"
    using cm_touch_ok [OF assms(1) l e(2)] by (auto simp: succeeds_iff)
  with e m Some r show ?thesis
    by (auto simp: tryCacheAccess_def locate_eq [OF assms] arr_simps permits_def)
qed

text \<open>Writing an entry in place keeps the cache well formed when tag and presence stay.\<close>

lemma modify_slot:
  assumes "cm_inv bb c" "m_tag_index c a = Some w" "m_cache c ! cset c a ! w = Some e"
    "m_Address e' = a" "m_Permission e' \<noteq> NotPresent"
  defines "c' \<equiv> c\<lparr> m_cache := (m_cache c)[cset c a := (m_cache c ! cset c a)[w := Some e']] \<rparr>"
  shows "cm_inv bb c' \<and> cm_map c' = (cm_map c)(a \<mapsto> e')"
proof -
  let ?r = "c\<lparr> m_cache := (m_cache c)[cset c a := (m_cache c ! cset c a)[w := None]],
                     m_tag_index := (m_tag_index c)(a := None) \<rparr>"
  have g: "cm_geometry bb c" using assms(1) by (simp add: cm_inv_def)
  note r = cm_row [OF g cset_less [OF g, of a]]
  note rem = remove_slot_inv [OF assms(1,2)]
  from tag_entry [OF assms(1,2)] have w: "w < m_cache_assoc c" "is_line bb a" by blast+
  have ti: "(m_tag_index c)(a \<mapsto> w) = m_tag_index c" using assms(2) by auto
  have c': "c' = ?r\<lparr> m_cache := (m_cache ?r)[cset ?r a := (m_cache ?r ! cset ?r a)[w := Some e']],
                     m_tag_index := (m_tag_index ?r)(a \<mapsto> w) \<rparr>"
    unfolding c'_def rem(4) using r w ti by simp
  show ?thesis
    unfolding c' using insert_slot_inv [OF rem(1) w(2), of w e'] w r rem assms(4,5) by simp
qed

lemma cm_modify_ok:
  assumes "cm_inv bb c" "is_line bb a" "cm_map c a = Some e"
    "m_Address (f e) = a" "m_Permission (f e) \<noteq> NotPresent"
  shows "succeeds (cm_modify bb c a f) (\<lambda>c'. cm_inv bb c' \<and> cm_map c' = (cm_map c)(a \<mapsto> f e))"
proof -
  have g: "cm_geometry bb c" using assms(1) by (simp add: cm_inv_def)
  note r = cm_row [OF g cset_less [OF g, of a]]
  obtain w where w: "m_tag_index c a = Some w" "m_cache c ! cset c a ! w = Some e"
    using assms(3) by (auto simp: cm_map_def split: option.splits)
  from tag_entry [OF assms(1) w(1)] have "w < m_cache_assoc c" by blast
  with w r modify_slot [OF assms(1) w assms(4,5)] show ?thesis
    by (simp add: cm_modify_def locate_eq [OF assms(1,2)] arr_simps)
qed

lemma entry_facts:
  assumes "cm_inv bb c" "cm_map c a = Some e"
  shows "m_Address e = a" "m_Permission e \<noteq> NotPresent"
  using assms tag_entry [OF assms(1)] by (fastforce simp: cm_map_def split: option.splits)+

lemma isLocked_eq:
  assumes "cm_inv bb c" "is_line bb a" "cm_map c a = Some e"
  shows "isLocked bb c a ctx = Some (m_locked e = ctx)"
proof -
  have g: "cm_geometry bb c" using assms(1) by (simp add: cm_inv_def)
  note r = cm_row [OF g cset_less [OF g, of a]]
  obtain w where w: "m_tag_index c a = Some w" "m_cache c ! cset c a ! w = Some e"
    using assms(3) by (auto simp: cm_map_def split: option.splits)
  from tag_entry [OF assms(1) w(1)] have "w < m_cache_assoc c" by blast
  with w r show ?thesis
    by (simp add: isLocked_def locate_eq [OF assms(1,2)] arr_simps)
qed

section \<open>Properties\<close>

text \<open>A cache built with a legal geometry is well formed and empty.\<close>

theorem cache_init:
  assumes "0 < assoc" "1 < sz div assoc div 2 ^ bb" "sz div assoc div 2 ^ bb < 2 ^ 31"
    and "pol = ''LRU'' \<or> pol = ''PSEUDO_LRU'' \<and> 1 < assoc \<and> assoc \<le> 32" "start < 64"
  shows "\<exists>c. cm_init bb sz assoc pol start = Some c \<and> cm_inv bb c
     \<and> (is_line bb a \<longrightarrow> cm_lookup bb c a = Some None)"
  using cm_init_ok [OF assms] by (auto simp: succeeds_iff lookup_eq)

theorem cache_init_witness:
  "\<exists>c :: nat cache_memory. cm_init 6 1024 2 ''PSEUDO_LRU'' 6 = Some c \<and> cm_inv 6 c"
  using cache_init [of 2 1024 6 "''PSEUDO_LRU''" 6 0] by auto

text \<open>C20: Making room for a missing line, by allocating in a free way or by deallocating the probed
  victim first, always succeeds: afterwards the line is found, invalid and unlocked, at most one
  other line, of the same set, is gone, and every other line is unchanged.\<close>

theorem cache_replacement:
  assumes "cm_inv bb c" "is_line bb a" "cm_lookup bb c a = Some None"
  shows "\<exists>c' v. make_room bb now c a e = Some c' \<and> cm_inv bb c' \<and> cset c v = cset c a
     \<and> cm_lookup bb c' a = Some (Some (cm_stored a e))
     \<and> (\<forall>b. is_line bb b \<and> b \<noteq> a \<and> b \<noteq> v \<longrightarrow> cm_lookup bb c' b = cm_lookup bb c b)"
proof -
  have "cm_map c a = None" using assms(3) lookup_eq [OF assms(1,2)] by simp
  from make_room_ok [OF assms(1,2) this, of now e] obtain c' v where
    c': "make_room bb now c a e = Some c'" "cm_inv bb c'" "cset c v = cset c a"
      "cm_map c' = (cm_map c)(v := None, a \<mapsto> cm_stored a e)"
    by (auto simp: succeeds_iff)
  then show ?thesis
    using assms(1,2) by (intro exI [of _ c'] exI [of _ v]) (simp add: lookup_eq)
qed

definition small_cache :: "nat cache_memory" where
  "small_cache = \<lparr> m_cache_num_sets = 2, m_cache_num_set_bits = 1, m_cache_assoc = 2,
     m_start_index_bit = 6, m_cache = [[None, None], [None, None]], m_tag_index = Map.empty,
     m_replacementPolicy = PLru (new_LRUPolicy 2 2) \<rparr>"

lemma small_cache_inv: "cm_inv 6 small_cache"
  by (simp add: cm_inv_def cm_geometry_def cm_tags_def small_cache_def dims_def new_LRUPolicy_def
      lru_ok_def nth_Cons' numeral_2_eq_2)

lemma small_line: "is_line 6 0x1000"
  by (simp add: is_line_def line_address_def makeLineAddress_def maskLowOrderBits_def
      mask_eq_exp_minus_1)

theorem cache_replacement_witness:
  "\<exists>c'. make_room 6 1 small_cache 0x1000
      \<lparr> m_Address = 0, m_Permission = NotPresent, m_locked = 3, m_DataBlk = 42 \<rparr> = Some c'
    \<and> cm_lookup 6 c' 0x1000 = Some (Some
      \<lparr> m_Address = 0x1000, m_Permission = Invalid, m_locked = -1, m_DataBlk = 42 \<rparr>)"
proof -
  have "cm_lookup 6 small_cache 0x1000 = Some None"
    using lookup_eq [OF small_cache_inv small_line] by (simp add: cm_map_def small_cache_def)
  from cache_replacement [OF small_cache_inv small_line this, of 1
    "\<lparr> m_Address = 0, m_Permission = NotPresent, m_locked = 3, m_DataBlk = 42 \<rparr>"]
  show ?thesis by (auto simp: cm_stored_def)
qed

text \<open>C21: An access to a line hits exactly when the line is present with a permission that covers the
  request, it then delivers the line's data, and the contents of the cache do not change.\<close>

theorem cache_access:
  assumes "cm_inv bb c" "is_line bb a"
  shows "\<exists>hit d c' r. tryCacheAccess bb now c a type = Some (hit, d, c') \<and> cm_inv bb c'
     \<and> cm_map c' = cm_map c \<and> cm_lookup bb c a = Some r
     \<and> hit = (case r of None \<Rightarrow> False | Some e \<Rightarrow> permits (m_Permission e) type)
     \<and> (hit \<longrightarrow> d = map_option m_DataBlk r)"
  using try_access_ok [OF assms, of now type] lookup_eq [OF assms] by (auto simp: succeeds_iff)

theorem cache_access_witness:
  "\<exists>d c'. tryCacheAccess 6 5 small_cache 0x1000 LD = Some (False, d, c') \<and> cm_inv 6 c'"
proof -
  have "cm_lookup 6 small_cache 0x1000 = Some None"
    using lookup_eq [OF small_cache_inv small_line] by (simp add: cm_map_def small_cache_def)
  with cache_access [OF small_cache_inv small_line, of 5 LD] show ?thesis by auto
qed

text \<open>C22: A lock set on a resident line is seen by its context and by no other, and it is gone after it
  is cleared.\<close>

theorem cache_locks:
  assumes "cm_inv bb c" "is_line bb a" "cm_lookup bb c a = Some (Some e)" "0 \<le> ctx"
  shows "\<exists>c1 c2. setLocked bb c a ctx = Some c1 \<and> isLocked bb c1 a x = Some (x = ctx)
     \<and> clearLocked bb c1 a = Some c2 \<and> isLocked bb c2 a ctx = Some False"
proof -
  have e: "cm_map c a = Some e" using assms(3) lookup_eq [OF assms(1,2)] by simp
  note f = entry_facts [OF assms(1) e]
  obtain c1 where c1: "setLocked bb c a ctx = Some c1" "cm_inv bb c1"
    "cm_map c1 a = Some (e\<lparr> m_locked := ctx \<rparr>)"
    using cm_modify_ok [OF assms(1,2) e, of "\<lambda>e. e\<lparr> m_locked := ctx \<rparr>"] f
    by (auto simp: setLocked_def succeeds_iff)
  obtain c2 where "clearLocked bb c1 a = Some c2" "cm_inv bb c2"
    "cm_map c2 a = Some (e\<lparr> m_locked := -1 \<rparr>)"
    using cm_modify_ok [OF c1(2) assms(2) c1(3), of "\<lambda>e. e\<lparr> m_locked := -1 \<rparr>"] f
    by (auto simp: clearLocked_def succeeds_iff)
  with c1 assms(2,4) show ?thesis by (auto simp: isLocked_eq)
qed

theorem cache_locks_witness:
  "\<exists>c c1. make_room 6 1 small_cache 0x1000
      \<lparr> m_Address = 0, m_Permission = NotPresent, m_locked = 3, m_DataBlk = 42 \<rparr> = Some c
    \<and> setLocked 6 c 0x1000 2 = Some c1 \<and> isLocked 6 c1 0x1000 2 = Some True"
proof -
  let ?e = "\<lparr> m_Address = 0, m_Permission = NotPresent, m_locked = 3, m_DataBlk = 42 \<rparr>"
  have "cm_map small_cache 0x1000 = None" by (simp add: cm_map_def small_cache_def)
  from make_room_ok [OF small_cache_inv small_line this, of 1 ?e] obtain c where
    c: "make_room 6 1 small_cache 0x1000 ?e = Some c" "cm_inv 6 c"
      "cm_map c 0x1000 = Some (cm_stored 0x1000 ?e)" by (auto simp: succeeds_iff)
  then have "cm_lookup 6 c 0x1000 = Some (Some (cm_stored 0x1000 ?e))"
    using lookup_eq [OF c(2) small_line] by simp
  from cache_locks [OF c(2) small_line this, of 2 2] c(1) show ?thesis by auto
qed

end
