(* ===== verification/Bit_Set.thy ===== *)
theory Bit_Set
  imports Prelude
begin

text \<open>
  The bit-vector sets of the Ruby interconnect, \<^verbatim>\<open>src/Lab5/gem5/src/mem/ruby/common/Set.cc\<close>: a set of
  node numbers below \<^verbatim>\<open>m_nSize\<close> kept as an array of 64-bit words.  The array length
  \<^verbatim>\<open>m_nArrayLen\<close> is the length of the list.  \<open>None\<close> is a failed assertion, a panic or an access
  out of range.  The interface \<open>dest_set\<close> is what the destination vectors, the persistent table
  and the directory rely on.
\<close>

section \<open>The interface of a set of destinations\<close>

locale dest_set =
  fixes wf :: "'g \<Rightarrow> 's \<Rightarrow> bool"
    and rng :: "'g \<Rightarrow> 'e \<Rightarrow> bool"
    and elems :: "'s \<Rightarrow> 'e set"
    and add :: "'s \<Rightarrow> 'e \<Rightarrow> 's option"
    and remove :: "'s \<Rightarrow> 'e \<Rightarrow> 's option"
    and isElem :: "'s \<Rightarrow> 'e \<Rightarrow> bool option"
    and superset :: "'s \<Rightarrow> 's \<Rightarrow> bool option"
    and empty :: "'s \<Rightarrow> bool"
  assumes elems_rng: "wf g s \<Longrightarrow> e \<in> elems s \<Longrightarrow> rng g e"
    and add_ok: "wf g s \<Longrightarrow> rng g e \<Longrightarrow>
      succeeds (add s e) (\<lambda>s'. wf g s' \<and> elems s' = insert e (elems s))"
    and remove_ok: "wf g s \<Longrightarrow> rng g e \<Longrightarrow>
      succeeds (remove s e) (\<lambda>s'. wf g s' \<and> elems s' = elems s - {e})"
    and elem_ok: "wf g s \<Longrightarrow> rng g e \<Longrightarrow> isElem s e = Some (e \<in> elems s)"
    and superset_ok: "wf g s \<Longrightarrow> wf g t \<Longrightarrow> superset s t = Some (elems t \<subseteq> elems s)"
    and empty_ok: "wf g s \<Longrightarrow> empty s = (elems s = {})"
begin

text \<open>Adding and then removing a new element gives the old set back.\<close>

lemma add_remove:
  assumes "wf g s" "rng g e" "e \<notin> elems s"
  shows "succeeds (do { s' \<leftarrow> add s e; remove s' e }) (\<lambda>s'. wf g s' \<and> elems s' = elems s)"
  by (rule succeeds_bind [OF add_ok [OF assms(1,2)]], rule succeeds_mono [OF remove_ok])
    (use assms in auto)

end

section \<open>The bit vector\<close>

record node_set =
  m_nSize :: nat
  m_p_nArray :: "UINT64 list"

definition array_len :: "nat \<Rightarrow> nat" where
  "array_len n = (n + 64 - 1) div 64"

definition setSize :: "nat \<Rightarrow> node_set" where
  "setSize n = \<lparr> m_nSize = n, m_p_nArray = replicate (array_len n) 0 \<rparr>"

definition set_add :: "node_set \<Rightarrow> nat \<Rightarrow> node_set option" where
  "set_add s index = do {
     w \<leftarrow> rd (m_p_nArray s) (index div 64);
     a \<leftarrow> wr (m_p_nArray s) (index div 64) (w OR push_bit (index mod 64) 1);
     Some (s\<lparr> m_p_nArray := a \<rparr>)
   }"

definition set_remove :: "node_set \<Rightarrow> nat \<Rightarrow> node_set option" where
  "set_remove s index = do {
     w \<leftarrow> rd (m_p_nArray s) (index div 64);
     a \<leftarrow> wr (m_p_nArray s) (index div 64) (w AND NOT (push_bit (index mod 64) 1));
     Some (s\<lparr> m_p_nArray := a \<rparr>)
   }"

definition set_clear :: "node_set \<Rightarrow> node_set" where
  "set_clear s = s\<lparr> m_p_nArray := replicate (length (m_p_nArray s)) 0 \<rparr>"

definition addSet :: "node_set \<Rightarrow> node_set \<Rightarrow> node_set option" where
  "addSet s t = do {
     assert_that (m_nSize s = m_nSize t);
     Some (s\<lparr> m_p_nArray := map2 (\<lambda>v w. v OR w) (m_p_nArray s) (m_p_nArray t) \<rparr>)
   }"

definition removeSet :: "node_set \<Rightarrow> node_set \<Rightarrow> node_set option" where
  "removeSet s t = do {
     assert_that (m_nSize s = m_nSize t);
     Some (s\<lparr> m_p_nArray := map2 (\<lambda>v w. v AND NOT w) (m_p_nArray s) (m_p_nArray t) \<rparr>)
   }"

fun excess_loop :: "nat \<Rightarrow> UINT64 \<Rightarrow> UINT64 \<Rightarrow> UINT64" where
  "excess_loop 0 m w = w"
| "excess_loop (Suc j) m w = excess_loop j (drop_bit 1 m) (w AND m)"

definition clearExcess :: "node_set \<Rightarrow> node_set option" where
  "clearExcess s =
     (if m_nSize s mod 64 \<noteq> 0 then do {
        let last = length (m_p_nArray s) - 1;
        w \<leftarrow> rd (m_p_nArray s) last;
        a \<leftarrow> wr (m_p_nArray s) last (excess_loop (64 - m_nSize s mod 64) 0x7FFFFFFFFFFFFFFF w);
        Some (s\<lparr> m_p_nArray := a \<rparr>)
      } else Some s)"

definition set_broadcast :: "node_set \<Rightarrow> node_set option" where
  "set_broadcast s = clearExcess (s\<lparr> m_p_nArray := replicate (length (m_p_nArray s)) (-1) \<rparr>)"

fun count_loop :: "nat \<Rightarrow> UINT64 \<Rightarrow> UINT64 \<Rightarrow> nat \<Rightarrow> nat" where
  "count_loop 0 w m counter = counter"
| "count_loop (Suc j) w m counter =
     count_loop j w (push_bit 1 m) (if w AND m \<noteq> 0 then counter + 1 else counter)"

definition set_count :: "node_set \<Rightarrow> nat" where
  "set_count s = fold (\<lambda>w counter. count_loop 64 w 1 counter) (m_p_nArray s) 0"

definition set_isEqual :: "node_set \<Rightarrow> node_set \<Rightarrow> bool option" where
  "set_isEqual s t = do {
     assert_that (m_nSize s = m_nSize t);
     Some (list_all2 (=) (m_p_nArray s) (m_p_nArray t))
   }"

text \<open>\<^verbatim>\<open>x >> 1\<close> shifts a signed \<^verbatim>\<open>long\<close>.\<close>

fun low_bit_loop :: "nat \<Rightarrow> nat \<Rightarrow> UINT64 \<Rightarrow> nat option" where
  "low_bit_loop 0 j x = None"
| "low_bit_loop (Suc k) j x =
     (if x AND 1 \<noteq> 0 then Some j else low_bit_loop k (j + 1) (signed_drop_bit 1 x))"

fun word_scan :: "nat \<Rightarrow> UINT64 list \<Rightarrow> nat option" where
  "word_scan i [] = None"
| "word_scan i (w # ws) =
     (if w \<noteq> 0 then map_option (\<lambda>j. 64 * i + j) (low_bit_loop 64 0 w) else word_scan (i + 1) ws)"

definition set_smallestElement :: "node_set \<Rightarrow> nat option" where
  "set_smallestElement s = do { assert_that (0 < set_count s); word_scan 0 (m_p_nArray s) }"

fun prefix_loop :: "nat \<Rightarrow> UINT64 \<Rightarrow> UINT64 \<Rightarrow> bool" where
  "prefix_loop 0 m w = True"
| "prefix_loop (Suc j) m w = (if m AND w = 0 then False else prefix_loop j (push_bit 1 m) w)"

definition set_isBroadcast :: "node_set \<Rightarrow> bool option" where
  "set_isBroadcast s =
     (let len = length (m_p_nArray s);
          mx = (if m_nSize s mod 64 = 0 then len else len - 1)
      in if list_ex (\<lambda>w. w \<noteq> -1) (take mx (m_p_nArray s)) then Some False
         else if m_nSize s mod 64 = 0 then Some True
         else do { w \<leftarrow> rd (m_p_nArray s) (len - 1); Some (prefix_loop (m_nSize s mod 64) 1 w) })"

definition set_isEmpty :: "node_set \<Rightarrow> bool" where
  "set_isEmpty s = (\<not> list_ex (\<lambda>w. w \<noteq> 0) (m_p_nArray s))"

definition set_OR :: "node_set \<Rightarrow> node_set \<Rightarrow> node_set option" where
  "set_OR s t = do {
     let result = setSize (m_nSize s);
     assert_that (m_nSize s = m_nSize t);
     Some (result\<lparr> m_p_nArray := map2 (\<lambda>v w. v OR w) (m_p_nArray s) (m_p_nArray t) \<rparr>)
   }"

definition set_AND :: "node_set \<Rightarrow> node_set \<Rightarrow> node_set option" where
  "set_AND s t = do {
     let result = setSize (m_nSize s);
     assert_that (m_nSize s = m_nSize t);
     Some (result\<lparr> m_p_nArray := map2 (\<lambda>v w. v AND w) (m_p_nArray s) (m_p_nArray t) \<rparr>)
   }"

definition set_isSuperset :: "node_set \<Rightarrow> node_set \<Rightarrow> bool option" where
  "set_isSuperset s test = do {
     assert_that (m_nSize s = m_nSize test);
     Some (\<not> list_ex (\<lambda>(t, v). (t AND v) OR NOT t \<noteq> -1) (zip (m_p_nArray test) (m_p_nArray s)))
   }"

definition set_intersectionIsEmpty :: "node_set \<Rightarrow> node_set \<Rightarrow> bool" where
  "set_intersectionIsEmpty s t =
     (\<not> list_ex (\<lambda>(v, w). v AND w \<noteq> 0) (zip (m_p_nArray s) (m_p_nArray t)))"

definition set_isElement :: "node_set \<Rightarrow> nat \<Rightarrow> bool option" where
  "set_isElement s element = do {
     w \<leftarrow> rd (m_p_nArray s) (element div 64);
     Some (w AND push_bit (element mod 64) 1 \<noteq> 0)
   }"

section \<open>The set of numbers a bit vector stands for\<close>

definition elems :: "node_set \<Rightarrow> nat set" where
  "elems s = {n. n div 64 < length (m_p_nArray s) \<and> bit (m_p_nArray s ! (n div 64)) (n mod 64)}"

definition set_wf :: "nat \<Rightarrow> node_set \<Rightarrow> bool" where
  "set_wf n s = (m_nSize s = n \<and> length (m_p_nArray s) = array_len n \<and> elems s \<subseteq> {..<n})"

lemma array_len_Suc: "array_len (Suc m) = m div 64 + 1"
  by (simp add: array_len_def)

lemma array_len_bound: "k < n \<Longrightarrow> k div 64 < array_len n"
  by (cases n) (simp_all add: array_len_Suc less_Suc_eq_le div_le_mono)

lemma same_word: "m div 64 = n div 64 \<Longrightarrow> (m mod 64 = n mod 64) = (m = n)" for m n :: nat
  by (metis mult_div_mod_eq)

lemma bit_one_at: "k < 64 \<Longrightarrow> bit (2 ^ k :: UINT64) j = (j = k)"
  by (auto simp: bit_simps)

lemma word_eq_bits: "w = v \<longleftrightarrow> (\<forall>j<64. bit w j = bit v j)" for w v :: UINT64
  by (auto intro: bit_word_eqI)

lemma elems_less: "n \<in> elems s \<Longrightarrow> n div 64 < length (m_p_nArray s)"
  by (simp add: elems_def)

lemma set_wf_less: "set_wf n s \<Longrightarrow> e \<in> elems s \<Longrightarrow> e < n"
  by (auto simp: set_wf_def)

lemma elems_upd:
  assumes "i < length (m_p_nArray s)"
  shows "n \<in> elems (s\<lparr> m_p_nArray := (m_p_nArray s)[i := w] \<rparr>)
     = (if n div 64 = i then bit w (n mod 64) else n \<in> elems s)"
  using assms by (simp add: elems_def nth_list_update)

lemma set_add_ok:
  assumes "set_wf n s" "e < n"
  shows "succeeds (set_add s e) (\<lambda>s'. set_wf n s' \<and> elems s' = insert e (elems s))"
proof -
  have l: "e div 64 < length (m_p_nArray s)" using assms by (simp add: set_wf_def array_len_bound)
  let ?s = "s\<lparr> m_p_nArray := (m_p_nArray s)[e div 64 :=
      m_p_nArray s ! (e div 64) OR push_bit (e mod 64) 1] \<rparr>"
  have "elems ?s = insert e (elems s)"
  proof (rule set_eqI)
    fix x show "x \<in> elems ?s = (x \<in> insert e (elems s))"
      unfolding elems_upd [OF l]
      using l same_word [of x e] by (simp add: elems_def bit_or_iff bit_one_at) blast
  qed
  with assms l show ?thesis by (simp add: set_add_def set_wf_def arr_simps)
qed

lemma set_remove_ok:
  assumes "set_wf n s" "e < n"
  shows "succeeds (set_remove s e) (\<lambda>s'. set_wf n s' \<and> elems s' = elems s - {e})"
proof -
  have l: "e div 64 < length (m_p_nArray s)" using assms by (simp add: set_wf_def array_len_bound)
  let ?s = "s\<lparr> m_p_nArray := (m_p_nArray s)[e div 64 :=
      m_p_nArray s ! (e div 64) AND NOT (push_bit (e mod 64) 1)] \<rparr>"
  have "elems ?s = elems s - {e}"
  proof (rule set_eqI)
    fix x show "x \<in> elems ?s = (x \<in> elems s - {e})"
      unfolding elems_upd [OF l]
      using l same_word [of x e]
      by (simp add: elems_def bit_and_iff bit_not_iff bit_one_at) auto
  qed
  with assms l show ?thesis by (auto simp: set_remove_def set_wf_def arr_simps)
qed

lemma set_elem_ok:
  assumes "set_wf n s" "e < n"
  shows "set_isElement s e = Some (e \<in> elems s)"
proof -
  have "e div 64 < length (m_p_nArray s)" using assms by (simp add: set_wf_def array_len_bound)
  then show ?thesis
    by (simp add: set_isElement_def arr_simps elems_def bit_iff_and_push_bit_not_eq_0)
qed

lemma superset_words:
  assumes "length (m_p_nArray s) = length (m_p_nArray t)"
  shows "list_all2 (\<lambda>v w. \<forall>j<64. P (bit v j) (bit w j)) (m_p_nArray s) (m_p_nArray t)
     = (\<forall>n. n div 64 < length (m_p_nArray s) \<longrightarrow> P (n \<in> elems s) (n \<in> elems t))"
proof -
  have "(\<forall>i<length (m_p_nArray s). \<forall>j<64. P (bit (m_p_nArray s ! i) j) (bit (m_p_nArray t ! i) j))
    = (\<forall>n. n div 64 < length (m_p_nArray s) \<longrightarrow>
         P (bit (m_p_nArray s ! (n div 64)) (n mod 64)) (bit (m_p_nArray t ! (n div 64)) (n mod 64)))"
  proof (intro iffI allI impI)
    fix i j :: nat
    assume "\<forall>n. n div 64 < length (m_p_nArray s) \<longrightarrow>
         P (bit (m_p_nArray s ! (n div 64)) (n mod 64)) (bit (m_p_nArray t ! (n div 64)) (n mod 64))"
      and "i < length (m_p_nArray s)" "j < 64"
    then show "P (bit (m_p_nArray s ! i) j) (bit (m_p_nArray t ! i) j)"
      by (auto dest: spec [of _ "64 * i + j"])
  qed auto
  with assms show ?thesis by (simp add: list_all2_conv_all_nth elems_def)
qed

lemma set_superset_ok:
  assumes "set_wf n s" "set_wf n t"
  shows "set_isSuperset s t = Some (elems t \<subseteq> elems s)"
proof -
  have l: "length (m_p_nArray t) = length (m_p_nArray s)" using assms by (simp add: set_wf_def)
  have w: "((v AND w) OR NOT v = -1) = (\<forall>j<64. bit v j \<longrightarrow> bit w j)" for v w :: UINT64
    by (auto simp: word_eq_bits bit_simps)
  have "(\<not> list_ex (\<lambda>(v, w). (v AND w) OR NOT v \<noteq> -1) (zip (m_p_nArray t) (m_p_nArray s)))
      = list_all2 (\<lambda>v w. \<forall>j<64. bit v j \<longrightarrow> bit w j) (m_p_nArray t) (m_p_nArray s)"
    using l by (auto simp: list_ex_iff list_all2_iff w)
  also have "\<dots> = (elems t \<subseteq> elems s)"
    unfolding superset_words [OF l] by (auto dest: elems_less)
  finally show ?thesis using assms by (simp add: set_isSuperset_def set_wf_def)
qed

lemma set_empty_ok: "set_isEmpty s = (elems s = {})"
proof -
  have "set_isEmpty s = list_all2 (\<lambda>v w. \<forall>j<64. \<not> bit v j) (m_p_nArray s) (m_p_nArray s)"
    by (auto simp: set_isEmpty_def list_ex_iff list_all2_same word_eq_bits)
  also have "\<dots> = (elems s = {})"
    using superset_words [of s s "\<lambda>a b. \<not> a", OF refl] by (auto dest: elems_less)
  finally show ?thesis .
qed

interpretation bs: dest_set set_wf "\<lambda>n e. e < n" elems set_add set_remove set_isElement
    set_isSuperset set_isEmpty
  by unfold_locales
    (simp_all add: set_add_ok set_remove_ok set_elem_ok set_superset_ok set_empty_ok set_wf_less)

section \<open>Union, difference, broadcast\<close>

lemma elems_map2:
  assumes "length (m_p_nArray s) = length (m_p_nArray t)"
    and "\<And>v w j. j < 64 \<Longrightarrow> bit (f v w) j = P (bit v j) (bit w j)" "\<not> P False False"
  shows "elems (s\<lparr> m_p_nArray := map2 f (m_p_nArray s) (m_p_nArray t) \<rparr>)
     = {n. P (n \<in> elems s) (n \<in> elems t)}"
proof (rule set_eqI)
  fix n
  show "n \<in> elems (s\<lparr> m_p_nArray := map2 f (m_p_nArray s) (m_p_nArray t) \<rparr>)
      = (n \<in> {n. P (n \<in> elems s) (n \<in> elems t)})"
    using assms by (cases "n div 64 < length (m_p_nArray s)") (simp_all add: elems_def)
qed

lemma addSet_ok:
  assumes "set_wf n s" "set_wf n t"
  shows "succeeds (addSet s t) (\<lambda>s'. set_wf n s' \<and> elems s' = elems s \<union> elems t)"
proof -
  have l: "length (m_p_nArray s) = length (m_p_nArray t)" using assms by (simp add: set_wf_def)
  have "elems (s\<lparr> m_p_nArray := map2 (\<lambda>v w. v OR w) (m_p_nArray s) (m_p_nArray t) \<rparr>)
      = elems s \<union> elems t"
    by (subst elems_map2 [OF l, of _ "\<lambda>a b. a \<or> b"]) (auto simp: bit_or_iff)
  with assms l show ?thesis by (auto simp: addSet_def set_wf_def)
qed

lemma removeSet_ok:
  assumes "set_wf n s" "set_wf n t"
  shows "succeeds (removeSet s t) (\<lambda>s'. set_wf n s' \<and> elems s' = elems s - elems t)"
proof -
  have l: "length (m_p_nArray s) = length (m_p_nArray t)" using assms by (simp add: set_wf_def)
  have "elems (s\<lparr> m_p_nArray := map2 (\<lambda>v w. v AND NOT w) (m_p_nArray s) (m_p_nArray t) \<rparr>)
      = elems s - elems t"
    by (subst elems_map2 [OF l, of _ "\<lambda>a b. a \<and> \<not> b"]) (auto simp: bit_simps)
  with assms l show ?thesis by (auto simp: removeSet_def set_wf_def)
qed

lemma set_OR_ok:
  assumes "set_wf n s" "set_wf n t"
  shows "succeeds (set_OR s t) (\<lambda>r. set_wf n r \<and> elems r = elems s \<union> elems t)"
proof -
  have "set_OR s t = addSet s t" by (cases s) (simp add: set_OR_def addSet_def setSize_def Let_def)
  with addSet_ok [OF assms] show ?thesis by simp
qed

lemma set_AND_ok:
  assumes "set_wf n s" "set_wf n t"
  shows "succeeds (set_AND s t) (\<lambda>r. set_wf n r \<and> elems r = elems s \<inter> elems t)"
proof -
  have l: "length (m_p_nArray s) = length (m_p_nArray t)" using assms by (simp add: set_wf_def)
  have "elems (s\<lparr> m_p_nArray := map2 (\<lambda>v w. v AND w) (m_p_nArray s) (m_p_nArray t) \<rparr>)
      = elems s \<inter> elems t"
    by (subst elems_map2 [OF l, of _ "\<lambda>a b. a \<and> b"]) (auto simp: bit_simps)
  with assms l show ?thesis by (cases s) (auto simp: set_AND_def setSize_def Let_def set_wf_def)
qed

lemma setSize_ok: "set_wf n (setSize n) \<and> elems (setSize n) = {}"
  by (auto simp: set_wf_def setSize_def elems_def)

lemma clear_ok: "set_wf n s \<Longrightarrow> set_wf n (set_clear s) \<and> elems (set_clear s) = {}"
  by (auto simp: set_wf_def set_clear_def elems_def)

lemma excess_loop_bits:
  "k \<le> 64 - j \<Longrightarrow> j \<le> 63 \<Longrightarrow> i < 64 \<Longrightarrow>
   bit (excess_loop k (mask (63 - j)) w) i = (bit w i \<and> (k = 0 \<or> i < 64 - j - k))"
proof (induction k arbitrary: j w)
  case 0
  then show ?case by simp
next
  case (Suc k)
  show ?case
  proof (cases "j = 63")
    case True
    with Suc.prems have "k = 0" by simp
    with True show ?thesis by (simp add: bit_simps)
  next
    case False
    have d: "drop_bit 1 (mask (63 - j) :: UINT64) = mask (63 - Suc j)"
      using False Suc.prems(2) by (intro bit_word_eqI) (auto simp: bit_simps)
    have "bit (excess_loop (Suc k) (mask (63 - j)) w) i
        = (bit (w AND mask (63 - j)) i \<and> (k = 0 \<or> i < 64 - Suc j - k))"
      using Suc.IH [of "Suc j"] Suc.prems False d by simp
    then show ?thesis using Suc.prems by (auto simp: bit_simps)
  qed
qed

lemma all_ones: "(0x7FFFFFFFFFFFFFFF :: UINT64) = mask 63"
  by (simp add: mask_eq_exp_minus_1)

lemma last_word: "n mod 64 \<noteq> 0 \<Longrightarrow> array_len n = n div 64 + 1"
proof -
  assume "n mod 64 \<noteq> 0"
  then obtain m where "n = Suc m" by (cases n) auto
  with \<open>n mod 64 \<noteq> 0\<close> show ?thesis
    by (simp add: array_len_Suc mod_Suc div_Suc split: if_splits)
qed

lemma full_words: "n mod 64 = 0 \<Longrightarrow> array_len n = n div 64"
  by (auto simp: array_len_def elim!: dvdE simp flip: dvd_eq_mod_eq_0)

lemma less_div_mod:
  "k < n \<longleftrightarrow> k div 64 < n div 64 \<or> k div 64 = n div 64 \<and> k mod 64 < n mod 64" for k n :: nat
proof -
  have "k = 64 * (k div 64) + k mod 64" "n = 64 * (n div 64) + n mod 64"
    "k mod 64 < 64" "n mod 64 < 64" by simp_all
  moreover have "64 * a + b < 64 * c + d \<longleftrightarrow> a < c \<or> a = c \<and> b < d"
    if "b < 64" "d < 64" for a b c d :: nat
    using that by (cases a c rule: linorder_cases) auto
  ultimately show ?thesis by metis
qed

lemma set_broadcast_ok:
  assumes "set_wf n s"
  shows "succeeds (set_broadcast s) (\<lambda>s'. set_wf n s' \<and> elems s' = {..<n})"
proof -
  let ?f = "s\<lparr> m_p_nArray := replicate (array_len n) (-1) \<rparr>"
  have l: "length (m_p_nArray s) = array_len n" "m_nSize s = n"
    using assms by (simp_all add: set_wf_def)
  have f: "k \<in> elems ?f = (k div 64 < array_len n)" for k
    by (cases "k div 64 < array_len n") (simp_all add: elems_def bit_minus_1_iff)
  show ?thesis
  proof (cases "n mod 64 = 0")
    case True
    then have "elems ?f = {..<n}"
      using f less_div_mod [of _ n] by (auto simp: full_words)
    with True l show ?thesis by (simp add: set_broadcast_def clearExcess_def set_wf_def)
  next
    case False
    let ?w = "excess_loop (64 - n mod 64) 0x7FFFFFFFFFFFFFFF (-1)"
    let ?g = "?f\<lparr> m_p_nArray := (m_p_nArray ?f)[n div 64 := ?w] \<rparr>"
    have w: "bit ?w i = (i < n mod 64)" if "i < 64" for i
      using excess_loop_bits [of "64 - n mod 64" 0 i "-1"] that False
      by (simp add: all_ones bit_minus_1_iff) (meson mod_less_divisor not_le zero_less_numeral)
    have "elems ?g = {..<n}"
    proof (rule set_eqI)
      fix k
      have "k \<in> elems ?g = (if k div 64 = n div 64 then bit ?w (k mod 64) else k \<in> elems ?f)"
        by (rule elems_upd) (simp add: last_word False)
      also have "\<dots> = (if k div 64 = n div 64 then k mod 64 < n mod 64
          else k div 64 < array_len n)" using w [of "k mod 64"] f by auto
      also have "\<dots> = (k \<in> {..<n})"
        using less_div_mod [of k n] last_word [OF False] by auto
      finally show "k \<in> elems ?g = (k \<in> {..<n})" .
    qed
    moreover have "set_broadcast s = Some ?g"
      using False l by (simp add: set_broadcast_def clearExcess_def last_word arr_simps Let_def
          del: replicate.simps)
    ultimately show ?thesis using l by (simp add: set_wf_def)
  qed
qed

section \<open>Counting, the smallest element, fullness\<close>

lemma and_exp_bit: "(w AND 2 ^ j \<noteq> 0) = bit w j" for w :: UINT64
  by (simp add: bit_iff_and_push_bit_not_eq_0)

lemma count_loop_eq:
  "count_loop k w (2 ^ j) c = c + card {i. j \<le> i \<and> i < j + k \<and> bit w i}"
proof (induction k arbitrary: j c)
  case 0
  then show ?case by simp
next
  case (Suc k)
  have p: "push_bit 1 (2 ^ j :: UINT64) = 2 ^ Suc j" by simp
  have "count_loop (Suc k) w (2 ^ j) c
      = (if bit w j then c + 1 else c) + card {i. Suc j \<le> i \<and> i < Suc j + k \<and> bit w i}"
    unfolding count_loop.simps p Suc.IH and_exp_bit ..
  moreover have "{i. j \<le> i \<and> i < j + Suc k \<and> bit w i}
      = (if bit w j then {j} else {}) \<union> {i. Suc j \<le> i \<and> i < Suc j + k \<and> bit w i}"
    by (auto simp: Suc_le_eq le_less)
  ultimately show ?case by simp
qed

lemma count_word: "count_loop 64 w 1 c = c + card {i. i < 64 \<and> bit w i}"
  using count_loop_eq [of 64 w 0 c] by simp

lemma fold_count: "fold (\<lambda>w counter. count_loop 64 w 1 counter) ws c
    = c + (\<Sum>k<length ws. card {i. i < 64 \<and> bit (ws ! k) i})"
proof (induction ws arbitrary: c)
  case Nil
  then show ?case by simp
next
  case (Cons w ws)
  then show ?case by (simp add: count_word sum.lessThan_Suc_shift del: sum.lessThan_Suc)
qed

lemma set_count_ok: "set_count s = card (elems s)"
proof -
  let ?B = "\<lambda>k. {i. i < 64 \<and> bit (m_p_nArray s ! k) i}"
  have "elems s = (\<lambda>(k, i). 64 * k + i) ` (SIGMA k:{..<length (m_p_nArray s)}. ?B k)"
  proof (intro set_eqI iffI)
    fix n assume "n \<in> elems s"
    then show "n \<in> (\<lambda>(k, i). 64 * k + i) ` (SIGMA k:{..<length (m_p_nArray s)}. ?B k)"
      by (intro image_eqI [of _ _ "(n div 64, n mod 64)"]) (simp_all add: elems_def)
  qed (auto simp: elems_def)
  moreover have "inj_on (\<lambda>(k, i). 64 * k + i) (SIGMA k:{..<length (m_p_nArray s)}. ?B k)"
    by (rule inj_on_inverseI [of _ "\<lambda>n. (n div 64, n mod 64)"]) auto
  moreover have "finite (?B k)" for k by simp
  ultimately have "card (elems s) = (\<Sum>k<length (m_p_nArray s). card (?B k))"
    by (simp add: card_image)
  then show ?thesis by (simp add: set_count_def fold_count)
qed

lemma low_bit_loop_eq:
  assumes "\<forall>i<k. bit x i = bit w (j + i)" "j + k \<le> 64" "\<exists>i<k. bit x i"
  shows "\<exists>i<k. low_bit_loop k j x = Some (j + i) \<and> bit w (j + i) \<and> (\<forall>m<i. \<not> bit w (j + m))"
  using assms
proof (induction k arbitrary: j x)
  case 0
  then show ?case by simp
next
  case (Suc k)
  show ?case
  proof (cases "bit x 0")
    case True
    then show ?thesis using Suc.prems(1)
      by (intro exI [of _ 0]) (auto simp: and_one_eq odd_iff_mod_2_eq_one bit_0)
  next
    case False
    let ?y = "signed_drop_bit 1 x"
    have y: "bit ?y i = bit x (Suc i)" if "i < k" for i
      using that Suc.prems(2) by (simp add: bit_signed_drop_bit_iff)
    have "\<forall>i<k. bit ?y i = bit w (Suc j + i)" using Suc.prems(1) y by simp
    moreover have "\<exists>i<k. bit ?y i"
      using Suc.prems(3) False y by (metis Suc_less_eq not0_implies_Suc)
    ultimately obtain i where "i < k" "low_bit_loop k (Suc j) ?y = Some (Suc j + i)"
      "bit w (Suc j + i)" "\<forall>m<i. \<not> bit w (Suc j + m)"
      using Suc.IH [of ?y "Suc j"] Suc.prems(2) by auto
    moreover have "\<not> bit w j" using False Suc.prems(1) by auto
    ultimately show ?thesis using False
      by (intro exI [of _ "Suc i"])
        (auto simp: and_one_eq odd_iff_mod_2_eq_one bit_0 less_Suc_eq_0_disj)
  qed
qed

lemma word_scan_eq:
  "\<exists>w\<in>set ws. w \<noteq> 0 \<Longrightarrow> \<exists>i k. i < length ws \<and> k < 64 \<and> word_scan b ws = Some (64 * (b + i) + k)
     \<and> bit (ws ! i) k \<and> (\<forall>m<k. \<not> bit (ws ! i) m) \<and> (\<forall>m<i. ws ! m = 0)"
proof (induction ws arbitrary: b)
  case Nil
  then show ?case by simp
next
  case (Cons w ws)
  show ?case
  proof (cases "w = 0")
    case True
    with Cons.prems Cons.IH [of "b + 1"] obtain i k where "i < length ws" "k < 64"
      "word_scan (b + 1) ws = Some (64 * (b + 1 + i) + k)" "bit (ws ! i) k"
      "\<forall>m<k. \<not> bit (ws ! i) m" "\<forall>m<i. ws ! m = 0" by auto
    with True show ?thesis
      by (intro exI [of _ "Suc i"] exI [of _ k]) (auto simp: less_Suc_eq_0_disj)
  next
    case False
    then have "\<exists>i<64. bit w i" by (auto simp: word_eq_bits [of w 0])
    with low_bit_loop_eq [of 64 w w 0] obtain i where "i < 64" "low_bit_loop 64 0 w = Some i"
      "bit w i" "\<forall>m<i. \<not> bit w m" by auto
    with False show ?thesis by (intro exI [of _ 0] exI [of _ i]) simp
  qed
qed

lemma set_smallest_ok:
  assumes "elems s \<noteq> {}" "set_wf n s"
  shows "succeeds (set_smallestElement s) (\<lambda>e. e \<in> elems s \<and> (\<forall>x\<in>elems s. e \<le> x))"
proof -
  have fin: "finite (elems s)" using assms(2) finite_subset by (auto simp: set_wf_def)
  have "\<exists>w\<in>set (m_p_nArray s). w \<noteq> 0"
    using assms(1) set_empty_ok [of s] by (auto simp: set_isEmpty_def list_ex_iff)
  from word_scan_eq [OF this, of 0] obtain i k where
    r: "i < length (m_p_nArray s)" "k < 64" "word_scan 0 (m_p_nArray s) = Some (64 * i + k)"
      "bit (m_p_nArray s ! i) k" "\<forall>m<k. \<not> bit (m_p_nArray s ! i) m" "\<forall>m<i. m_p_nArray s ! m = 0"
    by auto
  have "64 * i + k \<le> x" if "x \<in> elems s" for x
  proof (rule ccontr)
    assume "\<not> 64 * i + k \<le> x"
    then have "x div 64 < i \<or> x div 64 = i \<and> x mod 64 < k"
      using less_div_mod [of x "64 * i + k"] r(2) by simp
    with r(5,6) that show False by (auto simp: elems_def)
  qed
  moreover have "64 * i + k \<in> elems s" using r by (simp add: elems_def)
  moreover have "0 < set_count s" using assms(1) fin by (simp add: set_count_ok card_gt_0_iff)
  ultimately show ?thesis using r(3) by (simp add: set_smallestElement_def)
qed

lemma prefix_loop_eq: "prefix_loop k (2 ^ j) w = (\<forall>i<k. bit w (j + i))"
proof (induction k arbitrary: j)
  case 0
  then show ?case by simp
next
  case (Suc k)
  have p: "push_bit 1 (2 ^ j :: UINT64) = 2 ^ Suc j" by simp
  have "prefix_loop (Suc k) (2 ^ j) w = (bit w j \<and> (\<forall>i<k. bit w (Suc j + i)))"
    unfolding prefix_loop.simps p Suc.IH using and_exp_bit [of w j] by (auto simp: and.commute)
  then show ?case by (auto simp: less_Suc_eq_0_disj)
qed

lemma full_iff:
  assumes "length (m_p_nArray s) = array_len n"
  shows "({..<n} \<subseteq> elems s) = ((\<forall>i<n div 64. m_p_nArray s ! i = -1)
    \<and> (\<forall>j<n mod 64. bit (m_p_nArray s ! (n div 64)) j))"
proof (intro iffI conjI allI impI)
  fix i assume a: "{..<n} \<subseteq> elems s" and i: "i < n div 64"
  have "bit (m_p_nArray s ! i) j" if "j < 64" for j
  proof -
    have "64 * i + j < n" using i that less_div_mod [of "64 * i + j" n] by simp
    with a have "64 * i + j \<in> elems s" by auto
    with that show ?thesis by (simp add: elems_def)
  qed
  then show "m_p_nArray s ! i = -1" by (simp add: word_eq_bits)
next
  fix j assume a: "{..<n} \<subseteq> elems s" and j: "j < n mod 64"
  have j64: "j < 64" using j by (rule less_trans) simp
  then have "64 * (n div 64) + j < n" using j less_div_mod [of "64 * (n div 64) + j" n] by simp
  with a have "64 * (n div 64) + j \<in> elems s" by auto
  with j64 show "bit (m_p_nArray s ! (n div 64)) j" by (simp add: elems_def)
next
  assume a: "(\<forall>i<n div 64. m_p_nArray s ! i = -1) \<and> (\<forall>j<n mod 64. bit (m_p_nArray s ! (n div 64)) j)"
  show "{..<n} \<subseteq> elems s"
  proof
    fix k assume "k \<in> {..<n}"
    then show "k \<in> elems s"
      using a less_div_mod [of k n] array_len_bound [of k n] assms
      by (auto simp: elems_def bit_minus_1_iff)
  qed
qed

lemma set_isBroadcast_ok:
  assumes "set_wf n s"
  shows "set_isBroadcast s = Some (elems s = {..<n})"
proof -
  have l: "length (m_p_nArray s) = array_len n" "m_nSize s = n" "elems s \<subseteq> {..<n}"
    using assms by (simp_all add: set_wf_def)
  have e: "(elems s = {..<n}) = ({..<n} \<subseteq> elems s)" using l(3) by auto
  have ex: "list_ex (\<lambda>w. w \<noteq> -1) (take m (m_p_nArray s)) = (\<exists>i<m. m_p_nArray s ! i \<noteq> -1)"
    if "m \<le> array_len n" for m
    using that l(1) by (auto simp: list_ex_length)
  show ?thesis
  proof (cases "n mod 64 = 0")
    case True
    then show ?thesis unfolding e full_iff [OF l(1)]
      using l(2) ex [of "array_len n"] by (auto simp: set_isBroadcast_def Let_def l(1) full_words)
  next
    case False
    then show ?thesis unfolding e full_iff [OF l(1)]
      using l(1,2) ex [of "n div 64"] prefix_loop_eq [of _ 0]
      by (auto simp: set_isBroadcast_def Let_def last_word arr_simps)
  qed
qed

section \<open>Properties\<close>

text \<open>C34: The bit vector implements finite sets of numbers below its size: each operation has the
  effect of the set operation, counting gives the cardinality, the smallest element is the minimum
  and the broadcast test holds exactly for the full set.\<close>

theorem set_implements_sets:
  assumes "set_wf n s" "set_wf n t" "e < n"
  shows "(\<exists>r. set_add s e = Some r \<and> set_wf n r \<and> elems r = insert e (elems s))
     \<and> (\<exists>r. set_remove s e = Some r \<and> set_wf n r \<and> elems r = elems s - {e})
     \<and> (\<exists>r. addSet s t = Some r \<and> set_wf n r \<and> elems r = elems s \<union> elems t)
     \<and> (\<exists>r. removeSet s t = Some r \<and> set_wf n r \<and> elems r = elems s - elems t)
     \<and> (\<exists>r. set_AND s t = Some r \<and> set_wf n r \<and> elems r = elems s \<inter> elems t)
     \<and> (\<exists>r. set_broadcast s = Some r \<and> set_wf n r \<and> elems r = {..<n})
     \<and> set_isElement s e = Some (e \<in> elems s) \<and> set_isSuperset s t = Some (elems t \<subseteq> elems s)
     \<and> set_isBroadcast s = Some (elems s = {..<n}) \<and> set_count s = card (elems s)
     \<and> set_isEmpty s = (elems s = {})
     \<and> (elems s \<noteq> {} \<longrightarrow> set_smallestElement s = Some (Min (elems s)))"
proof -
  have fin: "finite (elems s)" using assms(1) finite_subset by (auto simp: set_wf_def)
  have "set_smallestElement s = Some (Min (elems s))" if "elems s \<noteq> {}"
    using set_smallest_ok [OF that assms(1)] fin by (auto simp: succeeds_iff intro!: Min_eqI [symmetric])
  with assms show ?thesis
    using set_add_ok [OF assms(1,3)] set_remove_ok [OF assms(1,3)] addSet_ok [OF assms(1,2)]
      removeSet_ok [OF assms(1,2)] set_AND_ok [OF assms(1,2)] set_broadcast_ok [OF assms(1)]
    by (simp add: succeeds_iff set_elem_ok set_superset_ok set_isBroadcast_ok set_count_ok
        set_empty_ok)
qed

theorem set_implements_sets_witness:
  "\<exists>r. set_add (setSize 70) 66 = Some r \<and> elems r = {66}"
  using set_implements_sets [of 70 "setSize 70" "setSize 70" 66] setSize_ok [of 70] by auto

end
