(* ===== verification/Net_Dest.thy ===== *)
theory Net_Dest
  imports Bit_Set
begin

text \<open>
  Destination vectors of the Ruby network, \<^verbatim>\<open>src/Lab5/gem5/src/mem/ruby/common/NetDest.cc\<close>: one bit
  vector per machine type.  A machine is its type and its number; the generated functions
  \<^verbatim>\<open>MachineType_base_level\<close> and \<^verbatim>\<open>MachineType_base_count\<close> give the position of a type and the number
  of its machines, here the list \<open>counts\<close>.
\<close>

section \<open>Operations\<close>

type_synonym MachineID = "nat \<times> nat"
type_synonym net_dest = "node_set list"

definition nd_resize :: "nat list \<Rightarrow> net_dest" where
  "nd_resize counts = map setSize counts"

definition nd_add :: "net_dest \<Rightarrow> MachineID \<Rightarrow> net_dest option" where
  "nd_add d m = do {
     b \<leftarrow> rd d (fst m);
     b \<leftarrow> set_add b (snd m);
     wr d (fst m) b
   }"

definition nd_addNetDest :: "net_dest \<Rightarrow> net_dest \<Rightarrow> net_dest option" where
  "nd_addNetDest d e = do { assert_that (length d = length e); map2_opt addSet d e }"

definition setNetDest :: "net_dest \<Rightarrow> nat \<Rightarrow> node_set \<Rightarrow> net_dest option" where
  "setNetDest d machine s = wr d machine s"

definition nd_remove :: "net_dest \<Rightarrow> MachineID \<Rightarrow> net_dest option" where
  "nd_remove d m = do {
     b \<leftarrow> rd d (fst m);
     b \<leftarrow> set_remove b (snd m);
     wr d (fst m) b
   }"

definition nd_removeNetDest :: "net_dest \<Rightarrow> net_dest \<Rightarrow> net_dest option" where
  "nd_removeNetDest d e = do { assert_that (length d = length e); map2_opt removeSet d e }"

definition nd_clear :: "net_dest \<Rightarrow> net_dest" where
  "nd_clear d = map set_clear d"

fun add_all :: "MachineID list \<Rightarrow> net_dest \<Rightarrow> net_dest option" where
  "add_all [] d = Some d"
| "add_all (m # ms) d = do { d \<leftarrow> nd_add d m; add_all ms d }"

definition nd_broadcastType :: "nat list \<Rightarrow> nat \<Rightarrow> net_dest \<Rightarrow> net_dest option" where
  "nd_broadcastType counts machineType d =
     add_all (map (\<lambda>i. (machineType, i)) [0..<counts ! machineType]) d"

fun nd_broadcast_loop :: "nat list \<Rightarrow> nat list \<Rightarrow> net_dest \<Rightarrow> net_dest option" where
  "nd_broadcast_loop counts [] d = Some d"
| "nd_broadcast_loop counts (t # ts) d = do {
     d \<leftarrow> nd_broadcastType counts t d;
     nd_broadcast_loop counts ts d
   }"

definition nd_broadcast :: "nat list \<Rightarrow> net_dest \<Rightarrow> net_dest option" where
  "nd_broadcast counts d = nd_broadcast_loop counts [0..<length counts] d"

definition base_number :: "nat list \<Rightarrow> nat \<Rightarrow> nat" where
  "base_number counts t = sum_list (take t counts)"

fun dest_loop :: "node_set \<Rightarrow> nat \<Rightarrow> nat list \<Rightarrow> nat list option" where
  "dest_loop b base [] = Some []"
| "dest_loop b base (j # js) = do {
     e \<leftarrow> set_isElement b j;
     rest \<leftarrow> dest_loop b base js;
     Some (if e then (base + j) # rest else rest)
   }"

fun all_dest_loop :: "nat list \<Rightarrow> net_dest \<Rightarrow> nat \<Rightarrow> nat list option" where
  "all_dest_loop counts [] i = Some []"
| "all_dest_loop counts (b # bs) i = do {
     ds \<leftarrow> dest_loop b (base_number counts i) [0..<m_nSize b];
     rest \<leftarrow> all_dest_loop counts bs (i + 1);
     Some (ds @ rest)
   }"

definition getAllDest :: "nat list \<Rightarrow> net_dest \<Rightarrow> nat list option" where
  "getAllDest counts d = all_dest_loop counts d 0"

definition nd_count :: "net_dest \<Rightarrow> nat" where
  "nd_count d = fold (\<lambda>b counter. counter + set_count b) d 0"

text \<open>The inner \<open>None\<close> is the end of the loop without a hit.\<close>

fun find_elem :: "node_set \<Rightarrow> nat list \<Rightarrow> nat option option" where
  "find_elem b [] = Some None"
| "find_elem b (j # js) = do {
     e \<leftarrow> set_isElement b j;
     if e then Some (Some j) else find_elem b js
   }"

fun smallest_loop :: "net_dest \<Rightarrow> nat \<Rightarrow> MachineID option" where
  "smallest_loop [] i = None"
| "smallest_loop (b # bs) i = do {
     r \<leftarrow> find_elem b [0..<m_nSize b];
     case r of Some j \<Rightarrow> Some (i, j) | None \<Rightarrow> smallest_loop bs (i + 1)
   }"

definition nd_smallestElement :: "net_dest \<Rightarrow> MachineID option" where
  "nd_smallestElement d = do { assert_that (0 < nd_count d); smallest_loop d 0 }"

definition nd_smallestOfType :: "net_dest \<Rightarrow> nat \<Rightarrow> MachineID option" where
  "nd_smallestOfType d machine = do {
     b \<leftarrow> rd d machine;
     r \<leftarrow> find_elem b [0..<m_nSize b];
     j \<leftarrow> r;
     Some (machine, j)
   }"

fun nd_isBroadcast :: "net_dest \<Rightarrow> bool option" where
  "nd_isBroadcast [] = Some True"
| "nd_isBroadcast (b # bs) = do {
     r \<leftarrow> set_isBroadcast b;
     if \<not> r then Some False else nd_isBroadcast bs
   }"

definition nd_isEmpty :: "net_dest \<Rightarrow> bool" where
  "nd_isEmpty d = (\<not> list_ex (\<lambda>b. \<not> set_isEmpty b) d)"

definition nd_OR :: "net_dest \<Rightarrow> net_dest \<Rightarrow> net_dest option" where
  "nd_OR d e = do { assert_that (length d = length e); map2_opt set_OR d e }"

definition nd_AND :: "net_dest \<Rightarrow> net_dest \<Rightarrow> net_dest option" where
  "nd_AND d e = do { assert_that (length d = length e); map2_opt set_AND d e }"

definition intersectionIsNotEmpty :: "net_dest \<Rightarrow> net_dest \<Rightarrow> bool option" where
  "intersectionIsNotEmpty d e = do {
     assert_that (length d = length e);
     Some (list_ex (\<lambda>(b, c). \<not> set_intersectionIsEmpty b c) (zip d e))
   }"

definition nd_isSuperset :: "net_dest \<Rightarrow> net_dest \<Rightarrow> bool option" where
  "nd_isSuperset d test = do {
     assert_that (length d = length test);
     all2_opt set_isSuperset d test
   }"

definition nd_isElement :: "net_dest \<Rightarrow> MachineID \<Rightarrow> bool option" where
  "nd_isElement d m = do { b \<leftarrow> rd d (fst m); set_isElement b (snd m) }"

section \<open>The set of machines a vector stands for\<close>

definition nd_wf :: "nat list \<Rightarrow> net_dest \<Rightarrow> bool" where
  "nd_wf counts d = list_all2 set_wf counts d"

definition nd_rng :: "nat list \<Rightarrow> MachineID \<Rightarrow> bool" where
  "nd_rng counts m = (fst m < length counts \<and> snd m < counts ! fst m)"

definition nd_elems :: "net_dest \<Rightarrow> MachineID set" where
  "nd_elems d = {m. fst m < length d \<and> snd m \<in> elems (d ! fst m)}"

lemma nd_wf_nth: "nd_wf counts d \<Longrightarrow> i < length counts \<Longrightarrow> set_wf (counts ! i) (d ! i)"
  by (simp add: nd_wf_def list_all2_nthD)

lemma nd_wf_len: "nd_wf counts d \<Longrightarrow> length d = length counts"
  by (simp add: nd_wf_def list_all2_lengthD)

lemma nd_wfI:
  "length d = length counts \<Longrightarrow> (\<And>i. i < length counts \<Longrightarrow> set_wf (counts ! i) (d ! i)) \<Longrightarrow> nd_wf counts d"
  by (simp add: nd_wf_def list_all2_conv_all_nth)

lemma nd_upd:
  assumes "nd_wf counts d" "fst m < length counts" "set_wf (counts ! fst m) b"
  shows "nd_wf counts (d[fst m := b])"
    "nd_elems (d[fst m := b]) = {x \<in> nd_elems d. fst x \<noteq> fst m} \<union> Pair (fst m) ` elems b"
  using assms nd_wf_len [OF assms(1)]
  by (auto simp: nd_wf_def list_all2_conv_all_nth nth_list_update nd_elems_def image_iff
      split: if_splits)

lemma nd_add_ok:
  assumes "nd_wf counts d" "nd_rng counts m"
  shows "succeeds (nd_add d m) (\<lambda>d'. nd_wf counts d' \<and> nd_elems d' = insert m (nd_elems d))"
proof -
  have m: "fst m < length counts" "snd m < counts ! fst m" using assms(2) by (simp_all add: nd_rng_def)
  obtain b where b: "set_add (d ! fst m) (snd m) = Some b" "set_wf (counts ! fst m) b"
    "elems b = insert (snd m) (elems (d ! fst m))"
    using set_add_ok [OF nd_wf_nth [OF assms(1) m(1)] m(2)] by (auto simp: succeeds_iff)
  have "nd_elems (d[fst m := b]) = insert m (nd_elems d)"
    unfolding nd_upd(2) [OF assms(1) m(1) b(2)] b(3)
    using m(1) nd_wf_len [OF assms(1)] by (auto simp: nd_elems_def)
  with b m nd_upd(1) [OF assms(1) m(1) b(2)] nd_wf_len [OF assms(1)] show ?thesis
    by (simp add: nd_add_def arr_simps)
qed

lemma nd_remove_ok:
  assumes "nd_wf counts d" "nd_rng counts m"
  shows "succeeds (nd_remove d m) (\<lambda>d'. nd_wf counts d' \<and> nd_elems d' = nd_elems d - {m})"
proof -
  have m: "fst m < length counts" "snd m < counts ! fst m" using assms(2) by (simp_all add: nd_rng_def)
  obtain b where b: "set_remove (d ! fst m) (snd m) = Some b" "set_wf (counts ! fst m) b"
    "elems b = elems (d ! fst m) - {snd m}"
    using set_remove_ok [OF nd_wf_nth [OF assms(1) m(1)] m(2)] by (auto simp: succeeds_iff)
  have "nd_elems (d[fst m := b]) = nd_elems d - {m}"
    unfolding nd_upd(2) [OF assms(1) m(1) b(2)] b(3)
    using m(1) nd_wf_len [OF assms(1)] by (auto simp: nd_elems_def)
  with b m nd_upd(1) [OF assms(1) m(1) b(2)] nd_wf_len [OF assms(1)] show ?thesis
    by (simp add: nd_remove_def arr_simps)
qed

lemma nd_superset_ok:
  assumes "nd_wf counts d" "nd_wf counts e"
  shows "nd_isSuperset d e = Some (nd_elems e \<subseteq> nd_elems d)"
proof -
  have l: "length d = length counts" "length e = length counts" using assms nd_wf_len by blast+
  have "all2_opt set_isSuperset d e = Some (\<forall>i<length d. elems (e ! i) \<subseteq> elems (d ! i))"
    by (rule all2_opt_eq) (use l in \<open>simp_all add: set_superset_ok [OF nd_wf_nth [OF assms(1)] nd_wf_nth [OF assms(2)]]\<close>)
  also have "(\<forall>i<length d. elems (e ! i) \<subseteq> elems (d ! i)) = (nd_elems e \<subseteq> nd_elems d)"
    using l unfolding nd_elems_def subset_iff by auto
  finally show ?thesis using l by (simp add: nd_isSuperset_def)
qed

lemma nd_empty_ok: "nd_isEmpty d = (nd_elems d = {})"
proof -
  have "nd_isEmpty d = (\<forall>i<length d. elems (d ! i) = {})"
    by (simp add: nd_isEmpty_def list_ex_length set_empty_ok)
  then show ?thesis by (auto simp: nd_elems_def)
qed

interpretation nd: dest_set nd_wf nd_rng nd_elems nd_add nd_remove nd_isElement nd_isSuperset nd_isEmpty
proof unfold_locales
  fix counts d m
  assume "nd_wf counts d" "m \<in> nd_elems d"
  then show "nd_rng counts m"
    using nd_wf_len nd_wf_nth set_wf_less unfolding nd_rng_def nd_elems_def by fastforce
next
  fix counts d m
  assume a: "nd_wf counts d" "nd_rng counts m"
  then show "nd_isElement d m = Some (m \<in> nd_elems d)"
    using nd_wf_len [OF a(1)] nd_wf_nth [OF a(1), of "fst m"]
    by (simp add: nd_isElement_def nd_rng_def nd_elems_def arr_simps set_elem_ok)
qed (simp_all add: nd_add_ok nd_remove_ok nd_superset_ok nd_empty_ok)

lemma nd_pointwise:
  assumes "nd_wf counts d" "nd_wf counts e"
    and f: "\<And>n s t. set_wf n s \<Longrightarrow> set_wf n t \<Longrightarrow>
      succeeds (f s t) (\<lambda>r. set_wf n r \<and> elems r = F (elems s) (elems t))"
  shows "succeeds (map2_opt f d e) (\<lambda>r. nd_wf counts r \<and>
    nd_elems r = {m. fst m < length counts \<and> snd m \<in> F (elems (d ! fst m)) (elems (e ! fst m))})"
proof -
  have l: "length d = length counts" "length e = length counts" using assms nd_wf_len by blast+
  have "succeeds (map2_opt f d e) (\<lambda>r. length r = length d \<and>
      (\<forall>i<length d. set_wf (counts ! i) (r ! i) \<and> elems (r ! i) = F (elems (d ! i)) (elems (e ! i))))"
    by (rule map2_opt_ok) (use l in \<open>simp_all add: f [OF nd_wf_nth [OF assms(1)] nd_wf_nth [OF assms(2)]]\<close>)
  then show ?thesis
    by (rule succeeds_mono) (use l in \<open>auto simp: nd_elems_def intro!: nd_wfI\<close>)
qed

lemma nd_union_ok:
  assumes "nd_wf counts d" "nd_wf counts e"
  shows "succeeds (nd_addNetDest d e) (\<lambda>r. nd_wf counts r \<and> nd_elems r = nd_elems d \<union> nd_elems e)"
    "succeeds (nd_OR d e) (\<lambda>r. nd_wf counts r \<and> nd_elems r = nd_elems d \<union> nd_elems e)"
  using nd_pointwise [where F = "(\<union>)", OF assms addSet_ok]
    nd_pointwise [where F = "(\<union>)", OF assms set_OR_ok]
    nd_wf_len [OF assms(1)] nd_wf_len [OF assms(2)]
  by (auto simp: nd_addNetDest_def nd_OR_def succeeds_iff nd_elems_def)

lemma nd_diff_ok:
  assumes "nd_wf counts d" "nd_wf counts e"
  shows "succeeds (nd_removeNetDest d e) (\<lambda>r. nd_wf counts r \<and> nd_elems r = nd_elems d - nd_elems e)"
    "succeeds (nd_AND d e) (\<lambda>r. nd_wf counts r \<and> nd_elems r = nd_elems d \<inter> nd_elems e)"
  using nd_pointwise [where F = "(-)", OF assms removeSet_ok]
    nd_pointwise [where F = "(\<inter>)", OF assms set_AND_ok]
    nd_wf_len [OF assms(1)] nd_wf_len [OF assms(2)]
  by (auto simp: nd_removeNetDest_def nd_AND_def succeeds_iff nd_elems_def)

lemma nd_resize_ok: "nd_wf counts (nd_resize counts)" "nd_elems (nd_resize counts) = {}"
  by (auto simp: nd_resize_def nd_elems_def setSize_ok intro!: nd_wfI)

lemma nd_clear_ok: "nd_wf counts d \<Longrightarrow> nd_wf counts (nd_clear d) \<and> nd_elems (nd_clear d) = {}"
proof -
  assume a: "nd_wf counts d"
  have "set_wf (counts ! i) (set_clear (d ! i)) \<and> elems (set_clear (d ! i)) = {}"
    if "i < length counts" for i using clear_ok [OF nd_wf_nth [OF a that]] .
  with nd_wf_len [OF a] show ?thesis by (auto simp: nd_clear_def nd_elems_def intro!: nd_wfI)
qed

lemma add_all_ok:
  "nd_wf counts d \<Longrightarrow> \<forall>m\<in>set ms. nd_rng counts m \<Longrightarrow>
   succeeds (add_all ms d) (\<lambda>r. nd_wf counts r \<and> nd_elems r = nd_elems d \<union> set ms)"
proof (induction ms arbitrary: d)
  case Nil
  then show ?case by simp
next
  case (Cons m ms)
  show ?case
    unfolding add_all.simps
  proof (rule succeeds_bind [OF nd_add_ok [OF Cons.prems(1)]])
    show "nd_rng counts m" using Cons.prems(2) by simp
    fix d' assume d': "nd_wf counts d' \<and> nd_elems d' = insert m (nd_elems d)"
    then show "succeeds (add_all ms d') (\<lambda>r. nd_wf counts r \<and> nd_elems r = nd_elems d \<union> set (m # ms))"
      using Cons.IH [of d'] Cons.prems(2) by simp
  qed
qed

lemma nd_broadcast_loop_ok:
  "nd_wf counts d \<Longrightarrow> \<forall>t\<in>set ts. t < length counts \<Longrightarrow>
   succeeds (nd_broadcast_loop counts ts d)
     (\<lambda>r. nd_wf counts r \<and> nd_elems r = nd_elems d \<union> {m. fst m \<in> set ts \<and> snd m < counts ! fst m})"
proof (induction ts arbitrary: d)
  case Nil
  then show ?case by simp
next
  case (Cons t ts)
  have "succeeds (nd_broadcastType counts t d)
      (\<lambda>r. nd_wf counts r \<and> nd_elems r = nd_elems d \<union> {m. fst m = t \<and> snd m < counts ! t})"
    unfolding nd_broadcastType_def
    by (rule succeeds_mono [OF add_all_ok [OF Cons.prems(1)]])
      (use Cons.prems(2) in \<open>auto simp: nd_rng_def\<close>)
  then show ?case
    unfolding nd_broadcast_loop.simps
  proof (rule succeeds_bind)
    fix d' assume d': "nd_wf counts d' \<and> nd_elems d' = nd_elems d \<union> {m. fst m = t \<and> snd m < counts ! t}"
    have "succeeds (nd_broadcast_loop counts ts d')
     (\<lambda>r. nd_wf counts r \<and> nd_elems r = nd_elems d' \<union> {m. fst m \<in> set ts \<and> snd m < counts ! fst m})"
      using Cons.IH [of d'] Cons.prems(2) d' by simp
    then show "succeeds (nd_broadcast_loop counts ts d') (\<lambda>r. nd_wf counts r \<and> nd_elems r
        = nd_elems d \<union> {m. fst m \<in> set (t # ts) \<and> snd m < counts ! fst m})"
      by (rule succeeds_mono) (use d' in auto)
  qed
qed

lemma nd_broadcast_ok:
  assumes "nd_wf counts d"
  shows "succeeds (nd_broadcast counts d) (\<lambda>r. nd_wf counts r \<and> nd_elems r = {m. nd_rng counts m})"
  unfolding nd_broadcast_def
  by (rule succeeds_mono [OF nd_broadcast_loop_ok [OF assms]])
    (auto simp: nd_rng_def dest: nd.elems_rng [OF assms])

lemma nd_count_pos: "(0 < nd_count d) = (\<exists>b\<in>set d. 0 < set_count b)"
proof -
  have "fold (\<lambda>b counter. counter + set_count b) d c = c + sum_list (map set_count d)" for c
    by (induction d arbitrary: c) simp_all
  from this [of 0] have "nd_count d = sum_list (map set_count d)" by (simp add: nd_count_def)
  then show ?thesis by (auto simp: sum_list_eq_0_iff neq0_conv [symmetric] simp del: neq0_conv)
qed

lemma find_elem_ok:
  assumes "set_wf n b"
  shows "k \<le> n \<Longrightarrow> \<forall>i<k. i \<notin> elems b \<Longrightarrow> find_elem b [k..<n]
    = Some (if elems b = {} then None else Some (Min (elems b)))"
proof (induction "n - k" arbitrary: k)
  case 0
  then have "elems b = {}" using assms by (auto simp: set_wf_def)
  with 0 show ?case by simp
next
  case (Suc m)
  then have k: "k < n" by simp
  have fin: "finite (elems b)" using assms finite_subset by (auto simp: set_wf_def)
  show ?case
  proof (cases "k \<in> elems b")
    case True
    then have "Min (elems b) = k" using fin Suc.prems(2) by (intro Min_eqI) (auto simp: not_less [symmetric])
    with True k show ?thesis by (auto simp: upt_conv_Cons set_elem_ok [OF assms k])
  next
    case False
    then have "\<forall>i<Suc k. i \<notin> elems b" using Suc.prems(2) less_Suc_eq by auto
    with False k Suc.hyps show ?thesis by (simp add: upt_conv_Cons set_elem_ok [OF assms k])
  qed
qed

text \<open>The smallest machine is the least in the order of types and then of numbers.\<close>

lemma smallest_loop_ok:
  "\<forall>i<length d. \<exists>n. set_wf n (d ! i) \<Longrightarrow> \<exists>i<length d. elems (d ! i) \<noteq> {} \<Longrightarrow>
   \<exists>i<length d. smallest_loop d b = Some (b + i, Min (elems (d ! i))) \<and> elems (d ! i) \<noteq> {}
     \<and> (\<forall>k<i. elems (d ! k) = {})"
proof (induction d arbitrary: b)
  case Nil
  then show ?case by simp
next
  case (Cons s d)
  obtain n where n: "set_wf n s" using Cons.prems(1) by auto
  then have f: "find_elem s [0..<m_nSize s] = Some (if elems s = {} then None else Some (Min (elems s)))"
    using find_elem_ok [OF n, of 0] by (simp add: set_wf_def)
  show ?case
  proof (cases "elems s = {}")
    case True
    with Cons.prems have "\<forall>i<length d. \<exists>n. set_wf n (d ! i)" "\<exists>i<length d. elems (d ! i) \<noteq> {}"
      by (auto simp: less_Suc_eq_0_disj)
    from Cons.IH [OF this, of "b + 1"] obtain i where "i < length d"
      "smallest_loop d (b + 1) = Some (b + 1 + i, Min (elems (d ! i)))" "elems (d ! i) \<noteq> {}"
      "\<forall>k<i. elems (d ! k) = {}" by blast
    with True f show ?thesis by (intro exI [of _ "Suc i"]) (auto simp: less_Suc_eq_0_disj)
  next
    case False
    with f show ?thesis by (intro exI [of _ 0]) simp
  qed
qed

lemma nd_smallest_ok:
  assumes "nd_wf counts d" "nd_elems d \<noteq> {}"
  shows "succeeds (nd_smallestElement d) (\<lambda>m. m \<in> nd_elems d \<and>
    (\<forall>x\<in>nd_elems d. fst m < fst x \<or> fst m = fst x \<and> snd m \<le> snd x))"
proof -
  have w: "\<forall>i<length d. \<exists>n. set_wf n (d ! i)"
    using nd_wf_len [OF assms(1)] nd_wf_nth [OF assms(1)] by auto
  have fin: "finite (elems (d ! i))" if "i < length d" for i
    using w that finite_subset unfolding set_wf_def by blast
  have "\<exists>i<length d. elems (d ! i) \<noteq> {}" using assms(2) by (auto simp: nd_elems_def)
  from smallest_loop_ok [OF w this, of 0] obtain i where
    i: "i < length d" "smallest_loop d 0 = Some (i, Min (elems (d ! i)))" "elems (d ! i) \<noteq> {}"
      "\<forall>k<i. elems (d ! k) = {}" by auto
  have "0 < nd_count d"
    using i fin by (auto simp: nd_count_pos set_count_ok card_gt_0_iff intro!: bexI [of _ "d ! i"])
  moreover have "(i, Min (elems (d ! i))) \<in> nd_elems d"
    using i fin by (simp add: nd_elems_def)
  moreover have "i < fst x \<or> i = fst x \<and> Min (elems (d ! i)) \<le> snd x" if "x \<in> nd_elems d" for x
    using that i(4) fin by (cases "fst x" i rule: linorder_cases) (auto simp: nd_elems_def)
  ultimately show ?thesis using i(2) by (simp add: nd_smallestElement_def)
qed

section \<open>Properties\<close>

text \<open>C33: A destination vector implements finite sets of machines: adding, removing, joining,
  subtracting and intersecting have the effect of the set operation, a broadcast reaches every
  machine of every type, and the smallest element is the least by type and then by number.\<close>

theorem net_dest_implements_sets:
  assumes "nd_wf counts d" "nd_wf counts e" "nd_rng counts m"
  shows "(\<exists>r. nd_add d m = Some r \<and> nd_wf counts r \<and> nd_elems r = insert m (nd_elems d))
     \<and> (\<exists>r. nd_remove d m = Some r \<and> nd_wf counts r \<and> nd_elems r = nd_elems d - {m})
     \<and> (\<exists>r. nd_addNetDest d e = Some r \<and> nd_wf counts r \<and> nd_elems r = nd_elems d \<union> nd_elems e)
     \<and> (\<exists>r. nd_removeNetDest d e = Some r \<and> nd_wf counts r \<and> nd_elems r = nd_elems d - nd_elems e)
     \<and> (\<exists>r. nd_AND d e = Some r \<and> nd_wf counts r \<and> nd_elems r = nd_elems d \<inter> nd_elems e)
     \<and> (\<exists>r. nd_broadcast counts d = Some r \<and> nd_wf counts r \<and> nd_elems r = {x. nd_rng counts x})
     \<and> nd_isElement d m = Some (m \<in> nd_elems d) \<and> nd_isSuperset d e = Some (nd_elems e \<subseteq> nd_elems d)
     \<and> nd_isEmpty d = (nd_elems d = {})
     \<and> (nd_elems d \<noteq> {} \<longrightarrow> (\<exists>t i. nd_smallestElement d = Some (t, i) \<and> (t, i) \<in> nd_elems d
          \<and> (\<forall>x\<in>nd_elems d. t < fst x \<or> t = fst x \<and> i \<le> snd x)))"
  using nd_add_ok [OF assms(1,3)] nd_remove_ok [OF assms(1,3)] nd_union_ok(1) [OF assms(1,2)]
    nd_diff_ok [OF assms(1,2)] nd_broadcast_ok [OF assms(1)] nd_smallest_ok [OF assms(1)]
  by (simp add: succeeds_iff nd.elem_ok [OF assms(1,3)] nd_superset_ok [OF assms(1,2)] nd_empty_ok)

theorem net_dest_implements_sets_witness:
  "\<exists>r. nd_add (nd_resize [4, 2]) (1, 1) = Some r \<and> nd_elems r = {(1, 1)}"
  using net_dest_implements_sets [of "[4, 2]" "nd_resize [4, 2]" "nd_resize [4, 2]" "(1, 1)"]
    nd_resize_ok [of "[4, 2]"] by (auto simp: nd_rng_def)

end
