(* ===== verification/Ruby_Tables.thy ===== *)
theory Ruby_Tables
  imports Line_Store Net_Dest
begin

text \<open>
  The small address-indexed tables of the Ruby controllers in
  \<^verbatim>\<open>src/Lab5/gem5/src/mem/ruby/system\<close>: the transaction buffers \<^verbatim>\<open>TBETable.hh\<close>, the unbounded cache
  \<^verbatim>\<open>PerfectCacheMemory.hh\<close>, the timers \<^verbatim>\<open>TimerTable.cc\<close> and the arbitration of starving requests
  \<^verbatim>\<open>PersistentTable.cc\<close>.  A hash map is an association list with distinct keys; \<open>bb\<close> is the number of
  block offset bits.  \<open>None\<close> is a failed assertion.
\<close>

section \<open>Maps as association lists\<close>

definition erase :: "addr \<Rightarrow> (addr \<times> 'e) list \<Rightarrow> (addr \<times> 'e) list" where
  "erase a m = filter (\<lambda>p. fst p \<noteq> a) m"

definition store_at :: "addr \<Rightarrow> 'e \<Rightarrow> (addr \<times> 'e) list \<Rightarrow> (addr \<times> 'e) list" where
  "store_at a e m = (a, e) # erase a m"

lemma map_of_erase: "map_of (erase a m) = (map_of m)(a := None)"
  by (induction m) (auto simp: erase_def)

lemma map_of_store [simp]: "map_of (store_at a e m) = (map_of m)(a \<mapsto> e)"
  by (simp add: store_at_def map_of_erase)

lemma erase_keys: "fst ` set (erase a m) = fst ` set m - {a}"
  by (auto simp: erase_def)

lemma distinct_erase: "distinct (map fst m) \<Longrightarrow> distinct (map fst (erase a m))"
  by (induction m) (auto simp: erase_def)

lemma distinct_store: "distinct (map fst m) \<Longrightarrow> distinct (map fst (store_at a e m))"
  using distinct_erase [of m a] erase_keys [of a m] by (simp add: store_at_def)

lemma erase_absent: "map_of m a = None \<Longrightarrow> erase a m = m"
  by (induction m) (auto simp: erase_def split: if_splits)

lemma length_erase: "distinct (map fst m) \<Longrightarrow> map_of m a \<noteq> None \<Longrightarrow> length (erase a m) = length m - 1"
proof (induction m)
  case (Cons p m)
  show ?case
  proof (cases "fst p = a")
    case True
    with Cons.prems(1) have "map_of m a = None" by (metis distinct.simps(2) list.simps(9) map_of_eq_None_iff set_map)
    with True show ?thesis using erase_absent [of m a] by (simp add: erase_def)
  next
    case False
    with Cons have "map_of m a \<noteq> None" "length (erase a m) = length m - 1" by (auto split: if_splits)
    moreover from this(1) have "m \<noteq> []" by auto
    ultimately show ?thesis using False by (cases m) (simp_all add: erase_def)
  qed
qed simp

section \<open>Transaction buffers\<close>

record 'e TBETable =
  m_number_of_TBEs :: nat
  tbe_map :: "(addr \<times> 'e) list"

definition tbe_isPresent :: "nat \<Rightarrow> 'e TBETable \<Rightarrow> addr \<Rightarrow> bool option" where
  "tbe_isPresent bb t address = do {
     assert_that (is_line bb address);
     assert_that (length (tbe_map t) \<le> m_number_of_TBEs t);
     Some (map_of (tbe_map t) address \<noteq> None)
   }"

definition tbe_allocate :: "nat \<Rightarrow> 'e \<Rightarrow> 'e TBETable \<Rightarrow> addr \<Rightarrow> 'e TBETable option" where
  "tbe_allocate bb dflt t address = do {
     present \<leftarrow> tbe_isPresent bb t address;
     assert_that (\<not> present);
     assert_that (length (tbe_map t) < m_number_of_TBEs t);
     Some (t\<lparr> tbe_map := store_at address dflt (tbe_map t) \<rparr>)
   }"

definition tbe_deallocate :: "nat \<Rightarrow> 'e TBETable \<Rightarrow> addr \<Rightarrow> 'e TBETable option" where
  "tbe_deallocate bb t address = do {
     present \<leftarrow> tbe_isPresent bb t address;
     assert_that present;
     assert_that (0 < length (tbe_map t));
     Some (t\<lparr> tbe_map := erase address (tbe_map t) \<rparr>)
   }"

text \<open>The comparison is made on unsigned 64-bit values.\<close>

definition areNSlotsAvailable :: "'e TBETable \<Rightarrow> int \<Rightarrow> bool" where
  "areNSlotsAvailable t n =
     ((of_int n :: UINT64) \<le> of_nat (m_number_of_TBEs t) - of_nat (length (tbe_map t)))"

definition tbe_lookup :: "'e TBETable \<Rightarrow> addr \<Rightarrow> 'e option" where
  "tbe_lookup t address = map_of (tbe_map t) address"

definition tbe_inv :: "nat \<Rightarrow> 'e TBETable \<Rightarrow> bool" where
  "tbe_inv bb t = (distinct (map fst (tbe_map t)) \<and> length (tbe_map t) \<le> m_number_of_TBEs t
     \<and> m_number_of_TBEs t < 2 ^ 31 \<and> (\<forall>a\<in>fst ` set (tbe_map t). is_line bb a))"

interpretation tbe: line_store "is_line bb" tbe_lookup "\<lambda>t a e. tbe_allocate bb dflt t a"
    "tbe_deallocate bb" "\<lambda>t a. length (tbe_map t) < m_number_of_TBEs t" "\<lambda>a e. dflt" "tbe_inv bb"
  for bb dflt
proof unfold_locales
  fix t :: "'a TBETable" and a and e :: 'a
  assume "tbe_inv bb t" "is_line bb a" "tbe_lookup t a = None"
    "length (tbe_map t) < m_number_of_TBEs t"
  then show "succeeds (tbe_allocate bb dflt t a)
      (\<lambda>t'. tbe_inv bb t' \<and> tbe_lookup t' = (tbe_lookup t)(a \<mapsto> dflt))"
    by (auto simp: tbe_allocate_def tbe_isPresent_def tbe_inv_def tbe_lookup_def fun_eq_iff
        distinct_store erase_absent store_at_def)
next
  fix t :: "'a TBETable" and a
  assume a: "tbe_inv bb t" "is_line bb a" "tbe_lookup t a \<noteq> None"
  have len: "length (erase a (tbe_map t)) = length (tbe_map t) - 1" "0 < length (tbe_map t)"
    using a(1,3) length_erase [of "tbe_map t" a] by (auto simp: tbe_inv_def tbe_lookup_def)
  have inv: "tbe_inv bb (t\<lparr> tbe_map := erase a (tbe_map t) \<rparr>)"
    using a(1) len by (auto simp: tbe_inv_def distinct_erase erase_keys)
  have look: "tbe_lookup (t\<lparr> tbe_map := erase a (tbe_map t) \<rparr>) = (tbe_lookup t)(a := None)"
    by (simp add: tbe_lookup_def fun_eq_iff map_of_erase)
  have le: "length (tbe_map t) \<le> m_number_of_TBEs t" using a(1) by (simp add: tbe_inv_def)
  have "tbe_deallocate bb t a = Some (t\<lparr> tbe_map := erase a (tbe_map t) \<rparr>)"
    using a(2,3) len(2) le by (simp add: tbe_deallocate_def tbe_isPresent_def tbe_lookup_def)
  moreover have "length (erase a (tbe_map t)) < m_number_of_TBEs t"
    unfolding len(1) using len(2) le by linarith
  ultimately show "succeeds (tbe_deallocate bb t a) (\<lambda>t'. tbe_inv bb t'
      \<and> tbe_lookup t' = (tbe_lookup t)(a := None) \<and> length (tbe_map t') < m_number_of_TBEs t')"
    using inv look by simp
qed

lemma slots_available:
  assumes "tbe_inv bb t" "0 \<le> n" "n < 2 ^ 31"
  shows "areNSlotsAvailable t n = (int (length (tbe_map t)) + n \<le> int (m_number_of_TBEs t))"
proof -
  let ?l = "length (tbe_map t)" and ?m = "m_number_of_TBEs t"
  have m: "?l \<le> ?m" "?m < 2 ^ 31" using assms(1) by (simp_all add: tbe_inv_def)
  have d: "of_nat ?m - of_nat ?l = (of_nat (?m - ?l) :: UINT64)" using m(1) by (simp add: of_nat_diff)
  have u: "unat (of_nat k :: UINT64) = k" if "k < 2 ^ 31" for k
    using that by (simp add: unsigned_of_nat take_bit_nat_eq_self)
  have n: "(of_int n :: UINT64) = of_nat (nat n)" using assms(2) by simp
  have "areNSlotsAvailable t n = (nat n \<le> ?m - ?l)"
    unfolding areNSlotsAvailable_def d n word_le_nat_alt
    using m assms(3) by (subst (1 2) u) auto
  with m(1) assms(2) show ?thesis by auto
qed

section \<open>The perfect cache\<close>

text \<open>The permission \<open>None\<close> is the initial value \<^verbatim>\<open>AccessPermission_NUM\<close>.  Every read goes through
  \<^verbatim>\<open>operator[]\<close>, which inserts a fresh line where there is none.\<close>

record 'e PerfectCacheLineState =
  p_permission :: "AccessPermission option"
  p_entry :: 'e

type_synonym 'e perfect_cache = "(addr \<times> 'e PerfectCacheLineState) list"

definition pc_isTagPresent :: "nat \<Rightarrow> 'e perfect_cache \<Rightarrow> addr \<Rightarrow> bool" where
  "pc_isTagPresent bb c address = (map_of c (line_address bb address) \<noteq> None)"

definition pc_cacheAvail :: "'e perfect_cache \<Rightarrow> addr \<Rightarrow> bool" where
  "pc_cacheAvail c address = True"

definition pc_allocate :: "nat \<Rightarrow> 'e \<Rightarrow> 'e perfect_cache \<Rightarrow> addr \<Rightarrow> 'e perfect_cache" where
  "pc_allocate bb dflt c address =
     store_at (line_address bb address) \<lparr> p_permission = Some Invalid, p_entry = dflt \<rparr> c"

definition pc_deallocate :: "nat \<Rightarrow> 'e perfect_cache \<Rightarrow> addr \<Rightarrow> 'e perfect_cache" where
  "pc_deallocate bb c address = erase (line_address bb address) c"

definition pc_cacheProbe :: "'e perfect_cache \<Rightarrow> addr \<Rightarrow> addr option" where
  "pc_cacheProbe c newAddress = None"

definition pc_index :: "nat \<Rightarrow> 'e \<Rightarrow> 'e perfect_cache \<Rightarrow> addr
    \<Rightarrow> 'e PerfectCacheLineState \<times> 'e perfect_cache" where
  "pc_index bb dflt c address =
     (case map_of c (line_address bb address) of
        Some l \<Rightarrow> (l, c)
      | None \<Rightarrow> let l = \<lparr> p_permission = None, p_entry = dflt \<rparr>
                in (l, store_at (line_address bb address) l c))"

definition pc_lookup :: "nat \<Rightarrow> 'e \<Rightarrow> 'e perfect_cache \<Rightarrow> addr \<Rightarrow> 'e \<times> 'e perfect_cache" where
  "pc_lookup bb dflt c address = (let (l, c) = pc_index bb dflt c address in (p_entry l, c))"

definition pc_getPermission ::
  "nat \<Rightarrow> 'e \<Rightarrow> 'e perfect_cache \<Rightarrow> addr \<Rightarrow> AccessPermission option \<times> 'e perfect_cache" where
  "pc_getPermission bb dflt c address = (let (l, c) = pc_index bb dflt c address in (p_permission l, c))"

definition pc_changePermission ::
  "nat \<Rightarrow> 'e \<Rightarrow> 'e perfect_cache \<Rightarrow> addr \<Rightarrow> AccessPermission \<Rightarrow> 'e perfect_cache" where
  "pc_changePermission bb dflt c address new_perm =
     (let (l, c) = pc_index bb dflt c address
      in store_at (line_address bb address) (l\<lparr> p_permission := Some new_perm \<rparr>) c)"

interpretation pc: line_store "is_line bb" map_of "\<lambda>c a e. Some (pc_allocate bb dflt c a)"
    "\<lambda>c a. Some (pc_deallocate bb c a)" "\<lambda>c a. pc_cacheAvail c a"
    "\<lambda>a e. \<lparr> p_permission = Some Invalid, p_entry = dflt \<rparr>" "\<lambda>c. distinct (map fst c)" for bb dflt
  by unfold_locales
    (auto simp: pc_allocate_def pc_deallocate_def pc_cacheAvail_def is_line_def fun_eq_iff
      distinct_store distinct_erase map_of_erase)

section \<open>Timers\<close>

text \<open>A \<^verbatim>\<open>std::map\<close> iterates in the order of its keys: the association list is sorted by address.
  \<open>set\<close> also returns the time at which it schedules the consumer.\<close>

record TimerTable =
  tt_map :: "(addr \<times> int) list"
  m_next_valid :: bool
  m_next_time :: int
  m_next_address :: addr
  tt_consumer :: bool

definition new_TimerTable :: TimerTable where
  "new_TimerTable = \<lparr> tt_map = [], m_next_valid = False, m_next_time = 0, m_next_address = 0,
     tt_consumer = False \<rparr>"

definition tt_setConsumer :: "TimerTable \<Rightarrow> TimerTable option" where
  "tt_setConsumer t = do { assert_that (\<not> tt_consumer t); Some (t\<lparr> tt_consumer := True \<rparr>) }"

fun next_loop :: "(addr \<times> int) list \<Rightarrow> addr \<times> int \<Rightarrow> addr \<times> int" where
  "next_loop [] best = best"
| "next_loop (p # ps) best = next_loop ps (if snd p < snd best then p else best)"

definition updateNext :: "TimerTable \<Rightarrow> TimerTable option" where
  "updateNext t =
     (case tt_map t of
        [] \<Rightarrow> do { assert_that (\<not> m_next_valid t); Some t }
      | p # ps \<Rightarrow>
          (let best = next_loop ps p
           in Some (t\<lparr> m_next_address := fst best, m_next_time := snd best, m_next_valid := True \<rparr>)))"

definition tt_isReady :: "int \<Rightarrow> TimerTable \<Rightarrow> (bool \<times> TimerTable) option" where
  "tt_isReady now t =
     (if tt_map t = [] then Some (False, t)
      else do {
        t \<leftarrow> (if \<not> m_next_valid t then updateNext t else Some t);
        assert_that (m_next_valid t);
        Some (m_next_time t \<le> now, t)
      })"

definition readyAddress :: "int \<Rightarrow> TimerTable \<Rightarrow> (addr \<times> TimerTable) option" where
  "readyAddress now t = do {
     (ready, t) \<leftarrow> tt_isReady now t;
     assert_that ready;
     t \<leftarrow> (if \<not> m_next_valid t then updateNext t else Some t);
     assert_that (m_next_valid t);
     Some (m_next_address t, t)
   }"

definition tt_isSet :: "TimerTable \<Rightarrow> addr \<Rightarrow> bool" where
  "tt_isSet t address = (map_of (tt_map t) address \<noteq> None)"

fun insert_sorted :: "addr \<Rightarrow> int \<Rightarrow> (addr \<times> int) list \<Rightarrow> (addr \<times> int) list" where
  "insert_sorted a v [] = [(a, v)]"
| "insert_sorted a v (p # ps) = (if a < fst p then (a, v) # p # ps else p # insert_sorted a v ps)"

definition tt_set :: "nat \<Rightarrow> int \<Rightarrow> TimerTable \<Rightarrow> addr \<Rightarrow> int \<Rightarrow> (int \<times> TimerTable) option" where
  "tt_set bb now t address relative_latency = do {
     assert_that (is_line bb address);
     assert_that (0 < relative_latency);
     assert_that (\<not> tt_isSet t address);
     let ready_time = now + relative_latency;
     let t = t\<lparr> tt_map := insert_sorted address ready_time (tt_map t) \<rparr>;
     assert_that (tt_consumer t);
     let t = t\<lparr> m_next_valid := False \<rparr>;
     Some (ready_time, if ready_time \<le> m_next_time t then t\<lparr> m_next_valid := False \<rparr> else t)
   }"

definition tt_unset :: "nat \<Rightarrow> TimerTable \<Rightarrow> addr \<Rightarrow> TimerTable option" where
  "tt_unset bb t address = do {
     assert_that (is_line bb address);
     assert_that (tt_isSet t address);
     let t = t\<lparr> tt_map := erase address (tt_map t) \<rparr>;
     Some (if address = m_next_address t then t\<lparr> m_next_valid := False \<rparr> else t)
   }"

definition earliest :: "(addr \<times> int) list \<Rightarrow> addr \<Rightarrow> int \<Rightarrow> bool" where
  "earliest m a v = ((a, v) \<in> set m \<and> (\<forall>p\<in>set m. v \<le> snd p))"

definition tt_inv :: "TimerTable \<Rightarrow> bool" where
  "tt_inv t = (sorted_wrt (\<lambda>p q. fst p < fst q) (tt_map t)
     \<and> (m_next_valid t \<longrightarrow> earliest (tt_map t) (m_next_address t) (m_next_time t)))"

lemma next_loop_earliest:
  "next_loop ps b \<in> set (b # ps) \<and> (\<forall>p\<in>set (b # ps). snd (next_loop ps b) \<le> snd p)"
proof (induction ps arbitrary: b)
  case (Cons q ps)
  show ?case
    using Cons.IH [of "if snd q < snd b then q else b"] by (auto split: if_splits)
qed simp

lemma updateNext_ok:
  assumes "tt_inv t" "tt_map t \<noteq> []"
  shows "succeeds (updateNext t) (\<lambda>t'. tt_inv t' \<and> m_next_valid t' \<and> tt_map t' = tt_map t
    \<and> tt_consumer t' = tt_consumer t)"
proof (cases "tt_map t")
  case (Cons p ps)
  then show ?thesis
    using assms(1) next_loop_earliest [of ps p]
    by (auto simp: updateNext_def Let_def tt_inv_def earliest_def)
qed (use assms in simp)

lemma tt_isReady_ok:
  assumes "tt_inv t"
  shows "succeeds (tt_isReady now t) (\<lambda>(r, t'). tt_inv t' \<and> tt_map t' = tt_map t
    \<and> r = (\<exists>p\<in>set (tt_map t). snd p \<le> now) \<and> (r \<longrightarrow> m_next_valid t'))"
proof (cases "tt_map t = []")
  case True
  with assms show ?thesis by (simp add: tt_isReady_def)
next
  case False
  obtain t' where t': "(if \<not> m_next_valid t then updateNext t else Some t) = Some t'" "tt_inv t'"
    "m_next_valid t'" "tt_map t' = tt_map t"
    using updateNext_ok [OF assms False] assms by (cases "m_next_valid t") (auto simp: succeeds_iff)
  then have "earliest (tt_map t) (m_next_address t') (m_next_time t')" by (auto simp: tt_inv_def)
  then have "(m_next_time t' \<le> now) = (\<exists>p\<in>set (tt_map t). snd p \<le> now)"
    by (force simp: earliest_def)
  with t' False show ?thesis by (auto simp: tt_isReady_def)
qed

lemma readyAddress_ok:
  assumes "tt_inv t" "\<exists>p\<in>set (tt_map t). snd p \<le> now"
  shows "succeeds (readyAddress now t) (\<lambda>(a, t'). tt_inv t' \<and> tt_map t' = tt_map t
    \<and> (\<exists>v\<le>now. earliest (tt_map t) a v))"
proof -
  obtain t' where t': "tt_isReady now t = Some (True, t')" "tt_inv t'" "tt_map t' = tt_map t"
    "m_next_valid t'"
    using tt_isReady_ok [OF assms(1), of now] assms(2) by (auto simp: succeeds_iff)
  then have e: "earliest (tt_map t) (m_next_address t') (m_next_time t')" by (auto simp: tt_inv_def)
  then have "m_next_time t' \<le> now" using assms(2) by (force simp: earliest_def)
  with t' e show ?thesis by (auto simp: readyAddress_def)
qed

lemma insert_sorted_set: "set (insert_sorted a v m) = insert (a, v) (set m)"
  by (induction m) auto

lemma insert_sorted_sorted:
  "sorted_wrt (\<lambda>p q. fst p < fst q) m \<Longrightarrow> a \<notin> fst ` set m \<Longrightarrow>
   sorted_wrt (\<lambda>p q. fst p < fst q) (insert_sorted a v m)"
  by (induction m) (force simp: insert_sorted_set)+

lemma tt_set_ok:
  assumes "tt_inv t" "is_line bb a" "0 < lat" "\<not> tt_isSet t a" "tt_consumer t"
  shows "succeeds (tt_set bb now t a lat) (\<lambda>(r, t'). r = now + lat \<and> tt_inv t' \<and> tt_consumer t'
    \<and> set (tt_map t') = insert (a, now + lat) (set (tt_map t)))"
proof -
  have "a \<notin> fst ` set (tt_map t)" using assms(4) by (simp add: tt_isSet_def map_of_eq_None_iff)
  then have "sorted_wrt (\<lambda>p q. fst p < fst q) (insert_sorted a (now + lat) (tt_map t))"
    using assms(1) by (intro insert_sorted_sorted) (simp_all add: tt_inv_def)
  with assms show ?thesis by (auto simp: tt_set_def Let_def tt_inv_def insert_sorted_set)
qed

lemma tt_unset_ok:
  assumes "tt_inv t" "is_line bb a" "tt_isSet t a"
  shows "succeeds (tt_unset bb t a) (\<lambda>t'. tt_inv t' \<and> tt_consumer t' = tt_consumer t
    \<and> set (tt_map t') = {p \<in> set (tt_map t). fst p \<noteq> a})"
proof -
  have "sorted_wrt (\<lambda>p q. fst p < fst q) (erase a (tt_map t))"
    using assms(1) by (auto simp: tt_inv_def erase_def sorted_wrt_filter)
  with assms show ?thesis
    by (auto simp: tt_unset_def Let_def tt_inv_def earliest_def erase_def)
qed

section \<open>Persistent requests\<close>

datatype AccessType = Read | Write

record PersistentTableEntry =
  m_starving :: net_dest
  m_marked :: net_dest
  m_request_to_write :: net_dest

type_synonym persistent_table = "(addr \<times> PersistentTableEntry) list"

definition pt_dflt :: "nat list \<Rightarrow> PersistentTableEntry" where
  "pt_dflt counts = \<lparr> m_starving = nd_resize counts, m_marked = nd_resize counts,
     m_request_to_write = nd_resize counts \<rparr>"

definition persistentRequestLock ::
  "nat \<Rightarrow> nat list \<Rightarrow> persistent_table \<Rightarrow> addr \<Rightarrow> MachineID \<Rightarrow> AccessType \<Rightarrow> persistent_table option" where
  "persistentRequestLock bb counts t address locker type = do {
     assert_that (is_line bb address);
     let present = (map_of t address \<noteq> None);
     let entry = (case map_of t address of Some e \<Rightarrow> e | None \<Rightarrow> pt_dflt counts);
     starving \<leftarrow> (if present then nd_isElement (m_starving entry) locker else Some False);
     assert_that (\<not> starving);
     s \<leftarrow> nd_add (m_starving entry) locker;
     w \<leftarrow> (if type = Write then nd_add (m_request_to_write entry) locker
          else Some (m_request_to_write entry));
     sub \<leftarrow> (if present then nd_isSuperset s (m_marked entry) else Some True);
     assert_that sub;
     Some (store_at address (entry\<lparr> m_starving := s, m_request_to_write := w \<rparr>) t)
   }"

definition persistentRequestUnlock ::
  "nat \<Rightarrow> persistent_table \<Rightarrow> addr \<Rightarrow> MachineID \<Rightarrow> persistent_table option" where
  "persistentRequestUnlock bb t address unlocker = do {
     assert_that (is_line bb address);
     entry \<leftarrow> map_of t address;
     starving \<leftarrow> nd_isElement (m_starving entry) unlocker;
     assert_that starving;
     sub \<leftarrow> nd_isSuperset (m_starving entry) (m_marked entry);
     assert_that sub;
     s \<leftarrow> nd_remove (m_starving entry) unlocker;
     m \<leftarrow> nd_remove (m_marked entry) unlocker;
     w \<leftarrow> nd_remove (m_request_to_write entry) unlocker;
     sub \<leftarrow> nd_isSuperset s m;
     assert_that sub;
     if nd_isEmpty s then do {
       assert_that (nd_isEmpty m);
       Some (erase address t)
     } else Some (store_at address
         (entry\<lparr> m_starving := s, m_marked := m, m_request_to_write := w \<rparr>) t)
   }"

definition okToIssueStarving :: "nat \<Rightarrow> persistent_table \<Rightarrow> addr \<Rightarrow> MachineID \<Rightarrow> bool option" where
  "okToIssueStarving bb t address machId = do {
     assert_that (is_line bb address);
     case map_of t address of
       None \<Rightarrow> Some True
     | Some entry \<Rightarrow> do {
         starving \<leftarrow> nd_isElement (m_starving entry) machId;
         if starving then Some False else Some (nd_isEmpty (m_marked entry))
       }
   }"

definition findSmallest :: "nat \<Rightarrow> persistent_table \<Rightarrow> addr \<Rightarrow> MachineID option" where
  "findSmallest bb t address = do {
     assert_that (is_line bb address);
     entry \<leftarrow> map_of t address;
     nd_smallestElement (m_starving entry)
   }"

definition typeOfSmallest :: "nat \<Rightarrow> persistent_table \<Rightarrow> addr \<Rightarrow> AccessType option" where
  "typeOfSmallest bb t address = do {
     assert_that (is_line bb address);
     entry \<leftarrow> map_of t address;
     m \<leftarrow> nd_smallestElement (m_starving entry);
     w \<leftarrow> nd_isElement (m_request_to_write entry) m;
     Some (if w then Write else Read)
   }"

definition markEntries :: "nat \<Rightarrow> persistent_table \<Rightarrow> addr \<Rightarrow> persistent_table option" where
  "markEntries bb t address = do {
     assert_that (is_line bb address);
     case map_of t address of
       None \<Rightarrow> Some t
     | Some entry \<Rightarrow> do {
         assert_that (nd_isEmpty (m_marked entry));
         Some (store_at address (entry\<lparr> m_marked := m_starving entry \<rparr>) t)
       }
   }"

definition pt_isLocked :: "nat \<Rightarrow> persistent_table \<Rightarrow> addr \<Rightarrow> bool option" where
  "pt_isLocked bb t address = do {
     assert_that (is_line bb address);
     Some (map_of t address \<noteq> None)
   }"

definition countStarvingForAddress :: "nat \<Rightarrow> persistent_table \<Rightarrow> addr \<Rightarrow> nat option" where
  "countStarvingForAddress bb t address = do {
     assert_that (is_line bb address);
     case map_of t address of None \<Rightarrow> Some 0 | Some entry \<Rightarrow> Some (nd_count (m_starving entry))
   }"

definition countReadStarvingForAddress :: "nat \<Rightarrow> persistent_table \<Rightarrow> addr \<Rightarrow> int option" where
  "countReadStarvingForAddress bb t address = do {
     assert_that (is_line bb address);
     case map_of t address of
       None \<Rightarrow> Some 0
     | Some entry \<Rightarrow> Some (int (nd_count (m_starving entry)) - int (nd_count (m_request_to_write entry)))
   }"

text \<open>The requests of a line: who starves, who of them writes, who of them is marked.\<close>

definition pt_entry_ok :: "nat list \<Rightarrow> PersistentTableEntry \<Rightarrow> bool" where
  "pt_entry_ok counts e = (nd_wf counts (m_starving e) \<and> nd_wf counts (m_marked e)
     \<and> nd_wf counts (m_request_to_write e) \<and> nd_elems (m_starving e) \<noteq> {}
     \<and> nd_elems (m_marked e) \<subseteq> nd_elems (m_starving e)
     \<and> nd_elems (m_request_to_write e) \<subseteq> nd_elems (m_starving e))"

definition pt_inv :: "nat list \<Rightarrow> persistent_table \<Rightarrow> bool" where
  "pt_inv counts t = (\<forall>a e. map_of t a = Some e \<longrightarrow> pt_entry_ok counts e)"

definition starving :: "persistent_table \<Rightarrow> addr \<Rightarrow> MachineID set" where
  "starving t a = (case map_of t a of None \<Rightarrow> {} | Some e \<Rightarrow> nd_elems (m_starving e))"

definition marked :: "persistent_table \<Rightarrow> addr \<Rightarrow> MachineID set" where
  "marked t a = (case map_of t a of None \<Rightarrow> {} | Some e \<Rightarrow> nd_elems (m_marked e))"

definition writers :: "persistent_table \<Rightarrow> addr \<Rightarrow> MachineID set" where
  "writers t a = (case map_of t a of None \<Rightarrow> {} | Some e \<Rightarrow> nd_elems (m_request_to_write e))"

lemmas pt_sets = starving_def marked_def writers_def

lemma pt_dflt_sets:
  "nd_wf counts (m_starving (pt_dflt counts))" "nd_wf counts (m_marked (pt_dflt counts))"
  "nd_wf counts (m_request_to_write (pt_dflt counts))" "nd_elems (m_starving (pt_dflt counts)) = {}"
  "nd_elems (m_marked (pt_dflt counts)) = {}" "nd_elems (m_request_to_write (pt_dflt counts)) = {}"
  by (simp_all add: pt_dflt_def nd_resize_ok)

lemma pt_subsets: "pt_inv counts t \<Longrightarrow> writers t a \<subseteq> starving t a \<and> marked t a \<subseteq> starving t a"
  by (auto simp: pt_sets pt_inv_def pt_entry_ok_def split: option.splits)

lemma pt_store_inv: "pt_inv counts t \<Longrightarrow> pt_entry_ok counts e \<Longrightarrow> pt_inv counts (store_at a e t)"
  by (auto simp: pt_inv_def)

lemma lock_ok:
  assumes "pt_inv counts t" "is_line bb a" "nd_rng counts m" "m \<notin> starving t a"
  shows "succeeds (persistentRequestLock bb counts t a m ty) (\<lambda>t'. pt_inv counts t'
    \<and> starving t' = (starving t)(a := insert m (starving t a)) \<and> marked t' = marked t
    \<and> writers t' = (writers t)(a := (if ty = Write then insert m (writers t a) else writers t a)))"
proof -
  define e where "e = (case map_of t a of Some e \<Rightarrow> e | None \<Rightarrow> pt_dflt counts)"
  have e: "nd_wf counts (m_starving e)" "nd_wf counts (m_marked e)" "nd_wf counts (m_request_to_write e)"
    "nd_elems (m_starving e) = starving t a" "nd_elems (m_marked e) = marked t a"
    "nd_elems (m_request_to_write e) = writers t a" "marked t a \<subseteq> starving t a"
    "writers t a \<subseteq> starving t a"
    using assms(1) pt_dflt_sets [of counts]
    by (auto simp: e_def pt_sets pt_inv_def pt_entry_ok_def split: option.split)
  obtain s where s: "nd_add (m_starving e) m = Some s" "nd_wf counts s"
    "nd_elems s = insert m (starving t a)"
    using nd_add_ok [OF e(1) assms(3)] e(4) by (auto simp: succeeds_iff)
  obtain w where w: "(if ty = Write then nd_add (m_request_to_write e) m
      else Some (m_request_to_write e)) = Some w" "nd_wf counts w"
    "nd_elems w = (if ty = Write then insert m (writers t a) else writers t a)"
    using nd_add_ok [OF e(3) assms(3)] e(3,6) by (cases "ty = Write") (auto simp: succeeds_iff)
  have x: "nd_isElement (m_starving e) m = Some False" "nd_isSuperset s (m_marked e) = Some True"
    using nd.elem_ok [OF e(1) assms(3)] nd_superset_ok [OF s(2) e(2)] e s(3) assms(4) by auto
  let ?e = "e\<lparr> m_starving := s, m_request_to_write := w \<rparr>"
  have "persistentRequestLock bb counts t a m ty = Some (store_at a ?e t)"
    using assms(2) s(1) w(1) x
    by (simp add: persistentRequestLock_def Let_def e_def [symmetric])
  moreover have "pt_entry_ok counts ?e"
    using e s w by (auto simp: pt_entry_ok_def)
  ultimately show ?thesis
    using pt_store_inv [OF assms(1)] e s w by (auto simp: pt_sets fun_eq_iff)
qed

lemma unlock_ok:
  assumes "pt_inv counts t" "is_line bb a" "nd_rng counts m" "m \<in> starving t a"
  shows "succeeds (persistentRequestUnlock bb t a m) (\<lambda>t'. pt_inv counts t'
    \<and> starving t' = (starving t)(a := starving t a - {m}) \<and> marked t' = (marked t)(a := marked t a - {m})
    \<and> writers t' = (writers t)(a := writers t a - {m}))"
proof -
  obtain e where e: "map_of t a = Some e" "pt_entry_ok counts e"
    using assms(1,4) by (auto simp: pt_inv_def starving_def split: option.splits)
  then have q: "nd_wf counts (m_starving e)" "nd_wf counts (m_marked e)"
    "nd_wf counts (m_request_to_write e)" "nd_elems (m_starving e) = starving t a"
    "nd_elems (m_marked e) = marked t a" "nd_elems (m_request_to_write e) = writers t a"
    "marked t a \<subseteq> starving t a" "writers t a \<subseteq> starving t a"
    by (simp_all add: pt_sets pt_entry_ok_def)
  obtain s where s: "nd_remove (m_starving e) m = Some s" "nd_wf counts s" "nd_elems s = starving t a - {m}"
    using nd_remove_ok [OF q(1) assms(3)] q by (auto simp: succeeds_iff)
  obtain k where k: "nd_remove (m_marked e) m = Some k" "nd_wf counts k" "nd_elems k = marked t a - {m}"
    using nd_remove_ok [OF q(2) assms(3)] q by (auto simp: succeeds_iff)
  obtain w where w: "nd_remove (m_request_to_write e) m = Some w" "nd_wf counts w"
    "nd_elems w = writers t a - {m}"
    using nd_remove_ok [OF q(3) assms(3)] q by (auto simp: succeeds_iff)
  have x: "nd_isElement (m_starving e) m = Some True"
    "nd_isSuperset (m_starving e) (m_marked e) = Some True" "nd_isSuperset s k = Some True"
    using nd.elem_ok [OF q(1) assms(3)] nd_superset_ok [OF q(1,2)] nd_superset_ok [OF s(2) k(2)]
      q s k assms(4) by auto
  let ?e = "e\<lparr> m_starving := s, m_marked := k, m_request_to_write := w \<rparr>"
  show ?thesis
  proof (cases "starving t a - {m} = {}")
    case True
    then have em: "marked t a - {m} = {}" "writers t a - {m} = {}" using q(7,8) by auto
    then have "persistentRequestUnlock bb t a m = Some (erase a t)"
      using True assms(2) e(1) s k w x
      by (simp add: persistentRequestUnlock_def nd_empty_ok)
    moreover have "pt_inv counts (erase a t)" using assms(1) by (simp add: pt_inv_def map_of_erase)
    ultimately show ?thesis using True em by (simp add: pt_sets fun_eq_iff map_of_erase)
  next
    case False
    then have "persistentRequestUnlock bb t a m = Some (store_at a ?e t)"
      using assms(2) e(1) s k w x
      by (simp add: persistentRequestUnlock_def nd_empty_ok)
    moreover have "pt_entry_ok counts ?e" using False q s k w by (auto simp: pt_entry_ok_def)
    ultimately show ?thesis
      using pt_store_inv [OF assms(1)] s k w by (simp add: pt_sets fun_eq_iff)
  qed
qed

lemma findSmallest_ok:
  assumes "pt_inv counts t" "is_line bb a" "starving t a \<noteq> {}"
  shows "succeeds (findSmallest bb t a) (\<lambda>m. m \<in> starving t a \<and>
    (\<forall>x\<in>starving t a. fst m < fst x \<or> fst m = fst x \<and> snd m \<le> snd x)
    \<and> typeOfSmallest bb t a = Some (if m \<in> writers t a then Write else Read))"
proof -
  obtain e where e: "map_of t a = Some e" "pt_entry_ok counts e"
    using assms(1,3) by (auto simp: pt_inv_def starving_def split: option.splits)
  then have q: "nd_wf counts (m_starving e)" "nd_wf counts (m_request_to_write e)"
    "nd_elems (m_starving e) \<noteq> {}" by (simp_all add: pt_entry_ok_def)
  obtain m where m: "nd_smallestElement (m_starving e) = Some m" "m \<in> nd_elems (m_starving e)"
    "\<forall>x\<in>nd_elems (m_starving e). fst m < fst x \<or> fst m = fst x \<and> snd m \<le> snd x"
    using nd_smallest_ok [OF q(1,3)] by (auto simp: succeeds_iff)
  have "nd_rng counts m" using nd.elems_rng [OF q(1) m(2)] .
  with m e(1) assms(2) nd.elem_ok [OF q(2)] show ?thesis
    by (simp add: findSmallest_def typeOfSmallest_def pt_sets)
qed

lemma mark_ok:
  assumes "pt_inv counts t" "is_line bb a" "marked t a = {}"
  shows "succeeds (markEntries bb t a) (\<lambda>t'. pt_inv counts t' \<and> starving t' = starving t
    \<and> writers t' = writers t \<and> marked t' = (marked t)(a := starving t a))"
proof (cases "map_of t a")
  case None
  with assms(1,2) show ?thesis by (auto simp: markEntries_def pt_sets fun_eq_iff)
next
  case (Some e)
  then have "pt_entry_ok counts e" using assms(1) by (simp add: pt_inv_def)
  then have "pt_entry_ok counts (e\<lparr> m_marked := m_starving e \<rparr>)" by (simp add: pt_entry_ok_def)
  from pt_store_inv [OF assms(1) this] Some assms(2,3) show ?thesis
    by (auto simp: markEntries_def pt_sets fun_eq_iff nd_empty_ok)
qed

lemma issue_ok:
  assumes "pt_inv counts t" "is_line bb a" "nd_rng counts m"
  shows "okToIssueStarving bb t a m = Some (m \<notin> starving t a \<and> marked t a = {})"
proof (cases "map_of t a")
  case None
  with assms(2) show ?thesis by (simp add: okToIssueStarving_def pt_sets)
next
  case (Some e)
  then have "nd_wf counts (m_starving e)" using assms(1) by (simp add: pt_inv_def pt_entry_ok_def)
  with Some assms(2) nd.elem_ok [OF _ assms(3)] show ?thesis
    by (simp add: okToIssueStarving_def pt_sets nd_empty_ok)
qed

section \<open>Properties\<close>

text \<open>With a slot available, allocating a transaction buffer for a free line makes it visible and
  deallocating it restores the table.\<close>

theorem tbe_roundtrip:
  assumes "tbe_inv bb t" "is_line bb a" "tbe_lookup t a = None" "areNSlotsAvailable t 1"
  shows "\<exists>t1 t2. tbe_allocate bb dflt t a = Some t1 \<and> tbe_inv bb t1
     \<and> tbe_lookup t1 = (tbe_lookup t)(a \<mapsto> dflt)
     \<and> tbe_deallocate bb t1 a = Some t2 \<and> tbe_inv bb t2 \<and> tbe_lookup t2 = tbe_lookup t"
proof -
  have "length (tbe_map t) < m_number_of_TBEs t"
    using slots_available [OF assms(1), of 1] assms(4) by simp
  from tbe.alloc_dealloc [OF assms(1-3) this, of dflt] tbe.alloc_ok [OF assms(1-3) this, of dflt]
  show ?thesis by (auto simp: succeeds_iff bind_eq_Some_conv)
qed

theorem tbe_roundtrip_witness:
  "\<exists>t1. tbe_allocate 6 (5::nat) \<lparr> m_number_of_TBEs = 1, tbe_map = [] \<rparr> 0 = Some t1 \<and> tbe_lookup t1 0 = Some 5"
proof -
  let ?t = "\<lparr> m_number_of_TBEs = 1, tbe_map = [] \<rparr> :: nat TBETable"
  have "tbe_inv 6 ?t" "is_line 6 0" "tbe_lookup ?t 0 = None" "areNSlotsAvailable ?t 1"
    by (simp_all add: tbe_inv_def is_line_def line_address_def makeLineAddress_def
        maskLowOrderBits_def tbe_lookup_def areNSlotsAvailable_def)
  from tbe_roundtrip [OF this, of 5] show ?thesis by auto
qed

text \<open>C32: After a timer is set, the table is ready exactly when some timer has expired, and the ready
  address it reports, through its cached minimum, belongs to a timer with the earliest time.\<close>

theorem timer_ready:
  assumes "tt_inv t" "is_line bb a" "0 < lat" "\<not> tt_isSet t a" "tt_consumer t" "now + lat \<le> later"
  shows "\<exists>t1 t2 b v t3. tt_set bb now t a lat = Some (now + lat, t1)
     \<and> tt_isReady later t1 = Some (True, t2) \<and> readyAddress later t2 = Some (b, t3)
     \<and> (b, v) \<in> insert (a, now + lat) (set (tt_map t)) \<and> v \<le> later \<and> tt_inv t3
     \<and> (\<forall>p\<in>insert (a, now + lat) (set (tt_map t)). v \<le> snd p)"
proof -
  obtain t1 where t1: "tt_set bb now t a lat = Some (now + lat, t1)" "tt_inv t1"
    "set (tt_map t1) = insert (a, now + lat) (set (tt_map t))"
    using tt_set_ok [OF assms(1-5), of now] by (auto simp: succeeds_iff)
  obtain t2 where t2: "tt_isReady later t1 = Some (True, t2)" "tt_inv t2" "tt_map t2 = tt_map t1"
    using tt_isReady_ok [OF t1(2), of later] t1(3) assms(6) by (auto simp: succeeds_iff)
  have ex: "\<exists>p\<in>set (tt_map t2). snd p \<le> later" using t1(3) t2(3) assms(6) by auto
  from readyAddress_ok [OF t2(2) this] obtain b v t3 where
    "readyAddress later t2 = Some (b, t3)" "tt_inv t3" "v \<le> later" "earliest (tt_map t2) b v"
    by (auto simp: succeeds_iff)
  with t1 t2 show ?thesis by (auto simp: earliest_def)
qed

theorem timer_ready_witness:
  "\<exists>t1 t2 b t3. tt_set 6 10 (new_TimerTable\<lparr> tt_consumer := True \<rparr>) 0 5 = Some (15, t1)
     \<and> tt_isReady 20 t1 = Some (True, t2) \<and> readyAddress 20 t2 = Some (b, t3) \<and> b = 0"
  using timer_ready [of "new_TimerTable\<lparr> tt_consumer := True \<rparr>" 6 0 5 10 20]
  by (auto simp: tt_inv_def new_TimerTable_def is_line_def line_address_def makeLineAddress_def
      maskLowOrderBits_def tt_isSet_def)

text \<open>C31: A machine that is not starving for a line can lock it; it then starves, the request is found
  by the arbitration, which picks the least starving machine, no other machine's request changes,
  and unlocking undoes it.\<close>

theorem persistent_lock_unlock:
  assumes "pt_inv counts t" "is_line bb a" "nd_rng counts m" "m \<notin> starving t a"
  shows "\<exists>t1 t2 s. persistentRequestLock bb counts t a m ty = Some t1 \<and> pt_inv counts t1
     \<and> starving t1 = (starving t)(a := insert m (starving t a))
     \<and> okToIssueStarving bb t1 a m = Some False
     \<and> findSmallest bb t1 a = Some s \<and> s \<in> insert m (starving t a)
     \<and> (\<forall>x\<in>insert m (starving t a). fst s < fst x \<or> fst s = fst x \<and> snd s \<le> snd x)
     \<and> persistentRequestUnlock bb t1 a m = Some t2 \<and> pt_inv counts t2
     \<and> starving t2 = starving t \<and> marked t2 = marked t \<and> writers t2 = writers t"
proof -
  obtain t1 where t1: "persistentRequestLock bb counts t a m ty = Some t1" "pt_inv counts t1"
    "starving t1 = (starving t)(a := insert m (starving t a))" "marked t1 = marked t"
    "writers t1 = (writers t)(a := (if ty = Write then insert m (writers t a) else writers t a))"
    using lock_ok [OF assms(1-4), of ty] by (auto simp: succeeds_iff)
  have m1: "m \<in> starving t1 a" "starving t1 a \<noteq> {}" using t1(3) by auto
  obtain s where s: "findSmallest bb t1 a = Some s" "s \<in> starving t1 a"
    "\<forall>x\<in>starving t1 a. fst s < fst x \<or> fst s = fst x \<and> snd s \<le> snd x"
    using findSmallest_ok [OF t1(2) assms(2) m1(2)] by (auto simp: succeeds_iff)
  obtain t2 where t2: "persistentRequestUnlock bb t1 a m = Some t2" "pt_inv counts t2"
    "starving t2 = (starving t1)(a := starving t1 a - {m})"
    "marked t2 = (marked t1)(a := marked t1 a - {m})"
    "writers t2 = (writers t1)(a := writers t1 a - {m})"
    using unlock_ok [OF t1(2) assms(2,3) m1(1)] by (auto simp: succeeds_iff)
  moreover have "m \<notin> writers t a" "m \<notin> marked t a" using pt_subsets [OF assms(1)] assms(4) by blast+
  ultimately show ?thesis
    using t1 s assms(4) issue_ok [OF t1(2) assms(2,3)] m1(1)
    by (intro exI [of _ t1] exI [of _ t2] exI [of _ s]) (simp add: fun_upd_idem_iff)
qed

theorem persistent_lock_unlock_witness:
  "\<exists>t1. persistentRequestLock 6 [2] [] 0 (0, 1) Write = Some t1 \<and> findSmallest 6 t1 0 = Some (0, 1)"
  using persistent_lock_unlock [of "[2]" "[]" 6 0 "(0, 1)" Write]
  by (auto simp: pt_inv_def is_line_def line_address_def makeLineAddress_def maskLowOrderBits_def
      nd_rng_def pt_sets)

end
