(* ===== verification/Message_Buffer.thy ===== *)
theory Message_Buffer
  imports Ruby_Tables "HOL-Library.Multiset"
begin

text \<open>
  The message buffers between Ruby controllers and network,
  \<^verbatim>\<open>src/Lab5/gem5/src/mem/ruby/buffers/MessageBuffer.cc\<close>.  The binary heap \<^verbatim>\<open>m_prio_heap\<close> is the list of
  its nodes in the order in which they leave it, by arrival time and then by message number; a
  comparison of two nodes with the same key fails its assertion.  \<open>now\<close> is the time of the event
  queue, \<open>mb_wakeups\<close> records the times at which the consumer has been scheduled, and \<open>rnd\<close> is the
  result of \<^verbatim>\<open>random_time()\<close>.  \<open>None\<close> is a failed assertion, a panic or a null dereference.
\<close>

section \<open>The interface of an ordered channel\<close>

locale fifo_channel =
  fixes chan_inv :: "'s \<Rightarrow> bool"
    and contents :: "'s \<Rightarrow> 'm list"
    and accepts :: "'s \<Rightarrow> 'm \<Rightarrow> bool"
    and ready :: "'s \<Rightarrow> bool"
    and enq :: "'s \<Rightarrow> 'm \<Rightarrow> 's option"
    and deq :: "'s \<Rightarrow> ('m \<times> 's) option"
    and view :: "'m \<Rightarrow> 'v"
  assumes enq_ok: "chan_inv s \<Longrightarrow> accepts s m \<Longrightarrow> succeeds (enq s m)
      (\<lambda>s'. chan_inv s' \<and> map view (contents s') = map view (contents s) @ [view m])"
    and deq_ok: "chan_inv s \<Longrightarrow> ready s \<Longrightarrow> succeeds (deq s)
      (\<lambda>(m, s'). chan_inv s' \<and> contents s = m # contents s')"
begin

text \<open>A message put behind \<open>k\<close> others is the one that leaves after \<open>k\<close> departures.\<close>

fun drain :: "nat \<Rightarrow> 's \<Rightarrow> ('m list \<times> 's) option" where
  "drain 0 s = Some ([], s)"
| "drain (Suc k) s = do {
     assert_that (ready s);
     (m, s) \<leftarrow> deq s;
     (ms, s) \<leftarrow> drain k s;
     Some (m # ms, s)
   }"

lemma drain_prefix:
  "chan_inv s \<Longrightarrow> drain k s = Some (ms, s') \<Longrightarrow> contents s = ms @ contents s' \<and> length ms = k \<and> chan_inv s'"
proof (induction k arbitrary: s ms)
  case 0
  then show ?case by simp
next
  case (Suc k)
  then obtain m t ns where "ready s" "deq s = Some (m, t)" "drain k t = Some (ns, s')" "ms = m # ns"
    by (auto simp: bind_eq_Some_conv)
  with Suc deq_ok [of s] show ?case by fastforce
qed

lemma enq_drain:
  assumes "chan_inv s" "accepts s m" "enq s m = Some t" "drain (Suc (length (contents s))) t = Some (ms, u)"
  shows "map view ms = map view (contents s) @ [view m]"
proof -
  have t: "chan_inv t" "map view (contents t) = map view (contents s) @ [view m]"
    using enq_ok [OF assms(1,2)] assms(3) by auto
  with drain_prefix [OF t(1) assms(4)] have "map view ms @ map view (contents u)
      = map view (contents s) @ [view m]" "length ms = Suc (length (contents s))" by auto
  then show ?thesis by (metis append_eq_append_conv append.right_neutral length_append_singleton length_map)
qed

end

section \<open>State\<close>

record 'm Message =
  m_LastEnqueueTime :: int
  m_DelayedCycles :: int
  m_payload :: 'm

record 'm MessageBufferNode =
  n_time :: int
  n_counter :: UINT64
  n_msgptr :: "'m Message"

record 'm MessageBuffer =
  m_msg_counter :: UINT64
  mb_consumer :: bool
  m_ordering_set :: bool
  m_strict_fifo :: bool
  m_size :: int
  m_max_size :: int
  m_last_arrival_time :: int
  m_randomization :: bool
  m_size_last_time_size_checked :: int
  m_time_last_time_size_checked :: int
  m_time_last_time_enqueue :: int
  m_time_last_time_pop :: int
  m_size_at_cycle_start :: int
  m_msgs_this_cycle :: int
  m_not_avail_count :: int
  m_recycle_latency :: int
  m_prio_heap :: "'m MessageBufferNode list"
  m_stall_msg_map :: "(addr \<times> 'm Message list) list"
  mb_wakeups :: "int list"

definition new_MessageBuffer :: "int \<Rightarrow> 'm MessageBuffer" where
  "new_MessageBuffer recycle_latency =
     \<lparr> m_msg_counter = 0, mb_consumer = False, m_ordering_set = False, m_strict_fifo = True,
       m_size = 0, m_max_size = -1, m_last_arrival_time = 0, m_randomization = True,
       m_size_last_time_size_checked = 0, m_time_last_time_size_checked = 0,
       m_time_last_time_enqueue = 0, m_time_last_time_pop = 0, m_size_at_cycle_start = 0,
       m_msgs_this_cycle = 0, m_not_avail_count = 0, m_recycle_latency = recycle_latency,
       m_prio_heap = [], m_stall_msg_map = [], mb_wakeups = [] \<rparr>"

text \<open>The constructor of a node takes the counter as an \<^verbatim>\<open>int\<close> and stores it in 64 bits.\<close>

definition new_node :: "int \<Rightarrow> UINT64 \<Rightarrow> 'm Message \<Rightarrow> 'm MessageBufferNode" where
  "new_node time counter msg =
     \<lparr> n_time = time, n_counter = scast (ucast counter :: 32 word), n_msgptr = msg \<rparr>"

definition node_greater :: "'m MessageBufferNode \<Rightarrow> 'm MessageBufferNode \<Rightarrow> bool option" where
  "node_greater n1 n2 =
     (if n_time n1 = n_time n2 then do {
        assert_that (n_counter n1 \<noteq> n_counter n2);
        Some (n_counter n2 < n_counter n1)
      } else Some (n_time n2 < n_time n1))"

fun heap_push :: "'m MessageBufferNode \<Rightarrow> 'm MessageBufferNode list \<Rightarrow> 'm MessageBufferNode list option" where
  "heap_push n [] = Some [n]"
| "heap_push n (x # xs) = do {
     gt \<leftarrow> node_greater n x;
     if gt then do { ys \<leftarrow> heap_push n xs; Some (x # ys) } else Some (n # x # xs)
   }"

section \<open>Operations\<close>

definition mb_getSize :: "int \<Rightarrow> 'm MessageBuffer \<Rightarrow> int \<times> 'm MessageBuffer" where
  "mb_getSize now b =
     (if m_time_last_time_size_checked b = now then (m_size_last_time_size_checked b, b)
      else (m_size b, b\<lparr> m_time_last_time_size_checked := now, m_size_last_time_size_checked := m_size b \<rparr>))"

definition mb_areNSlotsAvailable :: "int \<Rightarrow> 'm MessageBuffer \<Rightarrow> int \<Rightarrow> bool \<times> 'm MessageBuffer" where
  "mb_areNSlotsAvailable now b n =
     (if m_max_size b = -1 then (True, b)
      else
        let current_size =
              (if m_time_last_time_pop b < now then m_size b
               else if m_time_last_time_enqueue b < now then m_size_at_cycle_start b
               else m_size_at_cycle_start b + m_msgs_this_cycle b)
        in if current_size + n \<le> m_max_size b then (True, b)
           else (False, b\<lparr> m_not_avail_count := m_not_avail_count b + 1 \<rparr>))"

definition mb_isReady :: "int \<Rightarrow> 'm MessageBuffer \<Rightarrow> bool" where
  "mb_isReady now b = (case m_prio_heap b of [] \<Rightarrow> False | n # ns \<Rightarrow> n_time n \<le> now)"

definition mb_isEmpty :: "'m MessageBuffer \<Rightarrow> bool" where
  "mb_isEmpty b = (length (m_prio_heap b) = 0)"

definition peekAtHeadOfQueue :: "int \<Rightarrow> 'm MessageBuffer \<Rightarrow> 'm Message option" where
  "peekAtHeadOfQueue now b = do {
     assert_that (mb_isReady now b);
     n \<leftarrow> rd (m_prio_heap b) 0;
     Some (n_msgptr n)
   }"

text \<open>\<open>r1\<close>, \<open>r2\<close> and \<open>r3\<close> are the values of the three calls of \<^verbatim>\<open>random()\<close>.\<close>

definition random_time :: "nat \<Rightarrow> nat \<Rightarrow> nat \<Rightarrow> int" where
  "random_time r1 r2 r3 =
     (let time = 1 + int (r1 mod 4)
      in if r2 mod 8 = 0 then time + 100 + int (r3 mod 15) else time)"

definition schedule :: "int \<Rightarrow> 'm MessageBuffer \<Rightarrow> 'm MessageBuffer option" where
  "schedule t b = do {
     assert_that (mb_consumer b);
     Some (b\<lparr> mb_wakeups := t # mb_wakeups b \<rparr>)
   }"

definition insert_node :: "'m MessageBufferNode \<Rightarrow> 'm MessageBuffer \<Rightarrow> 'm MessageBuffer option" where
  "insert_node n b = do {
     h \<leftarrow> heap_push n (m_prio_heap b);
     Some (b\<lparr> m_prio_heap := h \<rparr>)
   }"

text \<open>The first cycle in which a new message can be taken out.\<close>

definition arrival :: "bool \<Rightarrow> int \<Rightarrow> int \<Rightarrow> 'm MessageBuffer \<Rightarrow> int \<Rightarrow> int \<times> 'm MessageBuffer" where
  "arrival randomization rnd now b delta =
     (if \<not> randomization \<or> \<not> m_randomization b then (now + delta, b)
      else if m_strict_fifo b then
        (let b = (if m_last_arrival_time b < now then b\<lparr> m_last_arrival_time := now \<rparr> else b)
         in (m_last_arrival_time b + rnd, b))
      else (now + rnd, b))"

definition mb_enqueue :: "bool \<Rightarrow> bool \<Rightarrow> int \<Rightarrow> int \<Rightarrow> 'm MessageBuffer \<Rightarrow> 'm Message \<Rightarrow> int
    \<Rightarrow> 'm MessageBuffer option" where
  "mb_enqueue randomization warmup rnd now b message delta = do {
     let b = b\<lparr> m_msg_counter := m_msg_counter b + 1, m_size := m_size b + 1 \<rparr>;
     let b = (if m_time_last_time_enqueue b < now
              then b\<lparr> m_msgs_this_cycle := 0, m_time_last_time_enqueue := now \<rparr> else b);
     let b = b\<lparr> m_msgs_this_cycle := m_msgs_this_cycle b + 1 \<rparr>;
     assert_that (m_ordering_set b);
     assert_that (0 < delta);
     let (arrival_time, b) = arrival randomization rnd now b delta;
     assert_that (now < arrival_time);
     assert_that (m_strict_fifo b \<longrightarrow> m_last_arrival_time b \<le> arrival_time);
     let b = (if \<not> warmup then b\<lparr> m_last_arrival_time := arrival_time \<rparr> else b);
     assert_that (m_LastEnqueueTime message \<le> now);
     let message = message\<lparr> m_DelayedCycles := now - m_LastEnqueueTime message + m_DelayedCycles message,
                            m_LastEnqueueTime := arrival_time \<rparr>;
     b \<leftarrow> insert_node (new_node arrival_time (m_msg_counter b) message) b;
     schedule arrival_time b
   }"

definition mb_pop :: "int \<Rightarrow> 'm MessageBuffer \<Rightarrow> 'm MessageBuffer option" where
  "mb_pop now b = do {
     assert_that (mb_isReady now b);
     let b = b\<lparr> m_prio_heap := tl (m_prio_heap b) \<rparr>;
     let b = (if m_time_last_time_pop b < now
              then b\<lparr> m_size_at_cycle_start := m_size b, m_time_last_time_pop := now \<rparr> else b);
     Some (b\<lparr> m_size := m_size b - 1 \<rparr>)
   }"

definition mb_dequeue :: "int \<Rightarrow> 'm MessageBuffer \<Rightarrow> ('m Message \<times> 'm MessageBuffer) option" where
  "mb_dequeue now b = do {
     n \<leftarrow> rd (m_prio_heap b) 0;
     b \<leftarrow> mb_pop now b;
     Some (n_msgptr n, b)
   }"

definition setAndReturnDelayCycles :: "int \<Rightarrow> 'm Message \<Rightarrow> (int \<times> 'm Message) option" where
  "setAndReturnDelayCycles now msg = do {
     assert_that (m_LastEnqueueTime msg \<le> now);
     let d = now - m_LastEnqueueTime msg + m_DelayedCycles msg;
     assert_that (0 \<le> d);
     Some (d, msg\<lparr> m_DelayedCycles := d \<rparr>)
   }"

definition dequeue_getDelayCycles ::
  "int \<Rightarrow> 'm MessageBuffer \<Rightarrow> (int \<times> 'm Message \<times> 'm MessageBuffer) option" where
  "dequeue_getDelayCycles now b = do {
     (msg, b) \<leftarrow> mb_dequeue now b;
     (d, msg) \<leftarrow> setAndReturnDelayCycles now msg;
     Some (d, msg, b)
   }"

definition mb_clear :: "'m MessageBuffer \<Rightarrow> 'm MessageBuffer" where
  "mb_clear b = b\<lparr> m_prio_heap := [], m_msg_counter := 0, m_size := 0, m_time_last_time_enqueue := 0,
     m_time_last_time_pop := 0, m_size_at_cycle_start := 0, m_msgs_this_cycle := 0 \<rparr>"

definition clearStats :: "'m MessageBuffer \<Rightarrow> 'm MessageBuffer" where
  "clearStats b = b\<lparr> m_not_avail_count := 0, m_msg_counter := 0 \<rparr>"

definition recycle :: "int \<Rightarrow> 'm MessageBuffer \<Rightarrow> 'm MessageBuffer option" where
  "recycle now b = do {
     assert_that (mb_isReady now b);
     n \<leftarrow> rd (m_prio_heap b) 0;
     b \<leftarrow> insert_node (n\<lparr> n_time := now + m_recycle_latency b \<rparr>) (b\<lparr> m_prio_heap := tl (m_prio_heap b) \<rparr>);
     schedule (now + m_recycle_latency b) b
   }"

definition delayHead :: "bool \<Rightarrow> bool \<Rightarrow> int \<Rightarrow> int \<Rightarrow> 'm MessageBuffer \<Rightarrow> 'm MessageBuffer option" where
  "delayHead randomization warmup rnd now b = do {
     n \<leftarrow> rd (m_prio_heap b) 0;
     mb_enqueue randomization warmup rnd now (b\<lparr> m_prio_heap := tl (m_prio_heap b) \<rparr>) (n_msgptr n) 1
   }"

fun reanalyze_list :: "int \<Rightarrow> 'm Message list \<Rightarrow> 'm MessageBuffer \<Rightarrow> 'm MessageBuffer option" where
  "reanalyze_list now [] b = Some b"
| "reanalyze_list now (msg # msgs) b = do {
     let b = b\<lparr> m_msg_counter := m_msg_counter b + 1 \<rparr>;
     b \<leftarrow> insert_node (new_node (now + 1) (m_msg_counter b) msg) b;
     b \<leftarrow> schedule (now + 1) b;
     reanalyze_list now msgs b
   }"

definition reanalyzeMessages :: "int \<Rightarrow> 'm MessageBuffer \<Rightarrow> addr \<Rightarrow> 'm MessageBuffer option" where
  "reanalyzeMessages now b a = do {
     msgs \<leftarrow> map_of (m_stall_msg_map b) a;
     b \<leftarrow> reanalyze_list now msgs b;
     Some (b\<lparr> m_stall_msg_map := erase a (m_stall_msg_map b) \<rparr>)
   }"

definition reanalyzeAllMessages :: "int \<Rightarrow> 'm MessageBuffer \<Rightarrow> 'm MessageBuffer option" where
  "reanalyzeAllMessages now b = do {
     b \<leftarrow> reanalyze_list now (concat (map snd (m_stall_msg_map b))) b;
     Some (b\<lparr> m_stall_msg_map := [] \<rparr>)
   }"

fun stall_insert :: "addr \<Rightarrow> 'm Message \<Rightarrow> (addr \<times> 'm Message list) list \<Rightarrow> (addr \<times> 'm Message list) list" where
  "stall_insert a msg [] = [(a, [msg])]"
| "stall_insert a msg ((k, l) # m) =
     (if a < k then (a, [msg]) # (k, l) # m
      else if a = k then (k, l @ [msg]) # m
      else (k, l) # stall_insert a msg m)"

definition stallMessage :: "nat \<Rightarrow> int \<Rightarrow> 'm MessageBuffer \<Rightarrow> addr \<Rightarrow> 'm MessageBuffer option" where
  "stallMessage bb now b a = do {
     assert_that (mb_isReady now b);
     off \<leftarrow> getOffset bb a;
     assert_that (off = 0);
     n \<leftarrow> rd (m_prio_heap b) 0;
     b \<leftarrow> mb_pop now b;
     Some (b\<lparr> m_stall_msg_map := stall_insert a (n_msgptr n) (m_stall_msg_map b) \<rparr>)
   }"

section \<open>The order of the heap\<close>

definition key_less :: "'m MessageBufferNode \<Rightarrow> 'm MessageBufferNode \<Rightarrow> bool" where
  "key_less x y = (n_time x < n_time y \<or> n_time x = n_time y \<and> n_counter x < n_counter y)"

lemma node_greater_eq: "n_counter n \<noteq> n_counter x \<Longrightarrow> node_greater n x = Some (key_less x n)"
  by (simp add: node_greater_def key_less_def)

lemma key_less_linear: "n_counter n \<noteq> n_counter x \<Longrightarrow> \<not> key_less x n \<Longrightarrow> key_less n x"
  by (auto simp: key_less_def)

lemma key_less_trans: "key_less x y \<Longrightarrow> key_less y z \<Longrightarrow> key_less x z"
  by (auto simp: key_less_def)

lemma heap_push_ok:
  "sorted_wrt key_less h \<Longrightarrow> n_counter n \<notin> n_counter ` set h \<Longrightarrow>
   succeeds (heap_push n h) (\<lambda>h'. sorted_wrt key_less h' \<and> set h' = insert n (set h)
     \<and> mset (map n_msgptr h') = mset (map n_msgptr (n # h)) \<and> length h' = length h + 1)"
proof (induction h)
  case Nil
  then show ?case by simp
next
  case (Cons x xs)
  have g: "node_greater n x = Some (key_less x n)"
    using Cons.prems(2) by (intro node_greater_eq) auto
  show ?case
  proof (cases "key_less x n")
    case True
    from Cons.IH Cons.prems obtain h' where "heap_push n xs = Some h'" "sorted_wrt key_less h'"
      "set h' = insert n (set xs)" "mset (map n_msgptr h') = mset (map n_msgptr (n # xs))"
      "length h' = length xs + 1" by (auto simp: succeeds_iff)
    with g True Cons.prems show ?thesis by auto
  next
    case False
    then have "key_less n x" using Cons.prems(2) key_less_linear [of n x] by auto
    with g False Cons.prems show ?thesis by (auto intro: key_less_trans)
  qed
qed

lemma heap_push_append:
  "\<forall>x\<in>set h. key_less x n \<Longrightarrow> heap_push n h = Some (h @ [n])"
proof (induction h)
  case (Cons x xs)
  have "key_less x n" using Cons.prems by simp
  then have "node_greater n x = Some True" by (auto simp: node_greater_def key_less_def)
  with Cons show ?case by simp
qed simp

section \<open>Invariants\<close>

text \<open>Nodes are in order with distinct numbers handed out so far, and for every waiting message the
  consumer has been scheduled at its arrival time.\<close>

definition mb_inv :: "'m MessageBuffer \<Rightarrow> bool" where
  "mb_inv b = (sorted_wrt key_less (m_prio_heap b) \<and> distinct (map n_counter (m_prio_heap b))
     \<and> (\<forall>n\<in>set (m_prio_heap b). n_counter n \<le> m_msg_counter b \<and> n_time n \<in> set (mb_wakeups b)))"

definition fifo_inv :: "'m MessageBuffer \<Rightarrow> bool" where
  "fifo_inv b = (mb_inv b \<and> m_strict_fifo b \<and> m_ordering_set b \<and> mb_consumer b
     \<and> unat (m_msg_counter b) < 2 ^ 31
     \<and> (\<forall>n\<in>set (m_prio_heap b). n_time n \<le> m_last_arrival_time b))"

lemma small_counter: "unat c < 2 ^ 31 \<Longrightarrow> scast (ucast c :: 32 word) = c" for c :: UINT64
proof -
  assume a: "unat c < 2 ^ 31"
  have "int (unat c) < int (2 ^ 31)" using a by (simp only: of_nat_less_iff)
  then have c: "uint c < 2 ^ 31" by simp
  have "uint (ucast c :: 32 word) = uint c mod 2 ^ 32"
    by (simp only: unsigned_ucast_eq take_bit_eq_mod) simp
  also have "\<dots> = uint c" using c by (intro mod_pos_pos_trivial) simp_all
  finally have u: "uint (ucast c :: 32 word) = uint c" .
  from c have "sint (ucast c :: 32 word) = uint c" using sint_small [of "ucast c"] u by simp
  then show ?thesis by (simp add: scast_eq)
qed

definition can_enqueue :: "bool \<Rightarrow> int \<Rightarrow> int \<Rightarrow> 'm MessageBuffer \<Rightarrow> 'm Message \<Rightarrow> int \<Rightarrow> bool" where
  "can_enqueue randomization rnd now b msg delta =
     (m_ordering_set b \<and> mb_consumer b \<and> 0 < delta \<and> 0 < rnd \<and> m_LastEnqueueTime msg \<le> now
      \<and> unat (m_msg_counter b) + 1 < 2 ^ 31
      \<and> (m_strict_fifo b \<and> (\<not> randomization \<or> \<not> m_randomization b)
          \<longrightarrow> m_last_arrival_time b \<le> now + delta))"

lemma enqueue_eq:
  assumes "can_enqueue randomization rnd now b msg delta"
  defines "t \<equiv> fst (arrival randomization rnd now b delta)"
  defines "n \<equiv> \<lparr> n_time = t, n_counter = m_msg_counter b + 1, n_msgptr = msg\<lparr> m_DelayedCycles :=
      now - m_LastEnqueueTime msg + m_DelayedCycles msg, m_LastEnqueueTime := t \<rparr> \<rparr>"
  assumes "heap_push n (m_prio_heap b) = Some h"
  shows "succeeds (mb_enqueue randomization warmup rnd now b msg delta) (\<lambda>b'. m_prio_heap b' = h
    \<and> m_msg_counter b' = m_msg_counter b + 1 \<and> mb_wakeups b' = t # mb_wakeups b
    \<and> m_strict_fifo b' = m_strict_fifo b \<and> m_ordering_set b' = m_ordering_set b
    \<and> mb_consumer b' = mb_consumer b \<and> m_size b' = m_size b + 1
    \<and> m_stall_msg_map b' = m_stall_msg_map b \<and> (\<not> warmup \<longrightarrow> m_last_arrival_time b' = t)
    \<and> now < t \<and> (m_strict_fifo b \<longrightarrow> m_last_arrival_time b \<le> t))"
proof -
  have "unat (m_msg_counter b + 1) < 2 ^ 31"
    using assms(1) unat_inc_below [of "m_msg_counter b" "2 ^ 31 - 1"]
    by (simp add: can_enqueue_def)
  then have c: "scast (ucast (m_msg_counter b + 1) :: 32 word) = m_msg_counter b + 1"
    by (rule small_counter)
  show ?thesis
    using assms(1,4) unfolding n_def t_def
    by (auto simp: mb_enqueue_def Let_def can_enqueue_def arrival_def insert_node_def new_node_def
        schedule_def c split: if_splits)
qed

lemma counter_inc: "can_enqueue randomization rnd now b msg delta \<Longrightarrow>
    unat (m_msg_counter b + 1) = Suc (unat (m_msg_counter b))"
  using unat_inc_below [of "m_msg_counter b" "2 ^ 31"] by (simp add: can_enqueue_def)

lemma fresh_counter:
  assumes "mb_inv b" "unat (m_msg_counter b + 1) = Suc (unat (m_msg_counter b))" "x \<in> set (m_prio_heap b)"
  shows "n_counter x < m_msg_counter b + 1"
  using assms by (auto simp: mb_inv_def word_less_nat_alt word_le_nat_alt less_Suc_eq_le)

text \<open>Pushing a node with the next number.\<close>

lemma push_fresh:
  assumes "mb_inv b" "unat (m_msg_counter b + 1) = Suc (unat (m_msg_counter b))"
    "n_counter n = m_msg_counter b + 1"
  obtains h where "heap_push n (m_prio_heap b) = Some h" "sorted_wrt key_less h"
    "distinct (map n_counter h)" "set h = insert n (set (m_prio_heap b))"
    "length h = length (m_prio_heap b) + 1" "\<forall>x\<in>set h. n_counter x \<le> m_msg_counter b + 1"
    "mset (map n_msgptr h) = mset (map n_msgptr (n # m_prio_heap b))"
proof -
  have new: "n_counter n \<notin> n_counter ` set (m_prio_heap b)"
    using fresh_counter [OF assms(1,2)] assms(3) by force
  obtain h where h: "heap_push n (m_prio_heap b) = Some h" "sorted_wrt key_less h"
    "set h = insert n (set (m_prio_heap b))" "length h = length (m_prio_heap b) + 1"
    "mset (map n_msgptr h) = mset (map n_msgptr (n # m_prio_heap b))"
    using heap_push_ok [OF _ new] assms(1) by (auto simp: mb_inv_def succeeds_iff)
  have "card (n_counter ` set h) = length h"
    using new assms(1) h(3,4) distinct_card [of "map n_counter (m_prio_heap b)"]
    by (simp add: mb_inv_def card_insert_if)
  then have "distinct (map n_counter h)" by (metis card_distinct length_map set_map)
  moreover have "\<forall>x\<in>set h. n_counter x \<le> m_msg_counter b + 1"
    using h(3) fresh_counter [OF assms(1,2)] assms(3) by (auto simp: less_imp_le)
  ultimately show thesis using h that by blast
qed

text \<open>An enqueue keeps the order, the numbering and the wake-ups.\<close>

lemma enqueue_inv:
  assumes "mb_inv b" "can_enqueue randomization rnd now b msg delta"
  shows "succeeds (mb_enqueue randomization warmup rnd now b msg delta) (\<lambda>b'. mb_inv b'
    \<and> m_size b' = m_size b + 1 \<and> length (m_prio_heap b') = length (m_prio_heap b) + 1)"
proof -
  note c = counter_inc [OF assms(2)]
  define t where "t = fst (arrival randomization rnd now b delta)"
  define n where "n = \<lparr> n_time = t, n_counter = m_msg_counter b + 1, n_msgptr = msg\<lparr> m_DelayedCycles :=
      now - m_LastEnqueueTime msg + m_DelayedCycles msg, m_LastEnqueueTime := t \<rparr> \<rparr>"
  have nc: "n_counter n = m_msg_counter b + 1" by (simp add: n_def)
  obtain h where h: "heap_push n (m_prio_heap b) = Some h" "sorted_wrt key_less h"
    "distinct (map n_counter h)" "set h = insert n (set (m_prio_heap b))"
    "length h = length (m_prio_heap b) + 1" "\<forall>x\<in>set h. n_counter x \<le> m_msg_counter b + 1"
    "mset (map n_msgptr h) = mset (map n_msgptr (n # m_prio_heap b))"
    by (rule push_fresh [OF assms(1) c nc])
  have w: "\<forall>x\<in>set h. n_time x \<in> set (t # mb_wakeups b)"
    using h(4) assms(1) by (auto simp: n_def mb_inv_def)
  show ?thesis
    by (rule succeeds_mono [OF enqueue_eq [OF assms(2), folded t_def, folded n_def, OF h(1), of warmup]])
      (use h w in \<open>simp add: mb_inv_def\<close>)
qed

text \<open>On a strict buffer outside warm-up an enqueue appends at the end.\<close>

lemma enqueue_fifo:
  assumes "fifo_inv b" "can_enqueue randomization rnd now b msg delta"
  shows "succeeds (mb_enqueue randomization False rnd now b msg delta) (\<lambda>b'. fifo_inv b'
    \<and> map (m_payload \<circ> n_msgptr) (m_prio_heap b')
        = map (m_payload \<circ> n_msgptr) (m_prio_heap b) @ [m_payload msg])"
proof -
  note c = counter_inc [OF assms(2)]
  have inv: "mb_inv b" and f: "m_strict_fifo b" "m_ordering_set b" "mb_consumer b"
    "\<forall>n\<in>set (m_prio_heap b). n_time n \<le> m_last_arrival_time b"
    using assms(1) by (simp_all add: fifo_inv_def)
  define t where "t = fst (arrival randomization rnd now b delta)"
  define n where "n = \<lparr> n_time = t, n_counter = m_msg_counter b + 1, n_msgptr = msg\<lparr> m_DelayedCycles :=
      now - m_LastEnqueueTime msg + m_DelayedCycles msg, m_LastEnqueueTime := t \<rparr> \<rparr>"
  have last: "m_last_arrival_time b \<le> t"
    using assms(2) f(1) by (auto simp: t_def arrival_def can_enqueue_def Let_def)
  have "\<forall>x\<in>set (m_prio_heap b). key_less x n"
    using f(4) last fresh_counter [OF inv c] by (force simp: key_less_def n_def)
  then have h: "heap_push n (m_prio_heap b) = Some (m_prio_heap b @ [n])" by (rule heap_push_append)
  obtain b' where b': "mb_enqueue randomization False rnd now b msg delta = Some b'" "mb_inv b'"
    using enqueue_inv [OF inv assms(2), of False] by (auto simp: succeeds_iff)
  have "m_prio_heap b' = m_prio_heap b @ [n]" "m_strict_fifo b'" "m_ordering_set b'" "mb_consumer b'"
    "m_msg_counter b' = m_msg_counter b + 1" "m_last_arrival_time b' = t"
    using enqueue_eq [OF assms(2), of _ False, folded t_def, folded n_def, OF h] b'(1) f(1-3) by auto
  moreover have "unat (m_msg_counter b + 1) < 2 ^ 31" using c assms(2) by (simp add: can_enqueue_def)
  ultimately show ?thesis
    using b' f(4) last by (auto simp: fifo_inv_def n_def)
qed

lemma pop_ok:
  assumes "mb_inv b" "mb_isReady now b"
  shows "succeeds (mb_pop now b) (\<lambda>b'. mb_inv b' \<and> m_prio_heap b = hd (m_prio_heap b) # m_prio_heap b'
    \<and> m_size b' = m_size b - 1 \<and> m_msg_counter b' = m_msg_counter b \<and> (fifo_inv b \<longrightarrow> fifo_inv b')
    \<and> m_stall_msg_map b' = m_stall_msg_map b \<and> mb_consumer b' = mb_consumer b)"
proof (cases "m_prio_heap b")
  case Nil
  with assms(2) show ?thesis by (simp add: mb_isReady_def)
next
  case (Cons n ns)
  with assms show ?thesis
    by (auto simp: mb_pop_def Let_def mb_inv_def fifo_inv_def)
qed

interpretation mb: fifo_channel fifo_inv "\<lambda>b. map n_msgptr (m_prio_heap b)"
    "\<lambda>b m. can_enqueue randomization rnd now b m delta" "mb_isReady later"
    "\<lambda>b m. mb_enqueue randomization False rnd now b m delta" "mb_dequeue later" m_payload
  for randomization rnd now delta later
proof unfold_locales
  fix b :: "'a MessageBuffer" and m
  assume "fifo_inv b" "can_enqueue randomization rnd now b m delta"
  then show "succeeds (mb_enqueue randomization False rnd now b m delta) (\<lambda>b'. fifo_inv b'
      \<and> map m_payload (map n_msgptr (m_prio_heap b'))
        = map m_payload (map n_msgptr (m_prio_heap b)) @ [m_payload m])"
    using enqueue_fifo [of b randomization rnd now m delta] by (simp add: comp_def)
next
  fix b :: "'a MessageBuffer"
  assume a: "fifo_inv b" "mb_isReady later b"
  obtain b' where "mb_pop later b = Some b'" "fifo_inv b'"
    "m_prio_heap b = hd (m_prio_heap b) # m_prio_heap b'"
    using pop_ok [of b later] a by (auto simp: fifo_inv_def succeeds_iff)
  moreover from this(3) obtain n where "m_prio_heap b = n # m_prio_heap b'" by blast
  ultimately show "succeeds (mb_dequeue later b) (\<lambda>(m, b'). fifo_inv b'
      \<and> map n_msgptr (m_prio_heap b) = m # map n_msgptr (m_prio_heap b'))"
    by (simp add: mb_dequeue_def arr_simps)
qed

lemma random_time_pos: "0 < random_time r1 r2 r3" and random_time_max: "random_time r1 r2 r3 \<le> 118"
proof -
  have "r1 mod 4 \<le> 3" "r3 mod 15 \<le> 14"
    using mod_less_divisor [of 4 r1] mod_less_divisor [of 15 r3] by simp_all
  then show "0 < random_time r1 r2 r3" "random_time r1 r2 r3 \<le> 118"
    by (auto simp: random_time_def Let_def)
qed

section \<open>Stalled messages\<close>

lemma reanalyze_list_ok:
  "mb_inv b \<Longrightarrow> mb_consumer b \<Longrightarrow> unat (m_msg_counter b) + length msgs < 2 ^ 31 \<Longrightarrow>
   succeeds (reanalyze_list now msgs b) (\<lambda>b'. mb_inv b' \<and> m_size b' = m_size b
     \<and> mset (map n_msgptr (m_prio_heap b')) = mset (map n_msgptr (m_prio_heap b)) + mset msgs
     \<and> m_stall_msg_map b' = m_stall_msg_map b)"
proof (induction msgs arbitrary: b)
  case Nil
  then show ?case by simp
next
  case (Cons msg msgs)
  let ?c = "m_msg_counter b + 1"
  have c: "unat ?c = Suc (unat (m_msg_counter b))"
    using Cons.prems(3) unat_inc_below [of "m_msg_counter b" "2 ^ 31"] by simp
  define n where "n = \<lparr> n_time = now + 1, n_counter = ?c, n_msgptr = msg \<rparr>"
  have n: "new_node (now + 1) ?c msg = n"
    using small_counter [of ?c] c Cons.prems(3) by (simp add: new_node_def n_def)
  have nc: "n_counter n = m_msg_counter b + 1" by (simp add: n_def)
  obtain h where h: "heap_push n (m_prio_heap b) = Some h" "sorted_wrt key_less h"
    "distinct (map n_counter h)" "set h = insert n (set (m_prio_heap b))"
    "length h = length (m_prio_heap b) + 1" "\<forall>x\<in>set h. n_counter x \<le> m_msg_counter b + 1"
    "mset (map n_msgptr h) = mset (map n_msgptr (n # m_prio_heap b))"
    by (rule push_fresh [OF Cons.prems(1) c nc])
  let ?b = "b\<lparr> m_msg_counter := ?c, m_prio_heap := h, mb_wakeups := (now + 1) # mb_wakeups b \<rparr>"
  have "\<forall>x\<in>set h. n_time x \<in> set ((now + 1) # mb_wakeups b)"
    using h(4) Cons.prems(1) by (auto simp: n_def mb_inv_def)
  then have inv: "mb_inv ?b" using h by (simp add: mb_inv_def)
  have "succeeds (reanalyze_list now msgs ?b) (\<lambda>b'. mb_inv b' \<and> m_size b' = m_size ?b
     \<and> mset (map n_msgptr (m_prio_heap b')) = mset (map n_msgptr (m_prio_heap ?b)) + mset msgs
     \<and> m_stall_msg_map b' = m_stall_msg_map ?b)"
    by (rule Cons.IH [OF inv]) (use Cons.prems(2,3) c in simp_all)
  moreover have "reanalyze_list now (msg # msgs) b = reanalyze_list now msgs ?b"
    using h(1) Cons.prems(2) by (simp add: insert_node_def schedule_def n Let_def)
  ultimately show ?case using h(7) by (simp add: n_def)
qed

lemma map_of_stall_insert:
  "map_of (stall_insert a msg m) a = Some ((case map_of m a of None \<Rightarrow> [] | Some l \<Rightarrow> l) @ [msg])"
  if "sorted_wrt (<) (map fst m)"
  using that by (induction a msg m rule: stall_insert.induct)
    (auto split: option.split dest!: map_of_SomeD simp: image_iff map_of_eq_None_iff)

section \<open>Properties\<close>

text \<open>C28: On a strict buffer outside warm-up, with or without randomised delays, a message that is put
  in behind others leaves after all of them and before any later one: draining the buffer yields the
  payloads in the order in which they were enqueued.\<close>

theorem buffer_is_fifo:
  assumes "fifo_inv b" "can_enqueue randomization rnd now b msg delta"
  shows "\<exists>b'. mb_enqueue randomization False rnd now b msg delta = Some b' \<and> fifo_inv b'
     \<and> map (m_payload \<circ> n_msgptr) (m_prio_heap b')
         = map (m_payload \<circ> n_msgptr) (m_prio_heap b) @ [m_payload msg]
     \<and> (mb_isReady later b' \<longrightarrow> (\<exists>m b''. mb_dequeue later b' = Some (m, b'') \<and> fifo_inv b''
          \<and> m_payload m # map (m_payload \<circ> n_msgptr) (m_prio_heap b'')
            = map (m_payload \<circ> n_msgptr) (m_prio_heap b')))"
proof -
  obtain b' where b': "mb_enqueue randomization False rnd now b msg delta = Some b'" "fifo_inv b'"
    "map (m_payload \<circ> n_msgptr) (m_prio_heap b')
         = map (m_payload \<circ> n_msgptr) (m_prio_heap b) @ [m_payload msg]"
    using enqueue_fifo [OF assms] by (auto simp: succeeds_iff)
  have "\<exists>m b''. mb_dequeue later b' = Some (m, b'') \<and> fifo_inv b''
      \<and> m_payload m # map (m_payload \<circ> n_msgptr) (m_prio_heap b'')
        = map (m_payload \<circ> n_msgptr) (m_prio_heap b')" if r: "mb_isReady later b'"
  proof -
    obtain m b'' where d: "mb_dequeue later b' = Some (m, b'')" "fifo_inv b''"
      "map n_msgptr (m_prio_heap b') = m # map n_msgptr (m_prio_heap b'')"
      using mb.deq_ok [OF b'(2) r] by (auto simp: succeeds_iff)
    from arg_cong [OF d(3), of "map m_payload"] d(1,2) show ?thesis by (simp add: comp_def)
  qed
  then show ?thesis using b' by (intro exI [of _ b'] conjI impI)
qed

definition demo_buffer :: "nat MessageBuffer" where
  "demo_buffer = (new_MessageBuffer 10)\<lparr> mb_consumer := True, m_ordering_set := True \<rparr>"

definition demo_msg :: "nat \<Rightarrow> nat Message" where
  "demo_msg k = \<lparr> m_LastEnqueueTime = 0, m_DelayedCycles = 0, m_payload = k \<rparr>"

lemma demo_fifo: "fifo_inv demo_buffer"
  by (simp add: fifo_inv_def mb_inv_def demo_buffer_def new_MessageBuffer_def)

lemma demo_accepts: "can_enqueue False 1 3 demo_buffer (demo_msg 7) 5"
  by (simp add: can_enqueue_def demo_buffer_def new_MessageBuffer_def demo_msg_def)

theorem buffer_is_fifo_witness:
  "\<exists>b. mb_enqueue False False 1 3 demo_buffer (demo_msg 7) 5 = Some b
     \<and> map (m_payload \<circ> n_msgptr) (m_prio_heap b) = [7]"
  using buffer_is_fifo [OF demo_fifo demo_accepts, of 0]
  by (auto simp: demo_buffer_def new_MessageBuffer_def demo_msg_def)

text \<open>C29: No wake-up is lost: after an enqueue, for every waiting message the consumer has been scheduled
  at the message's arrival time, and the arrival time of the new message lies in the future.\<close>

theorem enqueue_schedules:
  assumes "mb_inv b" "can_enqueue randomization rnd now b msg delta"
  shows "\<exists>b'. mb_enqueue randomization warmup rnd now b msg delta = Some b' \<and> mb_inv b'
     \<and> length (m_prio_heap b') = length (m_prio_heap b) + 1 \<and> m_size b' = m_size b + 1
     \<and> (\<forall>n\<in>set (m_prio_heap b'). n_time n \<in> set (mb_wakeups b'))"
  using enqueue_inv [OF assms, of warmup] by (auto simp: succeeds_iff mb_inv_def)

theorem enqueue_schedules_witness:
  "\<exists>b. mb_enqueue False True 1 3 demo_buffer (demo_msg 7) 5 = Some b \<and> m_size b = 1"
proof -
  have "mb_inv demo_buffer" using demo_fifo by (simp add: fifo_inv_def)
  from enqueue_schedules [OF this demo_accepts, of True] show ?thesis
    by (auto simp: demo_buffer_def new_MessageBuffer_def)
qed

text \<open>C30: Stalling the head message and reanalysing its address puts the message back, yet the size
  counter that bounds the buffer ends one lower than it was: the counter no longer counts the
  messages in the buffer.\<close>

theorem stall_reanalyze_size:
  assumes "mb_inv b" "mb_consumer b" "mb_isReady now b" "getOffset bb a = Some 0"
    "m_stall_msg_map b = []" "unat (m_msg_counter b) + 1 < 2 ^ 31"
  shows "\<exists>b1 b2. stallMessage bb now b a = Some b1 \<and> reanalyzeMessages later b1 a = Some b2
     \<and> mset (map n_msgptr (m_prio_heap b2)) = mset (map n_msgptr (m_prio_heap b))
     \<and> m_size b2 = m_size b - 1"
proof -
  obtain p where p: "mb_pop now b = Some p" "mb_inv p"
    "m_prio_heap b = hd (m_prio_heap b) # m_prio_heap p"
    "m_size p = m_size b - 1" "m_msg_counter p = m_msg_counter b" "m_stall_msg_map p = m_stall_msg_map b"
    "mb_consumer p = mb_consumer b"
    using pop_ok [OF assms(1,3)] by (auto simp: succeeds_iff)
  then obtain n where n: "m_prio_heap b = n # m_prio_heap p" by blast
  let ?s = "p\<lparr> m_stall_msg_map := [(a, [n_msgptr n])] \<rparr>"
  have s: "stallMessage bb now b a = Some ?s"
    using assms(3-5) p(1,6) n by (simp add: stallMessage_def arr_simps)
  have "mb_inv ?s" using p(2) by (simp add: mb_inv_def)
  from reanalyze_list_ok [OF this, of "[n_msgptr n]" later] p assms(2,6)
  obtain r where "reanalyze_list later [n_msgptr n] ?s = Some r" "m_size r = m_size p"
    "mset (map n_msgptr (m_prio_heap r)) = mset (map n_msgptr (m_prio_heap p)) + {#n_msgptr n#}"
    by (auto simp: succeeds_iff)
  with s n p(4) show ?thesis by (simp add: reanalyzeMessages_def)
qed

theorem stall_reanalyze_size_witness:
  "\<exists>b b1 b2. mb_enqueue False False 1 3 demo_buffer (demo_msg 7) 5 = Some b
     \<and> stallMessage 6 9 b 0x40 = Some b1 \<and> reanalyzeMessages 10 b1 0x40 = Some b2
     \<and> m_size b = 1 \<and> m_size b2 = 0 \<and> length (m_prio_heap b2) = 1"
proof -
  obtain b where b: "mb_enqueue False False 1 3 demo_buffer (demo_msg 7) 5 = Some b"
    "mb_inv b" "mb_consumer b" "mb_isReady 9 b" "m_stall_msg_map b = []"
    "unat (m_msg_counter b) + 1 < 2 ^ 31" "m_size b = 1" "length (m_prio_heap b) = 1"
    using enqueue_inv [OF _ demo_accepts, of False] demo_fifo
    by (auto simp: fifo_inv_def succeeds_iff)
      (auto simp: mb_enqueue_def Let_def demo_buffer_def new_MessageBuffer_def demo_msg_def
        arrival_def insert_node_def new_node_def schedule_def mb_isReady_def)
  have o: "getOffset 6 0x40 = Some 0"
    by (simp add: getOffset_def bitSelect_def shr_def mask_eq_exp_minus_1)
  from stall_reanalyze_size [OF b(2-4) o b(5,6), of 10] obtain b1 b2 where
    "stallMessage 6 9 b 0x40 = Some b1" "reanalyzeMessages 10 b1 0x40 = Some b2"
    "mset (map n_msgptr (m_prio_heap b2)) = mset (map n_msgptr (m_prio_heap b))" "m_size b2 = 0"
    using b(7) by auto
  moreover from this(3) have "length (m_prio_heap b2) = 1" using b(8) by (metis length_map size_mset)
  ultimately show ?thesis using b(1,7) by blast
qed

end
