(* ===== verification/Sparse_Memory.thy ===== *)
theory Sparse_Memory
  imports Ruby_Tables
begin

text \<open>
  The multi-level table behind a directory, \<^verbatim>\<open>src/Lab5/gem5/src/mem/ruby/system/SparseMemory.cc\<close>: each
  level is indexed by a slice of the address, from the highest bits down to the block offset.  A table
  of pointers is an association list, the entries below the last level are leaves; reading a leaf
  as a table, or the reverse, is \<open>None\<close>, as is a failed assertion.  \<open>clear\<close> clears the data
  block of an entry.
\<close>

section \<open>State and operations\<close>

datatype 'e trie = Leaf 'e | Table "(addr \<times> 'e trie) list"

record 'e SparseMemory =
  m_total_number_of_bits :: nat
  m_number_of_bits_per_level :: "nat list"
  m_map_head :: "'e trie"
  m_total_adds :: UINT64
  m_total_removes :: UINT64
  m_adds_per_level :: "UINT64 list"
  m_removes_per_level :: "UINT64 list"

definition new_SparseMemory :: "nat \<Rightarrow> nat \<Rightarrow> nat \<Rightarrow> 'e SparseMemory option" where
  "new_SparseMemory memory_bits bb number_of_levels = do {
     let total = memory_bits - bb;
     assert_that (0 < number_of_levels);
     let even_level_bits = total div number_of_levels;
     let extra = total mod number_of_levels;
     Some \<lparr> m_total_number_of_bits = total,
       m_number_of_bits_per_level =
         map (\<lambda>level. if level < extra then even_level_bits + 1 else even_level_bits) [0..<number_of_levels],
       m_map_head = Table [], m_total_adds = 0, m_total_removes = 0,
       m_adds_per_level = replicate number_of_levels 0,
       m_removes_per_level = replicate number_of_levels 0 \<rparr>
   }"

text \<open>The sub-address of a level: bits \<open>highBit - b\<close> to \<open>highBit - 1\<close>.\<close>

definition level_key :: "addr \<Rightarrow> nat \<Rightarrow> nat \<Rightarrow> addr option" where
  "level_key address highBit b = do {
     assert_that (0 < b \<and> b \<le> highBit);
     bitSelect address (highBit - b) (highBit - 1)
   }"

fun exist_loop :: "nat list \<Rightarrow> nat \<Rightarrow> addr \<Rightarrow> 'e trie \<Rightarrow> bool option" where
  "exist_loop [] highBit address cur = Some True"
| "exist_loop (b # bs) highBit address cur = do {
     k \<leftarrow> level_key address highBit b;
     case cur of
       Leaf e \<Rightarrow> None
     | Table m \<Rightarrow> (case map_of m k of
         Some next \<Rightarrow> exist_loop bs (highBit - b) address next
       | None \<Rightarrow> Some False)
   }"

definition high_bit :: "nat \<Rightarrow> 'e SparseMemory \<Rightarrow> nat" where
  "high_bit bb s = m_total_number_of_bits s + bb"

definition exist :: "nat \<Rightarrow> 'e SparseMemory \<Rightarrow> addr \<Rightarrow> bool option" where
  "exist bb s address = do {
     assert_that (is_line bb address);
     exist_loop (m_number_of_bits_per_level s) (high_bit bb s) address (m_map_head s)
   }"

fun add_loop :: "('e \<Rightarrow> 'e) \<Rightarrow> nat list \<Rightarrow> nat \<Rightarrow> nat \<Rightarrow> addr \<Rightarrow> 'e \<Rightarrow> UINT64 list \<Rightarrow> 'e trie
    \<Rightarrow> ('e trie \<times> UINT64 list) option" where
  "add_loop clear [] highBit level address entry adds cur = Some (cur, adds)"
| "add_loop clear (b # bs) highBit level address entry adds cur = do {
     k \<leftarrow> level_key address highBit b;
     case cur of
       Leaf e \<Rightarrow> None
     | Table m \<Rightarrow> (case map_of m k of
         Some next \<Rightarrow> do {
           (next, adds) \<leftarrow> add_loop clear bs (highBit - b) (level + 1) address entry adds next;
           Some (Table (store_at k next m), adds)
         }
       | None \<Rightarrow> do {
           n \<leftarrow> rd adds level;
           adds \<leftarrow> wr adds level (n + 1);
           let newEntry = (if bs = [] then Leaf (clear entry) else Table []);
           (next, adds) \<leftarrow> add_loop clear bs (highBit - b) (level + 1) address entry adds newEntry;
           Some (Table (store_at k next m), adds)
         })
   }"

definition sm_add :: "('e \<Rightarrow> 'e) \<Rightarrow> nat \<Rightarrow> 'e SparseMemory \<Rightarrow> addr \<Rightarrow> 'e \<Rightarrow> 'e SparseMemory option" where
  "sm_add clear bb s address entry = do {
     assert_that (is_line bb address);
     present \<leftarrow> exist bb s address;
     assert_that (\<not> present);
     (head, adds) \<leftarrow> add_loop clear (m_number_of_bits_per_level s) (high_bit bb s) 0 address entry
        (m_adds_per_level s) (m_map_head s);
     let s = s\<lparr> m_total_adds := m_total_adds s + 1, m_map_head := head, m_adds_per_level := adds \<rparr>;
     present \<leftarrow> exist bb s address;
     assert_that present;
     Some s
   }"

text \<open>The result of a level is the number of entries left in its table.\<close>

fun remove_loop :: "nat list \<Rightarrow> nat \<Rightarrow> nat \<Rightarrow> addr \<Rightarrow> UINT64 list \<Rightarrow> 'e trie
    \<Rightarrow> (nat \<times> 'e trie \<times> UINT64 list) option" where
  "remove_loop [] highBit level address removes cur = None"
| "remove_loop (b # bs) highBit level address removes cur = do {
     k \<leftarrow> level_key address highBit b;
     case cur of
       Leaf e \<Rightarrow> None
     | Table m \<Rightarrow> do {
         entry \<leftarrow> map_of m k;
         if bs \<noteq> [] then do {
           (tableSize, next, removes) \<leftarrow> remove_loop bs (highBit - b) (level + 1) address removes entry;
           if tableSize = 0 then do {
             n \<leftarrow> rd removes level;
             removes \<leftarrow> wr removes level (n + 1);
             let m = erase k m;
             Some (length m, Table m, removes)
           } else (let m = store_at k next m in Some (length m, Table m, removes))
         } else do {
           let m = erase k m;
           n \<leftarrow> rd removes level;
           removes \<leftarrow> wr removes level (n + 1);
           Some (length m, Table m, removes)
         }
       }
   }"

definition sm_remove :: "nat \<Rightarrow> 'e SparseMemory \<Rightarrow> addr \<Rightarrow> 'e SparseMemory option" where
  "sm_remove bb s address = do {
     assert_that (is_line bb address);
     present \<leftarrow> exist bb s address;
     assert_that present;
     (n, head, removes) \<leftarrow> remove_loop (m_number_of_bits_per_level s) (high_bit bb s) 0 address
        (m_removes_per_level s) (m_map_head s);
     let s = s\<lparr> m_total_removes := m_total_removes s + 1, m_map_head := head,
                m_removes_per_level := removes \<rparr>;
     present \<leftarrow> exist bb s address;
     assert_that (\<not> present);
     Some s
   }"

text \<open>The inner \<open>None\<close> is \<^verbatim>\<open>NULL\<close>.\<close>

fun lookup_loop :: "nat list \<Rightarrow> nat \<Rightarrow> addr \<Rightarrow> 'e trie \<Rightarrow> 'e option option" where
  "lookup_loop [] highBit address cur = (case cur of Leaf e \<Rightarrow> Some (Some e) | Table m \<Rightarrow> None)"
| "lookup_loop (b # bs) highBit address cur = do {
     k \<leftarrow> level_key address highBit b;
     case cur of
       Leaf e \<Rightarrow> None
     | Table m \<Rightarrow> (case map_of m k of
         Some next \<Rightarrow> lookup_loop bs (highBit - b) address next
       | None \<Rightarrow> Some None)
   }"

definition sm_lookup :: "nat \<Rightarrow> 'e SparseMemory \<Rightarrow> addr \<Rightarrow> 'e option option" where
  "sm_lookup bb s address = do {
     assert_that (is_line bb address);
     lookup_loop (m_number_of_bits_per_level s) (high_bit bb s) address (m_map_head s)
   }"

section \<open>Tries and the paths of addresses\<close>

text \<open>The keys of an address, level by level.\<close>

fun path :: "nat list \<Rightarrow> nat \<Rightarrow> addr \<Rightarrow> addr list" where
  "path [] highBit a = []"
| "path (b # bs) highBit a = take_bit b (drop_bit (highBit - b) a) # path bs (highBit - b) a"

fun trie_get :: "addr list \<Rightarrow> 'e trie \<Rightarrow> 'e option" where
  "trie_get [] (Leaf e) = Some e"
| "trie_get [] (Table m) = None"
| "trie_get (k # ks) (Leaf e) = None"
| "trie_get (k # ks) (Table m) = (case map_of m k of None \<Rightarrow> None | Some t \<Rightarrow> trie_get ks t)"

text \<open>Leaves at depth \<open>n\<close>, distinct keys, no empty table below the root.\<close>

fun trie_wf :: "nat \<Rightarrow> 'e trie \<Rightarrow> bool" where
  "trie_wf 0 t = (\<exists>e. t = Leaf e)"
| "trie_wf (Suc n) t = (\<exists>m. t = Table m \<and> distinct (map fst m)
     \<and> (\<forall>k t'. map_of m k = Some t' \<longrightarrow> t' \<noteq> Table [] \<and> trie_wf n t'))"

definition bits_ok :: "nat list \<Rightarrow> nat \<Rightarrow> bool" where
  "bits_ok bs highBit = ((\<forall>b\<in>set bs. 0 < b) \<and> sum_list bs \<le> highBit \<and> highBit \<le> 64)"

lemma level_key_ok: "bits_ok (b # bs) h \<Longrightarrow> level_key a h b = Some (take_bit b (drop_bit (h - b) a))"
  by (auto simp: level_key_def bits_ok_def bitSelect_eq)

lemma bits_ok_Cons: "bits_ok (b # bs) h \<Longrightarrow> bits_ok bs (h - b)"
  by (auto simp: bits_ok_def)

lemma exist_loop_eq:
  "bits_ok bs h \<Longrightarrow> trie_wf (length bs) t \<Longrightarrow>
   exist_loop bs h a t = Some (trie_get (path bs h a) t \<noteq> None)"
proof (induction bs arbitrary: h t)
  case Nil
  then show ?case by auto
next
  case (Cons b bs)
  then obtain m where "t = Table m" "\<forall>k t'. map_of m k = Some t' \<longrightarrow> trie_wf (length bs) t'" by auto
  with Cons level_key_ok [OF Cons.prems(1)] bits_ok_Cons [OF Cons.prems(1)] show ?case
    by (auto split: option.split)
qed

lemma lookup_loop_eq:
  "bits_ok bs h \<Longrightarrow> trie_wf (length bs) t \<Longrightarrow> lookup_loop bs h a t = Some (trie_get (path bs h a) t)"
proof (induction bs arbitrary: h t)
  case Nil
  then show ?case by auto
next
  case (Cons b bs)
  then obtain m where "t = Table m" "\<forall>k t'. map_of m k = Some t' \<longrightarrow> trie_wf (length bs) t'" by auto
  with Cons level_key_ok [OF Cons.prems(1)] bits_ok_Cons [OF Cons.prems(1)] show ?case
    by (auto split: option.split)
qed

lemma path_length [simp]: "length (path bs h a) = length bs"
  by (induction bs arbitrary: h) simp_all

text \<open>Within the bits the levels cover, the path determines the address.\<close>

lemma path_bits:
  "bits_ok bs h \<Longrightarrow> path bs h a = path bs h b \<Longrightarrow> h - sum_list bs \<le> n \<Longrightarrow> n < h \<Longrightarrow> bit a n = bit b n"
proof (induction bs arbitrary: h)
  case Nil
  then show ?case by simp
next
  case (Cons c bs)
  show ?case
  proof (cases "n < h - c")
    case True
    with Cons bits_ok_Cons [OF Cons.prems(1)] show ?thesis by simp
  next
    case False
    have "bit (take_bit c (drop_bit (h - c) a)) (n - (h - c))
        = bit (take_bit c (drop_bit (h - c) b)) (n - (h - c))" using Cons.prems(2) by simp
    moreover have "n - (h - c) < c" "h - c + (n - (h - c)) = n" using False Cons.prems(1,4) by auto
    ultimately show ?thesis by (simp add: bit_take_bit_iff bit_drop_bit_eq)
  qed
qed

lemma trie_wf_store:
  assumes "trie_wf (Suc n) (Table m)" "trie_wf n t" "t \<noteq> Table []"
  shows "trie_wf (Suc n) (Table (store_at k t m))"
  using assms by (auto simp: distinct_store)

lemma trie_wf_erase: "trie_wf (Suc n) (Table m) \<Longrightarrow> trie_wf (Suc n) (Table (erase k m))"
  by (auto simp: distinct_erase map_of_erase split: if_splits)

lemma add_loop_ok:
  "bits_ok bs h \<Longrightarrow> trie_wf (length bs) t \<Longrightarrow> bs \<noteq> [] \<Longrightarrow> trie_get (path bs h a) t = None \<Longrightarrow>
   level + length bs \<le> length adds \<Longrightarrow>
   succeeds (add_loop clear bs h level a e adds t) (\<lambda>(t', adds'). trie_wf (length bs) t' \<and> t' \<noteq> Table []
     \<and> length adds' = length adds \<and> (\<forall>ks. length ks = length bs \<longrightarrow>
       trie_get ks t' = (if ks = path bs h a then Some (clear e) else trie_get ks t)))"
proof (induction bs arbitrary: h t level adds)
  case Nil
  then show ?case by simp
next
  case (Cons b bs)
  let ?k = "take_bit b (drop_bit (h - b) a)" and ?p = "path bs (h - b) a"
  obtain m where m: "t = Table m" "distinct (map fst m)"
    "\<forall>k t'. map_of m k = Some t' \<longrightarrow> t' \<noteq> Table [] \<and> trie_wf (length bs) t'" using Cons.prems(2) by auto
  note k = level_key_ok [OF Cons.prems(1), of a] and ok = bits_ok_Cons [OF Cons.prems(1)]
  have wf: "trie_wf (Suc (length bs)) (Table m)" using Cons.prems(2) m(1) by simp
  define start where "start = (case map_of m ?k of Some n \<Rightarrow> n
    | None \<Rightarrow> if bs = [] then Leaf (clear e) else Table [])"
  define adds0 where "adds0 = (case map_of m ?k of Some n \<Rightarrow> adds
    | None \<Rightarrow> adds[level := adds ! level + 1])"
  have lv: "level < length adds" "length adds0 = length adds"
    using Cons.prems(5) by (auto simp: adds0_def split: option.split)
  have old: "trie_get (?k # ks) t = (case map_of m ?k of None \<Rightarrow> None | Some n \<Rightarrow> trie_get ks n)" for ks
    using m(1) by simp
  have "succeeds (add_loop clear bs (h - b) (level + 1) a e adds0 start) (\<lambda>(t', adds').
      trie_wf (length bs) t' \<and> t' \<noteq> Table [] \<and> length adds' = length adds \<and> (\<forall>ks. length ks = length bs \<longrightarrow>
       trie_get ks t' = (if ks = ?p then Some (clear e) else trie_get (?k # ks) t)))"
  proof (cases "bs = []")
    case True
    have "map_of m ?k = None"
    proof (rule ccontr)
      assume "map_of m ?k \<noteq> None"
      then obtain n e' where "map_of m ?k = Some n" "n = Leaf e'" using m(3) True by fastforce
      with Cons.prems(4) m(1) True show False by simp
    qed
    with True lv show ?thesis by (simp add: start_def)
  next
    case False
    have s: "trie_wf (length bs) start" "trie_get ks start = trie_get (?k # ks) t" if "length ks = length bs" for ks
      using that False m by (auto simp: start_def neq_Nil_conv split: option.splits)
        (cases ks, simp_all)+
    have "trie_wf (length bs) start" using s(1) [of ?p] by simp
    moreover have "trie_get ?p start = None" using s(2) [of ?p] Cons.prems(4) by simp
    ultimately show ?thesis
      using Cons.IH [OF ok _ False, of start "level + 1" adds0] Cons.prems(5) lv(2) s(2)
      by (auto intro: succeeds_mono)
  qed
  then obtain t' adds' where r: "add_loop clear bs (h - b) (level + 1) a e adds0 start = Some (t', adds')"
    "trie_wf (length bs) t'" "t' \<noteq> Table []" "length adds' = length adds"
    "\<forall>ks. length ks = length bs \<longrightarrow>
       trie_get ks t' = (if ks = ?p then Some (clear e) else trie_get (?k # ks) t)"
    by (auto simp: succeeds_iff)
  have "add_loop clear (b # bs) h level a e adds t = Some (Table (store_at ?k t' m), adds')"
    using r(1) k m(1) lv(1)
    by (cases "map_of m ?k") (simp_all add: start_def adds0_def arr_simps Let_def)
  moreover have "trie_get ks (Table (store_at ?k t' m))
      = (if ks = path (b # bs) h a then Some (clear e) else trie_get ks t)"
    if "length ks = length (b # bs)" for ks
    using that r(5) m(1) by (cases ks) auto
  moreover have "Table (store_at ?k t' m) \<noteq> Table []" by (simp add: store_at_def)
  ultimately show ?case
    using trie_wf_store [OF wf r(2,3)] r(4) by simp
qed

lemma remove_loop_ok:
  "bits_ok bs h \<Longrightarrow> trie_wf (length bs) t \<Longrightarrow> bs \<noteq> [] \<Longrightarrow> trie_get (path bs h a) t \<noteq> None \<Longrightarrow>
   level + length bs \<le> length removes \<Longrightarrow>
   succeeds (remove_loop bs h level a removes t) (\<lambda>(n, t', removes'). trie_wf (length bs) t'
     \<and> (\<exists>m. t' = Table m \<and> n = length m) \<and> length removes' = length removes
     \<and> (\<forall>ks. length ks = length bs \<longrightarrow>
       trie_get ks t' = (if ks = path bs h a then None else trie_get ks t)))"
proof (induction bs arbitrary: h t level removes)
  case Nil
  then show ?case by simp
next
  case (Cons b bs)
  let ?k = "take_bit b (drop_bit (h - b) a)" and ?p = "path bs (h - b) a"
  obtain m where m: "t = Table m" "distinct (map fst m)"
    "\<forall>k t'. map_of m k = Some t' \<longrightarrow> t' \<noteq> Table [] \<and> trie_wf (length bs) t'" using Cons.prems(2) by auto
  note k = level_key_ok [OF Cons.prems(1), of a] and ok = bits_ok_Cons [OF Cons.prems(1)]
  have wf: "trie_wf (Suc (length bs)) (Table m)" using Cons.prems(2) m(1) by simp
  obtain c where c: "map_of m ?k = Some c" "trie_get ?p c \<noteq> None" "trie_wf (length bs) c"
    using Cons.prems(4) m by (auto split: option.splits)
  have lv: "level < length removes" using Cons.prems(5) by simp
  show ?case
  proof (cases "bs = []")
    case True
    then have "trie_get ks (Table (erase ?k m)) = (if ks = path [b] h a then None else trie_get ks t)"
      if "length ks = 1" for ks
      using that m(1) by (cases ks) (auto simp: map_of_erase)
    moreover have "remove_loop [b] h level a removes t
        = Some (length (erase ?k m), Table (erase ?k m), removes[level := removes ! level + 1])"
      using k m(1) c(1) lv by (simp add: arr_simps Let_def)
    ultimately show ?thesis using True trie_wf_erase [OF wf] by simp
  next
    case False
    obtain n t' r where r: "remove_loop bs (h - b) (level + 1) a removes c = Some (n, t', r)"
      "trie_wf (length bs) t'" "\<exists>m. t' = Table m \<and> n = length m" "length r = length removes"
      "\<forall>ks. length ks = length bs \<longrightarrow> trie_get ks t' = (if ks = ?p then None else trie_get ks c)"
      using Cons.IH [OF ok c(3) False c(2), of "level + 1" removes] Cons.prems(5)
      by (auto simp: succeeds_iff)
    show ?thesis
    proof (cases "n = 0")
      case True
      then have e: "t' = Table []" using r(3) by auto
      have "trie_get ks' c = None" if "length ks' = length bs" "ks' \<noteq> ?p" for ks'
        using r(5) [rule_format, of ks'] that e False by (cases ks') simp_all
      then have "trie_get ks (Table (erase ?k m)) = (if ks = path (b # bs) h a then None else trie_get ks t)"
        if "length ks = length (b # bs)" for ks
        using that m(1) c(1) by (cases ks) (auto simp: map_of_erase)
      moreover have "remove_loop (b # bs) h level a removes t
          = Some (length (erase ?k m), Table (erase ?k m), r[level := r ! level + 1])"
        using k m(1) c(1) lv r(1,4) True False by (simp add: arr_simps Let_def)
      ultimately show ?thesis using trie_wf_erase [OF wf] r(4) by simp
    next
      case n: False
      have "trie_get ks (Table (store_at ?k t' m)) = (if ks = path (b # bs) h a then None else trie_get ks t)"
        if "length ks = length (b # bs)" for ks
        using that m(1) c(1) r(5) by (cases ks) auto
      moreover have "remove_loop (b # bs) h level a removes t
          = Some (length (store_at ?k t' m), Table (store_at ?k t' m), r)"
        using k m(1) c(1) r(1) n False by (simp add: Let_def)
      moreover have "t' \<noteq> Table []" using n r(3) by auto
      ultimately show ?thesis using trie_wf_store [OF wf r(2)] r(4) by simp
    qed
  qed
qed

section \<open>The sparse memory as a line store\<close>

definition sm_line :: "nat \<Rightarrow> nat \<Rightarrow> addr \<Rightarrow> bool" where
  "sm_line tot bb a = (is_line bb a \<and> unat a < 2 ^ (tot + bb))"

definition sm_inv :: "nat \<Rightarrow> nat \<Rightarrow> 'e SparseMemory \<Rightarrow> bool" where
  "sm_inv tot bb s = (m_total_number_of_bits s = tot \<and> bb < 63 \<and> tot + bb \<le> 64
     \<and> (\<forall>b\<in>set (m_number_of_bits_per_level s). 0 < b)
     \<and> sum_list (m_number_of_bits_per_level s) = tot \<and> m_number_of_bits_per_level s \<noteq> []
     \<and> trie_wf (length (m_number_of_bits_per_level s)) (m_map_head s)
     \<and> length (m_adds_per_level s) = length (m_number_of_bits_per_level s)
     \<and> length (m_removes_per_level s) = length (m_number_of_bits_per_level s))"

definition sm_path :: "nat \<Rightarrow> 'e SparseMemory \<Rightarrow> addr \<Rightarrow> addr list" where
  "sm_path bb s a = path (m_number_of_bits_per_level s) (high_bit bb s) a"

definition sm_map :: "nat \<Rightarrow> nat \<Rightarrow> 'e SparseMemory \<Rightarrow> addr \<Rightarrow> 'e option" where
  "sm_map tot bb s a = (if sm_line tot bb a then trie_get (sm_path bb s a) (m_map_head s) else None)"

lemma sm_bits_ok: "sm_inv tot bb s \<Longrightarrow> bits_ok (m_number_of_bits_per_level s) (high_bit bb s)"
  by (auto simp: sm_inv_def bits_ok_def high_bit_def)

lemma line_low_bits: "bb < 63 \<Longrightarrow> is_line bb a \<Longrightarrow> n < bb \<Longrightarrow> \<not> bit a n"
  using bit_line_address [of bb a n] by (metis is_line_def not_le)

lemma high_bits_zero: "unat a < 2 ^ k \<Longrightarrow> k \<le> n \<Longrightarrow> \<not> bit a n" for a :: "'a::len word"
proof -
  assume a: "unat a < 2 ^ k" "k \<le> n"
  then have "unat a < 2 ^ n" by (meson order.strict_trans2 power_increasing one_le_numeral)
  then have "drop_bit n a = 0" by (simp add: word_unat_eq_iff unat_drop)
  then show ?thesis by (metis bit_drop_bit_eq bit_0_eq add_0_right bot_apply comp_apply bot_bool_def)
qed

lemma sm_path_inj:
  assumes "sm_inv tot bb s" "sm_line tot bb a" "sm_line tot bb b" "sm_path bb s a = sm_path bb s b"
  shows "a = b"
proof (rule bit_word_eqI)
  fix n
  have h: "high_bit bb s = tot + bb" "sum_list (m_number_of_bits_per_level s) = tot" "bb < 63"
    using assms(1) by (simp_all add: sm_inv_def high_bit_def)
  consider "n < bb" | "bb \<le> n" "n < tot + bb" | "tot + bb \<le> n" by linarith
  then show "bit a n = bit b n"
  proof cases
    case 1
    then show ?thesis using line_low_bits [OF h(3)] assms(2,3) by (auto simp: sm_line_def)
  next
    case 2
    then show ?thesis
      using path_bits [OF sm_bits_ok [OF assms(1)], of a b n] assms(4) h by (simp add: sm_path_def)
  next
    case 3
    then show ?thesis using high_bits_zero assms(2,3) unfolding sm_line_def by blast
  qed
qed

lemma sm_exist_eq:
  "sm_inv tot bb s \<Longrightarrow> sm_line tot bb a \<Longrightarrow> exist bb s a = Some (sm_map tot bb s a \<noteq> None)"
  using exist_loop_eq [OF sm_bits_ok, of tot bb s "m_map_head s" a]
  by (simp add: exist_def sm_line_def sm_inv_def sm_map_def sm_path_def)

lemma sm_lookup_eq:
  "sm_inv tot bb s \<Longrightarrow> sm_line tot bb a \<Longrightarrow> sm_lookup bb s a = Some (sm_map tot bb s a)"
  using lookup_loop_eq [OF sm_bits_ok, of tot bb s "m_map_head s" a]
  by (simp add: sm_lookup_def sm_line_def sm_inv_def sm_map_def sm_path_def)

lemma sm_map_upd:
  assumes "sm_inv tot bb s" "sm_line tot bb a" "m_number_of_bits_per_level s' = m_number_of_bits_per_level s"
    "m_total_number_of_bits s' = m_total_number_of_bits s"
    and g: "\<forall>ks. length ks = length (m_number_of_bits_per_level s) \<longrightarrow> trie_get ks (m_map_head s')
      = (if ks = sm_path bb s a then v else trie_get ks (m_map_head s))"
  shows "sm_map tot bb s' = (sm_map tot bb s)(a := v)"
proof
  have p: "sm_path bb s' x = sm_path bb s x" for x using assms(3,4) by (simp add: sm_path_def high_bit_def)
  fix b
  have "length (sm_path bb s b) = length (m_number_of_bits_per_level s)" by (simp add: sm_path_def)
  with g have "trie_get (sm_path bb s b) (m_map_head s')
      = (if sm_path bb s b = sm_path bb s a then v else trie_get (sm_path bb s b) (m_map_head s))" by blast
  then show "sm_map tot bb s' b = ((sm_map tot bb s)(a := v)) b"
    using sm_path_inj [OF assms(1) _ assms(2), of b] assms(2) by (auto simp: sm_map_def p)
qed

lemma sm_add_ok:
  assumes "sm_inv tot bb s" "sm_line tot bb a" "sm_map tot bb s a = None"
  shows "succeeds (sm_add clear bb s a e)
    (\<lambda>s'. sm_inv tot bb s' \<and> sm_map tot bb s' = (sm_map tot bb s)(a \<mapsto> clear e))"
proof -
  have wf: "trie_wf (length (m_number_of_bits_per_level s)) (m_map_head s)"
    "m_number_of_bits_per_level s \<noteq> []" "0 + length (m_number_of_bits_per_level s) \<le> length (m_adds_per_level s)"
    using assms(1) by (simp_all add: sm_inv_def)
  have n: "trie_get (path (m_number_of_bits_per_level s) (high_bit bb s) a) (m_map_head s) = None"
    using assms(2,3) by (simp add: sm_map_def sm_path_def)
  obtain t adds where r: "add_loop clear (m_number_of_bits_per_level s) (high_bit bb s) 0 a e
      (m_adds_per_level s) (m_map_head s) = Some (t, adds)"
    "trie_wf (length (m_number_of_bits_per_level s)) t" "length adds = length (m_adds_per_level s)"
    "\<forall>ks. length ks = length (m_number_of_bits_per_level s) \<longrightarrow> trie_get ks t
      = (if ks = sm_path bb s a then Some (clear e) else trie_get ks (m_map_head s))"
    using add_loop_ok [OF sm_bits_ok [OF assms(1)] wf(1,2) n wf(3), of clear e]
    by (auto simp: succeeds_iff sm_path_def)
  let ?s = "s\<lparr> m_total_adds := m_total_adds s + 1, m_map_head := t, m_adds_per_level := adds \<rparr>"
  have inv: "sm_inv tot bb ?s" using assms(1) r(2,3) by (simp add: sm_inv_def)
  have map: "sm_map tot bb ?s = (sm_map tot bb s)(a \<mapsto> clear e)"
    by (rule sm_map_upd [OF assms(1,2)]) (use r(4) in simp_all)
  have "is_line bb a" using assms(2) by (simp add: sm_line_def)
  with r(1) inv map assms(3) show ?thesis
    by (simp add: sm_add_def sm_exist_eq [OF assms(1,2)] sm_exist_eq [OF inv assms(2)] Let_def)
qed

lemma sm_remove_ok:
  assumes "sm_inv tot bb s" "sm_line tot bb a" "sm_map tot bb s a \<noteq> None"
  shows "succeeds (sm_remove bb s a)
    (\<lambda>s'. sm_inv tot bb s' \<and> sm_map tot bb s' = (sm_map tot bb s)(a := None))"
proof -
  have wf: "trie_wf (length (m_number_of_bits_per_level s)) (m_map_head s)"
    "m_number_of_bits_per_level s \<noteq> []" "0 + length (m_number_of_bits_per_level s) \<le> length (m_removes_per_level s)"
    using assms(1) by (simp_all add: sm_inv_def)
  have n: "trie_get (path (m_number_of_bits_per_level s) (high_bit bb s) a) (m_map_head s) \<noteq> None"
    using assms(2,3) by (simp add: sm_map_def sm_path_def)
  obtain n t rem where r: "remove_loop (m_number_of_bits_per_level s) (high_bit bb s) 0 a
      (m_removes_per_level s) (m_map_head s) = Some (n, t, rem)"
    "trie_wf (length (m_number_of_bits_per_level s)) t" "length rem = length (m_removes_per_level s)"
    "\<forall>ks. length ks = length (m_number_of_bits_per_level s) \<longrightarrow> trie_get ks t
      = (if ks = sm_path bb s a then None else trie_get ks (m_map_head s))"
    using remove_loop_ok [OF sm_bits_ok [OF assms(1)] wf(1,2) n wf(3)]
    by (auto simp: succeeds_iff sm_path_def)
  let ?s = "s\<lparr> m_total_removes := m_total_removes s + 1, m_map_head := t, m_removes_per_level := rem \<rparr>"
  have inv: "sm_inv tot bb ?s" using assms(1) r(2,3) by (simp add: sm_inv_def)
  have map: "sm_map tot bb ?s = (sm_map tot bb s)(a := None)"
    by (rule sm_map_upd [OF assms(1,2)]) (use r(4) in simp_all)
  have "is_line bb a" using assms(2) by (simp add: sm_line_def)
  with r(1) inv map assms(3) show ?thesis
    by (simp add: sm_remove_def sm_exist_eq [OF assms(1,2)] sm_exist_eq [OF inv assms(2)] Let_def)
qed

interpretation sm: line_store "sm_line tot bb" "sm_map tot bb" "sm_add clear bb" "sm_remove bb"
    "\<lambda>s a. True" "\<lambda>a e. clear e" "sm_inv tot bb" for tot bb clear
  by unfold_locales (simp_all add: sm_add_ok sm_remove_ok)

lemma level_bits_sum:
  "sum_list (map (\<lambda>l. if l < x then e + 1 else e) [0..<n]) = n * e + min n x" for e x n :: nat
  by (induction n) (auto simp: min_def)

lemma sm_new_ok:
  assumes "0 < levels" "levels \<le> memory_bits - bb" "memory_bits \<le> 64" "bb < 63" "bb \<le> memory_bits"
  shows "succeeds (new_SparseMemory memory_bits bb levels)
    (\<lambda>s. sm_inv (memory_bits - bb) bb s \<and> sm_map (memory_bits - bb) bb s = Map.empty)"
proof -
  let ?t = "memory_bits - bb"
  have e: "0 < ?t div levels" using assms(1,2) by (simp add: div_greater_zero_iff)
  have "sum_list (map (\<lambda>l. if l < ?t mod levels then ?t div levels + 1 else ?t div levels) [0..<levels])
      = levels * (?t div levels) + ?t mod levels"
    unfolding level_bits_sum min.absorb2 [OF less_imp_le [OF mod_less_divisor [OF assms(1)]]] ..
  also have "\<dots> = ?t" by simp
  finally have sum: "sum_list (map (\<lambda>l. if l < ?t mod levels then ?t div levels + 1 else ?t div levels)
      [0..<levels]) = ?t" .
  have get: "trie_get ks (Table []) = None" for ks :: "addr list" by (cases ks) auto
  have "trie_wf levels (Table [] :: 'a trie)" using assms(1) by (cases levels) auto
  with assms e sum show ?thesis
    by (auto simp: new_SparseMemory_def Let_def sm_inv_def sm_map_def fun_eq_iff get)
qed


section \<open>Properties\<close>

text \<open>C35: The sparse memory implements a table of lines. Build a memory of \<open>number_of_levels\<close>
  levels and run any sequence of \<open>add\<close> and \<open>remove\<close> on it that adds only absent and removes only
  present lines of the memory: no operation fails, and in the end \<open>exist\<close> and \<open>lookup\<close> answer for
  every line exactly as the map the sequence builds (\<open>add\<close> stores the entry it was given, cleared).
  So neither the split of the address over the levels nor the freeing of emptied tables by
  \<open>remove\<close> can be observed.\<close>

theorem sparse_memory_is_map:
  assumes "0 < levels" "levels \<le> memory_bits - bb" "memory_bits \<le> 64" "bb < 63" "bb \<le> memory_bits"
    and "map_run (sm_line (memory_bits - bb) bb) (\<lambda>a. clear) ops Map.empty = Some m"
  shows "succeeds (do { s \<leftarrow> new_SparseMemory memory_bits bb levels;
        store_run (sm_add clear bb) (sm_remove bb) ops s })
    (\<lambda>s. \<forall>a. sm_line (memory_bits - bb) bb a \<longrightarrow>
       exist bb s a = Some (m a \<noteq> None) \<and> sm_lookup bb s a = Some (m a))"
proof (rule succeeds_bind [OF sm_new_ok [OF assms(1-5)]])
  fix s :: "'a SparseMemory"
  assume s: "sm_inv (memory_bits - bb) bb s \<and> sm_map (memory_bits - bb) bb s = Map.empty"
  then have "succeeds (store_run (sm_add clear bb) (sm_remove bb) ops s)
      (\<lambda>s'. sm_inv (memory_bits - bb) bb s' \<and> sm_map (memory_bits - bb) bb s' = m)"
    using assms(6) by (intro sm.run_refines_map) simp_all
  then show "succeeds (store_run (sm_add clear bb) (sm_remove bb) ops s)
      (\<lambda>s. \<forall>a. sm_line (memory_bits - bb) bb a \<longrightarrow>
        exist bb s a = Some (m a \<noteq> None) \<and> sm_lookup bb s a = Some (m a))"
    by (rule succeeds_mono) (auto simp: sm_exist_eq sm_lookup_eq)
qed

lemma sparse_memory_is_map_witness:
  "succeeds (do { s \<leftarrow> new_SparseMemory 32 6 4;
        store_run (sm_add (\<lambda>e. e) 6) (sm_remove 6)
          [Add_Line 64 (7 :: nat), Add_Line 4096 9, Remove_Line 64] s })
    (\<lambda>s. sm_lookup 6 s 64 = Some None \<and> sm_lookup 6 s 4096 = Some (Some 9))"
proof -
  have l: "sm_line 26 6 64" "sm_line 26 6 4096"
    by (simp_all add: sm_line_def is_line_def line_address_def makeLineAddress_def maskLowOrderBits_def
        mask_eq_exp_minus_1)
  then have r: "map_run (sm_line (32 - 6) 6) (\<lambda>a e. e) [Add_Line 64 (7 :: nat), Add_Line 4096 9, Remove_Line 64]
      Map.empty = Some ((Map.empty(64 \<mapsto> 7, 4096 \<mapsto> 9))(64 := None))" by simp
  have "succeeds (do { s \<leftarrow> new_SparseMemory 32 6 4;
        store_run (sm_add (\<lambda>e. e) 6) (sm_remove 6) [Add_Line 64 (7 :: nat), Add_Line 4096 9, Remove_Line 64] s })
    (\<lambda>s. \<forall>a. sm_line (32 - 6) 6 a \<longrightarrow>
       exist 6 s a = Some (((Map.empty(64 \<mapsto> (7 :: nat), 4096 \<mapsto> 9))(64 := None)) a \<noteq> None)
       \<and> sm_lookup 6 s a = Some (((Map.empty(64 \<mapsto> 7, 4096 \<mapsto> 9))(64 := None)) a))"
    by (rule sparse_memory_is_map [OF _ _ _ _ _ r]) simp_all
  then show ?thesis by (rule succeeds_mono) (use l in simp)
qed

end
