(* ===== verification/Memory_Vector.thy ===== *)
theory Memory_Vector
  imports Ruby_Address
begin

text \<open>
  The simulated DRAM, \<^verbatim>\<open>src/Lab5/gem5/src/mem/ruby/system/MemoryVector.hh\<close>, and the data blocks of
  the controllers, \<^verbatim>\<open>DataBlock.hh\<close> and \<^verbatim>\<open>DataBlock.cc\<close> of \<^verbatim>\<open>src/Lab5/gem5/src/mem/ruby/common\<close>.
  Pages are allocated when a byte other than 0 is first written; a null page pointer is \<open>None\<close>.  A
  data block owns its bytes or points into a page of the DRAM (\<open>assign\<close>), so the operations on a
  block take the DRAM and return it.  \<open>bs\<close> is the block size in bytes.  The checkpoint functions
  write and read the host's little-endian 32-bit integers.
\<close>

section \<open>The DRAM\<close>

definition PAGE_SIZE :: nat where "PAGE_SIZE = 4096"

record MemoryVector =
  m_size :: UINT32
  m_pages :: "uint8 list option list"
  m_num_pages :: UINT32

definition new_MemoryVector :: MemoryVector where
  "new_MemoryVector = \<lparr> m_size = 0, m_pages = [], m_num_pages = 0 \<rparr>"

definition resize :: "MemoryVector \<Rightarrow> UINT32 \<Rightarrow> MemoryVector option" where
  "resize mv sz = do {
     assert_that (sz mod 4096 = 0);
     Some (mv\<lparr> m_size := sz, m_num_pages := drop_bit 12 sz,
       m_pages := replicate (unat (drop_bit 12 sz)) None \<rparr>)
   }"

definition page_num :: "addr \<Rightarrow> nat" where
  "page_num paddr = unat (ucast (drop_bit 12 paddr) :: UINT32)"

definition page_offset :: "addr \<Rightarrow> nat" where
  "page_offset paddr = unat (paddr AND 4095)"

definition mv_write :: "MemoryVector \<Rightarrow> addr \<Rightarrow> uint8 list \<Rightarrow> MemoryVector option" where
  "mv_write mv paddr data = do {
     assert_that (paddr + word_of_nat (length data) \<le> ucast (m_size mv));
     p \<leftarrow> rd (m_pages mv) (page_num paddr);
     case p of
       None \<Rightarrow>
         if list_all (\<lambda>b. b = 0) data then Some mv
         else do {
           page \<leftarrow> write_at (replicate PAGE_SIZE 0) (page_offset paddr) data;
           Some (mv\<lparr> m_pages := (m_pages mv)[page_num paddr := Some page] \<rparr>)
         }
     | Some page \<Rightarrow> do {
         page \<leftarrow> write_at page (page_offset paddr) data;
         Some (mv\<lparr> m_pages := (m_pages mv)[page_num paddr := Some page] \<rparr>)
       }
   }"

definition mv_read :: "MemoryVector \<Rightarrow> addr \<Rightarrow> nat \<Rightarrow> uint8 list option" where
  "mv_read mv paddr len = do {
     assert_that (paddr + word_of_nat len \<le> ucast (m_size mv));
     p \<leftarrow> rd (m_pages mv) (page_num paddr);
     case p of
       None \<Rightarrow> Some (replicate len 0)
     | Some page \<Rightarrow> read_at page (page_offset paddr) len
   }"

section \<open>Checkpoints\<close>

definition num_zero_pages :: "uint8 list option list \<Rightarrow> UINT32" where
  "num_zero_pages ps = word_of_nat (length (filter (\<lambda>p. p = None) ps))"

fun collate_loop :: "uint8 list option list \<Rightarrow> uint8 list \<Rightarrow> UINT32 \<Rightarrow> (uint8 list \<times> UINT32) option" where
  "collate_loop [] raw_data data_size = Some (raw_data, data_size)"
| "collate_loop (None # ps) raw_data data_size = do {
     raw_data \<leftarrow> wr raw_data (unat data_size) 0;
     collate_loop ps raw_data (data_size + 1)
   }"
| "collate_loop (Some page # ps) raw_data data_size = do {
     raw_data \<leftarrow> wr raw_data (unat data_size) 1;
     raw_data \<leftarrow> write_at raw_data (unat data_size + 1) page;
     collate_loop ps raw_data (data_size + 4096 + 1)
   }"

text \<open>The buffer is as long as \<^verbatim>\<open>new\<close> made it; the product is computed in 32 bits.\<close>

definition collatePages :: "MemoryVector \<Rightarrow> (uint8 list \<times> UINT32) option" where
  "collatePages mv = do {
     let raw_data = replicate (4 + unat (m_num_pages mv)
           + unat (4096 * (m_num_pages mv - num_zero_pages (m_pages mv)))) 0;
     raw_data \<leftarrow> write_at raw_data 0 (le32_bytes (m_num_pages mv));
     collate_loop (m_pages mv) raw_data 4
   }"

fun populate_loop :: "uint8 list option list \<Rightarrow> uint8 list \<Rightarrow> UINT32 \<Rightarrow> uint8 list option list option" where
  "populate_loop [] raw_data data_size = Some []"
| "populate_loop (p # ps) raw_data data_size = do {
     assert_that (p = None);
     b \<leftarrow> rd raw_data (unat data_size);
     if b \<noteq> 0 then do {
       page \<leftarrow> read_at raw_data (unat data_size + 1) PAGE_SIZE;
       ps \<leftarrow> populate_loop ps raw_data (data_size + 4096 + 1);
       Some (Some page # ps)
     } else do {
       ps \<leftarrow> populate_loop ps raw_data (data_size + 1);
       Some (p # ps)
     }
   }"

definition populatePages :: "MemoryVector \<Rightarrow> uint8 list \<Rightarrow> MemoryVector option" where
  "populatePages mv raw_data = do {
     h \<leftarrow> read_at raw_data 0 4;
     let num_pages = le32 h;
     assert_that (num_pages = m_num_pages mv);
     ps \<leftarrow> populate_loop (m_pages mv) raw_data 4;
     Some (mv\<lparr> m_pages := ps \<rparr>)
   }"

section \<open>Data blocks\<close>

text \<open>\<open>Ram p off\<close> is the address of byte \<open>off\<close> of page \<open>p\<close>.\<close>

datatype data_ptr = Own "uint8 list" | Ram nat nat

record DataBlock =
  m_data :: data_ptr
  m_alloc :: bool

fun ptr_read :: "MemoryVector \<Rightarrow> data_ptr \<Rightarrow> nat \<Rightarrow> nat \<Rightarrow> uint8 list option" where
  "ptr_read mv (Own b) off n = read_at b off n"
| "ptr_read mv (Ram p base) off n = do { q \<leftarrow> rd (m_pages mv) p; page \<leftarrow> q; read_at page (base + off) n }"

fun ptr_write :: "MemoryVector \<Rightarrow> data_ptr \<Rightarrow> nat \<Rightarrow> uint8 list \<Rightarrow> (data_ptr \<times> MemoryVector) option" where
  "ptr_write mv (Own b) off d = do { b \<leftarrow> write_at b off d; Some (Own b, mv) }"
| "ptr_write mv (Ram p base) off d = do {
     q \<leftarrow> rd (m_pages mv) p;
     page \<leftarrow> q;
     page \<leftarrow> write_at page (base + off) d;
     Some (Ram p base, mv\<lparr> m_pages := (m_pages mv)[p := Some page] \<rparr>)
   }"

definition getBlockPtr :: "MemoryVector \<Rightarrow> addr \<Rightarrow> (data_ptr \<times> MemoryVector) option" where
  "getBlockPtr mv paddr = do {
     p \<leftarrow> rd (m_pages mv) (page_num paddr);
     let mv' = (case p of
         None \<Rightarrow> mv\<lparr> m_pages := (m_pages mv)[page_num paddr := Some (replicate PAGE_SIZE 0)] \<rparr>
       | Some page \<Rightarrow> mv);
     Some (Ram (page_num paddr) (page_offset paddr), mv')
   }"

definition db_store :: "DataBlock \<Rightarrow> (data_ptr \<times> MemoryVector) option \<Rightarrow> (DataBlock \<times> MemoryVector) option" where
  "db_store d r = do { (p, mv) \<leftarrow> r; Some (d\<lparr> m_data := p \<rparr>, mv) }"

definition new_DataBlock :: "nat \<Rightarrow> DataBlock" where
  "new_DataBlock bs = \<lparr> m_data = Own (replicate bs 0), m_alloc = True \<rparr>"

definition copy_DataBlock :: "nat \<Rightarrow> MemoryVector \<Rightarrow> DataBlock \<Rightarrow> DataBlock option" where
  "copy_DataBlock bs mv cp = do {
     b \<leftarrow> ptr_read mv (m_data cp) 0 bs;
     Some \<lparr> m_data = Own b, m_alloc = True \<rparr>
   }"

definition db_assign :: "data_ptr \<Rightarrow> DataBlock \<Rightarrow> DataBlock" where
  "db_assign data d = d\<lparr> m_data := data, m_alloc := False \<rparr>"

definition db_clear :: "nat \<Rightarrow> MemoryVector \<Rightarrow> DataBlock \<Rightarrow> (DataBlock \<times> MemoryVector) option" where
  "db_clear bs mv d = db_store d (ptr_write mv (m_data d) 0 (replicate bs 0))"

definition db_equal :: "nat \<Rightarrow> MemoryVector \<Rightarrow> DataBlock \<Rightarrow> DataBlock \<Rightarrow> bool option" where
  "db_equal bs mv d e = do {
     a \<leftarrow> ptr_read mv (m_data d) 0 bs;
     b \<leftarrow> ptr_read mv (m_data e) 0 bs;
     Some (a = b)
   }"

definition db_getByte :: "MemoryVector \<Rightarrow> DataBlock \<Rightarrow> nat \<Rightarrow> uint8 option" where
  "db_getByte mv d whichByte = do { b \<leftarrow> ptr_read mv (m_data d) whichByte 1; rd b 0 }"

definition db_setByte :: "MemoryVector \<Rightarrow> DataBlock \<Rightarrow> nat \<Rightarrow> uint8 \<Rightarrow> (DataBlock \<times> MemoryVector) option" where
  "db_setByte mv d whichByte data = db_store d (ptr_write mv (m_data d) whichByte [data])"

definition db_getData :: "nat \<Rightarrow> MemoryVector \<Rightarrow> DataBlock \<Rightarrow> nat \<Rightarrow> nat \<Rightarrow> uint8 list option" where
  "db_getData bs mv d offset len = do {
     assert_that (offset + len \<le> bs);
     ptr_read mv (m_data d) offset len
   }"

definition db_setData ::
  "nat \<Rightarrow> MemoryVector \<Rightarrow> DataBlock \<Rightarrow> uint8 list \<Rightarrow> nat \<Rightarrow> (DataBlock \<times> MemoryVector) option" where
  "db_setData bs mv d data offset = do {
     assert_that (offset + length data \<le> bs);
     db_store d (ptr_write mv (m_data d) offset data)
   }"

definition db_copyPartial ::
  "nat \<Rightarrow> MemoryVector \<Rightarrow> DataBlock \<Rightarrow> DataBlock \<Rightarrow> nat \<Rightarrow> nat \<Rightarrow> (DataBlock \<times> MemoryVector) option" where
  "db_copyPartial bs mv d dblk offset len = do {
     data \<leftarrow> ptr_read mv (m_data dblk) offset len;
     db_setData bs mv d data offset
   }"

text \<open>The assignment operator; \<open>same\<close> says that both sides are the same object.\<close>

definition db_copy_from ::
  "nat \<Rightarrow> MemoryVector \<Rightarrow> bool \<Rightarrow> DataBlock \<Rightarrow> DataBlock \<Rightarrow> (DataBlock \<times> MemoryVector) option" where
  "db_copy_from bs mv same d obj =
     (if same then Some (d, mv)
      else do {
        data \<leftarrow> ptr_read mv (m_data obj) 0 bs;
        (p, mv) \<leftarrow> (if m_alloc d then ptr_write mv (m_data d) 0 data else Some (Own data, mv));
        Some (d\<lparr> m_data := p, m_alloc := True \<rparr>, mv)
      })"

section \<open>The DRAM is a flat array of bytes\<close>

definition page_bytes :: "uint8 list option \<Rightarrow> uint8 list" where
  "page_bytes p = (case p of None \<Rightarrow> replicate PAGE_SIZE 0 | Some page \<Rightarrow> page)"

definition contents :: "MemoryVector \<Rightarrow> uint8 list" where
  "contents mv = concat (map page_bytes (m_pages mv))"

definition pages_ok :: "uint8 list option list \<Rightarrow> bool" where
  "pages_ok ps = list_all (\<lambda>p. length (page_bytes p) = PAGE_SIZE) ps"

definition mv_inv :: "MemoryVector \<Rightarrow> bool" where
  "mv_inv mv = (length (m_pages mv) = unat (m_num_pages mv)
     \<and> unat (m_size mv) = PAGE_SIZE * unat (m_num_pages mv) \<and> pages_ok (m_pages mv))"

text \<open>An access of \<open>len\<close> bytes that ends inside the memory and inside its page.\<close>

definition in_page :: "MemoryVector \<Rightarrow> addr \<Rightarrow> nat \<Rightarrow> bool" where
  "in_page mv paddr len =
     (unat paddr + len \<le> unat (m_size mv) \<and> unat paddr mod PAGE_SIZE + len \<le> PAGE_SIZE \<and> 0 < len)"

lemma page_bytes_simps [simp]: "page_bytes None = replicate PAGE_SIZE 0" "page_bytes (Some p) = p"
  by (simp_all add: page_bytes_def)

lemma page_offset_mod: "page_offset paddr = unat paddr mod PAGE_SIZE"
proof -
  have "paddr AND 4095 = take_bit 12 paddr" by (simp add: take_bit_eq_mask mask_eq_exp_minus_1)
  then have "page_offset paddr = take_bit 12 (unat paddr)"
    by (simp only: page_offset_def unsigned_take_bit_eq)
  then show ?thesis by (simp add: PAGE_SIZE_def take_bit_eq_mod)
qed

lemma page_num_div:
  assumes "unat paddr < 2 ^ 44"
  shows "page_num paddr = unat paddr div PAGE_SIZE"
proof -
  have "unat (drop_bit 12 paddr) < 2 ^ 32" using assms by (simp add: unat_drop)
  then show ?thesis by (simp add: page_num_def PAGE_SIZE_def unsigned_ucast_eq unat_drop take_bit_eq_mod)
qed

lemma in_page_addr:
  assumes "mv_inv mv" "in_page mv paddr len"
  shows "paddr + word_of_nat len \<le> ucast (m_size mv)" "page_num paddr < length (m_pages mv)"
    "page_offset paddr + len \<le> PAGE_SIZE" "page_num paddr * PAGE_SIZE + page_offset paddr = unat paddr"
proof -
  have s: "unat (m_size mv) < 2 ^ 32" using unsigned_less [of "m_size mv"] by simp
  have l: "unat paddr + len \<le> unat (m_size mv)" "unat paddr mod PAGE_SIZE + len \<le> PAGE_SIZE" "0 < len"
    using assms(2) by (simp_all add: in_page_def)
  with s have "unat (paddr + word_of_nat len) = unat paddr + len"
    by (simp add: unat_word_ariths unat_of_nat)
  with l s show "paddr + word_of_nat len \<le> ucast (m_size mv)"
    by (simp add: word_le_nat_alt unsigned_ucast_eq take_bit_eq_mod)
  have p: "page_num paddr = unat paddr div PAGE_SIZE" using l s by (intro page_num_div) simp
  then show "page_num paddr < length (m_pages mv)"
    using l assms(1) by (simp add: mv_inv_def less_mult_imp_div_less mult.commute)
  show "page_offset paddr + len \<le> PAGE_SIZE" using l by (simp add: page_offset_mod)
  show "page_num paddr * PAGE_SIZE + page_offset paddr = unat paddr"
    by (simp add: p page_offset_mod)
qed

lemma page_parts:
  assumes "pages_ok (m_pages mv)" "i < length (m_pages mv)"
  shows "\<forall>p\<in>set (map page_bytes (m_pages mv)). length p = PAGE_SIZE"
    "map page_bytes (m_pages mv) ! i = page_bytes (m_pages mv ! i)"
    "length (page_bytes (m_pages mv ! i)) = PAGE_SIZE"
  using assms by (auto simp: pages_ok_def list_all_iff)

lemma page_upd_ok:
  assumes "mv_inv mv" "length page = PAGE_SIZE"
  shows "mv_inv (mv\<lparr> m_pages := (m_pages mv)[i := Some page] \<rparr>)"
  using assms by (auto simp: mv_inv_def pages_ok_def intro: list_all_upd)

lemma page_write_contents:
  assumes "pages_ok (m_pages mv)" "i < length (m_pages mv)" "off + length d \<le> PAGE_SIZE"
    "write_at (page_bytes (m_pages mv ! i)) off d = Some page"
  shows "write_at (contents mv) (i * PAGE_SIZE + off) d
      = Some (contents (mv\<lparr> m_pages := (m_pages mv)[i := Some page] \<rparr>))"
  using write_at_concat [of "map page_bytes (m_pages mv)" PAGE_SIZE i off d] page_parts [OF assms(1,2)] assms
  by (simp add: contents_def map_update write_at_def split: if_splits)

lemma mv_read_contents:
  assumes "mv_inv mv" "in_page mv paddr len"
  shows "mv_read mv paddr len = read_at (contents mv) (unat paddr) len"
proof -
  note a = in_page_addr [OF assms]
  have ok: "pages_ok (m_pages mv)" using assms(1) by (simp add: mv_inv_def)
  note q = page_parts [OF ok a(2)]
  have "read_at (contents mv) (unat paddr) len = read_at (page_bytes (m_pages mv ! page_num paddr)) (page_offset paddr) len"
    unfolding a(4) [symmetric] contents_def using q a(2,3) by (subst read_at_concat) simp_all
  then show ?thesis
    using a q(3) by (auto simp: mv_read_def rd_in read_at_def split: option.splits)
qed

lemma write_zeros: "list_all (\<lambda>b. b = 0) d \<Longrightarrow> off + length d \<le> n \<Longrightarrow>
  write_at (replicate n 0) off d = Some (replicate n (0 :: uint8))"
proof -
  assume a: "list_all (\<lambda>b. b = 0) d" "off + length d \<le> n"
  then have d: "d = replicate (length d) 0" by (intro replicate_eqI) (auto simp: list_all_iff)
  show ?thesis using a(2)
    by (subst d) (simp add: write_at_def min_def flip: replicate_add)
qed

lemma mv_write_contents:
  assumes "mv_inv mv" "in_page mv paddr (length data)"
  shows "succeeds (mv_write mv paddr data) (\<lambda>mv'. mv_inv mv' \<and> m_size mv' = m_size mv
    \<and> write_at (contents mv) (unat paddr) data = Some (contents mv'))"
proof -
  note a = in_page_addr [OF assms]
  have ok: "pages_ok (m_pages mv)" using assms(1) by (simp add: mv_inv_def)
  note q = page_parts [OF ok a(2)]
  let ?p = "m_pages mv ! page_num paddr"
  obtain page where page: "write_at (page_bytes ?p) (page_offset paddr) data = Some page" "length page = PAGE_SIZE"
    using a(3) q(3) write_at_length by (metis write_at_def)
  note w = page_write_contents [OF ok a(2,3) page(1), unfolded a(4)]
  show ?thesis
  proof (cases "?p = None \<and> list_all (\<lambda>b. b = 0) data")
    case True
    then have "page = page_bytes ?p" using page(1) a(3) write_zeros [of data "page_offset paddr" PAGE_SIZE] by simp
    then have "contents (mv\<lparr> m_pages := (m_pages mv)[page_num paddr := Some page] \<rparr>) = contents mv"
      using list_update_id [of "map page_bytes (m_pages mv)" "page_num paddr"] a(2)
      by (simp add: contents_def map_update)
    with True w assms(1) a show ?thesis by (simp add: mv_write_def rd_in)
  next
    case False
    with page a w page_upd_ok [OF assms(1) page(2)] show ?thesis
      by (cases ?p) (auto simp: mv_write_def rd_in)
  qed
qed

section \<open>Checkpoints restore the pages\<close>

definition enc_page :: "uint8 list option \<Rightarrow> uint8 list" where
  "enc_page p = (case p of None \<Rightarrow> [0] | Some page \<Rightarrow> 1 # page)"

lemma enc_page_simps [simp]: "enc_page None = [0]" "enc_page (Some page) = 1 # page"
  by (simp_all add: enc_page_def)

lemma write_at_append:
  "length d \<le> length xs \<Longrightarrow> write_at (pre @ xs) (length pre) d = Some (pre @ d @ drop (length d) xs)"
  by (simp add: write_at_def)

lemma collate_loop_enc:
  assumes "length (concat (map enc_page ps)) \<le> length xs" "length pre + length xs < 2 ^ 32"
    "pages_ok ps" "unat ds = length pre"
  shows "\<exists>ds'. collate_loop ps (pre @ xs) ds = Some (pre @ concat (map enc_page ps)
      @ drop (length (concat (map enc_page ps))) xs, ds')
    \<and> unat ds' = length pre + length (concat (map enc_page ps))"
  using assms
proof (induction ps arbitrary: pre xs ds)
  case (Cons p ps)
  have x: "length (enc_page p) + length (concat (map enc_page ps)) \<le> length xs" using Cons.prems(1) by simp
  then obtain y ys where xs: "xs = y # ys" by (cases xs; cases p) auto
  let ?pre = "pre @ enc_page p" and ?ds = "ds + word_of_nat (length (enc_page p))"
  have ds: "unat ?ds = length ?pre" using Cons.prems(2,4) x by (simp add: unat_word_ariths unat_of_nat)
  have l: "length (enc_page (Some q)) = 4097" if "p = Some q" for q
    using that Cons.prems(3) by (simp add: pages_ok_def PAGE_SIZE_def)
  have "collate_loop (p # ps) (pre @ xs) ds = collate_loop ps (?pre @ drop (length (enc_page p)) xs) ?ds"
  proof (cases p)
    case None
    then show ?thesis using Cons.prems(4) xs by (simp add: wr_in)
  next
    case (Some q)
    have "write_at (pre @ 1 # ys) (Suc (length pre)) q = Some (pre @ 1 # q @ drop (length q) ys)"
      using write_at_append [of q ys "pre @ [1]"] x xs Some by simp
    then show ?thesis using Cons.prems(4) xs l [OF Some] Some by (simp add: wr_in add.assoc)
  qed
  then show ?case
    using Cons.IH [of "drop (length (enc_page p)) xs" ?pre ?ds] Cons.prems(2,3) x ds
    by (simp add: pages_ok_def add.commute add.left_commute)
qed simp

lemma populate_loop_enc:
  assumes "unat ds = length pre" "length pre + length (concat (map enc_page ps)) < 2 ^ 32" "pages_ok ps"
  shows "populate_loop (replicate (length ps) None) (pre @ concat (map enc_page ps) @ post) ds = Some ps"
  using assms
proof (induction ps arbitrary: pre ds)
  case (Cons p ps)
  let ?pre = "pre @ enc_page p" and ?ds = "ds + word_of_nat (length (enc_page p))"
  have ds: "unat ?ds = length ?pre" using Cons.prems(1,2) by (simp add: unat_word_ariths unat_of_nat)
  have ih: "populate_loop (replicate (length ps) None) (pre @ enc_page p @ concat (map enc_page ps) @ post) ?ds = Some ps"
    using Cons.IH [OF ds] Cons.prems(2,3) by (simp add: pages_ok_def)
  show ?case
  proof (cases p)
    case None
    then show ?thesis using ih Cons.prems(1) by (simp add: rd_in nth_append)
  next
    case (Some q)
    then have "length q = PAGE_SIZE" using Cons.prems(3) by (simp add: pages_ok_def)
    then show ?thesis using ih Cons.prems(1) Some
      by (simp add: rd_in nth_append read_at_def PAGE_SIZE_def add.assoc)
  qed
qed simp

lemma length_enc:
  "pages_ok ps \<Longrightarrow> length (concat (map enc_page ps))
    = length ps + PAGE_SIZE * length (filter (\<lambda>p. p \<noteq> None) ps)"
  by (induction ps) (auto simp: pages_ok_def enc_page_def split: option.splits)

definition stored_pages :: "MemoryVector \<Rightarrow> nat" where
  "stored_pages mv = length (filter (\<lambda>p. p \<noteq> None) (m_pages mv))"

lemma collatePages_enc:
  assumes "mv_inv mv" "4 + length (m_pages mv) + PAGE_SIZE * stored_pages mv < 2 ^ 32"
  shows "\<exists>ds. collatePages mv
      = Some (le32_bytes (m_num_pages mv) @ concat (map enc_page (m_pages mv)), ds)
    \<and> unat ds = 4 + length (m_pages mv) + PAGE_SIZE * stored_pages mv"
proof -
  let ?n = "m_num_pages mv" and ?e = "concat (map enc_page (m_pages mv))"
  have n: "unat ?n = length (m_pages mv)" and ok: "pages_ok (m_pages mv)"
    using assms(1) by (simp_all add: mv_inv_def)
  have len: "length ?e = length (m_pages mv) + PAGE_SIZE * stored_pages mv"
    using length_enc [OF ok] by (simp add: stored_pages_def)
  have split: "length (filter (\<lambda>p. p = None) (m_pages mv)) + stored_pages mv = length (m_pages mv)"
    using sum_length_filter_compl [of "\<lambda>p. p = None" "m_pages mv"] by (simp add: stored_pages_def)
  have "word_of_nat (unat ?n) = ?n" by simp
  then have "?n = word_of_nat (length (m_pages mv))" unfolding n by simp
  then have "?n - num_zero_pages (m_pages mv) = word_of_nat (stored_pages mv)"
    unfolding num_zero_pages_def split [symmetric] by simp
  then have "unat (4096 * (?n - num_zero_pages (m_pages mv))) = PAGE_SIZE * stored_pages mv"
    using assms(2) by (simp add: unat_word_ariths unat_of_nat PAGE_SIZE_def)
  moreover have "write_at (replicate (4 + length ?e) 0) 0 (le32_bytes ?n)
      = Some (le32_bytes ?n @ replicate (length ?e) 0)"
    by (simp add: write_at_def)
  moreover obtain ds where "collate_loop (m_pages mv) (le32_bytes ?n @ replicate (length ?e) 0) 4
      = Some (le32_bytes ?n @ ?e, ds)" "unat ds = 4 + length ?e"
    using collate_loop_enc [of "m_pages mv" "replicate (length ?e) 0" "le32_bytes ?n" 4] ok assms(2) len by auto
  ultimately show ?thesis using n len by (simp add: collatePages_def Let_def add.assoc)
qed

lemma resize_ok:
  assumes "unat sz mod PAGE_SIZE = 0"
  shows "succeeds (resize mv sz) (\<lambda>mv. mv_inv mv \<and> m_size mv = sz \<and> m_num_pages mv = drop_bit 12 sz
    \<and> contents mv = replicate (unat sz) 0 \<and> m_pages mv = replicate (unat sz div PAGE_SIZE) None)"
proof -
  have "sz mod 4096 = 0" using assms by (simp add: PAGE_SIZE_def word_arith_nat_mod)
  moreover have "concat (replicate k (replicate n x)) = replicate (k * n) x" for k n and x :: uint8
    by (induction k) (simp_all add: replicate_add)
  ultimately show ?thesis using assms div_mult_mod_eq [of "unat sz" PAGE_SIZE]
    by (simp add: resize_def mv_inv_def pages_ok_def list_all_iff contents_def unat_drop PAGE_SIZE_def)
qed

section \<open>Data blocks in the DRAM\<close>

text \<open>Block \<open>d\<close> is the window of \<open>bs\<close> bytes of the DRAM at \<open>paddr\<close>.\<close>

definition db_window :: "nat \<Rightarrow> MemoryVector \<Rightarrow> addr \<Rightarrow> DataBlock \<Rightarrow> bool" where
  "db_window bs mv paddr d = (m_data d = Ram (page_num paddr) (page_offset paddr)
     \<and> m_pages mv ! page_num paddr \<noteq> None \<and> \<not> m_alloc d)"

lemma getBlockPtr_ok:
  assumes "mv_inv mv" "in_page mv paddr bs"
  shows "succeeds (getBlockPtr mv paddr) (\<lambda>(p, mv'). mv_inv mv' \<and> m_size mv' = m_size mv
    \<and> contents mv' = contents mv \<and> db_window bs mv' paddr (db_assign p d))"
proof (cases "m_pages mv ! page_num paddr")
  case None
  note a = in_page_addr [OF assms]
  let ?mv = "mv\<lparr> m_pages := (m_pages mv)[page_num paddr := Some (replicate PAGE_SIZE 0)] \<rparr>"
  have "contents ?mv = contents mv"
    using list_update_id [of "map page_bytes (m_pages mv)" "page_num paddr"] a(2) None
    by (simp add: contents_def map_update)
  then show ?thesis using None a(2) page_upd_ok [OF assms(1), of "replicate PAGE_SIZE 0"]
    by (simp add: getBlockPtr_def rd_in db_window_def db_assign_def)
next
  case (Some page)
  then show ?thesis using in_page_addr(2) [OF assms] assms(1)
    by (simp add: getBlockPtr_def rd_in db_window_def db_assign_def)
qed

lemma db_window_get:
  assumes "mv_inv mv" "in_page mv paddr bs" "db_window bs mv paddr d" "off + len \<le> bs"
  shows "db_getData bs mv d off len = read_at (contents mv) (unat paddr + off) len"
proof -
  note a = in_page_addr [OF assms(1,2)]
  have ok: "pages_ok (m_pages mv)" using assms(1) by (simp add: mv_inv_def)
  note q = page_parts [OF ok a(2)]
  obtain page where p: "m_pages mv ! page_num paddr = Some page" using assms(3) by (auto simp: db_window_def)
  have "read_at (contents mv) (page_num paddr * PAGE_SIZE + (page_offset paddr + off)) len
      = read_at page (page_offset paddr + off) len"
    unfolding contents_def using q a(2,3) assms(4) p by (subst read_at_concat) simp_all
  then show ?thesis using a assms(3,4) p
    by (simp add: db_getData_def db_window_def rd_in flip: add.assoc)
qed

lemma db_window_set:
  assumes "mv_inv mv" "in_page mv paddr bs" "db_window bs mv paddr d" "off + length data \<le> bs"
  shows "succeeds (db_setData bs mv d data off) (\<lambda>(d', mv'). d' = d \<and> mv_inv mv' \<and> m_size mv' = m_size mv
    \<and> db_window bs mv' paddr d' \<and> write_at (contents mv) (unat paddr + off) data = Some (contents mv'))"
proof -
  note a = in_page_addr [OF assms(1,2)]
  have ok: "pages_ok (m_pages mv)" using assms(1) by (simp add: mv_inv_def)
  note q = page_parts [OF ok a(2)]
  obtain page where p: "m_pages mv ! page_num paddr = Some page" using assms(3) by (auto simp: db_window_def)
  obtain page' where w: "write_at page (page_offset paddr + off) data = Some page'" "length page' = PAGE_SIZE"
    using a(3) q(3) p assms(4) by (simp add: write_at_def)
  have "write_at (contents mv) (page_num paddr * PAGE_SIZE + (page_offset paddr + off)) data
      = Some (contents (mv\<lparr> m_pages := (m_pages mv)[page_num paddr := Some page'] \<rparr>))"
    using a(3) assms(4) w(1) p by (intro page_write_contents [OF ok a(2)]) simp_all
  then show ?thesis using a assms(3,4) p w page_upd_ok [OF assms(1) w(2), of "page_num paddr"]
    by (cases d) (simp add: db_setData_def db_store_def db_window_def rd_in flip: add.assoc)
qed

section \<open>Properties\<close>

text \<open>C36: The DRAM is a flat array of bytes. On a memory that satisfies its invariant and for an
  access that ends inside the memory and does not cross a page, \<open>read\<close> returns the bytes of the
  array at that address, and \<open>write\<close> succeeds and changes the array exactly as a copy of the data to
  that address; pages that are not yet allocated read as zeros and a write of zeros to one of
  them changes nothing, so when a page is allocated cannot be observed.\<close>

theorem memory_is_flat:
  assumes "mv_inv mv" "in_page mv paddr (length data)"
  shows "mv_read mv paddr (length data) = read_at (contents mv) (unat paddr) (length data)
    \<and> succeeds (mv_write mv paddr data) (\<lambda>mv'. mv_inv mv' \<and> m_size mv' = m_size mv
        \<and> write_at (contents mv) (unat paddr) data = Some (contents mv')
        \<and> mv_read mv' paddr (length data) = Some data)"
proof
  show "mv_read mv paddr (length data) = read_at (contents mv) (unat paddr) (length data)"
    by (rule mv_read_contents [OF assms])
  show "succeeds (mv_write mv paddr data) (\<lambda>mv'. mv_inv mv' \<and> m_size mv' = m_size mv
        \<and> write_at (contents mv) (unat paddr) data = Some (contents mv')
        \<and> mv_read mv' paddr (length data) = Some data)"
  proof (rule succeeds_mono [OF mv_write_contents [OF assms]], elim conjE, intro conjI)
    fix mv' assume mv': "mv_inv mv'" "m_size mv' = m_size mv"
      "write_at (contents mv) (unat paddr) data = Some (contents mv')"
    have "in_page mv' paddr (length data)" using assms(2) mv'(2) by (simp add: in_page_def)
    from mv_read_contents [OF mv'(1) this] read_write_at [OF mv'(3)]
    show "mv_read mv' paddr (length data) = Some data" by simp
  qed
qed

definition small_memory :: MemoryVector where
  "small_memory = \<lparr> m_size = 8192, m_pages = [None, None], m_num_pages = 2 \<rparr>"

lemma small_memory_inv: "mv_inv small_memory" "in_page small_memory 0x1FF0 (length [1 :: uint8, 2])"
  by (simp_all add: mv_inv_def small_memory_def pages_ok_def in_page_def PAGE_SIZE_def)

theorem memory_is_flat_witness:
  "succeeds (mv_write small_memory 0x1FF0 [1, 2]) (\<lambda>mv'. mv_read mv' 0x1FF0 2 = Some [1, 2])"
  by (rule succeeds_mono [OF conjunct2 [OF memory_is_flat [OF small_memory_inv]]]) (simp add: numeral_2_eq_2)

text \<open>C37: A checkpoint restores the memory. When the collated size fits the 32-bit counter of
  \<open>collatePages\<close>, it returns the size and a buffer that \<open>populatePages\<close>, on a freshly resized memory
  of the same size, turns back into a memory with exactly the same pages.\<close>

theorem checkpoint_roundtrip:
  assumes "mv_inv mv" "4 + length (m_pages mv) + PAGE_SIZE * stored_pages mv < 2 ^ 32"
  shows "succeeds (collatePages mv) (\<lambda>(raw_data, data_size). length raw_data = unat data_size
    \<and> succeeds (resize new_MemoryVector (m_size mv)) (\<lambda>mv0. populatePages mv0 raw_data = Some mv))"
proof -
  let ?h = "le32_bytes (m_num_pages mv)" and ?e = "concat (map enc_page (m_pages mv))"
  have n: "unat (m_num_pages mv) = length (m_pages mv)" and ok: "pages_ok (m_pages mv)"
    and sz: "unat (m_size mv) = PAGE_SIZE * length (m_pages mv)"
    using assms(1) by (simp_all add: mv_inv_def)
  have len: "length ?e = length (m_pages mv) + PAGE_SIZE * stored_pages mv"
    using length_enc [OF ok] by (simp add: stored_pages_def)
  have np: "drop_bit 12 (m_size mv) = m_num_pages mv"
    using sz n by (simp add: word_unat_eq_iff unat_drop PAGE_SIZE_def)
  have p: "populate_loop (replicate (length (m_pages mv)) None) (?h @ ?e) 4 = Some (m_pages mv)"
    using populate_loop_enc [of 4 ?h "m_pages mv" "[]"] ok len assms(2) by simp
  have "succeeds (resize new_MemoryVector (m_size mv)) (\<lambda>mv0. populatePages mv0 (?h @ ?e) = Some mv)"
    by (rule succeeds_mono [OF resize_ok])
      (use sz np p in \<open>auto simp: populatePages_def read_at_def PAGE_SIZE_def\<close>)
  then show ?thesis using collatePages_enc [OF assms] len by auto
qed

theorem checkpoint_roundtrip_witness:
  "succeeds (collatePages small_memory) (\<lambda>(raw_data, data_size). length raw_data = unat data_size
    \<and> succeeds (resize new_MemoryVector 8192) (\<lambda>mv0. populatePages mv0 raw_data = Some small_memory))"
  using checkpoint_roundtrip [OF small_memory_inv(1)]
  by (simp add: stored_pages_def small_memory_def PAGE_SIZE_def)

text \<open>C38: A block that was assigned the DRAM pointer of an address is a window of the DRAM:
  \<open>getBlockPtr\<close> does not change the contents, reading the block reads the DRAM at that address,
  and \<open>setData\<close> on the block is a write to the DRAM. Copying into the block with the assignment
  operator breaks this: it gives the block its own bytes and leaves the DRAM as it is, so from
  then on the two can differ.\<close>

theorem block_aliases_memory:
  assumes "mv_inv mv" "in_page mv paddr bs" "off + length data \<le> bs"
  shows "succeeds (getBlockPtr mv paddr) (\<lambda>(p, mv1). contents mv1 = contents mv
    \<and> db_getData bs mv1 (db_assign p d) off (length data) = read_at (contents mv) (unat paddr + off) (length data)
    \<and> succeeds (db_setData bs mv1 (db_assign p d) data off) (\<lambda>(d', mv2).
        write_at (contents mv) (unat paddr + off) data = Some (contents mv2)
        \<and> db_getData bs mv2 d' off (length data) = Some data
        \<and> (\<forall>b. length b = bs \<longrightarrow> db_copy_from bs mv2 False d' \<lparr> m_data = Own b, m_alloc = True \<rparr>
            = Some (\<lparr> m_data = Own b, m_alloc = True \<rparr>, mv2))))"
proof (rule succeeds_mono2 [OF getBlockPtr_ok [OF assms(1,2), of d]], elim conjE)
  fix p mv1 assume a: "mv_inv mv1" "m_size mv1 = m_size mv" "contents mv1 = contents mv"
    "db_window bs mv1 paddr (db_assign p d)"
  have i: "in_page mv1 paddr bs" using assms(2) a(2) by (simp add: in_page_def)
  have s: "succeeds (db_setData bs mv1 (db_assign p d) data off) (\<lambda>(d', mv2).
        write_at (contents mv) (unat paddr + off) data = Some (contents mv2)
        \<and> db_getData bs mv2 d' off (length data) = Some data
        \<and> (\<forall>b. length b = bs \<longrightarrow> db_copy_from bs mv2 False d' \<lparr> m_data = Own b, m_alloc = True \<rparr>
            = Some (\<lparr> m_data = Own b, m_alloc = True \<rparr>, mv2)))"
  proof (rule succeeds_mono2 [OF db_window_set [OF a(1) i a(4) assms(3)]], elim conjE, intro conjI allI impI)
    fix d' mv2 assume d': "d' = db_assign p d" and b: "mv_inv mv2" "m_size mv2 = m_size mv1" "db_window bs mv2 paddr d'"
      "write_at (contents mv1) (unat paddr + off) data = Some (contents mv2)"
    have i2: "in_page mv2 paddr bs" using i b(2) by (simp add: in_page_def)
    show "write_at (contents mv) (unat paddr + off) data = Some (contents mv2)" using b(4) a(3) by simp
    show "db_getData bs mv2 d' off (length data) = Some data"
      using db_window_get [OF b(1) i2 b(3) assms(3)] read_write_at [OF b(4)] by simp
    fix c :: "uint8 list" assume "length c = bs"
    then show "db_copy_from bs mv2 False d' \<lparr> m_data = Own c, m_alloc = True \<rparr>
        = Some (\<lparr> m_data = Own c, m_alloc = True \<rparr>, mv2)"
      by (simp add: d' db_copy_from_def db_assign_def read_at_def)
  qed
  show "contents mv1 = contents mv
    \<and> db_getData bs mv1 (db_assign p d) off (length data) = read_at (contents mv) (unat paddr + off) (length data)
    \<and> succeeds (db_setData bs mv1 (db_assign p d) data off) (\<lambda>(d', mv2).
        write_at (contents mv) (unat paddr + off) data = Some (contents mv2)
        \<and> db_getData bs mv2 d' off (length data) = Some data
        \<and> (\<forall>b. length b = bs \<longrightarrow> db_copy_from bs mv2 False d' \<lparr> m_data = Own b, m_alloc = True \<rparr>
            = Some (\<lparr> m_data = Own b, m_alloc = True \<rparr>, mv2)))"
    using a(3) s db_window_get [OF a(1) i a(4) assms(3)] by simp
qed

theorem block_aliases_memory_witness:
  "succeeds (getBlockPtr small_memory 0x40) (\<lambda>(p, mv1).
     succeeds (db_setData 64 mv1 (db_assign p (new_DataBlock 64)) [7] 3) (\<lambda>(d, mv2).
       db_getData 64 mv2 d 3 1 = Some [7]))"
proof -
  have "in_page small_memory 0x40 64" by (simp add: in_page_def small_memory_def PAGE_SIZE_def)
  from block_aliases_memory [OF small_memory_inv(1) this, of 3 "[7]" "new_DataBlock 64"]
  show ?thesis by (auto elim!: succeeds_mono)
qed

end
