(* ===== verification/Directory_Memory.thy ===== *)
theory Directory_Memory
  imports Sparse_Memory Memory_Vector
begin

text \<open>
  The directories of the memory controllers, \<^verbatim>\<open>src/Lab5/gem5/src/mem/ruby/system/DirectoryMemory.cc\<close>.
  The static members are the record \<open>dir_globals\<close>.  \<open>bb\<close> is the logarithm of the block size and
  \<open>memory_bits\<close> the logarithm of the memory size of \<^verbatim>\<open>RubySystem\<close>.  An entry is its data block and
  its permission.  Without a map the directory is an array of entry pointers, \<open>None\<close> the null
  pointer, and \<open>allocate\<close> lets the entry's block point into the DRAM.
\<close>

record dir_entry =
  DataBlk :: DataBlock
  permission :: AccessPermission

record dir_globals =
  m_num_directories :: UINT32
  m_num_directories_bits :: nat
  m_total_size_bytes :: UINT64
  m_numa_high_bit :: int

record DirectoryMemory =
  m_version :: int
  m_size_bytes :: UINT64
  m_size_bits :: nat
  m_num_entries :: UINT64
  m_use_map :: bool
  m_map_levels :: nat
  m_entries :: "dir_entry option list"
  m_sparseMemory :: "dir_entry SparseMemory option"

definition dir_globals0 :: dir_globals where
  "dir_globals0 = \<lparr> m_num_directories = 0, m_num_directories_bits = 0, m_total_size_bytes = 0,
     m_numa_high_bit = 0 \<rparr>"

definition new_DirectoryMemory ::
  "int \<Rightarrow> UINT64 \<Rightarrow> bool \<Rightarrow> nat \<Rightarrow> int \<Rightarrow> dir_globals \<Rightarrow> (DirectoryMemory \<times> dir_globals) option" where
  "new_DirectoryMemory version sz use_map map_levels numa_high_bit g = do {
     size_bits \<leftarrow> floorLog2_64 sz;
     Some (\<lparr> m_version = version, m_size_bytes = sz, m_size_bits = size_bits, m_num_entries = 0,
        m_use_map = use_map, m_map_levels = map_levels, m_entries = [], m_sparseMemory = None \<rparr>,
       g\<lparr> m_numa_high_bit := numa_high_bit \<rparr>)
   }"

definition dm_init :: "nat \<Rightarrow> nat \<Rightarrow> DirectoryMemory \<Rightarrow> dir_globals \<Rightarrow> (DirectoryMemory \<times> dir_globals) option" where
  "dm_init memory_bits bb d g = do {
     let n = m_size_bytes d div 2 ^ bb;
     let d = d\<lparr> m_num_entries := n \<rparr>;
     d \<leftarrow> (if m_use_map d then do {
              s \<leftarrow> new_SparseMemory memory_bits bb (m_map_levels d);
              Some (d\<lparr> m_sparseMemory := Some s \<rparr>)
            } else Some (d\<lparr> m_entries := replicate (unat n) None \<rparr>));
     let g = g\<lparr> m_num_directories := m_num_directories g + 1 \<rparr>;
     bits \<leftarrow> floorLog2_32 (m_num_directories g);
     let g = g\<lparr> m_num_directories_bits := bits,
                m_total_size_bytes := m_total_size_bytes g + m_size_bytes d \<rparr>;
     let g = (if m_numa_high_bit g = 0 then g\<lparr> m_numa_high_bit := int memory_bits - 1 \<rparr> else g);
     assert_that (m_numa_high_bit g \<noteq> 0);
     Some (d, g)
   }"

text \<open>A negative bit position is a shift that C++ leaves undefined.\<close>

definition bit_pos :: "int \<Rightarrow> nat option" where
  "bit_pos i = (if 0 \<le> i then Some (nat i) else None)"

definition mapAddressToDirectoryVersion :: "dir_globals \<Rightarrow> addr \<Rightarrow> UINT64 option" where
  "mapAddressToDirectoryVersion g address =
     (if m_num_directories_bits g = 0 then Some 0
      else do {
        small \<leftarrow> bit_pos (m_numa_high_bit g - int (m_num_directories_bits g) + 1);
        big \<leftarrow> bit_pos (m_numa_high_bit g);
        bitSelect address small big
      })"

definition dm_isPresent :: "dir_globals \<Rightarrow> DirectoryMemory \<Rightarrow> addr \<Rightarrow> bool option" where
  "dm_isPresent g d address = do {
     v \<leftarrow> mapAddressToDirectoryVersion g address;
     Some (v = word_of_int (m_version d))
   }"

definition mapAddressToLocalIdx :: "nat \<Rightarrow> dir_globals \<Rightarrow> addr \<Rightarrow> UINT64 option" where
  "mapAddressToLocalIdx bb g address = do {
     ret \<leftarrow> (if 0 < m_num_directories_bits g then do {
              small \<leftarrow> bit_pos (m_numa_high_bit g - int (m_num_directories_bits g) + 1);
              big \<leftarrow> bit_pos (m_numa_high_bit g);
              bitRemove address small big
            } else Some address);
     shr ret bb
   }"

definition dm_lookup :: "nat \<Rightarrow> dir_globals \<Rightarrow> DirectoryMemory \<Rightarrow> addr \<Rightarrow> dir_entry option option" where
  "dm_lookup bb g d address = do {
     present \<leftarrow> dm_isPresent g d address;
     assert_that present;
     if m_use_map d then do {
       s \<leftarrow> m_sparseMemory d;
       sm_lookup bb s address
     } else do {
       idx \<leftarrow> mapAddressToLocalIdx bb g address;
       assert_that (idx < m_num_entries d);
       rd (m_entries d) (unat idx)
     }
   }"

text \<open>The entry is passed and stored by reference: what \<open>add\<close> clears and \<open>allocate\<close> changes in it is
  changed in the stored entry.  The entry that is returned is the one that is stored.\<close>

definition dm_allocate :: "nat \<Rightarrow> dir_globals \<Rightarrow> MemoryVector \<Rightarrow> DirectoryMemory \<Rightarrow> addr \<Rightarrow> dir_entry
    \<Rightarrow> (dir_entry \<times> DirectoryMemory \<times> MemoryVector) option" where
  "dm_allocate bb g ram d address entry = do {
     present \<leftarrow> dm_isPresent g d address;
     assert_that present;
     if m_use_map d then do {
       s \<leftarrow> m_sparseMemory d;
       (blk, ram) \<leftarrow> db_clear (2 ^ bb) ram (DataBlk entry);
       let entry = entry\<lparr> DataBlk := blk, permission := Read_Write \<rparr>;
       s \<leftarrow> sm_add (\<lambda>e. e) bb s address entry;
       Some (entry, d\<lparr> m_sparseMemory := Some s \<rparr>, ram)
     } else do {
       idx \<leftarrow> mapAddressToLocalIdx bb g address;
       assert_that (idx < m_num_entries d);
       (p, ram) \<leftarrow> getBlockPtr ram address;
       let entry = entry\<lparr> DataBlk := db_assign p (DataBlk entry), permission := Read_Only \<rparr>;
       es \<leftarrow> wr (m_entries d) (unat idx) (Some entry);
       Some (entry, d\<lparr> m_entries := es \<rparr>, ram)
     }
   }"

definition dm_invalidateBlock :: "nat \<Rightarrow> DirectoryMemory \<Rightarrow> addr \<Rightarrow> DirectoryMemory option" where
  "dm_invalidateBlock bb d address =
     (if m_use_map d then do {
        s \<leftarrow> m_sparseMemory d;
        b \<leftarrow> exist bb s address;
        assert_that b;
        s \<leftarrow> sm_remove bb s address;
        Some (d\<lparr> m_sparseMemory := Some s \<rparr>)
      } else Some d)"

section \<open>The address interleaving\<close>

text \<open>The selection bits lie above the block offset and inside the memory.\<close>

definition numa_ok :: "nat \<Rightarrow> nat \<Rightarrow> dir_globals \<Rightarrow> bool" where
  "numa_ok memory_bits bb g = (let k = int (m_num_directories_bits g); h = m_numa_high_bit g in
     bb < 63 \<and> memory_bits \<le> 63 \<and>
     (0 < k \<longrightarrow> int bb \<le> h - k + 1 \<and> 0 < h - k + 1 \<and> h < int memory_bits))"

text \<open>Both halves of an address, bit by bit, when there are selection bits.\<close>

lemma dir_split_bits:
  assumes "numa_ok memory_bits bb g" "0 < m_num_directories_bits g"
  defines "k \<equiv> m_num_directories_bits g" and "s \<equiv> nat (m_numa_high_bit g) + 1 - m_num_directories_bits g"
  shows "\<exists>v r. mapAddressToDirectoryVersion g a = Some v \<and> mapAddressToLocalIdx bb g a = Some r
    \<and> (\<forall>n. bit v n = (n < k \<and> bit a (s + n)))
    \<and> (\<forall>n. bit r n = bit a (if n + bb < s then n + bb else n + bb + k))
    \<and> bb \<le> s \<and> s + k \<le> memory_bits"
proof -
  have h: "int bb \<le> m_numa_high_bit g - int k + 1" "0 < m_numa_high_bit g - int k + 1"
    "m_numa_high_bit g < int memory_bits" "bb < 63" "memory_bits \<le> 63"
    using assms(1,2) by (auto simp: numa_ok_def k_def Let_def)
  define big where "big = nat (m_numa_high_bit g)"
  have b: "m_numa_high_bit g = int big" "big < memory_bits" "s = big + 1 - k" "k \<le> big" "bb \<le> s" "0 < s"
    using h by (auto simp: big_def s_def k_def)
  have p: "bit_pos (m_numa_high_bit g - int k + 1) = Some s" "bit_pos (m_numa_high_bit g) = Some big"
    using b by (simp_all add: bit_pos_def nat_diff_distrib' of_nat_diff Suc_diff_le)
  have s: "s \<le> big" "s < 64" "big < 63" "0 < s" "big + 1 - s = k" "big - s < k"
    using b h(5) assms(2) by (auto simp: k_def)
  obtain v where v: "bitSelect a s big = Some v" "\<forall>n. bit v n = (n \<le> big - s \<and> bit a (s + n))"
    using bitSelect_bits [OF s(1,2)] by blast
  obtain r where r: "bitRemove a s big = Some r" "\<forall>n. bit r n = bit a (if n < s then n else n + (big + 1 - s))"
    using bitRemove_bits [OF s(4,1,3)] by blast
  have "\<forall>n. bit (drop_bit bb r) n = bit a (if n + bb < s then n + bb else n + bb + k)"
    using r(2) s(5) by (auto simp: bit_drop_bit_eq add.commute)
  moreover have "\<forall>n. (n \<le> big - s) = (n < k)" using s by auto
  ultimately show ?thesis using v r(1) p b s h(4) assms(2)
    by (auto simp: mapAddressToDirectoryVersion_def mapAddressToLocalIdx_def shr_def k_def)
qed

lemma bits_less: "(\<And>n. k \<le> n \<Longrightarrow> \<not> bit a n) \<Longrightarrow> unat a < 2 ^ k" for a :: "'a::len word"
proof -
  assume "\<And>n. k \<le> n \<Longrightarrow> \<not> bit a n"
  then have "take_bit k a = a" 
    by (intro bit_word_eqI) (metis bit_take_bit_iff not_le)
  then show ?thesis by (metis unsigned_take_bit_eq take_bit_nat_less_exp)
qed

lemma dir_map_ok:
  assumes "numa_ok memory_bits bb g"
  shows "\<exists>v r. mapAddressToDirectoryVersion g a = Some v \<and> mapAddressToLocalIdx bb g a = Some r
    \<and> unat v < 2 ^ m_num_directories_bits g
    \<and> (unat a < 2 ^ memory_bits \<longrightarrow> unat r < 2 ^ (memory_bits - m_num_directories_bits g - bb))"
proof (cases "m_num_directories_bits g = 0")
  case True
  have "bb < 63" using assms by (simp add: numa_ok_def Let_def)
  moreover have "unat a < 2 ^ memory_bits \<longrightarrow> unat (drop_bit bb a) < 2 ^ (memory_bits - bb)"
    using high_bits_zero [of a memory_bits] by (intro impI bits_less) (simp add: bit_drop_bit_eq)
  ultimately show ?thesis using True
    by (simp add: mapAddressToDirectoryVersion_def mapAddressToLocalIdx_def shr_def)
next
  case False
  let ?k = "m_num_directories_bits g" and ?s = "nat (m_numa_high_bit g) + 1 - m_num_directories_bits g"
  obtain v r where v: "mapAddressToDirectoryVersion g a = Some v" "\<forall>n. bit v n = (n < ?k \<and> bit a (?s + n))"
    and r: "mapAddressToLocalIdx bb g a = Some r"
      "\<forall>n. bit r n = bit a (if n + bb < ?s then n + bb else n + bb + ?k)"
    and s: "bb \<le> ?s" "?s + ?k \<le> memory_bits"
    using dir_split_bits [OF assms, of a] False by auto
  have "unat v < 2 ^ ?k" using v(2) by (intro bits_less) simp
  moreover have "unat r < 2 ^ (memory_bits - ?k - bb)" if "unat a < 2 ^ memory_bits"
  proof (rule bits_less)
    fix n assume "memory_bits - ?k - bb \<le> n"
    then have "\<not> n + bb < ?s" "memory_bits \<le> n + bb + ?k" using s by auto
    then show "\<not> bit r n" using r(2) high_bits_zero [OF that] by simp
  qed
  ultimately show ?thesis using v(1) r(1) by simp
qed

lemma dir_map_inj:
  assumes "numa_ok memory_bits bb g"
    "mapAddressToDirectoryVersion g a = mapAddressToDirectoryVersion g b"
    "mapAddressToLocalIdx bb g a = mapAddressToLocalIdx bb g b"
  shows "line_address bb a = line_address bb b"
proof (rule bit_word_eqI)
  fix n assume "n < LENGTH(64)"
  have bb: "bb < 63" using assms(1) by (simp add: numa_ok_def Let_def)
  have "bit a n = bit b n" if n: "bb \<le> n"
  proof (cases "m_num_directories_bits g = 0")
    case True
    then have "drop_bit bb a = drop_bit bb b" using assms(3) bb by (simp add: mapAddressToLocalIdx_def shr_def)
    then have "bit (drop_bit bb a) (n - bb) = bit (drop_bit bb b) (n - bb)" by simp
    then show ?thesis using n by (simp add: bit_drop_bit_eq)
  next
    case False
    let ?k = "m_num_directories_bits g" and ?s = "nat (m_numa_high_bit g) + 1 - m_num_directories_bits g"
    obtain v r :: UINT64 where e:
      "\<forall>n. bit v n = (n < ?k \<and> bit a (?s + n))" "\<forall>n. bit v n = (n < ?k \<and> bit b (?s + n))"
      "\<forall>n. bit r n = bit a (if n + bb < ?s then n + bb else n + bb + ?k)"
      "\<forall>n. bit r n = bit b (if n + bb < ?s then n + bb else n + bb + ?k)" "bb \<le> ?s"
      using dir_split_bits [OF assms(1), of a] dir_split_bits [OF assms(1), of b] False assms(2,3) by auto
    consider "n < ?s" | "?s \<le> n" "n < ?s + ?k" | "?s + ?k \<le> n" by linarith
    then show ?thesis
    proof cases
      case 1
      then show ?thesis using spec [OF e(3), of "n - bb"] spec [OF e(4), of "n - bb"] n by simp
    next
      case 2
      then have "n - ?s < ?k" "?s + (n - ?s) = n" by linarith+
      then show ?thesis using spec [OF e(1), of "n - ?s"] spec [OF e(2), of "n - ?s"] by simp
    next
      case 3
      then have "\<not> n - bb - ?k + bb < ?s" "n - bb - ?k + bb + ?k = n" using e(5) by linarith+
      then show ?thesis using spec [OF e(3), of "n - bb - ?k"] spec [OF e(4), of "n - bb - ?k"] by simp
    qed
  qed
  then show "bit (line_address bb a) n = bit (line_address bb b) n"
    using bb by (auto simp: bit_line_address)
qed

section \<open>The directory as a table of lines\<close>

text \<open>A directory without a map: one slot per line of its share of the memory.\<close>

definition dm_inv :: "nat \<Rightarrow> nat \<Rightarrow> dir_globals \<Rightarrow> DirectoryMemory \<Rightarrow> bool" where
  "dm_inv memory_bits bb g d = (numa_ok memory_bits bb g \<and> \<not> m_use_map d
     \<and> m_num_directories_bits g + bb \<le> memory_bits
     \<and> unat (m_num_entries d) = 2 ^ (memory_bits - m_num_directories_bits g - bb)
     \<and> length (m_entries d) = unat (m_num_entries d))"

definition dm_line :: "nat \<Rightarrow> dir_globals \<Rightarrow> DirectoryMemory \<Rightarrow> addr \<Rightarrow> bool" where
  "dm_line memory_bits g d a = (unat a < 2 ^ memory_bits \<and> dm_isPresent g d a = Some True)"

lemma dm_line_idx:
  assumes "dm_inv memory_bits bb g d" "dm_line memory_bits g d a"
  shows "\<exists>r. mapAddressToLocalIdx bb g a = Some r \<and> r < m_num_entries d \<and> unat r < length (m_entries d)"
  using dir_map_ok [of memory_bits bb g a] assms by (auto simp: dm_inv_def dm_line_def word_less_nat_alt)

lemma dm_lookup_entry:
  assumes "dm_inv memory_bits bb g d" "dm_line memory_bits g d a" "mapAddressToLocalIdx bb g a = Some r"
  shows "dm_lookup bb g d a = Some (m_entries d ! unat r)"
  using dm_line_idx [OF assms(1,2)] assms by (auto simp: dm_lookup_def dm_line_def dm_inv_def rd_in)

lemma dm_line_version:
  assumes "dm_line memory_bits g d a"
  shows "mapAddressToDirectoryVersion g a = Some (word_of_int (m_version d))"
  using assms by (auto simp: dm_line_def dm_isPresent_def bind_eq_Some_conv)

section \<open>Properties\<close>

text \<open>C39: The directories share the memory without overlap. With \<open>2 ^ k\<close> directories and the
  selection bits above the block offset, every address belongs to exactly one version below
  \<open>2 ^ k\<close>; its local index is defined and lies inside that directory's array; and two addresses with
  the same version and the same local index are in the same line. So no two lines share a slot.\<close>

theorem directories_partition:
  assumes "numa_ok memory_bits bb g" "unat a < 2 ^ memory_bits"
  shows "\<exists>v r. mapAddressToDirectoryVersion g a = Some v \<and> mapAddressToLocalIdx bb g a = Some r
    \<and> unat v < 2 ^ m_num_directories_bits g
    \<and> unat r < 2 ^ (memory_bits - m_num_directories_bits g - bb)
    \<and> (\<forall>d. dm_isPresent g d a = Some (v = word_of_int (m_version d)))
    \<and> (\<forall>b. mapAddressToDirectoryVersion g b = Some v \<and> mapAddressToLocalIdx bb g b = Some r
        \<longrightarrow> line_address bb b = line_address bb a)"
proof -
  obtain v r where v: "mapAddressToDirectoryVersion g a = Some v" "mapAddressToLocalIdx bb g a = Some r"
    "unat v < 2 ^ m_num_directories_bits g" "unat r < 2 ^ (memory_bits - m_num_directories_bits g - bb)"
    using dir_map_ok [OF assms(1), of a] assms(2) by blast
  have "\<forall>d. dm_isPresent g d a = Some (v = word_of_int (m_version d))" using v(1) by (simp add: dm_isPresent_def)
  moreover have "\<forall>b. mapAddressToDirectoryVersion g b = Some v \<and> mapAddressToLocalIdx bb g b = Some r
      \<longrightarrow> line_address bb b = line_address bb a"
    using dir_map_inj [OF assms(1)] v(1,2) by metis
  ultimately show ?thesis using v by blast
qed

definition two_dirs :: dir_globals where
  "two_dirs = \<lparr> m_num_directories = 2, m_num_directories_bits = 1, m_total_size_bytes = 0x20000,
     m_numa_high_bit = 16 \<rparr>"

theorem directories_partition_witness:
  "\<exists>v r. mapAddressToDirectoryVersion two_dirs 0x10040 = Some v
     \<and> mapAddressToLocalIdx 6 two_dirs 0x10040 = Some r \<and> unat v < 2 \<and> unat r < 2 ^ 10"
  using directories_partition [of 17 6 two_dirs "0x10040"] by (auto simp: numa_ok_def two_dirs_def)

text \<open>C40: A directory without a map is an array of lines backed by the DRAM. For a line of the
  directory, \<open>allocate\<close> succeeds; afterwards \<open>lookup\<close> of any address of the line returns the entry, with
  permission \<^verbatim>\<open>Read_Only\<close> and its block pointing at the line in the DRAM; the contents of the DRAM
  are as before, and every other line of the directory keeps its entry.\<close>

theorem directory_allocate_lookup:
  assumes "dm_inv memory_bits bb g d" "dm_line memory_bits g d a" "mv_inv ram" "in_page ram a (2 ^ bb)"
  shows "succeeds (dm_allocate bb g ram d a entry) (\<lambda>(e, d', ram'). dm_inv memory_bits bb g d'
      \<and> mv_inv ram' \<and> contents ram' = contents ram
      \<and> permission e = Read_Only \<and> db_window (2 ^ bb) ram' a (DataBlk e)
      \<and> dm_lookup bb g d' a = Some (Some e)
      \<and> (\<forall>b. dm_line memory_bits g d b \<and> line_address bb b \<noteq> line_address bb a
          \<longrightarrow> dm_lookup bb g d' b = dm_lookup bb g d b))"
proof -
  obtain r where r: "mapAddressToLocalIdx bb g a = Some r" "r < m_num_entries d" "unat r < length (m_entries d)"
    using dm_line_idx [OF assms(1,2)] by blast
  obtain p ram' where p: "getBlockPtr ram a = Some (p, ram')" "mv_inv ram'" "contents ram' = contents ram"
    "db_window (2 ^ bb) ram' a (db_assign p (DataBlk entry))"
    using getBlockPtr_ok [OF assms(3,4), of "DataBlk entry"] by (auto simp: succeeds_iff)
  let ?e = "entry\<lparr> DataBlk := db_assign p (DataBlk entry), permission := Read_Only \<rparr>"
  let ?d = "d\<lparr> m_entries := (m_entries d)[unat r := Some ?e] \<rparr>"
  have d: "dm_inv memory_bits bb g ?d" using assms(1) by (simp add: dm_inv_def)
  have line: "dm_line memory_bits g ?d b = dm_line memory_bits g d b" for b
    by (simp add: dm_line_def dm_isPresent_def)
  have all: "dm_allocate bb g ram d a entry = Some (?e, ?d, ram')"
    using assms(1,2) r p(1) by (simp add: dm_allocate_def dm_line_def dm_inv_def wr_in Let_def)
  have look: "dm_lookup bb g ?d a = Some (Some ?e)"
    using dm_lookup_entry [OF d _ r(1)] line assms(2) r(3) by simp
  have other: "dm_lookup bb g ?d b = dm_lookup bb g d b"
    if b: "dm_line memory_bits g d b" "line_address bb b \<noteq> line_address bb a" for b
  proof -
    obtain q where q: "mapAddressToLocalIdx bb g b = Some q" using dm_line_idx [OF assms(1) b(1)] by blast
    have "q \<noteq> r"
      using dir_map_inj [of memory_bits bb g b a] assms(1) b q r(1) dm_line_version [OF assms(2)]
        dm_line_version [OF b(1)] by (auto simp: dm_inv_def)
    then have "unat r \<noteq> unat q" by (simp add: word_unat_eq_iff)
    then show ?thesis using dm_lookup_entry [OF d _ q] dm_lookup_entry [OF assms(1) b(1) q] line b(1) by simp
  qed
  from all d look other p(2-4) show ?thesis by simp
qed

definition small_dir :: DirectoryMemory where
  "small_dir = \<lparr> m_version = 1, m_size_bytes = 0x1000, m_size_bits = 12, m_num_entries = 2, m_use_map = False,
     m_map_levels = 0, m_entries = [None, None], m_sparseMemory = None \<rparr>"

definition small_globals :: dir_globals where
  "small_globals = \<lparr> m_num_directories = 2, m_num_directories_bits = 1, m_total_size_bytes = 0x2000,
     m_numa_high_bit = 12 \<rparr>"

lemma small_dir_line: "dm_inv 13 11 small_globals small_dir" "dm_line 13 small_globals small_dir 0x1800"
  by (simp_all add: dm_inv_def dm_line_def numa_ok_def small_dir_def small_globals_def dm_isPresent_def
      mapAddressToDirectoryVersion_def bit_pos_def bitSelect_def shr_def mask_eq_exp_minus_1)

theorem directory_allocate_lookup_witness:
  "succeeds (dm_allocate 11 small_globals small_memory small_dir 0x1800
      \<lparr> DataBlk = new_DataBlock 2048, permission = Busy \<rparr>)
    (\<lambda>(e, d', ram'). dm_lookup 11 small_globals d' 0x1800 = Some (Some e) \<and> contents ram' = contents small_memory)"
proof -
  have "in_page small_memory 0x1800 (2 ^ 11)" by (simp add: in_page_def small_memory_def PAGE_SIZE_def)
  from directory_allocate_lookup [OF small_dir_line small_memory_inv(1) this]
  show ?thesis by (rule succeeds_mono) auto
qed

text \<open>Initialising the directories of a memory one after the other, each of the same power of two
  size and without a map, never fails; afterwards the selection bits are the logarithm of their
  number, the default selection bits are the top bits of the memory, and the last directory is an
  array that satisfies the invariant the other properties start from.\<close>

theorem directory_init:
  assumes "unat (m_num_directories g) + 1 = 2 ^ k" "k < 32" "m_size_bytes d = 2 ^ (memory_bits - k)"
    "\<not> m_use_map d" "k + bb \<le> memory_bits" "bb < 63" "1 < memory_bits" "memory_bits \<le> 63" "m_numa_high_bit g = 0"
  shows "succeeds (dm_init memory_bits bb d g) (\<lambda>(d', g'). m_num_directories_bits g' = k
    \<and> m_numa_high_bit g' = int memory_bits - 1 \<and> m_version d' = m_version d
    \<and> (\<forall>e\<in>set (m_entries d'). e = None) \<and> (0 < bb \<longrightarrow> dm_inv memory_bits bb g' d'))"
proof -
  let ?n = "m_num_directories g + 1" and ?e = "(2 :: UINT64) ^ (memory_bits - k) div 2 ^ bb"
  have n: "unat ?n = 2 ^ k"
    using assms(1) power_strict_increasing [OF assms(2), of "2 :: nat"] by (simp add: unat_word_ariths)
  have "0 < ?n" using n by (metis word_gt_0 unat_0 power_not_zero zero_neq_numeral)
  from floorLog2_32_correct [OF this] n have l: "floorLog2_32 ?n = Some k"
    using pow2_bounds_unique [of _ "2 ^ k" k] by (auto simp: succeeds_iff)
  have "unat ?e = 2 ^ (memory_bits - k) div 2 ^ bb"
    using assms(5-8) by (simp add: unat_div unat_exp)
  also have "\<dots> = 2 ^ (memory_bits - k - bb)" using assms(5) by (subst power_diff [symmetric]) auto
  finally have e: "unat ?e = 2 ^ (memory_bits - k - bb)" .
  from l e assms show ?thesis
    by (auto simp: dm_init_def Let_def dm_inv_def numa_ok_def)
qed

theorem directory_init_witness:
  "succeeds (dm_init 13 11 (small_dir\<lparr> m_size_bytes := 2 ^ (13 - 1) \<rparr>) (dir_globals0\<lparr> m_num_directories := 1 \<rparr>))
    (\<lambda>(d, g). m_num_directories_bits g = 1 \<and> dm_inv 13 11 g d)"
proof -
  have "succeeds (dm_init 13 11 (small_dir\<lparr> m_size_bytes := 2 ^ (13 - 1) \<rparr>) (dir_globals0\<lparr> m_num_directories := 1 \<rparr>))
    (\<lambda>(d', g'). m_num_directories_bits g' = 1 \<and> m_numa_high_bit g' = int 13 - 1
      \<and> m_version d' = m_version (small_dir\<lparr> m_size_bytes := 2 ^ (13 - 1) \<rparr>)
      \<and> (\<forall>e\<in>set (m_entries d'). e = None) \<and> (0 < (11 :: nat) \<longrightarrow> dm_inv 13 11 g' d'))"
    by (rule directory_init) (simp_all add: dir_globals0_def small_dir_def)
  then show ?thesis by (rule succeeds_mono) auto
qed

end
