(* ===== verification/Tomasulo.thy ===== *)
theory Tomasulo
  imports Prelude
begin

text \<open>
  The out-of-order pipeline of Lab 3, \<^verbatim>\<open>tomasulo.c\<close> and \<^verbatim>\<open>instr.c\<close> of
  \<^verbatim>\<open>src/Lab3/simplesim-3.0d-assig3\<close>: the trace of executed instructions, the instruction queue, the
  reservation stations, the functional units, the common data bus and the map table, and the
  five stages that \<^verbatim>\<open>runTomasulo\<close> calls each cycle.

  A pointer to an instruction is its position in the trace; \<open>mem\<close> is the memory the pointers
  refer to.  The code has each loop twice, for the integer and for the floating point stations and
  units; here the arrays are indexed by \<open>fu_kind\<close>, so \<open>reserv s FU_INT\<close> is \<^verbatim>\<open>reservINT\<close> and \<open>fu s FU_FP\<close> is
  \<^verbatim>\<open>fuFP\<close>.  \<open>fl\<close> is the table \<^verbatim>\<open>md_op2flags\<close> that the target's definition file generates.
  Cycle numbers are naturals; the bound on the run shows when they fit the C type.
\<close>

section \<open>Instructions\<close>

type_synonym ptr = nat

text \<open>The fields \<^verbatim>\<open>inst\<close> and \<^verbatim>\<open>pc\<close> are only printed and are left out.\<close>

record instruction_t =
  index :: nat
  r_out :: "int list"
  r_in :: "int list"
  op :: nat
  Q :: "ptr option list"
  tom_dispatch_cycle :: nat
  tom_issue_cycle :: nat
  tom_execute_cycle :: nat
  tom_cdb_cycle :: nat

definition DNA :: int where "DNA = -1"
definition MD_TOTAL_REGS :: nat where "MD_TOTAL_REGS = 70"

definition F_ICOMP :: UINT32 where "F_ICOMP = 0x00000001"
definition F_FCOMP :: UINT32 where "F_FCOMP = 0x00000002"
definition F_UNCOND :: UINT32 where "F_UNCOND = 0x00000008"
definition F_COND :: UINT32 where "F_COND = 0x00000010"
definition F_LOAD :: UINT32 where "F_LOAD = 0x00000040"
definition F_STORE :: UINT32 where "F_STORE = 0x00000080"
definition F_TRAP :: UINT32 where "F_TRAP = 0x00000800"
definition F_CALL :: UINT32 where "F_CALL = 0x00008000"

type_synonym flags = "nat \<Rightarrow> UINT32"

definition has_flag :: "flags \<Rightarrow> nat \<Rightarrow> UINT32 \<Rightarrow> bool" where
  "has_flag fl opc f = (fl opc AND f \<noteq> 0)"

definition IS_UNCOND_CTRL :: "flags \<Rightarrow> nat \<Rightarrow> bool" where
  "IS_UNCOND_CTRL fl opc = (has_flag fl opc F_CALL \<or> has_flag fl opc F_UNCOND)"

definition IS_BRANCH :: "flags \<Rightarrow> nat \<Rightarrow> bool" where
  "IS_BRANCH fl opc = (IS_UNCOND_CTRL fl opc \<or> has_flag fl opc F_COND)"

definition IS_TRAP :: "flags \<Rightarrow> nat \<Rightarrow> bool" where
  "IS_TRAP fl opc = has_flag fl opc F_TRAP"

definition USES_INT_FU :: "flags \<Rightarrow> nat \<Rightarrow> bool" where
  "USES_INT_FU fl opc = (has_flag fl opc F_ICOMP \<or> has_flag fl opc F_LOAD \<or> has_flag fl opc F_STORE)"

definition USES_FP_FU :: "flags \<Rightarrow> nat \<Rightarrow> bool" where
  "USES_FP_FU fl opc = has_flag fl opc F_FCOMP"

definition WRITES_CDB :: "flags \<Rightarrow> nat \<Rightarrow> bool" where
  "WRITES_CDB fl opc = (has_flag fl opc F_ICOMP \<or> has_flag fl opc F_LOAD \<or> has_flag fl opc F_FCOMP)"

section \<open>The trace\<close>

definition INSTR_TRACE_SIZE :: nat where "INSTR_TRACE_SIZE = 16384"

definition zero_instr :: instruction_t where
  "zero_instr = \<lparr> index = 0, r_out = [0, 0], r_in = [0, 0, 0], op = 0, Q = [None, None, None],
     tom_dispatch_cycle = 0, tom_issue_cycle = 0, tom_execute_cycle = 0, tom_cdb_cycle = 0 \<rparr>"

text \<open>The nodes of the linked list, in order.\<close>

record trace_node =
  table :: "instruction_t list"
  tsize :: nat

definition new_node :: trace_node where
  "new_node = \<lparr> table = replicate INSTR_TRACE_SIZE zero_instr, tsize = 0 \<rparr>"

definition node_put :: "trace_node \<Rightarrow> instruction_t \<Rightarrow> trace_node option" where
  "node_put n i = do {
     t \<leftarrow> wr (table n) (tsize n) i;
     Some (n\<lparr> table := t, tsize := tsize n + 1 \<rparr>)
   }"

fun put_instr :: "trace_node list \<Rightarrow> instruction_t \<Rightarrow> trace_node list option" where
  "put_instr [] i = None"
| "put_instr [n] i =
     (if tsize n = INSTR_TRACE_SIZE then do { m \<leftarrow> node_put new_node i; Some [n, m] }
      else do { n \<leftarrow> node_put n i; Some [n] })"
| "put_instr (n # m # ns) i =
     (if tsize n = INSTR_TRACE_SIZE then do { ns' \<leftarrow> put_instr (m # ns) i; Some (n # ns') }
      else do { n \<leftarrow> node_put n i; Some (n # m # ns) })"

fun get_instr :: "trace_node list \<Rightarrow> nat \<Rightarrow> instruction_t option" where
  "get_instr [] i = None"
| "get_instr (n # ns) i =
     (if INSTR_TRACE_SIZE \<le> i then get_instr ns (i - INSTR_TRACE_SIZE) else rd (table n) i)"

text \<open>The address \<open>get_instr\<close> returns in a trace of \<open>cap\<close> allocated entries.\<close>

definition get_ptr :: "nat \<Rightarrow> nat \<Rightarrow> ptr option" where
  "get_ptr cap i = (if i < cap then Some i else None)"

text \<open>\<^verbatim>\<open>sim_main\<close>: the first entry is skipped, then every executed instruction is put.\<close>

definition new_trace :: "trace_node list" where
  "new_trace = [new_node\<lparr> tsize := 1 \<rparr>]"

fun put_all :: "trace_node list \<Rightarrow> instruction_t list \<Rightarrow> trace_node list option" where
  "put_all t [] = Some t"
| "put_all t (i # is) = do { t \<leftarrow> put_instr t i; put_all t is }"

section \<open>The pipeline\<close>

datatype fu_kind = FU_INT | FU_FP

definition INSTR_QUEUE_SIZE :: nat where "INSTR_QUEUE_SIZE = 16"

fun RESERV_SIZE :: "fu_kind \<Rightarrow> nat" where
  "RESERV_SIZE FU_INT = 5"
| "RESERV_SIZE FU_FP = 3"

fun FU_SIZE :: "fu_kind \<Rightarrow> nat" where
  "FU_SIZE FU_INT = 3"
| "FU_SIZE FU_FP = 1"

fun FU_LATENCY :: "fu_kind \<Rightarrow> nat" where
  "FU_LATENCY FU_INT = 5"
| "FU_LATENCY FU_FP = 7"

record tom =
  mem :: "ptr \<Rightarrow> instruction_t"
  instr_queue :: "ptr option list"
  instr_queue_size :: nat
  reserv :: "fu_kind \<Rightarrow> ptr option list"
  fu :: "fu_kind \<Rightarrow> ptr option list"
  commonDataBus :: "ptr option"
  map_table :: "ptr option list"
  fetch_index :: nat

text \<open>The stations an instruction that is no branch goes to.\<close>

definition rs_kind :: "flags \<Rightarrow> nat \<Rightarrow> fu_kind option" where
  "rs_kind fl opc = (if USES_INT_FU fl opc then Some FU_INT else if USES_FP_FU fl opc then Some FU_FP else None)"

fun rm_first :: "ptr \<Rightarrow> ptr option list \<Rightarrow> ptr option list" where
  "rm_first p [] = []"
| "rm_first p (x # xs) = (if x = Some p then None # xs else x # rm_first p xs)"

definition rm_from_RS :: "flags \<Rightarrow> ptr \<Rightarrow> tom \<Rightarrow> tom" where
  "rm_from_RS fl p s = (case rs_kind fl (op (mem s p)) of
       Some u \<Rightarrow> s\<lparr> reserv := (reserv s)(u := rm_first p (reserv s u)) \<rparr>
     | None \<Rightarrow> s)"

definition untag :: "ptr \<Rightarrow> ptr option list \<Rightarrow> ptr option list" where
  "untag p = map (\<lambda>x. if x = Some p then None else x)"

fun clear_tags :: "ptr \<Rightarrow> ptr option list \<Rightarrow> (ptr \<Rightarrow> instruction_t) \<Rightarrow> ptr \<Rightarrow> instruction_t" where
  "clear_tags p [] m = m"
| "clear_tags p (None # rs) m = clear_tags p rs m"
| "clear_tags p (Some q # rs) m = clear_tags p rs (m(q := (m q)\<lparr> Q := untag p (Q (m q)) \<rparr>))"

definition broadcast_tags :: "ptr \<Rightarrow> tom \<Rightarrow> tom" where
  "broadcast_tags p s = s\<lparr> map_table := untag p (map_table s),
     mem := clear_tags p (reserv s FU_FP) (clear_tags p (reserv s FU_INT) (mem s)) \<rparr>"

fun read_tags :: "ptr option list \<Rightarrow> int list \<Rightarrow> ptr option list \<Rightarrow> ptr option list option" where
  "read_tags mt (r # rs) (q # qs) = do {
     q' \<leftarrow> (if r = DNA then Some q else if 0 \<le> r then rd mt (nat r) else None);
     qs' \<leftarrow> read_tags mt rs qs;
     Some (q' # qs')
   }"
| "read_tags mt _ _ = Some []"

fun write_map :: "ptr \<Rightarrow> int list \<Rightarrow> ptr option list \<Rightarrow> ptr option list option" where
  "write_map p [] mt = Some mt"
| "write_map p (r # rs) mt = do {
     mt \<leftarrow> (if r = DNA then Some mt else if 0 \<le> r then wr mt (nat r) (Some p) else None);
     write_map p rs mt
   }"

definition set_tags :: "ptr \<Rightarrow> tom \<Rightarrow> tom option" where
  "set_tags p s = do {
     qs \<leftarrow> read_tags (map_table s) (r_in (mem s p)) (Q (mem s p));
     mt \<leftarrow> write_map p (r_out (mem s p)) (map_table s);
     Some (s\<lparr> mem := (mem s)(p := (mem s p)\<lparr> Q := qs \<rparr>), map_table := mt \<rparr>)
   }"

definition IFQ_pop_front :: "tom \<Rightarrow> tom" where
  "IFQ_pop_front s =
     (if 0 < instr_queue_size s
      then s\<lparr> instr_queue := tl (instr_queue s) @ [None], instr_queue_size := instr_queue_size s - 1 \<rparr>
      else s)"

definition all_null :: "ptr option list \<Rightarrow> bool" where
  "all_null = list_all (\<lambda>x. x = None)"

definition is_simulation_done :: "nat \<Rightarrow> tom \<Rightarrow> bool" where
  "is_simulation_done sim_insn s = (\<not> fetch_index s \<le> sim_insn \<and> instr_queue_size s = 0
     \<and> all_null (reserv s FU_FP) \<and> all_null (reserv s FU_INT) \<and> all_null (fu s FU_INT) \<and> all_null (fu s FU_FP)
     \<and> commonDataBus s = None \<and> all_null (map_table s))"

subsection \<open>The stages\<close>

text \<open>The two statements \<^verbatim>\<open>map_table[...] == NULL;\<close> of the code compare and change nothing.\<close>

definition CDB_To_retire :: "nat \<Rightarrow> tom \<Rightarrow> tom" where
  "CDB_To_retire current_cycle s = (case commonDataBus s of
       Some p \<Rightarrow> if tom_cdb_cycle (mem s p) < current_cycle then s\<lparr> commonDataBus := None \<rparr> else s
     | None \<Rightarrow> s)"

text \<open>\<open>old\<close> is the oldest finished instruction found so far, with the unit and the slot it is in.\<close>

definition EXECUTION_DONE :: "fu_kind \<Rightarrow> nat \<Rightarrow> nat \<Rightarrow> bool" where
  "EXECUTION_DONE u cur_cyc start_cyc = (start_cyc + FU_LATENCY u \<le> cur_cyc)"

definition cdb_step :: "flags \<Rightarrow> nat \<Rightarrow> fu_kind \<Rightarrow> nat \<Rightarrow> tom \<times> (ptr \<times> fu_kind \<times> nat) option
    \<Rightarrow> tom \<times> (ptr \<times> fu_kind \<times> nat) option" where
  "cdb_step fl current_cycle u idx so = (case so of (s, old) \<Rightarrow>
     (case fu s u ! idx of
        None \<Rightarrow> (s, old)
      | Some p \<Rightarrow>
          if EXECUTION_DONE u current_cycle (tom_execute_cycle (mem s p)) then
            if WRITES_CDB fl (op (mem s p)) then
              (case old of
                 None \<Rightarrow> (s, Some (p, u, idx))
               | Some (q, v, i) \<Rightarrow>
                   if index (mem s p) < index (mem s q) then (s, Some (p, u, idx)) else (s, old))
            else
              (let s = rm_from_RS fl p s
               in (s\<lparr> fu := (fu s)(u := (fu s u)[idx := None]) \<rparr>, old))
          else (s, old)))"

definition cdb_scan :: "flags \<Rightarrow> nat \<Rightarrow> fu_kind \<Rightarrow> tom \<times> (ptr \<times> fu_kind \<times> nat) option
    \<Rightarrow> tom \<times> (ptr \<times> fu_kind \<times> nat) option" where
  "cdb_scan fl current_cycle u so = fold (cdb_step fl current_cycle u) [0..<FU_SIZE u] so"

definition to_cdb :: "flags \<Rightarrow> nat \<Rightarrow> tom \<Rightarrow> ptr \<Rightarrow> fu_kind \<Rightarrow> nat \<Rightarrow> tom" where
  "to_cdb fl current_cycle s p u idx =
     (let s = s\<lparr> mem := (mem s)(p := (mem s p)\<lparr> tom_cdb_cycle := current_cycle \<rparr>), commonDataBus := Some p \<rparr>;
          s = rm_from_RS fl p s
      in s\<lparr> fu := (fu s)(u := (fu s u)[idx := None]) \<rparr>)"

definition execute_To_CDB :: "flags \<Rightarrow> nat \<Rightarrow> tom \<Rightarrow> tom" where
  "execute_To_CDB fl current_cycle s =
     (if commonDataBus s = None then
        (case cdb_scan fl current_cycle FU_FP (cdb_scan fl current_cycle FU_INT (s, None)) of
           (s, None) \<Rightarrow> s
         | (s, Some (p, u, idx)) \<Rightarrow> to_cdb fl current_cycle s p u idx)
      else s)"

definition issueable :: "nat \<Rightarrow> (ptr \<Rightarrow> instruction_t) \<Rightarrow> ptr \<Rightarrow> bool" where
  "issueable current_cycle m p =
     (all_null (Q (m p)) \<and> tom_execute_cycle (m p) = 0 \<and> tom_issue_cycle (m p) < current_cycle)"

definition pick_older :: "nat \<Rightarrow> (ptr \<Rightarrow> instruction_t) \<Rightarrow> ptr option \<Rightarrow> ptr option \<Rightarrow> ptr option" where
  "pick_older current_cycle m x best = (case x of
       None \<Rightarrow> best
     | Some p \<Rightarrow> if issueable current_cycle m p then
           (case best of None \<Rightarrow> Some p | Some b \<Rightarrow> if index (m p) < index (m b) then Some p else best)
         else best)"

definition oldest_issueable :: "nat \<Rightarrow> (ptr \<Rightarrow> instruction_t) \<Rightarrow> ptr option list \<Rightarrow> ptr option" where
  "oldest_issueable current_cycle m rs = fold (pick_older current_cycle m) rs None"

fun issue_loop :: "nat \<Rightarrow> fu_kind \<Rightarrow> nat list \<Rightarrow> tom \<Rightarrow> tom" where
  "issue_loop current_cycle u [] s = s"
| "issue_loop current_cycle u (idx # is) s =
     (if fu s u ! idx = None then
        (case oldest_issueable current_cycle (mem s) (reserv s u) of
           None \<Rightarrow> s
         | Some p \<Rightarrow> issue_loop current_cycle u is
             (s\<lparr> fu := (fu s)(u := (fu s u)[idx := Some p]),
                mem := (mem s)(p := (mem s p)\<lparr> tom_execute_cycle := current_cycle \<rparr>) \<rparr>))
      else issue_loop current_cycle u is s)"

definition issue_To_execute :: "nat \<Rightarrow> tom \<Rightarrow> tom" where
  "issue_To_execute current_cycle s =
     (let s = issue_loop current_cycle FU_INT [0..<FU_SIZE FU_INT] s;
          s = issue_loop current_cycle FU_FP [0..<FU_SIZE FU_FP] s
      in (case commonDataBus s of Some p \<Rightarrow> broadcast_tags p s | None \<Rightarrow> s))"

fun first_free :: "ptr option list \<Rightarrow> nat option" where
  "first_free [] = None"
| "first_free (x # xs) = (if x = None then Some 0 else map_option Suc (first_free xs))"

definition dispatch_To_issue :: "flags \<Rightarrow> nat \<Rightarrow> tom \<Rightarrow> tom option" where
  "dispatch_To_issue fl current_cycle s = (case instr_queue s ! 0 of
       None \<Rightarrow> Some s
     | Some p \<Rightarrow>
         if IS_BRANCH fl (op (mem s p)) then Some (IFQ_pop_front s)
         else (case rs_kind fl (op (mem s p)) of
             None \<Rightarrow> Some (IFQ_pop_front s)
           | Some u \<Rightarrow>
               (case first_free (reserv s u) of
                  None \<Rightarrow> Some s
                | Some idx \<Rightarrow> do {
                    let s = s\<lparr> reserv := (reserv s)(u := (reserv s u)[idx := Some p]),
                      mem := (mem s)(p := (mem s p)\<lparr> tom_issue_cycle := current_cycle \<rparr>) \<rparr>;
                    s \<leftarrow> set_tags p s;
                    Some (IFQ_pop_front s)
                  })))"

function fetch_loop :: "flags \<Rightarrow> nat \<Rightarrow> (ptr \<Rightarrow> instruction_t) \<Rightarrow> nat \<Rightarrow> ptr option" where
  "fetch_loop fl cap m i = do {
     p \<leftarrow> get_ptr cap (i + 1);
     if IS_TRAP fl (op (m p)) then fetch_loop fl cap m (i + 1) else Some p
   }"
  by pat_completeness auto
termination
  by (relation "measure (\<lambda>(fl, cap, m, i). cap - i)") (auto simp: get_ptr_def split: if_splits)

declare fetch_loop.simps [simp del]

definition fetch :: "flags \<Rightarrow> nat \<Rightarrow> nat \<Rightarrow> tom \<Rightarrow> tom option" where
  "fetch fl sim_num_insn cap s =
     (if instr_queue_size s < INSTR_QUEUE_SIZE \<and> fetch_index s \<le> sim_num_insn then do {
        p \<leftarrow> fetch_loop fl cap (mem s) (fetch_index s);
        q \<leftarrow> wr (instr_queue s) (instr_queue_size s) (Some p);
        Some (s\<lparr> fetch_index := p, instr_queue := q, instr_queue_size := instr_queue_size s + 1 \<rparr>)
      } else Some s)"

definition fetch_To_dispatch :: "flags \<Rightarrow> nat \<Rightarrow> nat \<Rightarrow> nat \<Rightarrow> tom \<Rightarrow> tom option" where
  "fetch_To_dispatch fl sim_num_insn cap current_cycle s = do {
     s \<leftarrow> fetch fl sim_num_insn cap s;
     if instr_queue_size s \<noteq> 0 then do {
       x \<leftarrow> rd (instr_queue s) (instr_queue_size s - 1);
       p \<leftarrow> x;
       if tom_dispatch_cycle (mem s p) = 0
       then Some (s\<lparr> mem := (mem s)(p := (mem s p)\<lparr> tom_dispatch_cycle := current_cycle \<rparr>) \<rparr>)
       else Some s
     } else Some s
   }"

definition tom_cycle :: "flags \<Rightarrow> nat \<Rightarrow> nat \<Rightarrow> nat \<Rightarrow> tom \<Rightarrow> tom option" where
  "tom_cycle fl sim_num_insn cap c s = do {
     s \<leftarrow> dispatch_To_issue fl c (issue_To_execute c (execute_To_CDB fl c (CDB_To_retire c s)));
     fetch_To_dispatch fl sim_num_insn cap c s
   }"

text \<open>The loop of \<^verbatim>\<open>runTomasulo\<close>; \<open>None\<close> is a failed assertion, a null pointer or a loop that never ends.\<close>

partial_function (option) tom_loop :: "flags \<Rightarrow> nat \<Rightarrow> nat \<Rightarrow> nat \<Rightarrow> tom \<Rightarrow> (nat \<times> tom) option" where
  "tom_loop fl sim_num_insn cap c s = do {
     s \<leftarrow> tom_cycle fl sim_num_insn cap c s;
     if is_simulation_done sim_num_insn s then Some (c, s) else tom_loop fl sim_num_insn cap (c + 1) s
   }"

definition tom_init :: "(ptr \<Rightarrow> instruction_t) \<Rightarrow> tom" where
  "tom_init m = \<lparr> mem = m, instr_queue = replicate INSTR_QUEUE_SIZE None, instr_queue_size = 0,
     reserv = (\<lambda>u. replicate (RESERV_SIZE u) None), fu = (\<lambda>u. replicate (FU_SIZE u) None),
     commonDataBus = None, map_table = replicate MD_TOTAL_REGS None, fetch_index = 0 \<rparr>"

definition trace_mem :: "trace_node list \<Rightarrow> ptr \<Rightarrow> instruction_t" where
  "trace_mem trace p = (case get_instr trace p of Some i \<Rightarrow> i | None \<Rightarrow> zero_instr)"

definition runTomasulo :: "flags \<Rightarrow> nat \<Rightarrow> trace_node list \<Rightarrow> (nat \<times> tom) option" where
  "runTomasulo fl sim_num_insn trace =
     tom_loop fl sim_num_insn (length trace * INSTR_TRACE_SIZE) 1 (tom_init (trace_mem trace))"

end
