(* ===== verification/Tomasulo_Correct.thy ===== *)
theory Tomasulo_Correct
  imports Tomasulo
begin

text \<open>
  Correctness of the pipeline of \<^verbatim>\<open>tomasulo.c\<close>: the invariant of the simulation, the dataflow it
  enforces and the bound on its length.  The invariant describes the map table and the tags by the
  program order of the trace: a register is tagged with the last earlier instruction that writes it, as
  long as that instruction has not been broadcast.
\<close>

section \<open>Arrays of pointers\<close>

definition ptrs :: "ptr option list \<Rightarrow> ptr set" where
  "ptrs xs = {p. Some p \<in> set xs}"

definition inj_ptrs :: "ptr option list \<Rightarrow> bool" where
  "inj_ptrs xs = (\<forall>i<length xs. \<forall>j<length xs. \<forall>p. xs ! i = Some p \<longrightarrow> xs ! j = Some p \<longrightarrow> i = j)"

lemma ex_fu_kind: "(\<exists>u. P u) = (P FU_INT \<or> P FU_FP)"
  by (metis fu_kind.exhaust)

lemma ptrs_nth: "p \<in> ptrs xs \<longleftrightarrow> (\<exists>i<length xs. xs ! i = Some p)"
  by (auto simp: ptrs_def in_set_conv_nth)

lemma ptrs_replicate [simp]: "ptrs (replicate n None) = {}"
  by (auto simp: ptrs_def)

lemma inj_replicate [simp]: "inj_ptrs (replicate n None)"
  by (auto simp: inj_ptrs_def)

lemma all_null_ptrs: "all_null xs \<longleftrightarrow> ptrs xs = {}"
proof (induction xs)
  case (Cons x xs)
  then show ?case by (cases x) (auto simp: all_null_def ptrs_def)
qed (simp add: all_null_def ptrs_def)

lemma ptrs_add: "i < length xs \<Longrightarrow> xs ! i = None \<Longrightarrow> ptrs (xs[i := Some p]) = insert p (ptrs xs)"
  unfolding set_eq_iff ptrs_nth by (metis insert_iff length_list_update nth_list_update option.distinct(1)
      option.inject ptrs_nth)

lemma inj_add: "inj_ptrs xs \<Longrightarrow> p \<notin> ptrs xs \<Longrightarrow> inj_ptrs (xs[i := Some p])"
  by (cases "i < length xs") (auto simp: inj_ptrs_def ptrs_nth nth_list_update split: if_splits)

lemma ptrs_del: "inj_ptrs xs \<Longrightarrow> i < length xs \<Longrightarrow> xs ! i = Some p \<Longrightarrow> ptrs (xs[i := None]) = ptrs xs - {p}"
proof (rule set_eqI)
  fix q assume a: "inj_ptrs xs" "i < length xs" "xs ! i = Some p"
  have "(\<exists>j<length xs. (xs[i := None]) ! j = Some q) = ((\<exists>j<length xs. xs ! j = Some q) \<and> q \<noteq> p)"
  proof (cases "q = p")
    case True
    then show ?thesis using a unfolding inj_ptrs_def by (metis nth_list_update option.distinct(1))
  next
    case False
    then show ?thesis using a(2,3) by (metis nth_list_update option.inject option.distinct(1))
  qed
  then show "q \<in> ptrs (xs[i := None]) \<longleftrightarrow> q \<in> ptrs xs - {p}" by (simp add: ptrs_nth)
qed

lemma inj_del: "inj_ptrs xs \<Longrightarrow> inj_ptrs (xs[i := None])"
  by (cases "i < length xs") (auto simp: inj_ptrs_def nth_list_update split: if_splits)

lemma rm_first_length [simp]: "length (rm_first p xs) = length xs"
  by (induction xs) auto

lemma rm_first_upd: "p \<in> ptrs xs \<Longrightarrow> \<exists>i<length xs. xs ! i = Some p \<and> rm_first p xs = xs[i := None]"
proof (induction xs)
  case (Cons x xs)
  then show ?case
  proof (cases "x = Some p")
    case False
    with Cons obtain i where "i < length xs" "xs ! i = Some p" "rm_first p xs = xs[i := None]"
      by (auto simp: ptrs_def)
    with False show ?thesis by (intro exI [of _ "Suc i"]) simp
  qed auto
qed (simp add: ptrs_def)

lemma rm_first_ptrs:
  assumes "inj_ptrs xs" "p \<in> ptrs xs"
  shows "ptrs (rm_first p xs) = ptrs xs - {p}" "inj_ptrs (rm_first p xs)"
  using rm_first_upd [OF assms(2)] assms(1) by (auto simp: ptrs_del inj_del)

lemma first_free_some: "first_free xs = Some i \<Longrightarrow> i < length xs \<and> xs ! i = None"
  by (induction xs arbitrary: i) (auto split: if_splits)

lemma first_free_none: "first_free xs = None \<longleftrightarrow> None \<notin> set xs"
  by (induction xs) auto

lemma untag_nth: "i < length xs \<Longrightarrow> untag p xs ! i = (if xs ! i = Some p then None else xs ! i)"
  by (simp add: untag_def)

lemma untag_length [simp]: "length (untag p xs) = length xs"
  by (simp add: untag_def)

text \<open>The queue is a filtered interval of the trace.\<close>

lemma filter_upt_hd:
  assumes "filter P [a..<b] = y # ys"
  shows "a \<le> y" "y < b" "P y" "filter P [y..<b] = y # ys" "filter P [Suc y..<b] = ys"
    "\<And>z. a \<le> z \<Longrightarrow> z < y \<Longrightarrow> \<not> P z"
proof -
  have y: "y \<in> set (filter P [a..<b])" using assms by simp
  then show yb: "a \<le> y" "y < b" "P y" by auto
  have s: "[a..<b] = [a..<y] @ y # [Suc y..<b]"
    using yb upt_add_eq_append [of a y "b - y"] by (simp add: upt_conv_Cons)
  have "filter P [a..<y] = []"
  proof (rule ccontr)
    assume "filter P [a..<y] \<noteq> []"
    then obtain z zs where z: "filter P [a..<y] = z # zs" by (cases "filter P [a..<y]") auto
    then have "z \<in> set (filter P [a..<y])" by simp
    then have "z < y" by auto
    moreover have "z = y" using assms z s by simp
    ultimately show False by simp
  qed
  then show "\<And>z. a \<le> z \<Longrightarrow> z < y \<Longrightarrow> \<not> P z" by (auto simp: filter_empty_conv)
  show "filter P [Suc y..<b] = ys" using assms s \<open>filter P [a..<y] = []\<close> yb(3) by simp
  then show "filter P [y..<b] = y # ys" using yb by (simp add: upt_conv_Cons)
qed

section \<open>The trace and its dataflow\<close>

abbreviation exec_of :: "tom \<Rightarrow> ptr \<Rightarrow> nat" where "exec_of s p \<equiv> tom_execute_cycle (mem s p)"
abbreviation issue_of :: "tom \<Rightarrow> ptr \<Rightarrow> nat" where "issue_of s p \<equiv> tom_issue_cycle (mem s p)"
abbreviation cdb_of :: "tom \<Rightarrow> ptr \<Rightarrow> nat" where "cdb_of s p \<equiv> tom_cdb_cycle (mem s p)"
abbreviation disp_of :: "tom \<Rightarrow> ptr \<Rightarrow> nat" where "disp_of s p \<equiv> tom_dispatch_cycle (mem s p)"

definition trap_at :: "flags \<Rightarrow> (ptr \<Rightarrow> instruction_t) \<Rightarrow> ptr \<Rightarrow> bool" where
  "trap_at fl m p = IS_TRAP fl (op (m p))"

text \<open>The instructions that go through a reservation station.\<close>

definition rs_class :: "flags \<Rightarrow> (ptr \<Rightarrow> instruction_t) \<Rightarrow> ptr \<Rightarrow> bool" where
  "rs_class fl m p = (0 < p \<and> \<not> trap_at fl m p \<and> \<not> IS_BRANCH fl (op (m p)) \<and> rs_kind fl (op (m p)) \<noteq> None)"

definition latency :: "flags \<Rightarrow> (ptr \<Rightarrow> instruction_t) \<Rightarrow> ptr \<Rightarrow> nat" where
  "latency fl m p = (case rs_kind fl (op (m p)) of Some u \<Rightarrow> FU_LATENCY u | None \<Rightarrow> 0)"

text \<open>The last instruction before \<open>n\<close> that goes to a reservation station and writes register \<open>r\<close>, and the producer of
  an operand.  Jumps and branches never go to a station and enter no tag in the map table, so that the link register
  written by \<^verbatim>\<open>JAL\<close> or \<^verbatim>\<open>JALR\<close> has no producer of its own: a reader of \<^verbatim>\<open>$31\<close> waits for the instruction that
  wrote it before the jump.\<close>

fun last_writer :: "flags \<Rightarrow> (ptr \<Rightarrow> instruction_t) \<Rightarrow> nat \<Rightarrow> nat \<Rightarrow> ptr option" where
  "last_writer fl m 0 r = None"
| "last_writer fl m (Suc n) r =
     (if rs_class fl m n \<and> int r \<in> set (r_out (m n)) then Some n else last_writer fl m n r)"

definition producer :: "flags \<Rightarrow> (ptr \<Rightarrow> instruction_t) \<Rightarrow> ptr \<Rightarrow> nat \<Rightarrow> ptr option" where
  "producer fl m p k = (if r_in (m p) ! k = DNA then None else last_writer fl m p (nat (r_in (m p) ! k)))"

definition regs_ok :: "int list \<Rightarrow> bool" where
  "regs_ok rs = list_all (\<lambda>r. r = DNA \<or> 0 \<le> r \<and> r < int MD_TOTAL_REGS) rs"

text \<open>A trace of \<open>N\<close> instructions as \<^verbatim>\<open>sim_main\<close> records it: the entry behind it is still zero,
  and what writes a register and goes to a station also uses the bus (no store of the target writes a register).\<close>

definition trace_ok :: "flags \<Rightarrow> nat \<Rightarrow> nat \<Rightarrow> (ptr \<Rightarrow> instruction_t) \<Rightarrow> bool" where
  "trace_ok fl N cap m = (N + 1 < cap \<and> fl (op (m (N + 1))) = 0
     \<and> (\<forall>p\<in>{1..N + 1}. Q (m p) = [None, None, None] \<and> tom_dispatch_cycle (m p) = 0)
     \<and> (\<forall>p. tom_issue_cycle (m p) = 0 \<and> tom_execute_cycle (m p) = 0 \<and> tom_cdb_cycle (m p) = 0)
     \<and> (\<forall>p\<in>{1..N}. index (m p) = p \<and> length (r_in (m p)) = 3 \<and> regs_ok (r_in (m p)) \<and> regs_ok (r_out (m p))
         \<and> (rs_class fl m p \<and> (\<exists>r\<in>set (r_out (m p)). r \<noteq> DNA) \<longrightarrow> WRITES_CDB fl (op (m p)))))"

lemma last_writer_some:
  "last_writer fl m n r = Some j \<Longrightarrow> j < n \<and> rs_class fl m j \<and> int r \<in> set (r_out (m j))"
  by (induction n) (auto split: if_splits)

lemma last_writer_max:
  "j < n \<Longrightarrow> rs_class fl m j \<Longrightarrow> int r \<in> set (r_out (m j)) \<Longrightarrow> \<exists>i. last_writer fl m n r = Some i \<and> j \<le> i"
  by (induction n) (auto simp: less_Suc_eq)

text \<open>Positions between two instructions that go to no station do not change the last writer.\<close>

lemma last_writer_skip:
  assumes "a \<le> b" "\<And>p. a \<le> p \<Longrightarrow> p < b \<Longrightarrow> \<not> rs_class fl m p"
  shows "last_writer fl m b r = last_writer fl m a r"
  using assms
proof (induction b)
  case (Suc b)
  then show ?case by (cases "a = Suc b") auto
qed simp

section \<open>The invariant\<close>

definition head :: "tom \<Rightarrow> nat" where
  "head s = (case instr_queue s ! 0 of Some p \<Rightarrow> p | None \<Rightarrow> Suc (fetch_index s))"

definition queued :: "flags \<Rightarrow> (ptr \<Rightarrow> instruction_t) \<Rightarrow> tom \<Rightarrow> ptr list" where
  "queued fl m s = filter (\<lambda>p. \<not> trap_at fl m p) [head s..<Suc (fetch_index s)]"

definition tstatic :: "(ptr \<Rightarrow> instruction_t) \<Rightarrow> tom \<Rightarrow> bool" where
  "tstatic m s = (\<forall>p. index (mem s p) = index (m p) \<and> op (mem s p) = op (m p)
     \<and> r_in (mem s p) = r_in (m p) \<and> r_out (mem s p) = r_out (m p))"

definition tshape :: "tom \<Rightarrow> bool" where
  "tshape s = ((\<forall>u. length (reserv s u) = RESERV_SIZE u \<and> length (fu s u) = FU_SIZE u
       \<and> inj_ptrs (reserv s u) \<and> inj_ptrs (fu s u))
     \<and> length (map_table s) = MD_TOTAL_REGS)"

definition tqueue :: "flags \<Rightarrow> nat \<Rightarrow> (ptr \<Rightarrow> instruction_t) \<Rightarrow> tom \<Rightarrow> bool" where
  "tqueue fl N m s = (let xs = queued fl m s in
     instr_queue s = map Some xs @ replicate (INSTR_QUEUE_SIZE - length xs) None
     \<and> instr_queue_size s = length xs \<and> length xs \<le> INSTR_QUEUE_SIZE
     \<and> fetch_index s \<le> N + 1 \<and> 0 < head s \<and> head s \<le> Suc (fetch_index s))"

definition issued :: "tom \<Rightarrow> ptr \<Rightarrow> bool" where
  "issued s p = (issue_of s p \<noteq> 0)"

definition punit :: "flags \<Rightarrow> nat \<Rightarrow> (ptr \<Rightarrow> instruction_t) \<Rightarrow> tom \<Rightarrow> ptr \<Rightarrow> bool" where
  "punit fl N m s p = (
     (\<forall>u. p \<in> ptrs (reserv s u) \<longrightarrow> issued s p \<and> rs_kind fl (op (m p)) = Some u \<and> cdb_of s p = 0)
     \<and> (\<forall>u. p \<in> ptrs (fu s u) \<longleftrightarrow> p \<in> ptrs (reserv s u) \<and> exec_of s p \<noteq> 0)
     \<and> (issued s p \<longleftrightarrow> p < head s \<and> p \<le> N \<and> rs_class fl m p)
     \<and> (issued s p \<and> (\<forall>u. p \<notin> ptrs (reserv s u)) \<longrightarrow>
          exec_of s p \<noteq> 0 \<and> (WRITES_CDB fl (op (m p)) \<longrightarrow> cdb_of s p \<noteq> 0))
     \<and> (\<not> issued s p \<longrightarrow> exec_of s p = 0 \<and> cdb_of s p = 0
          \<and> (0 < p \<and> p \<le> N + 1 \<longrightarrow> Q (mem s p) = [None, None, None]))
     \<and> (commonDataBus s = Some p \<longrightarrow> cdb_of s p \<noteq> 0))"

text \<open>\<open>i\<close>, \<open>e\<close> and \<open>k\<close> bound the issue, the execution and the bus cycles recorded so far; what used the
  bus before cycle \<open>c\<close> has been broadcast.\<close>

definition ptime :: "flags \<Rightarrow> nat \<Rightarrow> (ptr \<Rightarrow> instruction_t) \<Rightarrow> nat \<Rightarrow> nat \<Rightarrow> nat \<Rightarrow> nat \<Rightarrow> tom \<Rightarrow> ptr \<Rightarrow> bool" where
  "ptime fl N m i c e k s p = (
     (issued s p \<longrightarrow> 0 < disp_of s p \<and> disp_of s p < issue_of s p \<and> issue_of s p < i)
     \<and> (p \<in> set (queued fl m s) \<longrightarrow> 0 < disp_of s p \<and> disp_of s p < i)
     \<and> (fetch_index s < p \<and> p \<le> N + 1 \<longrightarrow> disp_of s p = 0)
     \<and> (exec_of s p \<noteq> 0 \<longrightarrow> issue_of s p < exec_of s p \<and> exec_of s p < e)
     \<and> (cdb_of s p \<noteq> 0 \<longrightarrow> exec_of s p \<noteq> 0 \<and> exec_of s p + latency fl m p \<le> cdb_of s p \<and> cdb_of s p < k)
     \<and> (cdb_of s p \<noteq> 0 \<and> c \<le> cdb_of s p \<longrightarrow> commonDataBus s = Some p))"

definition torder :: "tom \<Rightarrow> bool" where
  "torder s = ((\<forall>p q. cdb_of s p \<noteq> 0 \<longrightarrow> cdb_of s p = cdb_of s q \<longrightarrow> p = q)
     \<and> (\<forall>p q. issued s p \<longrightarrow> issued s q \<longrightarrow> p < q \<longrightarrow> issue_of s p < issue_of s q))"

definition broadcasted :: "nat \<Rightarrow> tom \<Rightarrow> ptr \<Rightarrow> bool" where
  "broadcasted c s p = (cdb_of s p \<noteq> 0 \<and> cdb_of s p < c)"

definition pending :: "nat \<Rightarrow> tom \<Rightarrow> ptr option \<Rightarrow> ptr option" where
  "pending c s x = (case x of Some p \<Rightarrow> if broadcasted c s p then None else Some p | None \<Rightarrow> None)"

definition tmap :: "flags \<Rightarrow> (ptr \<Rightarrow> instruction_t) \<Rightarrow> nat \<Rightarrow> tom \<Rightarrow> bool" where
  "tmap fl m c s = (\<forall>r<MD_TOTAL_REGS. map_table s ! r = pending c s (last_writer fl m (head s) r))"

definition ptags :: "flags \<Rightarrow> (ptr \<Rightarrow> instruction_t) \<Rightarrow> nat \<Rightarrow> tom \<Rightarrow> ptr \<Rightarrow> bool" where
  "ptags fl m c s p = (issued s p \<longrightarrow> length (Q (mem s p)) = 3
     \<and> (\<forall>k<3. Q (mem s p) ! k = pending c s (producer fl m p k)
         \<and> (\<forall>j. exec_of s p \<noteq> 0 \<longrightarrow> producer fl m p k = Some j \<longrightarrow> cdb_of s j \<noteq> 0 \<and> cdb_of s j < exec_of s p)))"

definition tinv :: "flags \<Rightarrow> nat \<Rightarrow> (ptr \<Rightarrow> instruction_t) \<Rightarrow> nat \<Rightarrow> nat \<Rightarrow> nat \<Rightarrow> nat \<Rightarrow> tom \<Rightarrow> bool" where
  "tinv fl N m i c e k s = (tstatic m s \<and> tshape s \<and> tqueue fl N m s \<and> torder s \<and> tmap fl m c s
     \<and> (\<forall>p. punit fl N m s p \<and> ptime fl N m i c e k s p \<and> ptags fl m c s p))"

lemma tinvD:
  assumes "tinv fl N m i c e k s"
  shows "tstatic m s" "tshape s" "tqueue fl N m s" "torder s" "tmap fl m c s"
    "punit fl N m s p" "ptime fl N m i c e k s p" "ptags fl m c s p"
  using assms by (simp_all add: tinv_def)

lemma frame_queue:
  assumes "instr_queue s' = instr_queue s" "fetch_index s' = fetch_index s" "instr_queue_size s' = instr_queue_size s"
  shows "head s' = head s" "queued fl m s' = queued fl m s" "tqueue fl N m s' = tqueue fl N m s"
proof -
  show h: "head s' = head s" using assms by (simp add: head_def cong: option.case_cong)
  show q: "queued fl m s' = queued fl m s" using assms h by (simp add: queued_def del: upt_Suc)
  show "tqueue fl N m s' = tqueue fl N m s" using assms h q by (simp add: tqueue_def)
qed

lemma pending_cong: "(\<And>p. cdb_of s' p = cdb_of s p) \<Longrightarrow> pending c s' x = pending c s x"
  by (simp add: pending_def broadcasted_def split: option.split)

section \<open>Leaving the stations\<close>

lemma retire_inv:
  assumes "tinv fl N m c c c c s"
  shows "tinv fl N m c c c c (CDB_To_retire c s)" "commonDataBus (CDB_To_retire c s) = None"
    "mem (CDB_To_retire c s) = mem s" "reserv (CDB_To_retire c s) = reserv s" "fu (CDB_To_retire c s) = fu s"
    "instr_queue (CDB_To_retire c s) = instr_queue s" "fetch_index (CDB_To_retire c s) = fetch_index s"
proof -
  have cdb: "cdb_of s p \<noteq> 0 \<Longrightarrow> cdb_of s p < c" for p using tinvD(7) [OF assms, of p] by (simp add: ptime_def)
  then have "cdb_of s p < c" if "commonDataBus s = Some p" for p
    using tinvD(6) [OF assms, of p] that by (simp add: punit_def)
  then have r: "CDB_To_retire c s = s\<lparr> commonDataBus := None \<rparr>"
    by (cases "commonDataBus s") (simp_all add: CDB_To_retire_def)
  show "commonDataBus (CDB_To_retire c s) = None" "mem (CDB_To_retire c s) = mem s"
    "reserv (CDB_To_retire c s) = reserv s" "fu (CDB_To_retire c s) = fu s"
    "instr_queue (CDB_To_retire c s) = instr_queue s" "fetch_index (CDB_To_retire c s) = fetch_index s"
    by (simp_all add: r)
  let ?s = "s\<lparr> commonDataBus := None \<rparr>"
  have e: "head ?s = head s" "queued fl m ?s = queued fl m s" "tqueue fl N m ?s = tqueue fl N m s"
    by (rule frame_queue; simp)+
  have i: "issued ?s q = issued s q" for q by (simp add: issued_def)
  have pend: "pending c ?s x = pending c s x" for x by (rule pending_cong) simp
  have "punit fl N m ?s p" for p using tinvD(6) [OF assms, of p] by (auto simp: punit_def e i)
  moreover have "ptime fl N m c c c c ?s p" for p
    using tinvD(7) [OF assms, of p] cdb [of p] by (auto simp: ptime_def e i)
  moreover have "ptags fl m c ?s p" for p using tinvD(8) [OF assms, of p] by (simp add: ptags_def i pend)
  ultimately show "tinv fl N m c c c c (CDB_To_retire c s)"
    using tinvD(1-5) [OF assms] unfolding r
    by (simp add: tinv_def e i tstatic_def tshape_def torder_def tmap_def pend)
qed

text \<open>An instruction leaves its unit and its station.\<close>

definition drop_slot :: "fu_kind \<Rightarrow> nat \<Rightarrow> ptr \<Rightarrow> tom \<Rightarrow> tom" where
  "drop_slot u idx p s = s\<lparr> reserv := (reserv s)(u := rm_first p (reserv s u)),
     fu := (fu s)(u := (fu s u)[idx := None]) \<rparr>"

lemma fu_slot:
  assumes "tinv fl N m i c e k s" "idx < FU_SIZE u" "fu s u ! idx = Some p"
  shows "p \<in> ptrs (fu s u)" "p \<in> ptrs (reserv s u)" "exec_of s p \<noteq> 0" "cdb_of s p = 0" "issued s p"
    "rs_kind fl (op (m p)) = Some u" "op (mem s p) = op (m p)" "latency fl m p = FU_LATENCY u"
proof -
  show f: "p \<in> ptrs (fu s u)" using tinvD(2) [OF assms(1)] assms(2,3) by (auto simp: tshape_def ptrs_nth)
  then show r: "p \<in> ptrs (reserv s u)" "exec_of s p \<noteq> 0" "cdb_of s p = 0" "issued s p"
    "rs_kind fl (op (m p)) = Some u"
    using tinvD(6) [OF assms(1), of p] by (auto simp: punit_def)
  show "op (mem s p) = op (m p)" using tinvD(1) [OF assms(1)] by (simp add: tstatic_def)
  show "latency fl m p = FU_LATENCY u" using r(5) by (simp add: latency_def)
qed

lemma drop_slot_ptrs:
  assumes "tinv fl N m i c e k s" "idx < FU_SIZE u" "fu s u ! idx = Some p"
  shows "ptrs (reserv (drop_slot u idx p s) v) = ptrs (reserv s v) - {p}"
    "ptrs (fu (drop_slot u idx p s) v) = ptrs (fu s v) - {p}" "tshape (drop_slot u idx p s)"
proof -
  note f = fu_slot [OF assms]
  have sh: "inj_ptrs (reserv s u)" "inj_ptrs (fu s u)" "idx < length (fu s u)"
    using tinvD(2) [OF assms(1)] assms(2) by (simp_all add: tshape_def)
  have o: "p \<notin> ptrs (reserv s v)" "p \<notin> ptrs (fu s v)" if "v \<noteq> u"
    using tinvD(6) [OF assms(1), of p] f(6) that by (auto simp: punit_def)
  show "ptrs (reserv (drop_slot u idx p s) v) = ptrs (reserv s v) - {p}"
    using rm_first_ptrs(1) [OF sh(1) f(2)] o by (auto simp: drop_slot_def)
  show "ptrs (fu (drop_slot u idx p s) v) = ptrs (fu s v) - {p}"
    using ptrs_del [OF sh(2,3) assms(3)] o by (auto simp: drop_slot_def)
  show "tshape (drop_slot u idx p s)"
    using tinvD(2) [OF assms(1)] rm_first_ptrs(2) [OF sh(1) f(2)] inj_del [OF sh(2)]
    by (simp add: tshape_def drop_slot_def)
qed

text \<open>What a tag or a map entry points to uses the bus.\<close>

lemma drop_inv:
  assumes "tinv fl N m i c e k s" "idx < FU_SIZE u" "fu s u ! idx = Some p" "\<not> WRITES_CDB fl (op (m p))"
  shows "tinv fl N m i c e k (drop_slot u idx p s)"
proof -
  let ?s = "drop_slot u idx p s"
  note f = fu_slot [OF assms(1-3)] and d = drop_slot_ptrs [OF assms(1-3)]
  have q: "head ?s = head s" "queued fl m ?s = queued fl m s" "tqueue fl N m ?s = tqueue fl N m s"
    by (rule frame_queue; simp add: drop_slot_def)+
  have e: "issued ?s q = issued s q" "mem ?s = mem s" "map_table ?s = map_table s"
    "commonDataBus ?s = commonDataBus s" "fetch_index ?s = fetch_index s" for q
    by (simp_all add: issued_def drop_slot_def)
  have pend: "pending c ?s x = pending c s x" for x by (rule pending_cong) (simp add: e)
  have "punit fl N m ?s q" for q
    using tinvD(6) [OF assms(1), of q] f(3,5) assms(4) by (auto simp: punit_def e q d)
  moreover have "ptime fl N m i c e k ?s q" for q
    using tinvD(7) [OF assms(1), of q] by (simp add: ptime_def e q)
  moreover have "ptags fl m c ?s q" for q using tinvD(8) [OF assms(1), of q] by (simp add: ptags_def e pend)
  ultimately show ?thesis
    using tinvD(1-5) [OF assms(1)] d(3) by (simp add: tinv_def e q tstatic_def torder_def tmap_def pend)
qed

lemma to_cdb_inv:
  assumes "tinv fl N m c c c c s" "idx < FU_SIZE u" "fu s u ! idx = Some p" "WRITES_CDB fl (op (m p))"
    "EXECUTION_DONE u c (exec_of s p)" "commonDataBus s = None" "0 < c"
  shows "tinv fl N m c c c (c + 1) (to_cdb fl c s p u idx)"
    "to_cdb fl c s p u idx = drop_slot u idx p
       (s\<lparr> mem := (mem s)(p := (mem s p)\<lparr> tom_cdb_cycle := c \<rparr>), commonDataBus := Some p \<rparr>)"
proof -
  let ?t = "s\<lparr> mem := (mem s)(p := (mem s p)\<lparr> tom_cdb_cycle := c \<rparr>), commonDataBus := Some p \<rparr>"
  let ?s = "drop_slot u idx p ?t"
  note f = fu_slot [OF assms(1-3)] and d = drop_slot_ptrs [OF assms(1-3)]
  show eq: "to_cdb fl c s p u idx = ?s"
    using f(6,7) by (simp add: to_cdb_def rm_from_RS_def drop_slot_def)
  have d': "reserv ?s = reserv (drop_slot u idx p s)" "fu ?s = fu (drop_slot u idx p s)"
    by (simp_all add: drop_slot_def)
  have q: "head ?s = head s" "queued fl m ?s = queued fl m s" "tqueue fl N m ?s = tqueue fl N m s"
    by (rule frame_queue; simp add: drop_slot_def)+
  have e: "issued ?s q = issued s q" "mem ?s = (mem s)(p := (mem s p)\<lparr> tom_cdb_cycle := c \<rparr>)"
    "map_table ?s = map_table s" "commonDataBus ?s = Some p" "fetch_index ?s = fetch_index s" for q
    by (simp_all add: issued_def drop_slot_def)
  have cdb: "cdb_of s q \<noteq> 0 \<Longrightarrow> cdb_of s q < c" "cdb_of s q \<noteq> 0 \<Longrightarrow> q \<noteq> p" for q
    using tinvD(7) [OF assms(1), of q] f(4) by (auto simp: ptime_def)
  have pend: "pending c ?s x = pending c s x" for x
    using f(4) by (auto simp: pending_def broadcasted_def e split: option.split)
  have "punit fl N m ?s q" for q
    using tinvD(6) [OF assms(1), of q] f assms(6,7) by (auto simp: punit_def e q d d')
  moreover have "ptime fl N m c c c (c + 1) ?s q" for q
    using tinvD(7) [OF assms(1), of q] f assms(5) cdb [of q] by (auto simp: ptime_def e q EXECUTION_DONE_def)
  moreover have "ptags fl m c ?s q" for q
    using tinvD(8) [OF assms(1), of q] f(4) unfolding ptags_def pend e by auto
  moreover have "torder ?s"
    using tinvD(4) [OF assms(1)] f(4) cdb assms(7) unfolding torder_def e by (auto; metis less_irrefl)
  ultimately show "tinv fl N m c c c (c + 1) (to_cdb fl c s p u idx)"
    using tinvD(1-5) [OF assms(1)] d(3) unfolding eq
    by (simp add: tinv_def e q tstatic_def tmap_def pend tshape_def d')
qed

lemma fold_upt_inv:
  assumes "P 0 x" "\<And>i y. i < n \<Longrightarrow> P i y \<Longrightarrow> P (Suc i) (f i y)"
  shows "P n (fold f [0..<n] x)"
proof -
  have "k \<le> n \<Longrightarrow> P k (fold f [0..<k] x)" for k by (induction k) (auto intro: assms)
  then show ?thesis by simp
qed

text \<open>From \<open>s\<close> to \<open>s'\<close> some instructions have left their stations and units, and nothing else happened.\<close>

definition shrink :: "tom \<Rightarrow> tom \<Rightarrow> bool" where
  "shrink s s' = (mem s' = mem s \<and> instr_queue s' = instr_queue s \<and> fetch_index s' = fetch_index s
     \<and> commonDataBus s' = commonDataBus s
     \<and> (\<forall>u. ptrs (reserv s' u) \<subseteq> ptrs (reserv s u) \<and> ptrs (fu s' u) \<subseteq> ptrs (fu s u))
     \<and> (s' = s \<or> (\<exists>u. \<exists>p\<in>ptrs (fu s u). p \<notin> ptrs (reserv s' u))))"

lemma shrink_trans:
  assumes "shrink s t" "shrink t t'"
  shows "shrink s t'"
proof -
  have "\<exists>u. \<exists>p\<in>ptrs (fu s u). p \<notin> ptrs (reserv t' u)" if "t' \<noteq> s"
    using assms that unfolding shrink_def by (metis subsetD)
  then show ?thesis using assms unfolding shrink_def by (metis subset_trans)
qed

definition cdb_cand :: "flags \<Rightarrow> (ptr \<Rightarrow> instruction_t) \<Rightarrow> nat \<Rightarrow> tom \<Rightarrow> (ptr \<times> fu_kind \<times> nat) option \<Rightarrow> bool" where
  "cdb_cand fl m c s old = (case old of None \<Rightarrow> True | Some (p, u, idx) \<Rightarrow>
     idx < FU_SIZE u \<and> fu s u ! idx = Some p \<and> WRITES_CDB fl (op (m p)) \<and> EXECUTION_DONE u c (exec_of s p))"

text \<open>The first \<open>n\<close> slots of unit \<open>u\<close> were scanned: a finished instruction is still there only if one was found.\<close>

definition scanned :: "nat \<Rightarrow> fu_kind \<Rightarrow> nat \<Rightarrow> tom \<Rightarrow> (ptr \<times> fu_kind \<times> nat) option \<Rightarrow> bool" where
  "scanned c u n s old = (\<forall>j<n. \<forall>p. fu s u ! j = Some p \<longrightarrow> EXECUTION_DONE u c (exec_of s p) \<longrightarrow> old \<noteq> None)"

lemma cdb_step_inv:
  assumes "tinv fl N m c c c c s" "commonDataBus s = None" "cdb_cand fl m c s old" "idx < FU_SIZE u"
    "cdb_step fl c u idx (s, old) = (s', old')"
  shows "tinv fl N m c c c c s'" "commonDataBus s' = None" "cdb_cand fl m c s' old'" "shrink s s'"
    "scanned c u n s old \<Longrightarrow> n \<le> idx \<Longrightarrow> scanned c u n s' old'"
    "EXECUTION_DONE u c (exec_of s' p) \<Longrightarrow> fu s' u ! idx = Some p \<Longrightarrow> old' \<noteq> None"
    "old \<noteq> None \<Longrightarrow> old' \<noteq> None" "v \<noteq> u \<Longrightarrow> fu s' v = fu s v"
proof -
  consider (keep) "s' = s" "old' = old"
      "\<And>p. fu s u ! idx = Some p \<Longrightarrow> EXECUTION_DONE u c (exec_of s p) \<Longrightarrow> old' \<noteq> None"
    | (cand) p where "s' = s" "old' = Some (p, u, idx)" "fu s u ! idx = Some p" "WRITES_CDB fl (op (m p))"
        "EXECUTION_DONE u c (exec_of s p)"
    | (drop) p where "s' = drop_slot u idx p s" "old' = old" "fu s u ! idx = Some p" "\<not> WRITES_CDB fl (op (m p))"
  proof (cases "fu s u ! idx")
    case None
    then show ?thesis using assms(5) keep by (simp add: cdb_step_def)
  next
    case (Some p)
    note f = fu_slot [OF assms(1,4) Some]
    have d: "rm_from_RS fl p s = s\<lparr> reserv := (reserv s)(u := rm_first p (reserv s u)) \<rparr>"
      using f(6,7) by (simp add: rm_from_RS_def)
    show ?thesis using assms(5) Some f(7) keep cand drop
      by (auto simp: cdb_step_def d drop_slot_def split: if_splits option.splits prod.splits)
  qed
  note cs = this
  have len: "length (fu s u) = FU_SIZE u" for u using tinvD(2) [OF assms(1)] by (simp add: tshape_def)
  show "tinv fl N m c c c c s'" using cs assms(1,4) by cases (auto intro: drop_inv)
  show "commonDataBus s' = None" using cs assms(2) by cases (auto simp: drop_slot_def)
  show "cdb_cand fl m c s' old'"
    using cs assms(3,4) by cases (auto simp: cdb_cand_def drop_slot_def len nth_list_update split: option.splits)
  show "shrink s s'"
    using cs
  proof cases
    case (drop p)
    note d = drop_slot_ptrs [OF assms(1,4) drop(3)] and f = fu_slot [OF assms(1,4) drop(3)]
    have "\<exists>u. \<exists>q\<in>ptrs (fu s u). q \<notin> ptrs (reserv s' u)" using d f(1) drop(1) by auto
    then show ?thesis using d drop(1) by (auto simp: shrink_def drop_slot_def [of u idx p s])
  qed (auto simp: shrink_def)
  show "old \<noteq> None \<Longrightarrow> old' \<noteq> None" using cs by cases auto
  show "v \<noteq> u \<Longrightarrow> fu s' v = fu s v" using cs by cases (auto simp: drop_slot_def)
  show "scanned c u n s old \<Longrightarrow> n \<le> idx \<Longrightarrow> scanned c u n s' old'"
    using cs by cases (auto simp: scanned_def drop_slot_def)
  show "EXECUTION_DONE u c (exec_of s' p) \<Longrightarrow> fu s' u ! idx = Some p \<Longrightarrow> old' \<noteq> None"
    using cs assms(4) by cases (auto simp: drop_slot_def len)
qed

lemma cdb_scan_inv:
  assumes "tinv fl N m c c c c s" "commonDataBus s = None" "cdb_cand fl m c s old"
    "cdb_scan fl c u (s, old) = (s', old')"
  shows "tinv fl N m c c c c s'" "commonDataBus s' = None" "cdb_cand fl m c s' old'" "shrink s s'"
    "scanned c u (FU_SIZE u) s' old'" "old \<noteq> None \<Longrightarrow> old' \<noteq> None" "v \<noteq> u \<Longrightarrow> fu s' v = fu s v"
proof -
  let ?P = "\<lambda>n (t, o'). tinv fl N m c c c c t \<and> commonDataBus t = None \<and> cdb_cand fl m c t o' \<and> shrink s t
    \<and> scanned c u n t o' \<and> (old \<noteq> None \<longrightarrow> o' \<noteq> None) \<and> (\<forall>v. v \<noteq> u \<longrightarrow> fu t v = fu s v)"
  have "?P (FU_SIZE u) (fold (cdb_step fl c u) [0..<FU_SIZE u] (s, old))"
  proof (rule fold_upt_inv)
    show "?P 0 (s, old)" using assms by (simp add: shrink_def scanned_def)
    fix i y assume i: "i < FU_SIZE u" and y: "?P i y"
    obtain t o1 where y': "y = (t, o1)" by (cases y)
    obtain t' o2 where t': "cdb_step fl c u i (t, o1) = (t', o2)" by (cases "cdb_step fl c u i (t, o1)")
    have a: "tinv fl N m c c c c t" "commonDataBus t = None" "cdb_cand fl m c t o1" "shrink s t" "scanned c u i t o1"
      "old \<noteq> None \<longrightarrow> o1 \<noteq> None" "\<forall>v. v \<noteq> u \<longrightarrow> fu t v = fu s v" using y y' by auto
    note b = cdb_step_inv [OF a(1-3) i t']
    have "scanned c u (Suc i) t' o2"
      using b(5) [OF a(5)] b(6) by (auto simp: scanned_def less_Suc_eq)
    then show "?P (Suc i) (cdb_step fl c u i y)"
      using a b(1-4,7,8) shrink_trans [OF a(4) b(4)] by (simp add: y' t')
  qed
  then show "tinv fl N m c c c c s'" "commonDataBus s' = None" "cdb_cand fl m c s' old'" "shrink s s'"
    "scanned c u (FU_SIZE u) s' old'" "old \<noteq> None \<Longrightarrow> old' \<noteq> None" "v \<noteq> u \<Longrightarrow> fu s' v = fu s v"
    using assms(4) by (simp_all add: cdb_scan_def)
qed

text \<open>After the stage an instruction is on the bus, or nothing in the units is finished.\<close>

definition exec_effect :: "nat \<Rightarrow> tom \<Rightarrow> tom \<Rightarrow> bool" where
  "exec_effect c t s' = (s' = t \<and> (\<forall>u. \<forall>p\<in>ptrs (fu s' u). \<not> EXECUTION_DONE u c (exec_of s' p))
     \<or> (\<exists>p u. p \<in> ptrs (fu t u) \<and> commonDataBus s' = Some p
         \<and> instr_queue s' = instr_queue t \<and> fetch_index s' = fetch_index t
         \<and> mem s' = (mem t)(p := (mem t p)\<lparr> tom_cdb_cycle := c \<rparr>)
         \<and> (\<forall>v. ptrs (reserv s' v) = ptrs (reserv t v) - {p} \<and> ptrs (fu s' v) = ptrs (fu t v) - {p})))"

lemma execute_inv:
  assumes "tinv fl N m c c c c s" "commonDataBus s = None" "0 < c"
  defines "s' \<equiv> execute_To_CDB fl c s"
  shows "tinv fl N m c c c (c + 1) s'"
    "\<exists>t. shrink s t \<and> tinv fl N m c c c c t \<and> exec_effect c t s'"
proof -
  obtain s1 o1 where r1: "cdb_scan fl c FU_INT (s, None) = (s1, o1)" by fastforce
  obtain s2 o2 where r2: "cdb_scan fl c FU_FP (s1, o1) = (s2, o2)" by fastforce
  have c0: "cdb_cand fl m c s None" by (simp add: cdb_cand_def)
  note a = cdb_scan_inv [OF assms(1,2) c0 r1] and b = cdb_scan_inv [OF cdb_scan_inv(1-3) [OF assms(1,2) c0 r1] r2]
  have eq: "s' = (case o2 of None \<Rightarrow> s2 | Some (p, u, idx) \<Rightarrow> to_cdb fl c s2 p u idx)"
    using assms(2) by (simp add: s'_def execute_To_CDB_def r1 r2 split: option.splits)
  have sh: "shrink s s2" by (rule shrink_trans [OF a(4) b(4)])
  have mem: "mem s1 = mem s" "mem s2 = mem s" using a(4) sh by (simp_all add: shrink_def)
  show "tinv fl N m c c c (c + 1) s'"
  proof (cases o2)
    case None
    have "ptime fl N m c c c (c + 1) s2 p" for p using tinvD(7) [OF b(1), of p] by (auto simp: ptime_def)
    then show ?thesis using tinvD [OF b(1)] None by (simp add: eq tinv_def)
  next
    case (Some x)
    then obtain p u idx where x: "o2 = Some (p, u, idx)" by (cases x) auto
    show ?thesis using to_cdb_inv(1) [OF b(1) _ _ _ _ b(2) assms(3)] b(3) by (simp add: eq x cdb_cand_def)
  qed
  show "\<exists>t. shrink s t \<and> tinv fl N m c c c c t \<and> exec_effect c t s'"
  proof (intro exI [of _ s2] conjI sh b(1), cases o2)
    case None
    then have o1: "o1 = None" using b(6) by blast
    have len: "length (fu s2 u) = FU_SIZE u" for u using tinvD(2) [OF b(1)] by (simp add: tshape_def)
    have "\<not> EXECUTION_DONE u c (exec_of s2 p)" if p: "p \<in> ptrs (fu s2 u)" for u p
    proof (cases u)
      case FU_INT
      then show ?thesis using p a(5) b(7) [of FU_INT] o1 mem len [of FU_INT] by (auto simp: scanned_def ptrs_nth)
    next
      case FU_FP
      then show ?thesis using p b(5) None len [of FU_FP] by (auto simp: scanned_def ptrs_nth)
    qed
    then show "exec_effect c s2 s'"
      using None by (simp add: exec_effect_def eq)
  next
    case (Some x)
    then obtain p u idx where x: "o2 = Some (p, u, idx)" by (cases x) auto
    have k: "idx < FU_SIZE u" "fu s2 u ! idx = Some p" "WRITES_CDB fl (op (m p))" "EXECUTION_DONE u c (exec_of s2 p)"
      using b(3) by (simp_all add: x cdb_cand_def)
    note e = to_cdb_inv(2) [OF b(1) k(1-4) b(2) assms(3)] and d = drop_slot_ptrs [OF b(1) k(1,2)]
    have "p \<in> ptrs (fu s2 u)" using fu_slot [OF b(1) k(1,2)] by simp
    moreover have "ptrs (reserv s' v) = ptrs (reserv s2 v) - {p} \<and> ptrs (fu s' v) = ptrs (fu s2 v) - {p}" for v
      using d(1,2) [of v] by (simp add: eq x e drop_slot_def)
    ultimately show "exec_effect c s2 s'"
      by (auto simp: exec_effect_def eq x e drop_slot_def intro!: exI [of _ p] exI [of _ u])
  qed
qed

section \<open>Starting execution\<close>

lemma pick_older_fold:
  "fold (pick_older c m) rs best = r \<Longrightarrow>
   (r = best \<or> (\<exists>p. r = Some p \<and> Some p \<in> set rs \<and> issueable c m p))
   \<and> (r = None \<longrightarrow> best = None \<and> (\<forall>p. Some p \<in> set rs \<longrightarrow> \<not> issueable c m p))"
proof (induction rs arbitrary: best)
  case (Cons x rs)
  have "pick_older c m x best = best \<and> (best = None \<longrightarrow> (\<forall>p. x = Some p \<longrightarrow> \<not> issueable c m p))
     \<or> (\<exists>p. x = Some p \<and> issueable c m p \<and> pick_older c m x best = Some p)"
    by (auto simp: pick_older_def split: option.splits)
  with Cons.IH [of "pick_older c m x best"] Cons.prems show ?case by auto
qed auto

lemma oldest_issueable_some:
  "oldest_issueable c m rs = Some p \<Longrightarrow> p \<in> ptrs rs \<and> issueable c m p"
  using pick_older_fold [of c m rs None "Some p"] by (auto simp: oldest_issueable_def ptrs_def)

lemma oldest_issueable_none:
  "oldest_issueable c m rs = None \<Longrightarrow> p \<in> ptrs rs \<Longrightarrow> \<not> issueable c m p"
  using pick_older_fold [of c m rs None None] by (auto simp: oldest_issueable_def ptrs_def)

text \<open>From \<open>s\<close> to \<open>s'\<close> some waiting instructions have started.\<close>

definition started :: "nat \<Rightarrow> tom \<Rightarrow> tom \<Rightarrow> bool" where
  "started c s s' = (reserv s' = reserv s \<and> instr_queue s' = instr_queue s \<and> fetch_index s' = fetch_index s
     \<and> commonDataBus s' = commonDataBus s
     \<and> (\<forall>p. mem s' p = mem s p \<or> exec_of s p = 0 \<and> (\<exists>u. p \<in> ptrs (reserv s u))
          \<and> mem s' p = (mem s p)\<lparr> tom_execute_cycle := c \<rparr>))"

lemma started_trans: "0 < c \<Longrightarrow> started c s t \<Longrightarrow> started c t t' \<Longrightarrow> started c s t'"
  unfolding started_def by (metis (no_types, lifting) instruction_t.select_convs(8) instruction_t.surjective
      instruction_t.update_convs(8) less_irrefl)

lemma started_cases:
  "started c s s' \<Longrightarrow> mem s' q = mem s q \<or> exec_of s q = 0 \<and> (\<exists>u. q \<in> ptrs (reserv s u))
     \<and> mem s' q = (mem s q)\<lparr> tom_execute_cycle := c \<rparr>"
  unfolding started_def by (elim conjE) (erule spec)

lemma started_keep: "started c s s' \<Longrightarrow> exec_of s q \<noteq> 0 \<Longrightarrow> mem s' q = mem s q"
  unfolding started_def by (elim conjE allE [of _ q]) auto

lemma start_inv:
  assumes "tinv fl N m c c (c + 1) (c + 1) s" "0 < c" "idx < FU_SIZE u" "fu s u ! idx = None"
    "p \<in> ptrs (reserv s u)" "issueable c (mem s) p"
  defines "s' \<equiv> s\<lparr> fu := (fu s)(u := (fu s u)[idx := Some p]),
                mem := (mem s)(p := (mem s p)\<lparr> tom_execute_cycle := c \<rparr>) \<rparr>"
  shows "tinv fl N m c c (c + 1) (c + 1) s'" "started c s s'"
proof -
  have u: "issued s p" "rs_kind fl (op (m p)) = Some u" "cdb_of s p = 0"
    using tinvD(6) [OF assms(1), of p] assms(5) by (auto simp: punit_def)
  have ready: "all_null (Q (mem s p))" "exec_of s p = 0" "issue_of s p < c" using assms(6) by (auto simp: issueable_def)
  have fp: "p \<notin> ptrs (fu s v)" for v using tinvD(6) [OF assms(1), of p] ready(2) by (auto simp: punit_def)
  have len: "idx < length (fu s u)" "inj_ptrs (fu s u)" using tinvD(2) [OF assms(1)] assms(3) by (simp_all add: tshape_def)
  have fu': "ptrs (fu s' v) = (if v = u then insert p (ptrs (fu s u)) else ptrs (fu s v))" for v
    using ptrs_add [OF len(1) assms(4), of p] by (simp add: s'_def)
  have q: "head s' = head s" "queued fl m s' = queued fl m s" "tqueue fl N m s' = tqueue fl N m s"
    by (rule frame_queue; simp add: s'_def)+
  have e: "issued s' q = issued s q" "mem s' = (mem s)(p := (mem s p)\<lparr> tom_execute_cycle := c \<rparr>)"
    "map_table s' = map_table s" "commonDataBus s' = commonDataBus s" "fetch_index s' = fetch_index s"
    "reserv s' = reserv s" "cdb_of s' q = cdb_of s q" "Q (mem s' q) = Q (mem s q)" for q
    by (simp_all add: issued_def s'_def)
  have pend: "pending c s' x = pending c s x" for x by (rule pending_cong) (simp add: e)
  have "punit fl N m s' q" for q
    using tinvD(6) [OF assms(1), of q] assms(2,5) u fp by (auto simp: punit_def e q fu')
  moreover have "ptime fl N m c c (c + 1) (c + 1) s' q" for q
    using tinvD(7) [OF assms(1), of q] ready(3) assms(2) u(3) by (auto simp: ptime_def e q)
  moreover have "ptags fl m c s' q" for q
  proof (cases "q = p")
    case True
    have t: "length (Q (mem s p)) = 3" "\<forall>k<3. Q (mem s p) ! k = pending c s (producer fl m p k)"
      using tinvD(8) [OF assms(1), of p] u(1) by (auto simp: ptags_def)
    then have "\<forall>k<3. pending c s (producer fl m p k) = None"
      using ready(1) by (auto simp: all_null_def list_all_length)
    then have "\<forall>k<3. \<forall>j. producer fl m p k = Some j \<longrightarrow> cdb_of s j \<noteq> 0 \<and> cdb_of s j < c"
      by (auto simp: pending_def broadcasted_def split: option.splits if_splits)
    then show ?thesis using True t unfolding ptags_def pend by (simp add: e)
  next
    case False
    then show ?thesis using tinvD(8) [OF assms(1), of q] by (simp add: ptags_def pend e)
  qed
  moreover have "tshape s'"
    using tinvD(2) [OF assms(1)] inj_add [OF len(2) fp, of idx] by (auto simp: tshape_def s'_def)
  moreover have "issue_of s' q = issue_of s q" for q by (simp add: e(2))
  then have "torder s' = torder s" unfolding torder_def by (simp only: e(1,7))
  ultimately show "tinv fl N m c c (c + 1) (c + 1) s'"
    using tinvD(1-5) [OF assms(1)] by (simp add: tinv_def e q tstatic_def tmap_def pend)
  show "started c s s'" using ready(2) assms(5) by (auto simp: started_def s'_def)
qed

lemma issue_loop_inv:
  assumes "tinv fl N m c c (c + 1) (c + 1) s" "0 < c" "\<forall>i\<in>set is. i < FU_SIZE u"
  shows "tinv fl N m c c (c + 1) (c + 1) (issue_loop c u is s) \<and> started c s (issue_loop c u is s)"
  using assms(1,3)
proof (induction "is" arbitrary: s)
  case Nil
  then show ?case by (simp add: started_def)
next
  case (Cons idx is')
  show ?case
  proof (cases "fu s u ! idx = None \<and> oldest_issueable c (mem s) (reserv s u) \<noteq> None")
    case True
    then obtain p where p: "oldest_issueable c (mem s) (reserv s u) = Some p" by auto
    let ?s = "s\<lparr> fu := (fu s)(u := (fu s u)[idx := Some p]),
                mem := (mem s)(p := (mem s p)\<lparr> tom_execute_cycle := c \<rparr>) \<rparr>"
    have n: "fu s u ! idx = None" "idx < FU_SIZE u" using True Cons.prems by auto
    note a = start_inv [OF Cons.prems(1) assms(2) n(2,1) conjunct1 [OF oldest_issueable_some [OF p]]
        conjunct2 [OF oldest_issueable_some [OF p]]]
    have "tinv fl N m c c (c + 1) (c + 1) (issue_loop c u is' ?s) \<and> started c ?s (issue_loop c u is' ?s)"
      using Cons.IH [OF a(1)] Cons.prems(2) by simp
    then show ?thesis using started_trans [OF assms(2) a(2)] p n(1) by simp
  next
    case False
    then show ?thesis using Cons.IH [OF Cons.prems(1)] Cons.prems by (auto simp: started_def)
  qed
qed

lemma issue_loop_progress:
  assumes "fu s u ! idx = None" "p \<in> ptrs (reserv s u)" "issueable c (mem s) p" "0 < c"
    "tinv fl N m c c (c + 1) (c + 1) s" "\<forall>i\<in>set (idx # is). i < FU_SIZE u"
  shows "\<exists>q. exec_of s q = 0 \<and> exec_of (issue_loop c u (idx # is) s) q \<noteq> 0"
proof -
  obtain q where q: "oldest_issueable c (mem s) (reserv s u) = Some q"
    using assms(2,3) oldest_issueable_none by (cases "oldest_issueable c (mem s) (reserv s u)") auto
  let ?s = "s\<lparr> fu := (fu s)(u := (fu s u)[idx := Some q]),
                mem := (mem s)(q := (mem s q)\<lparr> tom_execute_cycle := c \<rparr>) \<rparr>"
  note o = oldest_issueable_some [OF q]
  have "tinv fl N m c c (c + 1) (c + 1) ?s"
    using start_inv(1) [OF assms(5,4) _ assms(1)] o assms(6) by simp
  then have "started c ?s (issue_loop c u is ?s)" using issue_loop_inv [of fl N m c ?s "is" u] assms(4,6) by simp
  then have "mem (issue_loop c u is ?s) q = mem ?s q" by (rule started_keep) (use assms(4) in simp)
  then show ?thesis using o assms(1,4) q by (intro exI [of _ q]) (simp add: issueable_def)
qed

section \<open>The broadcast\<close>

lemma untag_idem: "untag p (untag p xs) = untag p xs"
  by (simp add: untag_def)

lemma clear_tags_eq:
  "clear_tags p rs m q = (if Some q \<in> set rs then (m q)\<lparr> Q := untag p (Q (m q)) \<rparr> else m q)"
proof (induction rs arbitrary: m)
  case (Cons x rs)
  then show ?case by (cases x) (simp_all add: untag_idem)
qed simp

text \<open>The tags after the broadcast of what used the bus in cycle \<open>c\<close>.\<close>

lemma pending_next:
  assumes "tinv fl N m c c (c + 1) (c + 1) s" "\<And>p. cdb_of s' p = cdb_of s p"
  shows "pending (c + 1) s' x = (if x \<noteq> None \<and> x = commonDataBus s then None else pending c s x)"
proof (cases x)
  case (Some p)
  have t: "cdb_of s p \<noteq> 0 \<longrightarrow> cdb_of s p < c + 1" "cdb_of s p \<noteq> 0 \<and> c \<le> cdb_of s p \<longrightarrow> commonDataBus s = Some p"
    using tinvD(7) [OF assms(1), of p] unfolding ptime_def by blast+
  have b: "commonDataBus s = Some p \<longrightarrow> cdb_of s p \<noteq> 0"
    using tinvD(6) [OF assms(1), of p] unfolding punit_def by blast
  show ?thesis unfolding Some pending_def broadcasted_def assms(2) using t b
    by (cases "commonDataBus s = Some p") (auto simp: not_less)
qed (simp add: pending_def)

lemma broadcast_inv:
  assumes "tinv fl N m c c (c + 1) (c + 1) s" "0 < c"
  defines "s' \<equiv> (case commonDataBus s of Some p \<Rightarrow> broadcast_tags p s | None \<Rightarrow> s)"
  shows "tinv fl N m c (c + 1) (c + 1) (c + 1) s'"
    "reserv s' = reserv s" "fu s' = fu s" "instr_queue s' = instr_queue s" "instr_queue_size s' = instr_queue_size s"
    "fetch_index s' = fetch_index s" "commonDataBus s' = commonDataBus s"
    "issue_of s' q = issue_of s q" "exec_of s' q = exec_of s q" "cdb_of s' q = cdb_of s q" "disp_of s' q = disp_of s q"
proof -
  show e: "reserv s' = reserv s" "fu s' = fu s" "instr_queue s' = instr_queue s" "instr_queue_size s' = instr_queue_size s"
    "fetch_index s' = fetch_index s" "commonDataBus s' = commonDataBus s"
    "issue_of s' q = issue_of s q" "exec_of s' q = exec_of s q" "cdb_of s' q = cdb_of s q" "disp_of s' q = disp_of s q" for q
    by (auto simp: s'_def broadcast_tags_def clear_tags_eq split: option.split)
  have q: "head s' = head s" "queued fl m s' = queued fl m s" "tqueue fl N m s' = tqueue fl N m s"
    by (rule frame_queue; simp add: e)+
  have i: "issued s' q = issued s q" for q by (simp add: issued_def e)
  note pend = pending_next [OF assms(1) e(9)]
  have Qs: "Q (mem s' q) = (case commonDataBus s of Some p \<Rightarrow> if \<exists>u. q \<in> ptrs (reserv s u) then untag p (Q (mem s q))
      else Q (mem s q) | None \<Rightarrow> Q (mem s q))" for q
  proof -
    have u: "(\<exists>u. q \<in> ptrs (reserv s u)) = (Some q \<in> set (reserv s FU_INT) \<or> Some q \<in> set (reserv s FU_FP))"
      by (simp add: ex_fu_kind ptrs_def)
    show ?thesis unfolding u
      by (cases "commonDataBus s") (simp_all add: s'_def broadcast_tags_def clear_tags_eq untag_idem)
  qed
  have ok: "tstatic m s'"
    using tinvD(1) [OF assms(1)] by (auto simp: tstatic_def s'_def broadcast_tags_def clear_tags_eq split: option.split)
  have mt: "length (map_table s') = length (map_table s)"
    "r < length (map_table s) \<Longrightarrow> map_table s' ! r = (if map_table s ! r = commonDataBus s then None else map_table s ! r)" for r
    by (auto simp: s'_def broadcast_tags_def untag_nth split: option.split)
  have "tshape s'" using tinvD(2) [OF assms(1)] by (simp add: tshape_def e mt)
  moreover have "tmap fl m (c + 1) s'"
    using tinvD(2,5) [OF assms(1)] unfolding tmap_def tshape_def pend q
    by (auto simp: mt pending_def split: option.splits)
  moreover have "punit fl N m s' p" for p
  proof -
    have "\<not> issued s p \<Longrightarrow> p \<notin> ptrs (reserv s u)" for u using tinvD(6) [OF assms(1), of p] unfolding punit_def by blast
    then have "\<not> issued s p \<Longrightarrow> Q (mem s' p) = Q (mem s p)" by (auto simp: Qs split: option.split)
    then show ?thesis using tinvD(6) [OF assms(1), of p] unfolding punit_def i e q by auto
  qed
  moreover have "ptime fl N m c (c + 1) (c + 1) (c + 1) s' p" for p
    using tinvD(7) [OF assms(1), of p] unfolding ptime_def i e q by auto
  moreover have "ptags fl m (c + 1) s' p" for p
  proof (cases "issued s p")
    case True
    have t: "length (Q (mem s p)) = 3" "\<And>k. k < 3 \<Longrightarrow> Q (mem s p) ! k = pending c s (producer fl m p k)"
      "\<And>k j. k < 3 \<Longrightarrow> exec_of s p \<noteq> 0 \<Longrightarrow> producer fl m p k = Some j \<Longrightarrow> cdb_of s j \<noteq> 0 \<and> cdb_of s j < exec_of s p"
      using tinvD(8) [OF assms(1), of p] True by (auto simp: ptags_def)
    have "Q (mem s' p) ! k = pending (c + 1) s' (producer fl m p k)" if k: "k < 3" for k
    proof (cases "\<exists>u. p \<in> ptrs (reserv s u)")
      case True
      then show ?thesis using t(1) t(2) [OF k] k unfolding pend
        by (auto simp: Qs untag_nth pending_def split: option.splits)
    next
      case False
      then have x: "exec_of s p \<noteq> 0" "exec_of s p < c + 1"
        using tinvD(6,7) [OF assms(1), of p] True by (auto simp: punit_def ptime_def)
      then have "pending c s (producer fl m p k) = None"
        using t(3) [OF k] by (auto simp: pending_def broadcasted_def split: option.split)
      then show ?thesis using t(2) [OF k] False unfolding pend by (auto simp: Qs split: option.split)
    qed
    moreover have "length (Q (mem s' p)) = 3" using t(1) by (auto simp: Qs split: option.split)
    ultimately show ?thesis using t(3) by (simp add: ptags_def i e)
  qed (simp add: ptags_def i)
  moreover have "torder s' = torder s" unfolding torder_def by (simp only: i e)
  ultimately show "tinv fl N m c (c + 1) (c + 1) (c + 1) s'"
    using ok tinvD(3,4) [OF assms(1)] by (simp add: tinv_def q)
qed

end
