(* ===== verification/Tomasulo_Run.thy ===== *)
theory Tomasulo_Run
  imports Tomasulo_Correct
begin

text \<open>
  The front end of the pipeline (issue to the stations and fetch), the whole cycle and the run of
  \<^verbatim>\<open>runTomasulo\<close>: every cycle keeps the invariant and decreases a measure until the simulation is done.
\<close>

section \<open>The front of the queue\<close>

lemma queue_front:
  assumes "tqueue fl N m s"
  shows "instr_queue s ! 0 = (case queued fl m s of [] \<Rightarrow> None | p # ys \<Rightarrow> Some p)"
    "queued fl m s = p # ys \<Longrightarrow> head s = p" "queued fl m s = [] \<Longrightarrow> head s = Suc (fetch_index s)"
proof -
  have q: "instr_queue s = map Some (queued fl m s) @ replicate (INSTR_QUEUE_SIZE - length (queued fl m s)) None"
    using assms by (simp add: tqueue_def Let_def)
  then show f: "instr_queue s ! 0 = (case queued fl m s of [] \<Rightarrow> None | p # ys \<Rightarrow> Some p)"
    by (simp add: INSTR_QUEUE_SIZE_def split: list.split)
  then show "queued fl m s = p # ys \<Longrightarrow> head s = p" "queued fl m s = [] \<Longrightarrow> head s = Suc (fetch_index s)"
    by (simp_all add: head_def)
qed

lemma pop_queue:
  assumes "tqueue fl N m s" "queued fl m s = p # ys" "instr_queue t = instr_queue s" "fetch_index t = fetch_index s"
    "instr_queue_size t = instr_queue_size s"
  defines "s' \<equiv> IFQ_pop_front t"
  shows "queued fl m s' = ys" "tqueue fl N m s'" "p < head s'" "\<And>z. p < z \<Longrightarrow> z < head s' \<Longrightarrow> trap_at fl m z"
    "fetch_index s' = fetch_index s" "mem s' = mem t" "reserv s' = reserv t" "fu s' = fu t" "map_table s' = map_table t"
    "commonDataBus s' = commonDataBus t" "0 < p" "p \<le> fetch_index s" "\<not> trap_at fl m p"
proof -
  let ?P = "\<lambda>p. \<not> trap_at fl m p" and ?f = "fetch_index s"
  have q: "instr_queue s = map Some (p # ys) @ replicate (INSTR_QUEUE_SIZE - length (p # ys)) None"
    "instr_queue_size s = length (p # ys)" "length (p # ys) \<le> INSTR_QUEUE_SIZE" "?f \<le> N + 1" "0 < head s"
    using assms(1,2) by (auto simp: tqueue_def Let_def)
  have "filter ?P [head s..<Suc ?f] = p # ys" using assms(2) by (simp add: queued_def del: upt_Suc)
  note f = filter_upt_hd [OF this]
  have n: "INSTR_QUEUE_SIZE - length ys = Suc (INSTR_QUEUE_SIZE - length (p # ys))" using q(3) by simp
  have s': "instr_queue s' = map Some ys @ replicate (INSTR_QUEUE_SIZE - length ys) None"
    "instr_queue_size s' = length ys" "fetch_index s' = ?f"
    using q assms(3-5) by (auto simp: s'_def IFQ_pop_front_def n replicate_append_same)
  then show "fetch_index s' = ?f" by simp
  have h: "head s' = (case ys of [] \<Rightarrow> Suc ?f | y # _ \<Rightarrow> y)"
    using s' by (auto simp: head_def INSTR_QUEUE_SIZE_def split: list.split)
  have ys: "queued fl m s' = ys \<and> p < head s' \<and> head s' \<le> Suc ?f \<and> (\<forall>z. p < z \<longrightarrow> z < head s' \<longrightarrow> \<not> ?P z)"
  proof (cases ys)
    case Nil
    then show ?thesis using f(2,5) h s'(3) by (auto simp: queued_def filter_empty_conv simp del: upt_Suc)
  next
    case (Cons y zs)
    note g = filter_upt_hd [OF f(5) [unfolded Cons]]
    then show ?thesis using h s'(3) Cons by (auto simp: queued_def simp del: upt_Suc)
  qed
  then show "queued fl m s' = ys" "p < head s'" "\<And>z. p < z \<Longrightarrow> z < head s' \<Longrightarrow> trap_at fl m z" by auto
  show "tqueue fl N m s'" using ys s' q(3,4) by (auto simp: tqueue_def Let_def)
  show "mem s' = mem t" "reserv s' = reserv t" "fu s' = fu t" "map_table s' = map_table t" "commonDataBus s' = commonDataBus t"
    by (simp_all add: s'_def IFQ_pop_front_def)
  show "0 < p" "p \<le> ?f" "\<not> trap_at fl m p" using f(1-3) q(5) by auto
qed

lemma read_tags_ok:
  assumes "regs_ok rs" "length rs = length qs" "length mt = MD_TOTAL_REGS"
  shows "\<exists>qs'. read_tags mt rs qs = Some qs' \<and> length qs' = length rs
    \<and> (\<forall>k<length rs. qs' ! k = (if rs ! k = DNA then qs ! k else mt ! nat (rs ! k)))"
  using assms(2,1,3)
proof (induction rs qs rule: list_induct2)
  case (Cons r rs q qs)
  obtain q' where "(if r = DNA then Some q else if 0 \<le> r then rd mt (nat r) else None) = Some q'"
    "q' = (if r = DNA then q else mt ! nat r)"
    using Cons.prems by (auto simp: regs_ok_def rd_in)
  with Cons show ?case by (auto simp: regs_ok_def nth_Cons split: nat.split)
qed simp

lemma write_map_ok:
  assumes "regs_ok rs" "length mt = MD_TOTAL_REGS"
  shows "\<exists>mt'. write_map p rs mt = Some mt' \<and> length mt' = MD_TOTAL_REGS
    \<and> (\<forall>r<MD_TOTAL_REGS. mt' ! r = (if int r \<in> set rs then Some p else mt ! r))"
  using assms
proof (induction rs arbitrary: mt)
  case (Cons r rs)
  show ?case
  proof (cases "r = DNA")
    case True
    then show ?thesis using Cons by (auto simp: regs_ok_def DNA_def)
  next
    case False
    then have r: "0 \<le> r" "nat r < MD_TOTAL_REGS" using Cons.prems by (auto simp: regs_ok_def)
    have "write_map p (r # rs) mt = write_map p rs (mt[nat r := Some p])"
      using False r Cons.prems by (simp add: wr_in)
    then show ?thesis using Cons.IH [of "mt[nat r := Some p]"] Cons.prems r
      by (auto simp: regs_ok_def nth_list_update split: if_splits)
  qed
qed simp

section \<open>Issue to the stations\<close>

text \<open>The state after the front of the queue was handled.  \<open>moved\<close> is what the measure needs of it.\<close>

definition moved :: "flags \<Rightarrow> (ptr \<Rightarrow> instruction_t) \<Rightarrow> tom \<Rightarrow> tom \<Rightarrow> bool" where
  "moved fl m s s' = (fetch_index s' = fetch_index s \<and> commonDataBus s' = commonDataBus s
     \<and> (\<forall>q. exec_of s' q = exec_of s q) \<and> (\<exists>p ys. queued fl m s = p # ys \<and> queued fl m s' = ys
       \<and> (\<forall>u. ptrs (reserv s' u) \<subseteq> insert p (ptrs (reserv s u)))))"

lemma front_facts:
  assumes "tinv fl N m i c e k s" "queued fl m s = p # ys" "trace_ok fl N cap m"
  shows "\<not> issued s p" "exec_of s p = 0" "cdb_of s p = 0" "Q (mem s p) = [None, None, None]" "0 < disp_of s p" "disp_of s p < i"
    "p \<notin> ptrs (reserv s u)" "p \<notin> ptrs (fu s u)" "p \<le> N + 1" "0 < p" "rs_class fl m p \<Longrightarrow> p \<le> N"
proof -
  note q = pop_queue [OF tinvD(3) [OF assms(1)] assms(2) refl refl refl]
  have h: "head s = p" by (rule queue_front(2) [OF tinvD(3) [OF assms(1)] assms(2)])
  show n: "\<not> issued s p" using tinvD(6) [OF assms(1), of p] h by (auto simp: punit_def)
  show p: "p \<le> N + 1" "0 < p" using q tinvD(3) [OF assms(1)] by (auto simp: tqueue_def Let_def)
  show "exec_of s p = 0" "cdb_of s p = 0" "Q (mem s p) = [None, None, None]" "p \<notin> ptrs (reserv s u)" "p \<notin> ptrs (fu s u)"
    using tinvD(6) [OF assms(1), of p] n p by (auto simp: punit_def)
  show "0 < disp_of s p" "disp_of s p < i" using tinvD(7) [OF assms(1), of p] assms(2) by (auto simp: ptime_def)
  have "\<not> rs_class fl m (N + 1)"
    using assms(3) by (auto simp: trace_ok_def rs_class_def rs_kind_def USES_INT_FU_def USES_FP_FU_def has_flag_def)
  then show "rs_class fl m p \<Longrightarrow> p \<le> N" using p(1) by (cases "p = N + 1") auto
qed

lemma class_before_head:
  assumes "tqueue fl N m s" "queued fl m s = p # ys" "p < h" "\<And>z. p < z \<Longrightarrow> z < h \<Longrightarrow> trap_at fl m z"
  shows "q < h \<and> rs_class fl m q \<longleftrightarrow> (q < p \<or> q = p) \<and> rs_class fl m q"
    "last_writer fl m h r = last_writer fl m (Suc p) r"
proof -
  have n: "\<not> rs_class fl m z" if "p < z" "z < h" for z using assms(4) [OF that] by (simp add: rs_class_def)
  then show "q < h \<and> rs_class fl m q \<longleftrightarrow> (q < p \<or> q = p) \<and> rs_class fl m q"
    using assms(3) by (metis nat_neq_iff order.strict_trans)
  show "last_writer fl m h r = last_writer fl m (Suc p) r"
    by (rule last_writer_skip) (use assms(3) n in auto)
qed

lemma pop_inv:
  assumes "tinv fl N m c (c + 1) (c + 1) (c + 1) s" "queued fl m s = p # ys" "trace_ok fl N cap m" "\<not> rs_class fl m p"
  shows "tinv fl N m (c + 1) (c + 1) (c + 1) (c + 1) (IFQ_pop_front s)" "moved fl m s (IFQ_pop_front s)"
proof -
  let ?s = "IFQ_pop_front s"
  note q = pop_queue [OF tinvD(3) [OF assms(1)] assms(2) refl refl refl]
  have h: "head s = p" by (rule queue_front(2) [OF tinvD(3) [OF assms(1)] assms(2)])
  note k = class_before_head [OF tinvD(3) [OF assms(1)] assms(2) q(3,4)]
  have i: "issued ?s q = issued s q" for q by (simp add: issued_def q)
  have pend: "pending d ?s x = pending d s x" for d x by (rule pending_cong) (simp add: q)
  have "punit fl N m ?s z" for z
    using tinvD(6) [OF assms(1), of z] k(1) [of z] assms(4) unfolding punit_def i q h by auto
  moreover have "ptime fl N m (c + 1) (c + 1) (c + 1) (c + 1) ?s z" for z
    using tinvD(7) [OF assms(1), of z] assms(2) unfolding ptime_def i q by auto
  moreover have "ptags fl m (c + 1) ?s z" for z
    using tinvD(8) [OF assms(1), of z] unfolding ptags_def i q pend .
  moreover have "tmap fl m (c + 1) ?s"
    using tinvD(5) [OF assms(1)] assms(4) by (simp add: tmap_def pend k(2) q(9) h)
  moreover have "torder ?s = torder s" unfolding torder_def i q ..
  ultimately show "tinv fl N m (c + 1) (c + 1) (c + 1) (c + 1) ?s"
    using tinvD(1,2,4) [OF assms(1)] q(2) by (simp add: tinv_def tstatic_def tshape_def q)
  show "moved fl m s ?s" using assms(2) q by (auto simp: moved_def)
qed

lemma issue_front_inv:
  assumes "tinv fl N m c (c + 1) (c + 1) (c + 1) s" "queued fl m s = p # ys" "trace_ok fl N cap m" "rs_class fl m p"
    "0 < c" "rs_kind fl (op (m p)) = Some u" "first_free (reserv s u) = Some idx"
  defines "s1 \<equiv> s\<lparr> reserv := (reserv s)(u := (reserv s u)[idx := Some p]),
                      mem := (mem s)(p := (mem s p)\<lparr> tom_issue_cycle := c \<rparr>) \<rparr>"
  shows "\<exists>s2. set_tags p s1 = Some s2 \<and> tinv fl N m (c + 1) (c + 1) (c + 1) (c + 1) (IFQ_pop_front s2)
    \<and> moved fl m s (IFQ_pop_front s2)"
proof -
  note f = front_facts [OF assms(1-3)]
  have pN: "p \<in> {1..N}" using f(10) f(11) [OF assms(4)] by auto
  have st: "r_in (mem s p) = r_in (m p)" "r_out (mem s p) = r_out (m p)"
    using tinvD(1) [OF assms(1)] by (simp_all add: tstatic_def)
  have tr: "length (r_in (m p)) = 3" "regs_ok (r_in (m p))" "regs_ok (r_out (m p))"
    using assms(3) pN by (simp_all add: trace_ok_def)
  have mt: "length (map_table s) = MD_TOTAL_REGS" using tinvD(2) [OF assms(1)] by (simp add: tshape_def)
  obtain qs where qs: "read_tags (map_table s) (r_in (m p)) (Q (mem s p)) = Some qs" "length qs = 3"
    "\<And>k. k < 3 \<Longrightarrow> qs ! k = (if r_in (m p) ! k = DNA then None else map_table s ! nat (r_in (m p) ! k))"
    using read_tags_ok [OF tr(2) _ mt, of "Q (mem s p)"] tr(1) f(4) by (auto simp: nth_Cons split: nat.splits)
  obtain mt' where mt': "write_map p (r_out (m p)) (map_table s) = Some mt'" "length mt' = MD_TOTAL_REGS"
    "\<And>r. r < MD_TOTAL_REGS \<Longrightarrow> mt' ! r = (if int r \<in> set (r_out (m p)) then Some p else map_table s ! r)"
    using write_map_ok [OF tr(3) mt] by blast
  let ?t = "s\<lparr> reserv := (reserv s)(u := (reserv s u)[idx := Some p]),
      mem := (mem s)(p := (mem s p)\<lparr> tom_issue_cycle := c, Q := qs \<rparr>), map_table := mt' \<rparr>"
  let ?s = "IFQ_pop_front ?t"
  have set: "set_tags p s1 = Some ?t" using qs(1) mt'(1) by (simp add: set_tags_def s1_def st)
  note q = pop_queue [OF tinvD(3) [OF assms(1)] assms(2), of ?t, simplified]
  have h: "head s = p" by (rule queue_front(2) [OF tinvD(3) [OF assms(1)] assms(2)])
  note k = class_before_head [OF tinvD(3) [OF assms(1)] assms(2) q(3,4)]
  have ff: "idx < length (reserv s u)" "reserv s u ! idx = None" using first_free_some [OF assms(7)] by auto
  have rs: "ptrs (reserv ?s v) = (if v = u then insert p (ptrs (reserv s u)) else ptrs (reserv s v))" for v
    using ptrs_add [OF ff, of p] by (simp add: q)
  have i: "issued ?s z = (z = p \<or> issued s z)" for z using assms(5) by (simp add: issued_def q)
  have x: "exec_of ?s z = exec_of s z" "cdb_of ?s z = cdb_of s z" "disp_of ?s z = disp_of s z" for z by (simp_all add: q)
  have y: "issue_of ?s z = (if z = p then c else issue_of s z)" "Q (mem ?s z) = (if z = p then qs else Q (mem s z))" for z
    by (simp_all add: q)
  have pend: "pending d ?s z = pending d s z" for d z by (rule pending_cong) (simp add: x)
  have "punit fl N m ?s z" for z
  proof (cases "z = p")
    case True
    then show ?thesis using f(2,3,8) assms(4,6) f(11) q(3) tinvD(6) [OF assms(1), of p] f(1,7)
      unfolding punit_def i x rs q(8,10) by auto
  next
    case False
    have a: "issued ?s z = issued s z" "Q (mem ?s z) = Q (mem s z)" "z \<in> ptrs (reserv ?s v) \<longleftrightarrow> z \<in> ptrs (reserv s v)"
      "z < head ?s \<and> z \<le> N \<and> rs_class fl m z \<longleftrightarrow> z < head s \<and> z \<le> N \<and> rs_class fl m z" for v
      using False k(1) [of z] by (auto simp: i y rs h)
    show ?thesis using tinvD(6) [OF assms(1), of z] unfolding punit_def a x q(8,10) .
  qed
  moreover have "ptime fl N m (c + 1) (c + 1) (c + 1) (c + 1) ?s z" for z
    using tinvD(7) [OF assms(1), of z] assms(2) f(1-6) unfolding ptime_def i x y q by auto
  moreover have "ptags fl m (c + 1) ?s z" for z
  proof (cases "z = p")
    case True
    have "qs ! k = pending (c + 1) s (producer fl m p k)" if "k < 3" for k
    proof (cases "r_in (m p) ! k = DNA")
      case True
      then show ?thesis using qs(3) [OF that] by (simp add: producer_def pending_def)
    next
      case False
      then have "nat (r_in (m p) ! k) < MD_TOTAL_REGS"
        using tr(1,2) that by (auto simp: regs_ok_def list_all_length)
      then show ?thesis using qs(3) [OF that] False tinvD(5) [OF assms(1)] by (simp add: tmap_def producer_def h)
    qed
    then show ?thesis using True qs(2) f(2) by (simp add: ptags_def pend x y)
  next
    case False
    then show ?thesis using tinvD(8) [OF assms(1), of z] unfolding ptags_def i x y pend by simp
  qed
  moreover have "tmap fl m (c + 1) ?s"
  proof -
    have "pending (c + 1) s (Some p) = Some p" using f(3) by (simp add: pending_def broadcasted_def)
    then show ?thesis using tinvD(5) [OF assms(1)] mt'(3) assms(4)
      unfolding tmap_def by (simp add: pend k(2) q(9) h)
  qed
  moreover have "torder ?s"
  proof -
    have z: "issue_of s z < c \<and> z < p" if "issued s z" for z
      using tinvD(6,7) [OF assms(1), of z] that by (auto simp: punit_def ptime_def h)
    have "issue_of ?s a < issue_of ?s b" if "issued ?s a" "issued ?s b" "a < b" for a b
    proof (cases "b = p")
      case True
      then show ?thesis using that z [of a] by (auto simp: i y)
    next
      case False
      then have "issued s b" "issued s a" "a \<noteq> p" using that z [of b] by (auto simp: i)
      then show ?thesis using tinvD(4) [OF assms(1)] that(3) False unfolding torder_def y by simp
    qed
    moreover have "cdb_of s a \<noteq> 0 \<Longrightarrow> cdb_of s a = cdb_of s b \<Longrightarrow> a = b" for a b
      using tinvD(4) [OF assms(1)] unfolding torder_def by blast
    ultimately show ?thesis unfolding torder_def x by blast
  qed
  moreover have "tstatic m ?s" using tinvD(1) [OF assms(1)] by (simp add: tstatic_def q)
  moreover have "tshape ?s"
    using tinvD(2) [OF assms(1)] inj_add [of "reserv s u" p idx] f(7) mt'(2) by (auto simp: tshape_def q)
  ultimately have "tinv fl N m (c + 1) (c + 1) (c + 1) (c + 1) ?s" using q(2) by (simp add: tinv_def)
  moreover have "moved fl m s ?s" using assms(2) q rs x by (auto simp: moved_def)
  ultimately show ?thesis using set by blast
qed

lemma dispatch_inv:
  assumes "tinv fl N m c (c + 1) (c + 1) (c + 1) s" "trace_ok fl N cap m" "0 < c"
  shows "succeeds (dispatch_To_issue fl c s) (\<lambda>s'. tinv fl N m (c + 1) (c + 1) (c + 1) (c + 1) s'
    \<and> (moved fl m s s' \<or> s' = s \<and> (queued fl m s = [] \<or> (\<exists>u. ptrs (reserv s u) \<noteq> {}))))"
proof -
  have id: "tinv fl N m (c + 1) (c + 1) (c + 1) (c + 1) s"
  proof -
    have "ptime fl N m (c + 1) (c + 1) (c + 1) (c + 1) s p" for p
      using tinvD(7) [OF assms(1), of p] by (auto simp: ptime_def)
    then show ?thesis using tinvD [OF assms(1)] by (simp add: tinv_def)
  qed
  note qf = queue_front(1) [OF tinvD(3) [OF assms(1)]]
  show ?thesis
  proof (cases "queued fl m s")
    case Nil
    then show ?thesis using qf id by (simp add: dispatch_To_issue_def)
  next
    case (Cons p ys)
    have op: "op (mem s p) = op (m p)" using tinvD(1) [OF assms(1)] by (simp add: tstatic_def)
    have p: "0 < p" "\<not> trap_at fl m p"
      using pop_queue(11,13) [OF tinvD(3) [OF assms(1)] Cons refl refl refl] by auto
    show ?thesis
    proof (cases "IS_BRANCH fl (op (m p)) \<or> rs_kind fl (op (m p)) = None")
      case True
      then have "\<not> rs_class fl m p" by (auto simp: rs_class_def)
      from pop_inv [OF assms(1) Cons assms(2) this] True show ?thesis
        using qf Cons op by (auto simp: dispatch_To_issue_def)
    next
      case False
      then obtain u where u: "rs_kind fl (op (m p)) = Some u" by auto
      have cl: "rs_class fl m p" using False p by (simp add: rs_class_def)
      show ?thesis
      proof (cases "first_free (reserv s u)")
        case None
        have "length (reserv s u) \<noteq> 0" using tinvD(2) [OF assms(1)] by (cases u) (auto simp: tshape_def)
        then obtain q where "Some q \<in> set (reserv s u)" using None unfolding first_free_none
          by (metis length_0_conv list.set_intros(1) neq_Nil_conv not_None_eq)
        then have "\<exists>u. ptrs (reserv s u) \<noteq> {}" by (auto simp: ptrs_def)
        then show ?thesis using None False u qf Cons op id by (simp add: dispatch_To_issue_def)
      next
        case (Some idx)
        from issue_front_inv [OF assms(1) Cons assms(2) cl assms(3) u Some] False Some show ?thesis
          using qf Cons op u by (auto simp: dispatch_To_issue_def)
      qed
    qed
  qed
qed

section \<open>Fetch\<close>

lemma fetch_loop_ok:
  assumes "i \<le> N" "N + 1 < cap" "\<not> IS_TRAP fl (op (m (N + 1)))"
  shows "\<exists>p. fetch_loop fl cap m i = Some p \<and> i < p \<and> p \<le> N + 1 \<and> \<not> IS_TRAP fl (op (m p))
    \<and> (\<forall>z. i < z \<and> z < p \<longrightarrow> IS_TRAP fl (op (m z)))"
  using assms(1)
proof (induction "N - i" arbitrary: i)
  case 0
  then have "i + 1 = N + 1" by simp
  then show ?case using assms(2,3) by (subst fetch_loop.simps) (auto simp: get_ptr_def)
next
  case (Suc d)
  show ?case
  proof (cases "IS_TRAP fl (op (m (i + 1)))")
    case True
    have d: "d = N - (i + 1)" "i + 1 \<le> N" using Suc.hyps(2) by simp_all
    from Suc.hyps(1) [OF d] obtain p where p: "fetch_loop fl cap m (i + 1) = Some p" "i + 1 < p" "p \<le> N + 1" "\<not> IS_TRAP fl (op (m p))"
      "\<forall>z. i + 1 < z \<and> z < p \<longrightarrow> IS_TRAP fl (op (m z))" by blast
    have "\<forall>z. i < z \<and> z < p \<longrightarrow> IS_TRAP fl (op (m z))"
      using p(5) True by (metis Suc_eq_plus1 Suc_lessI)
    then show ?thesis using p True assms(2) Suc.prems by (subst fetch_loop.simps) (auto simp: get_ptr_def)
  next
    case False
    then show ?thesis using assms(2) Suc.prems by (subst fetch_loop.simps) (auto simp: get_ptr_def)
  qed
qed

lemma push_queue:
  assumes "tqueue fl N m s" "fetch_index s < p" "p \<le> N + 1" "\<not> trap_at fl m p"
    "\<And>z. fetch_index s < z \<Longrightarrow> z < p \<Longrightarrow> trap_at fl m z" "length (queued fl m s) < INSTR_QUEUE_SIZE"
    "instr_queue s' = (instr_queue s)[length (queued fl m s) := Some p]" "fetch_index s' = p"
    "instr_queue_size s' = length (queued fl m s) + 1"
  shows "queued fl m s' = queued fl m s @ [p]" "tqueue fl N m s'" "head s \<le> head s'"
    "\<And>z. head s \<le> z \<Longrightarrow> z < head s' \<Longrightarrow> trap_at fl m z"
proof -
  let ?P = "\<lambda>p. \<not> trap_at fl m p" and ?xs = "queued fl m s"
  have q: "instr_queue s = map Some ?xs @ replicate (INSTR_QUEUE_SIZE - length ?xs) None" "0 < head s"
    "head s \<le> Suc (fetch_index s)" using assms(1) by (auto simp: tqueue_def Let_def)
  obtain n where n: "INSTR_QUEUE_SIZE - length ?xs = Suc n" using assms(6) by (metis Suc_diff_Suc)
  have q': "instr_queue s' = map Some (?xs @ [p]) @ replicate (INSTR_QUEUE_SIZE - length (?xs @ [p])) None"
    using assms(7) q(1) n by (simp add: list_update_append)
  have h: "head s' = (case ?xs of [] \<Rightarrow> p | y # _ \<Rightarrow> y)" using q' by (simp add: head_def split: list.split)
  have new: "filter ?P [Suc (fetch_index s)..<Suc p] = [p]"
    using assms(2,4,5) by (simp add: filter_empty_conv)
  have "queued fl m s' = ?xs @ [p] \<and> head s \<le> head s' \<and> head s' \<le> Suc p
    \<and> (\<forall>z. head s \<le> z \<longrightarrow> z < head s' \<longrightarrow> trap_at fl m z)"
  proof (cases ?xs)
    case Nil
    then have "head s = Suc (fetch_index s)" by (rule queue_front(3) [OF assms(1)])
    then show ?thesis using Nil h assms(2,4,5,8) by (simp add: queued_def)
  next
    case (Cons y ys)
    then have y: "head s' = head s" using h queue_front(2) [OF assms(1) Cons] by simp
    have "[head s..<Suc p] = [head s..<Suc (fetch_index s)] @ [Suc (fetch_index s)..<Suc p]"
      using upt_add_eq_append [OF q(3), of "p - fetch_index s"] assms(2) by simp
    then have "filter ?P [head s..<Suc p] = ?xs @ [p]" using new by (simp add: queued_def del: upt_Suc)
    moreover have "head s \<le> Suc p" using q(3) assms(2) by simp
    ultimately show ?thesis using y assms(8) by (simp add: queued_def [of fl m s'] del: upt_Suc)
  qed
  then show "queued fl m s' = ?xs @ [p]" "head s \<le> head s'" "\<And>z. head s \<le> z \<Longrightarrow> z < head s' \<Longrightarrow> trap_at fl m z"
    "tqueue fl N m s'"
    using q' q(2) assms(3,6,8,9) by (auto simp: tqueue_def Let_def)
qed

text \<open>\<open>fetched\<close>: the effect of a fetch on what the measure sees.\<close>

definition fetched :: "flags \<Rightarrow> (ptr \<Rightarrow> instruction_t) \<Rightarrow> tom \<Rightarrow> tom \<Rightarrow> bool" where
  "fetched fl m s s' = (commonDataBus s' = commonDataBus s \<and> reserv s' = reserv s
     \<and> (\<forall>q. exec_of s' q = exec_of s q) \<and> fetch_index s < fetch_index s'
     \<and> queued fl m s' = queued fl m s @ [fetch_index s'])"

lemma fetch_new_inv:
  assumes "tinv fl N m t t t t s" "trace_ok fl N cap m" "t = c + 1" "0 < c"
    "instr_queue_size s < INSTR_QUEUE_SIZE" "fetch_index s \<le> N"
  shows "succeeds (fetch_To_dispatch fl N cap c s) (\<lambda>s'. tinv fl N m t t t t s' \<and> fetched fl m s s')"
proof -
  let ?xs = "queued fl m s"
  have op: "op (mem s z) = op (m z)" for z using tinvD(1) [OF assms(1)] by (simp add: tstatic_def)
  have q: "instr_queue_size s = length ?xs" "length (instr_queue s) = INSTR_QUEUE_SIZE"
    "instr_queue s = map Some ?xs @ replicate (INSTR_QUEUE_SIZE - length ?xs) None"
    using tinvD(3) [OF assms(1)] by (auto simp: tqueue_def Let_def)
  have "N + 1 < cap" "\<not> IS_TRAP fl (op (mem s (N + 1)))"
    using assms(2) by (auto simp: trace_ok_def op IS_TRAP_def has_flag_def)
  from fetch_loop_ok [of _ N cap fl "mem s", OF assms(6) this] obtain p where p: "fetch_loop fl cap (mem s) (fetch_index s) = Some p"
    "fetch_index s < p" "p \<le> N + 1" "\<not> trap_at fl m p" "\<And>z. fetch_index s < z \<Longrightarrow> z < p \<Longrightarrow> trap_at fl m z"
    by (auto simp: op trap_at_def)
  let ?s = "s\<lparr> fetch_index := p, instr_queue := (instr_queue s)[length ?xs := Some p],
    instr_queue_size := Suc (length ?xs), mem := (mem s)(p := (mem s p)\<lparr> tom_dispatch_cycle := c \<rparr>) \<rparr>"
  have d0: "disp_of s p = 0" using tinvD(7) [OF assms(1), of p] p(2,3) by (simp add: ptime_def)
  have run: "fetch_To_dispatch fl N cap c s = Some ?s"
    using assms(5,6) p(1) q d0 by (simp add: fetch_To_dispatch_def fetch_def wr_in rd_in)
  have "length ?xs < INSTR_QUEUE_SIZE" using assms(5) q(1) by simp
  note w = push_queue [OF tinvD(3) [OF assms(1)] p(2-5) this, where s' = ?s, simplified]
  have nc: "\<not> rs_class fl m z" if "head s \<le> z" "z < head ?s" for z using w(4) [OF that] by (simp add: rs_class_def)
  have lw: "last_writer fl m (head ?s) r = last_writer fl m (head s) r" for r
    by (rule last_writer_skip) (use w(3) nc in auto)
  have e: "issued ?s z = issued s z" "exec_of ?s z = exec_of s z" "cdb_of ?s z = cdb_of s z" "issue_of ?s z = issue_of s z"
    "Q (mem ?s z) = Q (mem s z)" "reserv ?s = reserv s" "fu ?s = fu s" "commonDataBus ?s = commonDataBus s" for z
    by (simp_all add: issued_def)
  have pend: "pending d ?s x = pending d s x" for d x by (rule pending_cong) (simp add: e)
  have hd: "z < head ?s \<and> z \<le> N \<and> rs_class fl m z \<longleftrightarrow> z < head s \<and> z \<le> N \<and> rs_class fl m z" for z
    using w(3) nc [of z] by (cases "z < head s") auto
  have ni: "\<not> issued s p"
    using tinvD(6) [OF assms(1), of p] tinvD(3) [OF assms(1)] p(2) by (auto simp: punit_def tqueue_def Let_def)
  have "punit fl N m ?s z" for z
    using tinvD(6) [OF assms(1), of z] unfolding punit_def e hd .
  moreover have "ptime fl N m t t t t ?s z" for z
    using tinvD(7) [OF assms(1), of z] ni assms(3,4) p(2) unfolding ptime_def e w(1) by auto
  moreover have "ptags fl m t ?s z" for z
    using tinvD(8) [OF assms(1), of z] unfolding ptags_def e pend .
  moreover have "torder ?s = torder s" unfolding torder_def e ..
  ultimately have "tinv fl N m t t t t ?s"
    using tinvD(1,2,4,5) [OF assms(1)] w(2) by (simp add: tinv_def tstatic_def tshape_def tmap_def pend lw)
  moreover have "fetched fl m s ?s" using p(2) w(1) by (simp add: fetched_def)
  ultimately show ?thesis by (simp add: run)
qed

lemma fetch_inv:
  assumes "tinv fl N m t t t t s" "trace_ok fl N cap m" "t = c + 1" "0 < c"
  shows "succeeds (fetch_To_dispatch fl N cap c s) (\<lambda>s'. tinv fl N m t t t t s'
    \<and> (fetched fl m s s' \<or> s' = s \<and> (queued fl m s \<noteq> [] \<or> N < fetch_index s)))"
proof (cases "instr_queue_size s < INSTR_QUEUE_SIZE \<and> fetch_index s \<le> N")
  case True
  then show ?thesis using fetch_new_inv [OF assms] by (auto elim: succeeds_mono)
next
  case False
  let ?xs = "queued fl m s"
  have q: "instr_queue_size s = length ?xs" "length (instr_queue s) = INSTR_QUEUE_SIZE"
    "instr_queue s = map Some ?xs @ replicate (INSTR_QUEUE_SIZE - length ?xs) None"
    using tinvD(3) [OF assms(1)] by (auto simp: tqueue_def Let_def)
  have f: "fetch fl N cap s = Some s" using False by (auto simp: fetch_def)
  have n: "?xs \<noteq> [] \<or> N < fetch_index s" using False q(1) by (auto simp: INSTR_QUEUE_SIZE_def)
  show ?thesis
  proof (cases "?xs = []")
    case True
    then show ?thesis using f q(1) assms(1) n by (simp add: fetch_To_dispatch_def)
  next
    case xs: False
    then have "instr_queue s ! (length ?xs - 1) = Some (last ?xs)"
      unfolding q(3) by (simp add: nth_append last_conv_nth)
    moreover have "disp_of s (last ?xs) \<noteq> 0"
      using tinvD(7) [OF assms(1), of "last ?xs"] xs by (simp add: ptime_def)
    moreover have "length ?xs - 1 < length (instr_queue s)"
      using xs arg_cong [OF q(3), of length] by (cases ?xs) simp_all
    ultimately show ?thesis using f q(1) assms(1) n xs by (simp add: fetch_To_dispatch_def rd_in)
  qed
qed

section \<open>The measure\<close>

text \<open>What is left to do for an instruction at the start of cycle \<open>t\<close>, as a bound on cycles.\<close>

definition weight :: "flags \<Rightarrow> (ptr \<Rightarrow> instruction_t) \<Rightarrow> nat \<Rightarrow> tom \<Rightarrow> ptr \<Rightarrow> nat" where
  "weight fl m t s p =
     (if fetch_index s < p then 12
      else if p \<in> set (queued fl m s) then 11
      else if \<exists>u. p \<in> ptrs (reserv s u)
        then (if exec_of s p = 0 then 10 else 2 + (exec_of s p + latency fl m p - t))
      else if commonDataBus s = Some p then 1 else 0)"

definition work :: "flags \<Rightarrow> nat \<Rightarrow> (ptr \<Rightarrow> instruction_t) \<Rightarrow> nat \<Rightarrow> tom \<Rightarrow> nat" where
  "work fl N m t s = (\<Sum>p\<in>{1..N + 1}. weight fl m t s p)"

lemma work_le: "(\<And>p. p \<in> {1..N + 1} \<Longrightarrow> weight fl m t' s' p \<le> weight fl m t s p) \<Longrightarrow> work fl N m t' s' \<le> work fl N m t s"
  unfolding work_def by (rule sum_mono)

lemma work_less:
  "(\<And>p. p \<in> {1..N + 1} \<Longrightarrow> weight fl m t' s' p \<le> weight fl m t s p) \<Longrightarrow> q \<in> {1..N + 1} \<Longrightarrow>
   weight fl m t' s' q < weight fl m t s q \<Longrightarrow> work fl N m t' s' < work fl N m t s"
  unfolding work_def by (rule sum_strict_mono_ex1) auto

text \<open>Where an issued instruction can be.\<close>

lemma issued_place:
  assumes "tinv fl N m i c e k s" "issued s p"
  shows "p \<in> {1..N + 1}" "\<not> fetch_index s < p" "p \<notin> set (queued fl m s)"
proof -
  have p: "p < head s" "p \<le> N" "0 < p" using tinvD(6) [OF assms(1), of p] assms(2) by (auto simp: punit_def rs_class_def)
  moreover have "head s \<le> Suc (fetch_index s)" using tinvD(3) [OF assms(1)] by (simp add: tqueue_def Let_def)
  ultimately show "p \<in> {1..N + 1}" "\<not> fetch_index s < p" "p \<notin> set (queued fl m s)" by (auto simp: queued_def)
qed

lemma rs_issued:
  "tinv fl N m i c e k s \<Longrightarrow> p \<in> ptrs (reserv s u) \<Longrightarrow> issued s p \<and> cdb_of s p = 0 \<and> rs_kind fl (op (m p)) = Some u"
  using tinvD(6) [of fl N m i c e k s p] by (auto simp: punit_def)

lemma fu_rs: "tinv fl N m i c e k s \<Longrightarrow> p \<in> ptrs (fu s u) \<longleftrightarrow> p \<in> ptrs (reserv s u) \<and> exec_of s p \<noteq> 0"
  using tinvD(6) [of fl N m i c e k s p] by (auto simp: punit_def)

lemma bus_issued:
  assumes "tinv fl N m i c e k s" "commonDataBus s = Some p"
  shows "issued s p" "p \<notin> ptrs (reserv s u)"
proof -
  have "cdb_of s p \<noteq> 0" using tinvD(6) [OF assms(1), of p] assms(2) by (simp add: punit_def)
  then show "issued s p" "p \<notin> ptrs (reserv s u)"
    using tinvD(6) [OF assms(1), of p] rs_issued [OF assms(1)] by (auto simp: punit_def)
qed

lemma retire_work:
  assumes "tinv fl N m c c c c s"
  shows "work fl N m t (CDB_To_retire c s) \<le> work fl N m t s"
    "commonDataBus s \<noteq> None \<Longrightarrow> work fl N m t (CDB_To_retire c s) < work fl N m t s"
proof -
  let ?s = "CDB_To_retire c s"
  note r = retire_inv [OF assms]
  have q: "queued fl m ?s = queued fl m s"
    using r(6,7) by (simp add: queued_def head_def cong: option.case_cong)
  have le: "weight fl m t ?s p \<le> weight fl m t s p" for p by (simp add: weight_def r q)
  then show "work fl N m t ?s \<le> work fl N m t s" by (intro work_le)
  assume "commonDataBus s \<noteq> None"
  then obtain p where p: "commonDataBus s = Some p" by auto
  note b = bus_issued [OF assms p] and i = issued_place [OF assms bus_issued(1) [OF assms p]]
  have "weight fl m t ?s p < weight fl m t s p" using b(2) i(2,3) p by (simp add: weight_def r q)
  then show "work fl N m t ?s < work fl N m t s" using le i(1) by (intro work_less [of _ _ _ _ _ _ _ p])
qed

lemma shrink_work:
  assumes "tinv fl N m c c c c s" "shrink s s'" "commonDataBus s = None"
  shows "work fl N m t s' \<le> work fl N m t s" "s' \<noteq> s \<Longrightarrow> work fl N m t s' < work fl N m t s"
proof -
  have e: "mem s' = mem s" "fetch_index s' = fetch_index s" "commonDataBus s' = None"
    "\<And>u. ptrs (reserv s' u) \<subseteq> ptrs (reserv s u)" "instr_queue s' = instr_queue s"
    using assms(2,3) by (auto simp: shrink_def)
  have q: "queued fl m s' = queued fl m s" using e by (simp add: queued_def head_def cong: option.case_cong)
  have le: "weight fl m t s' p \<le> weight fl m t s p" for p using e(4) by (auto simp: weight_def e(1-3) q)
  then show "work fl N m t s' \<le> work fl N m t s" by (intro work_le)
  assume "s' \<noteq> s"
  then obtain u p where p: "p \<in> ptrs (fu s u)" "p \<notin> ptrs (reserv s' u)" using assms(2) by (auto simp: shrink_def)
  have r: "p \<in> ptrs (reserv s u)" "exec_of s p \<noteq> 0" using fu_rs [OF assms(1)] p(1) by auto
  have "p \<notin> ptrs (reserv s' v)" for v
    using rs_issued [OF assms(1), of p u] rs_issued [OF assms(1), of p v] r(1) e(4) [of v] p(2) by (cases "v = u") auto
  then have "weight fl m t s' p < weight fl m t s p"
    using r issued_place [OF assms(1), of p] rs_issued [OF assms(1) r(1)] e by (auto simp: weight_def q)
  then show "work fl N m t s' < work fl N m t s"
    using le issued_place(1) [OF assms(1), of p] rs_issued [OF assms(1) r(1)] by (intro work_less [of _ _ _ _ _ _ _ p]) auto
qed

text \<open>The execute stage, and the passing of time in the units.\<close>

lemma execute_work:
  assumes "tinv fl N m c c c c s" "commonDataBus s = None" "0 < c"
  defines "s' \<equiv> execute_To_CDB fl c s"
  shows "work fl N m (c + 1) s' \<le> work fl N m c s"
    "\<exists>u. ptrs (fu s u) \<noteq> {} \<Longrightarrow> work fl N m (c + 1) s' < work fl N m c s"
    "(\<And>u. ptrs (fu s u) = {}) \<Longrightarrow> s' = s"
proof -
  obtain t where t: "shrink s t" "exec_effect c t s'" "tinv fl N m c c c c t" using execute_inv(2) [OF assms(1-3)] unfolding s'_def by blast
  have inv: "tinv fl N m c c c (c + 1) s'" unfolding s'_def by (rule execute_inv(1) [OF assms(1-3)])
  note sh = shrink_work [OF assms(1) t(1) assms(2)]
  have tick: "work fl N m (c + 1) s' \<le> work fl N m c s'" by (rule work_le) (auto simp: weight_def)
  have fs: "ptrs (fu t u) \<subseteq> ptrs (fu s u)" "ptrs (reserv t u) \<subseteq> ptrs (reserv s u)" "mem t = mem s" "commonDataBus t = None"
    "fetch_index t = fetch_index s" "instr_queue t = instr_queue s" for u using t(1) assms(2) by (auto simp: shrink_def)
  show "(\<And>u. ptrs (fu s u) = {}) \<Longrightarrow> s' = s"
    using fs(1) t by (auto simp: exec_effect_def shrink_def)
  have "work fl N m (c + 1) s' \<le> work fl N m c s \<and> ((\<exists>u. ptrs (fu s u) \<noteq> {}) \<longrightarrow> work fl N m (c + 1) s' < work fl N m c s)"
  proof (cases "s' = t \<and> (\<forall>u. \<forall>p\<in>ptrs (fu s' u). \<not> EXECUTION_DONE u c (exec_of s' p))")
    case True
    have "work fl N m (c + 1) s' < work fl N m c s" if "ptrs (fu s u) \<noteq> {}" for u
    proof (cases "t = s")
      case False
      then show ?thesis using sh(2) [of c] tick True by (metis order.strict_trans1)
    next
      case eq: True
      obtain p where p: "p \<in> ptrs (fu s u)" using \<open>ptrs (fu s u) \<noteq> {}\<close> by auto
      have r: "p \<in> ptrs (reserv s u)" "exec_of s p \<noteq> 0" using fu_rs [OF assms(1)] p by auto
      note i = rs_issued [OF assms(1) r(1)]
      have "c < exec_of s p + latency fl m p" using True eq p i
        by (auto simp: EXECUTION_DONE_def latency_def not_le)
      then have "weight fl m (c + 1) s p < weight fl m c s p"
        using r issued_place [OF assms(1), of p] i by (auto simp: weight_def)
      moreover have "weight fl m (c + 1) s q \<le> weight fl m c s q" for q by (auto simp: weight_def)
      ultimately show ?thesis using True eq issued_place(1) [OF assms(1), of p] i by (auto intro: work_less)
    qed
    then show ?thesis using True sh(1) [of c] tick by auto
  next
    case False
    then obtain p u where p: "p \<in> ptrs (fu t u)" "commonDataBus s' = Some p" "instr_queue s' = instr_queue t"
      "fetch_index s' = fetch_index t" "mem s' = (mem t)(p := (mem t p)\<lparr> tom_cdb_cycle := c \<rparr>)"
      "\<And>v. ptrs (reserv s' v) = ptrs (reserv t v) - {p}"
      using t(2) unfolding exec_effect_def by auto
    have q: "queued fl m s' = queued fl m t"
      using p(3,4) by (simp add: queued_def head_def cong: option.case_cong)
    have r: "p \<in> ptrs (reserv t u)" "exec_of t p \<noteq> 0" using fu_rs [OF t(3)] p(1) by auto
    note i = rs_issued [OF t(3) r(1)]
    note l = issued_place [OF t(3), of p]
    have le: "weight fl m c s' z \<le> weight fl m c t z" for z
      using l i r by (cases "z = p") (auto simp: weight_def p(2,4,5,6) q fs(4))
    have "weight fl m c s' p < weight fl m c t p"
      using l i r by (auto simp: weight_def p(2,4,5,6) q fs(4))
    then have "work fl N m c s' < work fl N m c t" using le l(1) i by (intro work_less [of _ _ _ _ _ _ _ p]) auto
    then show ?thesis using tick sh(1) [of c] by auto
  qed
  then show "work fl N m (c + 1) s' \<le> work fl N m c s"
    "\<exists>u. ptrs (fu s u) \<noteq> {} \<Longrightarrow> work fl N m (c + 1) s' < work fl N m c s" by auto
qed

lemma started_work:
  assumes "tinv fl N m c c (c + 1) (c + 1) s" "started c s s'" "0 < c"
  shows "work fl N m (c + 1) s' \<le> work fl N m (c + 1) s"
    "exec_of s q = 0 \<Longrightarrow> exec_of s' q \<noteq> 0 \<Longrightarrow> work fl N m (c + 1) s' < work fl N m (c + 1) s"
proof -
  have e: "reserv s' = reserv s" "instr_queue s' = instr_queue s" "fetch_index s' = fetch_index s"
    "commonDataBus s' = commonDataBus s" using assms(2) by (simp_all add: started_def)
  have qd: "queued fl m s' = queued fl m s" using e by (simp add: queued_def head_def cong: option.case_cong)
  have cs: "mem s' p = mem s p \<or> exec_of s p = 0 \<and> exec_of s' p = c \<and> (\<exists>u. p \<in> ptrs (reserv s u))" for p

    using started_cases [OF assms(2), of p] by (elim disjE) auto
  have lat: "latency fl m p \<le> 7" for p
  proof (cases "rs_kind fl (op (m p))")
    case (Some u)
    then show ?thesis by (cases u) (simp_all add: latency_def)
  qed (simp add: latency_def)
  have le: "weight fl m (c + 1) s' p \<le> weight fl m (c + 1) s p" for p
    using cs [of p] lat [of p] assms(3) by (auto simp: weight_def e qd)
  then show "work fl N m (c + 1) s' \<le> work fl N m (c + 1) s" by (rule work_le)
  assume q: "exec_of s q = 0" "exec_of s' q \<noteq> 0"
  then obtain u where u: "q \<in> ptrs (reserv s u)" "exec_of s' q = c" using cs [of q] by auto
  note i = rs_issued [OF assms(1) u(1)]
  have "weight fl m (c + 1) s' q < weight fl m (c + 1) s q"
    using issued_place [OF assms(1), of q] i u q lat [of q] by (auto simp: weight_def e qd)
  then show "work fl N m (c + 1) s' < work fl N m (c + 1) s"
    using le issued_place(1) [OF assms(1), of q] i by (intro work_less [of _ _ _ _ _ _ _ q]) auto
qed

lemma issue_loop_fu: "v \<noteq> u \<Longrightarrow> fu (issue_loop c u is s) v = fu s v"
  by (induction c u "is" s rule: issue_loop.induct) (auto split: option.split)

lemma issue_inv:
  assumes "tinv fl N m c c c (c + 1) s" "0 < c"
  defines "s' \<equiv> issue_To_execute c s"
  shows "tinv fl N m c (c + 1) (c + 1) (c + 1) s'" "work fl N m (c + 1) s' \<le> work fl N m (c + 1) s"
    "reserv s' = reserv s" "queued fl m s' = queued fl m s" "fetch_index s' = fetch_index s"
    "commonDataBus s' = commonDataBus s"
    "p \<in> ptrs (reserv s u) \<Longrightarrow> issueable c (mem s) p \<Longrightarrow> (\<And>v. ptrs (fu s v) = {}) \<Longrightarrow>
      work fl N m (c + 1) s' < work fl N m (c + 1) s"
proof -
  define i where "i = issue_loop c FU_INT [0..<FU_SIZE FU_INT] s"
  define f where "f = issue_loop c FU_FP [0..<FU_SIZE FU_FP] i"
  have t0: "tinv fl N m c c (c + 1) (c + 1) s"
  proof -
    have "ptime fl N m c c (c + 1) (c + 1) s p" for p using tinvD(7) [OF assms(1), of p] by (auto simp: ptime_def)
    then show ?thesis using tinvD [OF assms(1)] by (simp add: tinv_def)
  qed
  have a: "tinv fl N m c c (c + 1) (c + 1) i" "started c s i"
    using issue_loop_inv [OF t0 assms(2), of "[0..<FU_SIZE FU_INT]" FU_INT] by (auto simp: i_def)
  have b: "tinv fl N m c c (c + 1) (c + 1) f" "started c i f"
    using issue_loop_inv [OF a(1) assms(2), of "[0..<FU_SIZE FU_FP]" FU_FP] by (auto simp: f_def)
  note st = started_trans [OF assms(2) a(2) b(2)]
  have s': "s' = (case commonDataBus f of Some p \<Rightarrow> broadcast_tags p f | None \<Rightarrow> f)"
    unfolding s'_def issue_To_execute_def Let_def i_def f_def ..
  note br = broadcast_inv [OF b(1) assms(2), folded s']
  have e: "reserv f = reserv s" "instr_queue f = instr_queue s" "fetch_index f = fetch_index s"
    "commonDataBus f = commonDataBus s" using st by (simp_all add: started_def)
  show "tinv fl N m c (c + 1) (c + 1) (c + 1) s'" by (rule br(1))
  show r: "reserv s' = reserv s" "fetch_index s' = fetch_index s" "commonDataBus s' = commonDataBus s"
    using br e by auto
  show q: "queued fl m s' = queued fl m s" using br e by (simp add: queued_def head_def cong: option.case_cong)
  have qf: "queued fl m f = queued fl m s" using e by (simp add: queued_def head_def cong: option.case_cong)
  have w: "work fl N m (c + 1) s' = work fl N m (c + 1) f"
    unfolding work_def by (rule sum.cong) (simp_all add: weight_def br(9) r q qf e)
  show "work fl N m (c + 1) s' \<le> work fl N m (c + 1) s" unfolding w by (rule started_work(1) [OF t0 st assms(2)])
  assume p: "p \<in> ptrs (reserv s u)" "issueable c (mem s) p" "\<And>v. ptrs (fu s v) = {}"
  have nul: "fu s v ! 0 = None" for v
  proof -
    have "0 < length (fu s v)" using tinvD(2) [OF t0] by (cases v) (auto simp: tshape_def)
    then show ?thesis using p(3) [of v] by (metis empty_iff not_None_eq ptrs_nth)
  qed
  have up: "[0..<FU_SIZE v] = 0 # [1..<FU_SIZE v]" for v by (cases v) (simp_all add: upt_rec)
  have "\<exists>q. exec_of s q = 0 \<and> exec_of f q \<noteq> 0"
  proof (cases u)
    case FU_INT
    have "\<exists>q. exec_of s q = 0 \<and> exec_of i q \<noteq> 0" unfolding i_def up
      by (rule issue_loop_progress [OF nul p(1,2) [unfolded FU_INT] assms(2) t0]) auto
    then obtain q where q: "exec_of s q = 0" "exec_of i q \<noteq> 0" by blast
    then have "exec_of f q \<noteq> 0" using started_keep [OF b(2), of q] by simp
    then show ?thesis using q by blast
  next
    case FU_FP
    show ?thesis
    proof (cases "exec_of i p = 0")
      case True
      have "mem i p = mem s p"

        using started_cases [OF a(2), of p] True assms(2) by (elim disjE) auto
      then have "issueable c (mem i) p" using p(2) by (simp add: issueable_def)
      moreover have "fu i FU_FP ! 0 = None" "p \<in> ptrs (reserv i FU_FP)"
        using issue_loop_fu [of FU_FP FU_INT c "[0..<FU_SIZE FU_INT]" s, folded i_def] nul a(2) p(1) FU_FP
        by (simp_all add: started_def)
      ultimately have "\<exists>q. exec_of i q = 0 \<and> exec_of f q \<noteq> 0" unfolding f_def up
        using issue_loop_progress [of i FU_FP 0 p c fl N m "[1..<FU_SIZE FU_FP]"] assms(2) a(1) by simp
      then obtain q where q: "exec_of i q = 0" "exec_of f q \<noteq> 0" by blast
      then have "exec_of s q = 0" using started_keep [OF a(2), of q] by (cases "exec_of s q = 0") auto
      then show ?thesis using q by blast
    next
      case False
      then have "exec_of f p \<noteq> 0" using started_keep [OF b(2), of p] by simp
      then show ?thesis using p(2) by (auto simp: issueable_def)
    qed
  qed
  then show "work fl N m (c + 1) s' < work fl N m (c + 1) s"
    unfolding w using started_work(2) [OF t0 st assms(2)] by blast
qed

lemma moved_work:
  assumes "tinv fl N m c (c + 1) (c + 1) (c + 1) s" "moved fl m s s'" "trace_ok fl N cap m"
    "tinv fl N m (c + 1) (c + 1) (c + 1) (c + 1) s'"
  shows "work fl N m t s' < work fl N m t s"
proof -
  obtain p ys where p: "queued fl m s = p # ys" "queued fl m s' = ys" "\<And>u. ptrs (reserv s' u) \<subseteq> insert p (ptrs (reserv s u))"
    using assms(2) by (auto simp: moved_def)
  have e: "fetch_index s' = fetch_index s" "commonDataBus s' = commonDataBus s" "\<And>q. exec_of s' q = exec_of s q"
    using assms(2) by (simp_all add: moved_def)
  note f = front_facts [OF assms(1) p(1) assms(3)]
  have pf: "\<not> fetch_index s < p"
    using pop_queue(12) [OF tinvD(3) [OF assms(1)] p(1) refl refl refl] by simp
  have d: "p \<notin> set ys"
  proof -
    have "distinct (queued fl m s)" by (simp add: queued_def del: upt_Suc)
    then show ?thesis using p(1) by simp
  qed
  have sub: "z \<notin> ptrs (reserv s' u)" if "z \<noteq> p" "\<not> (\<exists>u. z \<in> ptrs (reserv s u))" for z u
    using p(3) [of u] that by auto
  have le: "weight fl m t s' z \<le> weight fl m t s z" if "z \<noteq> p" for z
    using that sub [OF that] p(1,2) by (auto simp: weight_def e)
  have lt: "weight fl m t s' p < weight fl m t s p"
    using p(1,2) pf d f(2) by (auto simp: weight_def e)
  have "weight fl m t s' z \<le> weight fl m t s z" for z using le lt by (cases "z = p") auto
  then show ?thesis using f(9,10) lt by (intro work_less [of _ _ _ _ _ _ _ p]) auto
qed

lemma fetched_work:
  assumes "tinv fl N m c c c c s" "fetched fl m s s'" "tinv fl N m c c c c s'"
  shows "work fl N m t s' < work fl N m t s"
proof -
  have e: "fetch_index s < fetch_index s'" "commonDataBus s' = commonDataBus s" "reserv s' = reserv s"
    "\<And>q. exec_of s' q = exec_of s q" "queued fl m s' = queued fl m s @ [fetch_index s']"
    using assms(2) by (simp_all add: fetched_def)
  have b: "fetch_index s' \<le> N + 1" using tinvD(3) [OF assms(3)] by (simp add: tqueue_def Let_def)
  have nr: "z \<notin> ptrs (reserv s u)" if "fetch_index s < z" for z u
    using issued_place(2) [OF assms(1), of z] rs_issued [OF assms(1), of z u] that by auto
  have nb: "commonDataBus s \<noteq> Some z" if "fetch_index s < z" for z
    using issued_place(2) [OF assms(1), of z] bus_issued(1) [OF assms(1), of z] that by auto
  have le: "weight fl m t s' z \<le> weight fl m t s z" for z
    using e(1) nr [of z] nb [of z] by (auto simp: weight_def e(2-5))
  have "weight fl m t s' (fetch_index s') < weight fl m t s (fetch_index s')"
    using e(1) by (simp add: weight_def e(2-5))
  then show ?thesis using le e(1) b by (intro work_less [of _ _ _ _ _ _ _ "fetch_index s'"]) auto
qed

section \<open>A cycle\<close>

text \<open>At the start of a cycle an instruction that is still awaited is in a station.\<close>

lemma awaited_in_station:
  assumes "tinv fl N m c c c c s" "trace_ok fl N cap m" "last_writer fl m n r = Some j" "n \<le> head s"
    "pending c s (Some j) \<noteq> None"
  shows "\<exists>u. j \<in> ptrs (reserv s u)"
proof -
  have j: "j < head s" "rs_class fl m j" "int r \<in> set (r_out (m j))" using last_writer_some [OF assms(3)] assms(4) by auto
  have "\<not> rs_class fl m (N + 1)"
    using assms(2) by (auto simp: trace_ok_def rs_class_def rs_kind_def USES_INT_FU_def USES_FP_FU_def has_flag_def)
  moreover have "head s \<le> N + 2" using tinvD(3) [OF assms(1)] by (simp add: tqueue_def Let_def)
  ultimately have jN: "j \<le> N" using j by (cases "j = N + 1") auto
  then have i: "issued s j" using tinvD(6) [OF assms(1), of j] j by (simp add: punit_def)
  have "j \<in> {1..N}" using j(2) jN by (auto simp: rs_class_def)
  moreover have "int r \<noteq> DNA" by (simp add: DNA_def)
  ultimately have w: "WRITES_CDB fl (op (m j))" using assms(2) j(2,3) unfolding trace_ok_def by blast
  have "cdb_of s j = 0"
    using assms(5) tinvD(7) [OF assms(1), of j] by (auto simp: pending_def broadcasted_def ptime_def split: if_splits)
  then show ?thesis using tinvD(6) [OF assms(1), of j] i w unfolding punit_def by blast
qed

lemma oldest_ready:
  assumes "tinv fl N m c c c c s" "trace_ok fl N cap m" "\<And>u. ptrs (fu s u) = {}" "ptrs (reserv s v) \<noteq> {}"
  shows "\<exists>u p. p \<in> ptrs (reserv s u) \<and> issueable c (mem s) p"
proof -
  define p where "p = (LEAST p. \<exists>u. p \<in> ptrs (reserv s u))"
  have ex: "\<exists>p u. p \<in> ptrs (reserv s u)" using assms(4) by auto
  then obtain u where u: "p \<in> ptrs (reserv s u)" using LeastI_ex [OF ex] unfolding p_def by blast
  have min: "p \<le> q" if "q \<in> ptrs (reserv s w)" for q w unfolding p_def using that by (intro Least_le) blast
  have i0: "issued s p" using rs_issued [OF assms(1) u] by simp
  have i: "issued s p" "exec_of s p = 0" "p < head s" "issue_of s p < c"
    using i0 fu_rs [OF assms(1), of p u] u assms(3) tinvD(6,7) [OF assms(1), of p]
    unfolding punit_def ptime_def by blast+
  have "Q (mem s p) ! k = None" if "k < 3" for k
  proof (rule ccontr)
    assume n: "Q (mem s p) ! k \<noteq> None"
    have q: "Q (mem s p) ! k = pending c s (producer fl m p k)"
      using tinvD(8) [OF assms(1), of p] i(1) that by (simp add: ptags_def)
    then obtain j where j: "producer fl m p k = Some j" "pending c s (Some j) \<noteq> None"
      using n by (cases "producer fl m p k") (auto simp: pending_def)
    then obtain r where r: "last_writer fl m p r = Some j" by (auto simp: producer_def split: if_splits)
    from awaited_in_station [OF assms(1,2) r _ j(2)] i(3) min last_writer_some [OF r] show False by fastforce
  qed
  moreover have "length (Q (mem s p)) = 3" using tinvD(8) [OF assms(1), of p] i(1) by (simp add: ptags_def)
  ultimately have "issueable c (mem s) p" using i by (simp add: issueable_def all_null_def list_all_length)
  then show ?thesis using u by blast
qed

lemma map_empty:
  assumes "tinv fl N m c c c c s" "trace_ok fl N cap m" "\<And>u. ptrs (reserv s u) = {}"
  shows "all_null (map_table s)"
proof -
  have "map_table s ! r = None" if "r < MD_TOTAL_REGS" for r
  proof (rule ccontr)
    assume n: "map_table s ! r \<noteq> None"
    have "map_table s ! r = pending c s (last_writer fl m (head s) r)"
      using tinvD(5) [OF assms(1)] that by (simp add: tmap_def)
    then obtain j where "last_writer fl m (head s) r = Some j" "pending c s (Some j) \<noteq> None"
      using n by (cases "last_writer fl m (head s) r") (auto simp: pending_def)
    from awaited_in_station [OF assms(1,2) this(1) _ this(2)] assms(3) show False by simp
  qed
  then show ?thesis using tinvD(2) [OF assms(1)] by (simp add: all_null_def list_all_length tshape_def)
qed

lemma cycle_inv:
  assumes "tinv fl N m c c c c s" "trace_ok fl N cap m" "0 < c"
  shows "succeeds (tom_cycle fl N cap c s) (\<lambda>s'. tinv fl N m (c + 1) (c + 1) (c + 1) (c + 1) s'
    \<and> (\<not> is_simulation_done N s \<longrightarrow> work fl N m (c + 1) s' < work fl N m c s))"
proof -
  define s1 where "s1 = CDB_To_retire c s"
  define s2 where "s2 = execute_To_CDB fl c s1"
  define s3 where "s3 = issue_To_execute c s2"
  note r = retire_inv [OF assms(1), folded s1_def] and rw = retire_work [OF assms(1), folded s1_def, of c]
  note e = execute_inv [OF r(1,2) assms(3), folded s2_def] and ew = execute_work [OF r(1,2) assms(3), folded s2_def]
  note i = issue_inv [OF e(1) assms(3), folded s3_def]
  from dispatch_inv [OF i(1) assms(2,3)] obtain s4 where d: "dispatch_To_issue fl c s3 = Some s4"
    "tinv fl N m (c + 1) (c + 1) (c + 1) (c + 1) s4"
    "moved fl m s3 s4 \<or> s4 = s3 \<and> (queued fl m s3 = [] \<or> (\<exists>u. ptrs (reserv s3 u) \<noteq> {}))"
    by (auto simp: succeeds_iff)
  from fetch_inv [OF d(2) assms(2) refl assms(3)] obtain s5 where f: "fetch_To_dispatch fl N cap c s4 = Some s5"
    "tinv fl N m (c + 1) (c + 1) (c + 1) (c + 1) s5"
    "fetched fl m s4 s5 \<or> s5 = s4 \<and> (queued fl m s4 \<noteq> [] \<or> N < fetch_index s4)"
    by (auto simp: succeeds_iff)
  have run: "tom_cycle fl N cap c s = Some s5" using d(1) f(1) by (simp add: tom_cycle_def s1_def s2_def s3_def)
  let ?w = "work fl N m (c + 1)"
  have dw: "?w s4 \<le> ?w s3" "moved fl m s3 s4 \<Longrightarrow> ?w s4 < ?w s3"
    using d(3) moved_work [OF i(1) _ assms(2) d(2)] by (auto intro: less_imp_le)
  have fw: "?w s5 \<le> ?w s4" "fetched fl m s4 s5 \<Longrightarrow> ?w s5 < ?w s4"
    using f(3) fetched_work [OF d(2) _ f(2)] by (auto intro: less_imp_le)
  have "?w s5 < work fl N m c s" if "\<not> is_simulation_done N s"
  proof (cases "commonDataBus s = None \<and> (\<forall>u. ptrs (fu s1 u) = {})")
    case False
    then have "work fl N m c s1 < work fl N m c s \<or> ?w s2 < work fl N m c s1" using rw(2) ew(2) by auto
    then show ?thesis using rw(1) ew(1) i(2) dw(1) fw(1) by linarith
  next
    case True
    have s1: "s1 = s" using True by (simp add: s1_def CDB_To_retire_def)
    have s2: "s2 = s" using ew(3) True s1 by simp
    have fu: "ptrs (fu s u) = {}" for u using True s1 by simp
    show ?thesis
    proof (cases "\<exists>u. ptrs (reserv s u) \<noteq> {}")
      case rs: True
      then obtain u p where "p \<in> ptrs (reserv s u)" "issueable c (mem s) p"
        using oldest_ready [OF assms(1,2) fu] by blast
      then have "?w s3 < ?w s2" using i(7) fu by (simp add: s2)
      then show ?thesis using rw(1) ew(1) dw(1) fw(1) by linarith
    next
      case rs: False
      show ?thesis
      proof (cases "queued fl m s = []")
        case False
        then have "moved fl m s3 s4" using d(3) i(3,4) rs by (auto simp: s2)
        then show ?thesis using rw(1) ew(1) i(2) dw(2) fw(1) by linarith
      next
        case q: True
        have "all_null (map_table s)" using map_empty [OF assms(1,2)] rs by simp
        moreover have "instr_queue_size s = 0" using q tinvD(3) [OF assms(1)] by (simp add: tqueue_def Let_def)
        ultimately have "fetch_index s \<le> N"
          using that True rs fu by (auto simp: is_simulation_done_def all_null_ptrs)
        moreover have "s4 = s3" using d(3) q i(4) by (auto simp: moved_def s2)
        ultimately have "fetched fl m s4 s5" using f(3) q i(4,5) by (auto simp: s2)
        then show ?thesis using rw(1) ew(1) i(2) dw(1) fw(2) by linarith
      qed
    qed
  qed
  then show ?thesis using run f(2) by simp
qed

section \<open>The run\<close>

lemma loop_ok:
  assumes "trace_ok fl N cap m"
  shows "tinv fl N m c c c c s \<Longrightarrow> 0 < c \<Longrightarrow> \<not> is_simulation_done N s \<Longrightarrow>
    \<exists>c' s'. tom_loop fl N cap c s = Some (c', s') \<and> is_simulation_done N s'
      \<and> tinv fl N m (c' + 1) (c' + 1) (c' + 1) (c' + 1) s' \<and> c' + 1 \<le> c + work fl N m c s"
proof (induction "work fl N m c s" arbitrary: c s rule: less_induct)
  case less
  from cycle_inv [OF less.prems(1) assms less.prems(2)] less.prems(3) obtain s1 where s1:
    "tom_cycle fl N cap c s = Some s1" "tinv fl N m (c + 1) (c + 1) (c + 1) (c + 1) s1"
    "work fl N m (c + 1) s1 < work fl N m c s" by (auto simp: succeeds_iff)
  show ?case
  proof (cases "is_simulation_done N s1")
    case True
    then have "tom_loop fl N cap c s = Some (c, s1)" using s1(1) by (subst tom_loop.simps) simp
    then show ?thesis using True s1(2,3) by auto
  next
    case False
    from less.hyps [OF s1(3,2) _ False] obtain c' s' where c': "tom_loop fl N cap (c + 1) s1 = Some (c', s')"
      "is_simulation_done N s'" "tinv fl N m (c' + 1) (c' + 1) (c' + 1) (c' + 1) s'"
      "c' + 1 \<le> c + 1 + work fl N m (c + 1) s1" by auto
    moreover have "tom_loop fl N cap c s = Some (c', s')" using s1(1) False c'(1) by (subst tom_loop.simps) simp
    ultimately show ?thesis using s1(3) by (intro exI [of _ c'] exI [of _ s']) simp
  qed
qed

lemma init_inv:
  assumes "trace_ok fl N cap m"
  shows "tinv fl N m 1 1 1 1 (tom_init m)" "work fl N m 1 (tom_init m) = 12 * (N + 1)"
    "\<not> is_simulation_done N (tom_init m)"
proof -
  let ?s = "tom_init m"
  have z: "issue_of ?s p = 0" "exec_of ?s p = 0" "cdb_of ?s p = 0" for p
    using assms by (simp_all add: tom_init_def trace_ok_def)
  have zq: "p \<in> {1..N + 1} \<Longrightarrow> Q (m p) = [None, None, None] \<and> tom_dispatch_cycle (m p) = 0" for p
    using assms by (simp add: trace_ok_def)
  have e: "head ?s = 1" "queued fl m ?s = []" "mem ?s = m" "fetch_index ?s = 0"
    by (simp_all add: tom_init_def head_def queued_def INSTR_QUEUE_SIZE_def)
  have "tqueue fl N m ?s" by (simp add: tqueue_def Let_def e) (simp add: tom_init_def)
  moreover have "tshape ?s" by (simp add: tshape_def tom_init_def)
  moreover have "tmap fl m 1 ?s" by (simp add: tmap_def e rs_class_def pending_def) (simp add: tom_init_def)
  moreover have "punit fl N m ?s p" for p
    using zq [of p] by (auto simp: punit_def issued_def z e(1) rs_class_def) (auto simp: tom_init_def)
  moreover have "ptime fl N m 1 1 1 1 ?s p" for p
    using zq [of p] by (auto simp: ptime_def issued_def z e(2,4)) (simp add: e(3))
  moreover have "ptags fl m 1 ?s p" for p by (simp add: ptags_def issued_def z)
  moreover have "torder ?s" by (simp add: torder_def issued_def z)
  ultimately show "tinv fl N m 1 1 1 1 ?s" by (simp add: tinv_def tstatic_def e)
  have "weight fl m 1 ?s p = 12" if "p \<in> {1..N + 1}" for p using that by (simp add: weight_def e)
  then have "work fl N m 1 ?s = (\<Sum>p\<in>{1..N + 1}. 12)" unfolding work_def by (intro sum.cong) auto
  then show "work fl N m 1 ?s = 12 * (N + 1)" by simp
  show "\<not> is_simulation_done N ?s" by (simp add: is_simulation_done_def e)
qed

text \<open>When the simulation is done every instruction that goes to a station has been through it.\<close>

lemma done_all:
  assumes "tinv fl N m c c c c s" "is_simulation_done N s" "p \<in> {1..N}" "rs_class fl m p"
  shows "issued s p" "exec_of s p \<noteq> 0" "WRITES_CDB fl (op (m p)) \<Longrightarrow> cdb_of s p \<noteq> 0"
proof -
  have d: "N < fetch_index s" "instr_queue_size s = 0" "\<And>u. ptrs (reserv s u) = {}"
  proof -
    show "ptrs (reserv s u) = {}" for u using assms(2) by (cases u) (simp_all add: is_simulation_done_def all_null_ptrs)
  qed (use assms(2) in \<open>simp_all add: is_simulation_done_def\<close>)
  then have "queued fl m s = []" using tinvD(3) [OF assms(1)] by (simp add: tqueue_def Let_def)
  then have "head s = Suc (fetch_index s)" by (rule queue_front(3) [OF tinvD(3) [OF assms(1)]])
  then show i: "issued s p" using tinvD(6) [OF assms(1), of p] assms(3,4) d(1) by (simp add: punit_def)
  show "exec_of s p \<noteq> 0" "WRITES_CDB fl (op (m p)) \<Longrightarrow> cdb_of s p \<noteq> 0"
    using tinvD(6) [OF assms(1), of p] i d(3) unfolding punit_def by auto
qed

section \<open>The trace\<close>

definition flat :: "trace_node list \<Rightarrow> instruction_t list" where
  "flat t = concat (map table t)"

definition node_ok :: "trace_node \<Rightarrow> bool" where
  "node_ok n = (length (table n) = INSTR_TRACE_SIZE \<and> tsize n \<le> INSTR_TRACE_SIZE \<and> 0 < tsize n
     \<and> (\<forall>i. tsize n \<le> i \<longrightarrow> i < INSTR_TRACE_SIZE \<longrightarrow> table n ! i = zero_instr))"

text \<open>A trace that holds \<open>xs\<close>: full nodes and a last one that is not empty.\<close>

fun holds :: "trace_node list \<Rightarrow> instruction_t list \<Rightarrow> bool" where
  "holds [] xs = False"
| "holds [n] xs = (node_ok n \<and> length xs = tsize n \<and> xs = take (tsize n) (table n))"
| "holds (n # ns) xs = (node_ok n \<and> tsize n = INSTR_TRACE_SIZE \<and> take INSTR_TRACE_SIZE xs = table n
     \<and> INSTR_TRACE_SIZE \<le> length xs \<and> holds ns (drop INSTR_TRACE_SIZE xs))"

lemma size_pos: "0 < INSTR_TRACE_SIZE"
  by (simp add: INSTR_TRACE_SIZE_def)

lemma node_put_ok:
  assumes "node_ok n" "tsize n < INSTR_TRACE_SIZE"
  shows "\<exists>n'. node_put n i = Some n' \<and> node_ok n' \<and> tsize n' = tsize n + 1
    \<and> take (tsize n') (table n') = take (tsize n) (table n) @ [i]"
proof -
  have "length (table n) = INSTR_TRACE_SIZE" using assms(1) by (simp add: node_ok_def)
  then show ?thesis using assms
    by (auto simp: node_put_def wr_in node_ok_def nth_list_update take_Suc_conv_app_nth)
qed

lemma take_first: "0 < n \<Longrightarrow> take 1 ((replicate n z)[0 := i]) = [i]"
  by (cases n) simp_all

lemma new_node_put: "\<exists>n'. node_put new_node i = Some n' \<and> node_ok n' \<and> tsize n' = 1 \<and> take 1 (table n') = [i]"
proof -
  have "node_put new_node i = Some (new_node\<lparr> table := (table new_node)[0 := i], tsize := 1 \<rparr>)"
    using size_pos by (simp add: node_put_def new_node_def wr_in)
  moreover have "take 1 ((table new_node)[0 := i]) = [i]"
    using take_first [OF size_pos, of zero_instr i] by (simp add: new_node_def)
  moreover have "node_ok (new_node\<lparr> table := (table new_node)[0 := i], tsize := 1 \<rparr>)"
    using size_pos by (auto simp: node_ok_def new_node_def)
  ultimately show ?thesis by simp
qed

lemma put_instr_ok: "holds t xs \<Longrightarrow> \<exists>t'. put_instr t i = Some t' \<and> holds t' (xs @ [i])"
proof (induction t xs rule: holds.induct)
  case (2 n xs)
  show ?case
  proof (cases "tsize n = INSTR_TRACE_SIZE")
    case True
    obtain n' where n': "node_put new_node i = Some n'" "node_ok n'" "tsize n' = 1" "take 1 (table n') = [i]"
      using new_node_put by blast
    have "length xs = INSTR_TRACE_SIZE" "xs = table n" using 2 True by (auto simp: node_ok_def)
    then show ?thesis using 2 n' True by (auto simp: node_ok_def)
  next
    case False
    then have "tsize n < INSTR_TRACE_SIZE" using 2 by (simp add: node_ok_def)
    from node_put_ok [OF _ this, of i] 2 False show ?thesis by auto
  qed
next
  case (3 n m ns xs)
  then obtain t' where t': "put_instr (m # ns) i = Some t'" "holds t' (drop INSTR_TRACE_SIZE xs @ [i])" by auto
  then obtain a as where "t' = a # as" by (cases t') auto
  then show ?case using 3 t' by auto
qed simp

lemma get_instr_ok:
  "holds t xs \<Longrightarrow> get_instr t p = (if p < length xs then Some (xs ! p)
     else if p < length t * INSTR_TRACE_SIZE then Some zero_instr else None)"
  "holds t xs \<Longrightarrow> length xs \<le> length t * INSTR_TRACE_SIZE \<and> (length t - 1) * INSTR_TRACE_SIZE < length xs"
proof (induction t xs arbitrary: p rule: holds.induct)
  case (2 n xs)
  { case 1
    then show ?case by (auto simp: node_ok_def rd_def)
  next
    case 2
    then show ?case by (auto simp: node_ok_def) }
next
  case (3 n m ns xs)
  { case 1
    then have h: "node_ok n" "take INSTR_TRACE_SIZE xs = table n" "INSTR_TRACE_SIZE \<le> length xs"
      "holds (m # ns) (drop INSTR_TRACE_SIZE xs)" by auto
    show ?case
    proof (cases "INSTR_TRACE_SIZE \<le> p")
      case True
      then show ?thesis using 3(1) [OF h(4), of "p - INSTR_TRACE_SIZE"] h(3) by auto
    next
      case False
      then have "rd (table n) p = Some (xs ! p)" using h(1) by (auto simp: rd_def node_ok_def simp flip: h(2))
      then show ?thesis using False h(3) by simp
    qed
  next
    case 2
    then show ?case using 3(2) by auto }
qed simp_all

lemma put_all_ok: "holds t xs \<Longrightarrow> \<exists>t'. put_all t is = Some t' \<and> holds t' (xs @ is)"
proof (induction "is" arbitrary: t xs)
  case (Cons i js)
  obtain t1 where t1: "put_instr t i = Some t1" "holds t1 (xs @ [i])" using put_instr_ok [OF Cons.prems] by blast
  from Cons.IH [OF t1(2)] t1(1) show ?case by auto
qed auto

lemma new_trace_holds: "holds new_trace [zero_instr]"
proof -
  have "take 1 (replicate INSTR_TRACE_SIZE zero_instr) = [zero_instr]"
    using size_pos by (simp add: min_def)
  then show ?thesis using size_pos by (simp add: new_trace_def new_node_def node_ok_def)
qed

lemma trace_end:
  assumes "length xs \<le> k * n" "(k - 1) * n < length xs" "0 < (n :: nat)"
  shows "length xs < k * n \<longleftrightarrow> \<not> n dvd length xs"
proof
  assume l: "length xs < k * n"
  show "\<not> n dvd length xs"
  proof
    assume "n dvd length xs"
    then obtain q where q: "length xs = n * q" by auto
    have "q < k" "k - 1 < q" using l assms(2,3) q by (simp_all add: mult.commute)
    then show False by simp
  qed
next
  assume "\<not> n dvd length xs"
  then show "length xs < k * n" using assms(1) by (cases "length xs = k * n") auto
qed

text \<open>The instructions \<^verbatim>\<open>sim_main\<close> puts into the trace: numbered from 1, with registers of the target and
  fresh pipeline fields, and of those that go to a station only the ones on the bus write a register.\<close>

definition program_ok :: "flags \<Rightarrow> instruction_t list \<Rightarrow> bool" where
  "program_ok fl is = (\<forall>i<length is. let x = is ! i in index x = i + 1 \<and> length (r_in x) = 3
     \<and> regs_ok (r_in x) \<and> regs_ok (r_out x) \<and> Q x = [None, None, None] \<and> tom_dispatch_cycle x = 0
     \<and> tom_issue_cycle x = 0 \<and> tom_execute_cycle x = 0 \<and> tom_cdb_cycle x = 0
     \<and> (rs_kind fl (op x) \<noteq> None \<and> (\<exists>r\<in>set (r_out x). r \<noteq> DNA) \<longrightarrow> WRITES_CDB fl (op x)))"

lemma program_trace_ok:
  assumes "program_ok fl is" "fl 0 = 0" "\<not> INSTR_TRACE_SIZE dvd length is + 1"
  shows "\<exists>t. put_all new_trace is = Some t \<and> trace_ok fl (length is) (length t * INSTR_TRACE_SIZE) (trace_mem t)
    \<and> (\<forall>p\<in>{1..length is}. trace_mem t p = is ! (p - 1))"
proof -
  obtain t where t: "put_all new_trace is = Some t" "holds t (zero_instr # is)"
    using put_all_ok [OF new_trace_holds, of "is"] by auto
  note g = get_instr_ok [OF t(2)]
  have cap: "length is + 1 < length t * INSTR_TRACE_SIZE"
    using trace_end [of "zero_instr # is" "length t" INSTR_TRACE_SIZE] g(2) size_pos assms(3) by simp
  have m: "trace_mem t p = (if 0 < p \<and> p \<le> length is then is ! (p - 1) else zero_instr)" for p
    using g(1) [of p] by (cases p) (auto simp: trace_mem_def)
  have x: "let x = is ! (p - 1) in index x = p \<and> length (r_in x) = 3
     \<and> regs_ok (r_in x) \<and> regs_ok (r_out x) \<and> Q x = [None, None, None] \<and> tom_dispatch_cycle x = 0
     \<and> tom_issue_cycle x = 0 \<and> tom_execute_cycle x = 0 \<and> tom_cdb_cycle x = 0
     \<and> (rs_kind fl (op x) \<noteq> None \<and> (\<exists>r\<in>set (r_out x). r \<noteq> DNA) \<longrightarrow> WRITES_CDB fl (op x))" if "p \<in> {1..length is}" for p
  proof -
    have "p - 1 < length is" "p - 1 + 1 = p" using that by auto
    then show ?thesis using assms(1) unfolding program_ok_def by metis
  qed
  have "trace_ok fl (length is) (length t * INSTR_TRACE_SIZE) (trace_mem t)"
    using cap assms(2) x unfolding trace_ok_def
    by (auto simp: m Let_def zero_instr_def rs_class_def)
  then show ?thesis using t(1) m by auto
qed

section \<open>Properties\<close>

text \<open>The run on a program, with the invariant at its end.\<close>

lemma run_program:
  assumes "program_ok fl is" "fl 0 = 0" "\<not> INSTR_TRACE_SIZE dvd length is + 1"
  shows "succeeds (do { t \<leftarrow> put_all new_trace is; runTomasulo fl (length is) t })
    (\<lambda>(c, s). \<exists>m cap. trace_ok fl (length is) cap m \<and> (\<forall>p\<in>{1..length is}. m p = is ! (p - 1))
      \<and> tinv fl (length is) m (c + 1) (c + 1) (c + 1) (c + 1) s \<and> is_simulation_done (length is) s
      \<and> c \<le> 12 * (length is + 1))"
proof -
  obtain t where t: "put_all new_trace is = Some t"
    "trace_ok fl (length is) (length t * INSTR_TRACE_SIZE) (trace_mem t)" "\<forall>p\<in>{1..length is}. trace_mem t p = is ! (p - 1)"
    using program_trace_ok [OF assms] by blast
  note i = init_inv [OF t(2)]
  from loop_ok [OF t(2) i(1) _ i(3)] obtain c s where
    "tom_loop fl (length is) (length t * INSTR_TRACE_SIZE) 1 (tom_init (trace_mem t)) = Some (c, s)"
    "is_simulation_done (length is) s" "tinv fl (length is) (trace_mem t) (c + 1) (c + 1) (c + 1) (c + 1) s"
    "c + 1 \<le> 1 + 12 * (length is + 1)" using i(2) by auto
  then show ?thesis using t by (auto simp: runTomasulo_def)
qed

text \<open>Two dependent additions, the second reading the result of the first.\<close>

definition demo_flags :: flags where
  "demo_flags x = (if x = 1 then F_ICOMP else 0)"

definition demo_program :: "instruction_t list" where
  "demo_program = [zero_instr\<lparr> index := 1, op := 1, r_out := [3, DNA], r_in := [1, 2, DNA] \<rparr>,
     zero_instr\<lparr> index := 2, op := 1, r_out := [4, DNA], r_in := [3, 3, DNA] \<rparr>]"

lemma demo_length: "length demo_program = 2"
  by (simp add: demo_program_def)

lemma demo_ok:
  "program_ok demo_flags demo_program" "demo_flags 0 = 0" "\<not> INSTR_TRACE_SIZE dvd length demo_program + 1"
proof -
  show "program_ok demo_flags demo_program"
    by (auto simp: program_ok_def demo_program_def zero_instr_def regs_ok_def MD_TOTAL_REGS_def DNA_def less_Suc_eq
        WRITES_CDB_def has_flag_def demo_flags_def F_ICOMP_def Let_def)
qed (simp_all add: demo_flags_def demo_length INSTR_TRACE_SIZE_def)

lemma demo_class: "p \<in> {1, 2} \<Longrightarrow> rs_class demo_flags (\<lambda>p. demo_program ! (p - 1)) p"
  by (auto simp: rs_class_def trap_at_def IS_TRAP_def IS_BRANCH_def IS_UNCOND_CTRL_def has_flag_def demo_flags_def
      demo_program_def rs_kind_def USES_INT_FU_def F_ICOMP_def F_TRAP_def F_COND_def F_CALL_def F_UNCOND_def)

lemma demo_producer: "producer demo_flags (\<lambda>p. demo_program ! (p - 1)) 2 0 = Some 1"
  using demo_class [of 1] by (simp add: producer_def demo_program_def DNA_def numeral_2_eq_2)

text \<open>C6: The pipeline never deadlocks. For every program whose instructions have legal registers and
  in which no store writes a register (and whose length plus one is no multiple of the trace node
  size), \<open>runTomasulo\<close> neither fails an assertion nor follows a null pointer nor loops for ever: it returns
  after at most \<open>12 (n + 1)\<close> cycles for \<open>n\<close> instructions, with the whole pipeline empty.\<close>

theorem tomasulo_terminates:
  assumes "program_ok fl is" "fl 0 = 0" "\<not> INSTR_TRACE_SIZE dvd length is + 1"
  shows "succeeds (do { t \<leftarrow> put_all new_trace is; runTomasulo fl (length is) t })
    (\<lambda>(c, s). c \<le> 12 * (length is + 1) \<and> is_simulation_done (length is) s)"
  by (rule succeeds_mono2 [OF run_program [OF assms]]) blast

theorem tomasulo_terminates_witness:
  "succeeds (do { t \<leftarrow> put_all new_trace demo_program; runTomasulo demo_flags (length demo_program) t })
    (\<lambda>(c, s). c \<le> 36 \<and> is_simulation_done 2 s)"
  using tomasulo_terminates [OF demo_ok] by (simp add: demo_length)

text \<open>C7: The pipeline respects the data dependences and its latencies. In the table of cycles that a run
  leaves behind, every instruction that goes to a station was dispatched before it was issued and issued
  before it started; if it uses the common data bus it gets there at least a full latency after its start;
  and for every operand, the last earlier instruction that goes to a station and writes the register had been on the bus in an
  earlier cycle than the one in which the instruction started.  (Jumps and branches go to no station: a link
  register that they write is not waited for.)\<close>

theorem tomasulo_dataflow:
  assumes "program_ok fl is" "fl 0 = 0" "\<not> INSTR_TRACE_SIZE dvd length is + 1"
  shows "succeeds (do { t \<leftarrow> put_all new_trace is; runTomasulo fl (length is) t })
    (\<lambda>(c, s). \<forall>p\<in>{1..length is}. rs_class fl (\<lambda>p. is ! (p - 1)) p \<longrightarrow>
      0 < disp_of s p \<and> disp_of s p < issue_of s p \<and> issue_of s p < exec_of s p
      \<and> (WRITES_CDB fl (op (is ! (p - 1))) \<longrightarrow> exec_of s p + latency fl (\<lambda>p. is ! (p - 1)) p \<le> cdb_of s p \<and> cdb_of s p \<le> c)
      \<and> (\<forall>k<3. \<forall>j. producer fl (\<lambda>p. is ! (p - 1)) p k = Some j \<longrightarrow> 0 < cdb_of s j \<and> cdb_of s j < exec_of s p))"
proof (rule succeeds_mono2 [OF run_program [OF assms]], elim exE conjE, intro ballI impI)
  fix c s m cap p
  let ?m = "\<lambda>p. is ! (p - 1)" and ?N = "length is"
  assume m: "\<forall>p\<in>{1..?N}. m p = is ! (p - 1)" and inv: "tinv fl ?N m (c + 1) (c + 1) (c + 1) (c + 1) s"
    and d: "is_simulation_done ?N s" and p: "p \<in> {1..?N}" "rs_class fl ?m p"
  have eq: "rs_class fl m q = rs_class fl ?m q" "latency fl m q = latency fl ?m q" if "q \<in> {1..?N}" for q
    using m that by (simp_all add: rs_class_def trap_at_def latency_def)
  have lw: "last_writer fl m n r = last_writer fl ?m n r" if "n \<le> Suc ?N" for n r
    using that
  proof (induction n)
    case (Suc n)
    then show ?case using eq(1) [of n] m by (cases n) (auto simp: rs_class_def)
  qed simp
  have pr: "producer fl m p k = producer fl ?m p k" for k
    using m p(1) lw [of p] by (simp add: producer_def)
  have cl: "rs_class fl m p" using eq(1) [OF p(1)] p(2) by simp
  note a = done_all [OF inv d p(1) cl]
  have t: "0 < disp_of s p" "disp_of s p < issue_of s p" "issue_of s p < exec_of s p"
    "cdb_of s p \<noteq> 0 \<longrightarrow> exec_of s p + latency fl m p \<le> cdb_of s p \<and> cdb_of s p < c + 1"
    using tinvD(7) [OF inv, of p] a(1,2) unfolding ptime_def by auto
  have g: "\<forall>k<3. \<forall>j. producer fl m p k = Some j \<longrightarrow> 0 < cdb_of s j \<and> cdb_of s j < exec_of s p"
    using tinvD(8) [OF inv, of p] a(1,2) unfolding ptags_def by auto
  show "0 < disp_of s p \<and> disp_of s p < issue_of s p \<and> issue_of s p < exec_of s p
      \<and> (WRITES_CDB fl (op (is ! (p - 1))) \<longrightarrow> exec_of s p + latency fl ?m p \<le> cdb_of s p \<and> cdb_of s p \<le> c)
      \<and> (\<forall>k<3. \<forall>j. producer fl ?m p k = Some j \<longrightarrow> 0 < cdb_of s j \<and> cdb_of s j < exec_of s p)"
    using t g a(3) m p(1) eq(2) [OF p(1)] unfolding pr by auto
qed

theorem tomasulo_dataflow_witness:
  "succeeds (do { t \<leftarrow> put_all new_trace demo_program; runTomasulo demo_flags (length demo_program) t })
    (\<lambda>(c, s). 0 < cdb_of s 1 \<and> cdb_of s 1 < exec_of s 2)"
proof (rule succeeds_mono2 [OF tomasulo_dataflow [OF demo_ok]])
  fix c s
  assume a: "\<forall>p\<in>{1..length demo_program}. rs_class demo_flags (\<lambda>p. demo_program ! (p - 1)) p \<longrightarrow>
      0 < disp_of s p \<and> disp_of s p < issue_of s p \<and> issue_of s p < exec_of s p
      \<and> (WRITES_CDB demo_flags (op (demo_program ! (p - 1))) \<longrightarrow>
          exec_of s p + latency demo_flags (\<lambda>p. demo_program ! (p - 1)) p \<le> cdb_of s p \<and> cdb_of s p \<le> c)
      \<and> (\<forall>k<3. \<forall>j. producer demo_flags (\<lambda>p. demo_program ! (p - 1)) p k = Some j \<longrightarrow>
          0 < cdb_of s j \<and> cdb_of s j < exec_of s p)"
  have "2 \<in> {1..length demo_program}" by (simp add: demo_program_def)
  with a demo_class [of 2] demo_producer show "0 < cdb_of s 1 \<and> cdb_of s 1 < exec_of s 2" by fastforce
qed

text \<open>C8: The common data bus carries one result at a time and the stations are filled in program
  order. After a run no two instructions have the same bus cycle, and of two instructions that go to a station
  the one that is earlier in the program was issued in an earlier cycle.\<close>

theorem tomasulo_order:
  assumes "program_ok fl is" "fl 0 = 0" "\<not> INSTR_TRACE_SIZE dvd length is + 1"
  shows "succeeds (do { t \<leftarrow> put_all new_trace is; runTomasulo fl (length is) t })
    (\<lambda>(c, s). (\<forall>p q. 0 < cdb_of s p \<and> cdb_of s p = cdb_of s q \<longrightarrow> p = q)
      \<and> (\<forall>p\<in>{1..length is}. \<forall>q\<in>{1..length is}. rs_class fl (\<lambda>p. is ! (p - 1)) p \<and> rs_class fl (\<lambda>p. is ! (p - 1)) q
          \<and> p < q \<longrightarrow> issue_of s p < issue_of s q))"
proof (rule succeeds_mono2 [OF run_program [OF assms]], elim exE conjE)
  fix c s m cap
  let ?m = "\<lambda>p. is ! (p - 1)" and ?N = "length is"
  assume m: "\<forall>p\<in>{1..?N}. m p = is ! (p - 1)" and inv: "tinv fl ?N m (c + 1) (c + 1) (c + 1) (c + 1) s"
    and d: "is_simulation_done ?N s"
  have eq: "rs_class fl m q = rs_class fl ?m q" if "q \<in> {1..?N}" for q
    using m that by (simp add: rs_class_def trap_at_def)
  have i: "issued s p" if "p \<in> {1..?N}" "rs_class fl ?m p" for p
    using done_all(1) [OF inv d that(1)] eq that by simp
  have o: "\<And>p q. cdb_of s p \<noteq> 0 \<Longrightarrow> cdb_of s p = cdb_of s q \<Longrightarrow> p = q"
    "\<And>p q. issued s p \<Longrightarrow> issued s q \<Longrightarrow> p < q \<Longrightarrow> issue_of s p < issue_of s q"
    using tinvD(4) [OF inv] unfolding torder_def by blast+
  show "(\<forall>p q. 0 < cdb_of s p \<and> cdb_of s p = cdb_of s q \<longrightarrow> p = q)
      \<and> (\<forall>p\<in>{1..?N}. \<forall>q\<in>{1..?N}. rs_class fl ?m p \<and> rs_class fl ?m q \<and> p < q \<longrightarrow> issue_of s p < issue_of s q)"
    using o i by blast
qed

theorem tomasulo_order_witness:
  "succeeds (do { t \<leftarrow> put_all new_trace demo_program; runTomasulo demo_flags (length demo_program) t })
    (\<lambda>(c, s). issue_of s 1 < issue_of s 2)"
proof (rule succeeds_mono2 [OF tomasulo_order [OF demo_ok]], elim conjE)
  fix c s
  assume a: "\<forall>p\<in>{1..length demo_program}. \<forall>q\<in>{1..length demo_program}.
      rs_class demo_flags (\<lambda>p. demo_program ! (p - 1)) p \<and> rs_class demo_flags (\<lambda>p. demo_program ! (p - 1)) q
      \<and> p < q \<longrightarrow> issue_of s p < issue_of s q"
  have "1 \<in> {1..length demo_program}" "2 \<in> {1..length demo_program}" by (simp_all add: demo_program_def)
  with a demo_class [of 1] demo_class [of 2] show "issue_of s 1 < issue_of s 2" by simp
qed

text \<open>C9: The trace gives back what was put into it, and its end is reached by one access too many.
  After putting \<open>n\<close> instructions, \<open>get_instr\<close> returns instruction \<open>p\<close> at position \<open>p\<close>; at position \<open>n + 1\<close>, which
  \<open>fetch\<close> reads to find the end, it returns the zero entry, except when \<open>n + 1\<close> is a multiple of the node
  size: then the list ends there and the assertion of \<open>get_instr\<close> fails.\<close>

theorem trace_roundtrip:
  "succeeds (put_all new_trace is) (\<lambda>t. (\<forall>p<length is. get_instr t (p + 1) = Some (is ! p))
     \<and> get_instr t (length is + 1) = (if INSTR_TRACE_SIZE dvd length is + 1 then None else Some zero_instr))"
proof -
  obtain t where t: "put_all new_trace is = Some t" "holds t (zero_instr # is)"
    using put_all_ok [OF new_trace_holds, of "is"] by auto
  note g = get_instr_ok [OF t(2)]
  have "length is + 1 < length t * INSTR_TRACE_SIZE \<longleftrightarrow> \<not> INSTR_TRACE_SIZE dvd length is + 1"
    using trace_end [of "zero_instr # is" "length t" INSTR_TRACE_SIZE] g(2) size_pos by simp
  then show ?thesis using t(1) g(1) by simp
qed

theorem trace_roundtrip_witness:
  "succeeds (put_all new_trace demo_program) (\<lambda>t. get_instr t 1 = Some (demo_program ! 0)
     \<and> get_instr t 3 = Some zero_instr)"
proof (rule succeeds_mono [OF trace_roundtrip], elim conjE)
  fix t assume a: "\<forall>p<length demo_program. get_instr t (p + 1) = Some (demo_program ! p)"
    "get_instr t (length demo_program + 1)
      = (if INSTR_TRACE_SIZE dvd length demo_program + 1 then None else Some zero_instr)"
  have "get_instr t (0 + 1) = Some (demo_program ! 0)" using a(1) demo_length by (metis zero_less_numeral)
  with a(2) demo_ok(3) show "get_instr t 1 = Some (demo_program ! 0) \<and> get_instr t 3 = Some zero_instr"
    by (simp add: demo_length)
qed

end
