(* ===== verification/Way_List.thy ===== *)
theory Way_List
  imports Prelude
begin

text \<open>
  The linked lists of a cache set in \<^verbatim>\<open>cache.c\<close> of \<^verbatim>\<open>src/Lab4/simplesim-3.0d-assig4\<close>: the doubly linked list
  that orders the blocks of a set for replacement, and the hash chains that speed up the search
  in highly associative sets.

  The blocks of a set are allocated contiguously, so a pointer to a block is its number in the
  set.  The link fields of the blocks are functions from block numbers, the other fields are in
  \<open>blks\<close>.  The lemmas show that \<open>update_way_list\<close>, \<open>unlink_htab_ent\<close> and \<open>link_htab_ent\<close> do on the
  lists the pointers represent what their comments say.
\<close>

section \<open>Blocks and sets\<close>

type_synonym md_addr_t = "32 word"
type_synonym byte_t = "8 word"
type_synonym blkptr = nat

record cache_blk_t =
  tag :: md_addr_t
  status :: UINT32
  ready :: int
  user_data :: "byte_t list option"
  data :: "byte_t list"

record cache_set_t =
  hash :: "blkptr option list"
  way_head :: "blkptr option"
  way_tail :: "blkptr option"
  way_next :: "blkptr \<Rightarrow> blkptr option"
  way_prev :: "blkptr \<Rightarrow> blkptr option"
  hash_next :: "blkptr \<Rightarrow> blkptr option"
  blks :: "cache_blk_t list"

datatype list_loc_t = Head | Tail

section \<open>Operations\<close>

subsection \<open>The way list\<close>

definition link_way :: "cache_set_t \<Rightarrow> blkptr \<Rightarrow> list_loc_t \<Rightarrow> cache_set_t option" where
  "link_way s b loc = (case loc of
       Head \<Rightarrow> do {
         h \<leftarrow> way_head s;
         Some (s\<lparr> way_next := (way_next s)(b := Some h),
                  way_prev := ((way_prev s)(b := None))(h := Some b), way_head := Some b \<rparr>)
       }
     | Tail \<Rightarrow> do {
         t \<leftarrow> way_tail s;
         Some (s\<lparr> way_prev := (way_prev s)(b := Some t),
                  way_next := ((way_next s)(b := None))(t := Some b), way_tail := Some b \<rparr>)
       })"

definition update_way_list :: "cache_set_t \<Rightarrow> blkptr \<Rightarrow> list_loc_t \<Rightarrow> cache_set_t option" where
  "update_way_list s b loc = (case (way_prev s b, way_next s b) of
       (None, None) \<Rightarrow> do {
         assert_that (way_head s = Some b \<and> way_tail s = Some b);
         Some s
       }
     | (None, Some n) \<Rightarrow> do {
         assert_that (way_head s = Some b \<and> way_tail s \<noteq> Some b);
         if loc = Head then Some s
         else link_way (s\<lparr> way_head := Some n, way_prev := (way_prev s)(n := None) \<rparr>) b loc
       }
     | (Some p, None) \<Rightarrow> do {
         assert_that (way_head s \<noteq> Some b \<and> way_tail s = Some b);
         if loc = Tail then Some s
         else link_way (s\<lparr> way_tail := Some p, way_next := (way_next s)(p := None) \<rparr>) b loc
       }
     | (Some p, Some n) \<Rightarrow> do {
         assert_that (way_head s \<noteq> Some b \<and> way_tail s \<noteq> Some b);
         link_way (s\<lparr> way_next := (way_next s)(p := Some n), way_prev := (way_prev s)(n := Some p) \<rparr>) b loc
       })"

subsection \<open>The hash chains\<close>

definition CACHE_HASH :: "nat \<Rightarrow> md_addr_t \<Rightarrow> nat" where
  "CACHE_HASH hsize key =
     unat ((drop_bit 24 key XOR drop_bit 16 key XOR drop_bit 8 key XOR key) AND (of_nat hsize - 1))"

text \<open>The search loops follow \<open>nx\<close> from \<open>p\<close>; a loop that never meets a null pointer has the value \<open>None\<close>.\<close>

partial_function (option) chain_find :: "(blkptr \<Rightarrow> blkptr option) \<Rightarrow> (blkptr \<Rightarrow> bool) \<Rightarrow> blkptr option \<Rightarrow> blkptr option option" where
  "chain_find nx P p = (case p of
       None \<Rightarrow> Some None
     | Some b \<Rightarrow> if P b then Some (Some b) else chain_find nx P (nx b))"

text \<open>The entry before \<open>b\<close>; the assertion that \<open>b\<close> is on the chain fails at its end.\<close>

partial_function (option) chain_before :: "(blkptr \<Rightarrow> blkptr option) \<Rightarrow> blkptr \<Rightarrow> blkptr option \<Rightarrow> blkptr option \<Rightarrow> blkptr option option" where
  "chain_before nx b prev p = do {
     e \<leftarrow> p;
     if e = b then Some prev else chain_before nx b (Some e) (nx e)
   }"

definition unlink_htab_ent :: "nat \<Rightarrow> cache_set_t \<Rightarrow> blkptr \<Rightarrow> cache_set_t option" where
  "unlink_htab_ent hsize s b = do {
     x \<leftarrow> rd (blks s) b;
     let idx = CACHE_HASH hsize (tag x);
     p \<leftarrow> rd (hash s) idx;
     prev \<leftarrow> chain_before (hash_next s) b None p;
     let s = (case prev of
         None \<Rightarrow> s\<lparr> hash := (hash s)[idx := hash_next s b] \<rparr>
       | Some q \<Rightarrow> s\<lparr> hash_next := (hash_next s)(q := hash_next s b) \<rparr>);
     Some (s\<lparr> hash_next := (hash_next s)(b := None) \<rparr>)
   }"

definition link_htab_ent :: "nat \<Rightarrow> cache_set_t \<Rightarrow> blkptr \<Rightarrow> cache_set_t option" where
  "link_htab_ent hsize s b = do {
     x \<leftarrow> rd (blks s) b;
     let idx = CACHE_HASH hsize (tag x);
     p \<leftarrow> rd (hash s) idx;
     Some (s\<lparr> hash_next := (hash_next s)(b := p), hash := (hash s)[idx := Some b] \<rparr>)
   }"

section \<open>Chains of pointers\<close>

fun links :: "('a \<Rightarrow> 'a option) \<Rightarrow> 'a option \<Rightarrow> 'a list \<Rightarrow> 'a option \<Rightarrow> bool" where
  "links nx p [] q = (p = q)"
| "links nx p (x # xs) q = (p = Some x \<and> links nx (nx x) xs q)"

named_theorems chain_simps \<open>facts about chains of pointers\<close>

lemma links_append [chain_simps]: "links nx p (xs @ ys) q = (\<exists>r. links nx p xs r \<and> links nx r ys q)"
  by (induction xs arbitrary: p) auto

lemma links_upd [chain_simps]: "u \<notin> set xs \<Longrightarrow> links (nx(u := v)) p xs q = links nx p xs q"
  by (induction xs arbitrary: p) auto

lemma links_unique: "links nx p xs None \<Longrightarrow> links nx p ys None \<Longrightarrow> xs = ys"
proof (induction xs arbitrary: p ys)
  case (Cons x xs)
  then show ?case by (cases ys) auto
next
  case Nil
  then show ?case by (cases ys) auto
qed

lemma links_distinct: "links nx p xs None \<Longrightarrow> distinct xs"
proof (induction xs arbitrary: p)
  case (Cons x xs)
  have "x \<notin> set xs"
  proof
    assume "x \<in> set xs"
    then obtain as bs where "xs = as @ x # bs" by (auto simp: in_set_conv_decomp)
    then have "links nx (nx x) bs None" "links nx (nx x) xs None" using Cons.prems by (auto simp: links_append)
    from links_unique [OF this] \<open>xs = as @ x # bs\<close> show False by simp
  qed
  then show ?case using Cons by auto
qed simp

lemma links_first: "links nx p xs None \<Longrightarrow> p = (if xs = [] then None else Some (hd xs))"
  by (cases xs) auto

lemma chain_find_eq: "links nx p xs None \<Longrightarrow> chain_find nx P p = Some (List.find P xs)"
  by (induction xs arbitrary: p) (simp_all add: chain_find.simps)

lemma chain_before_eq:
  "links nx p (as @ b # cs) q \<Longrightarrow> b \<notin> set as \<Longrightarrow>
   chain_before nx b prev p = Some (if as = [] then prev else Some (last as))"
proof (induction as arbitrary: p prev)
  case (Cons a as)
  then show ?case by (subst chain_before.simps) auto
qed (simp add: chain_before.simps)

section \<open>The way list moves a block to one of its ends\<close>

definition ways :: "cache_set_t \<Rightarrow> blkptr list \<Rightarrow> bool" where
  "ways s xs = (xs \<noteq> [] \<and> links (way_next s) (way_head s) xs None \<and> links (way_prev s) (way_tail s) (rev xs) None)"

text \<open>The fields that the way list does not use.\<close>

definition same_rest :: "cache_set_t \<Rightarrow> cache_set_t \<Rightarrow> bool" where
  "same_rest s s' = (hash s' = hash s \<and> hash_next s' = hash_next s \<and> blks s' = blks s)"

lemma ways_distinct: "ways s xs \<Longrightarrow> distinct xs"
  using links_distinct by (auto simp: ways_def)

lemma ways_ends: "ways s xs \<Longrightarrow> way_head s = Some (hd xs)" "ways s xs \<Longrightarrow> way_tail s = Some (last xs)"
  by (auto simp: ways_def hd_rev dest: links_first)

lemma ways_neighbours:
  assumes "ways s (as @ b # cs)"
  shows "way_prev s b = (if as = [] then None else Some (last as))" "way_next s b = (if cs = [] then None else Some (hd cs))"
  using assms by (auto simp: ways_def links_append hd_rev dest: links_first)

lemma link_way_head:
  assumes "ways s xs" "b \<notin> set xs"
  shows "succeeds (link_way s b Head) (\<lambda>s'. ways s' (b # xs) \<and> same_rest s s')"
proof -
  obtain h ys where xs: "xs = h # ys" using assms(1) by (cases xs) (auto simp: ways_def)
  have "h \<notin> set ys" "b \<noteq> h" using ways_distinct [OF assms(1)] assms(2) xs by auto
  then show ?thesis using assms xs
    by (simp add: link_way_def ways_def same_rest_def chain_simps)
qed

lemma link_way_tail:
  assumes "ways s xs" "b \<notin> set xs"
  shows "succeeds (link_way s b Tail) (\<lambda>s'. ways s' (xs @ [b]) \<and> same_rest s s')"
proof -
  obtain t ys where xs: "xs = ys @ [t]" using assms(1) by (cases xs rule: rev_cases) (auto simp: ways_def)
  have "t \<notin> set ys" "b \<noteq> t" using ways_distinct [OF assms(1)] assms(2) xs by auto
  then show ?thesis using assms xs
    by (simp add: link_way_def ways_def same_rest_def chain_simps)
qed

lemma update_way_list_ok:
  assumes "ways s (as @ b # cs)"
  shows "succeeds (update_way_list s b loc)
    (\<lambda>s'. ways s' (case loc of Head \<Rightarrow> b # as @ cs | Tail \<Rightarrow> as @ cs @ [b]) \<and> same_rest s s')"
proof -
  note n = ways_neighbours [OF assms] and e = ways_ends [OF assms] and d = ways_distinct [OF assms]
  have l: "cs \<noteq> [] \<Longrightarrow> last cs \<noteq> b" "as \<noteq> [] \<Longrightarrow> hd as \<noteq> b"
    using d last_in_set [of cs] hd_in_set [of as] by auto
  have relink: "succeeds (link_way t b loc)
      (\<lambda>s'. ways s' (case loc of Head \<Rightarrow> b # as @ cs | Tail \<Rightarrow> as @ cs @ [b]) \<and> same_rest s s')"
    if "ways t (as @ cs)" "same_rest s t" for t
    using that link_way_head [OF that(1), of b] link_way_tail [OF that(1), of b] d
    by (cases loc) (auto simp: same_rest_def elim!: succeeds_mono)
  show ?thesis
  proof (cases as rule: rev_cases)
    case Nil
    show ?thesis
    proof (cases cs)
      case Nil
      then show ?thesis using n e \<open>as = []\<close> assms by (cases loc) (simp_all add: update_way_list_def same_rest_def)
    next
      case (Cons n' cs')
      have "ways (s\<lparr> way_head := Some n', way_prev := (way_prev s)(n' := None) \<rparr>) (as @ cs)"
        using assms d Cons \<open>as = []\<close> by (auto simp: ways_def chain_simps)
      from relink [OF this] show ?thesis using n e l Cons \<open>as = []\<close> assms
        by (cases loc) (auto simp: update_way_list_def same_rest_def)
    qed
  next
    case (snoc as' p)
    show ?thesis
    proof (cases cs)
      case Nil
      have "ways (s\<lparr> way_tail := Some p, way_next := (way_next s)(p := None) \<rparr>) (as @ cs)"
        using assms d Nil snoc by (auto simp: ways_def chain_simps)
      from relink [OF this] show ?thesis using n e l Nil snoc assms
        by (cases loc) (auto simp: update_way_list_def same_rest_def hd_append split: if_splits)
    next
      case (Cons n' cs')
      have "ways (s\<lparr> way_next := (way_next s)(p := Some n'), way_prev := (way_prev s)(n' := Some p) \<rparr>) (as @ cs)"
        using assms d Cons snoc by (auto simp: ways_def chain_simps)
      from relink [OF this] show ?thesis using n e l Cons snoc
        by (auto simp: update_way_list_def same_rest_def hd_append split: if_splits)
    qed
  qed
qed

section \<open>The hash chains hold the blocks of their bucket\<close>

definition bucket :: "nat \<Rightarrow> cache_set_t \<Rightarrow> blkptr set \<Rightarrow> nat \<Rightarrow> blkptr set" where
  "bucket hsize s B i = {b \<in> B. CACHE_HASH hsize (tag (blks s ! b)) = i}"

definition hashed :: "nat \<Rightarrow> cache_set_t \<Rightarrow> blkptr set \<Rightarrow> bool" where
  "hashed hsize s B = (length (hash s) = hsize
     \<and> (\<forall>i<hsize. \<exists>ys. links (hash_next s) (hash s ! i) ys None \<and> set ys = bucket hsize s B i))"

text \<open>The fields that the hash chains do not use.\<close>

definition same_ways :: "cache_set_t \<Rightarrow> cache_set_t \<Rightarrow> bool" where
  "same_ways s s' = (way_head s' = way_head s \<and> way_tail s' = way_tail s \<and> way_next s' = way_next s
     \<and> way_prev s' = way_prev s \<and> blks s' = blks s)"

lemma ways_same: "same_ways s s' \<Longrightarrow> ways s' xs = ways s xs"
  by (simp add: same_ways_def ways_def)

lemma hashed_same: "same_rest s s' \<Longrightarrow> hashed hsize s' B = hashed hsize s B"
  by (simp add: same_rest_def hashed_def bucket_def)

lemma CACHE_HASH_less [wbounds]: "0 < hsize \<Longrightarrow> hsize < 2 ^ 32 \<Longrightarrow> CACHE_HASH hsize key < hsize"
proof -
  assume h: "0 < hsize" "hsize < 2 ^ 32"
  have "unat (of_nat hsize - 1 :: 32 word) = hsize - 1"
    using h by (simp add: unat_sub_if' unat_of_nat take_bit_nat_eq_self)
  then show ?thesis using unat_and_le [of "drop_bit 24 key XOR drop_bit 16 key XOR drop_bit 8 key XOR key" "of_nat hsize - 1"] h
    by (simp add: CACHE_HASH_def)
qed

lemma hashed_blks:
  "hashed hsize s B \<Longrightarrow> b \<notin> B \<Longrightarrow> hashed hsize (s\<lparr> blks := (blks s)[b := x] \<rparr>) B"
proof -
  assume "b \<notin> B"
  then have "(blks s)[b := x] ! c = blks s ! c" if "c \<in> B" for c using that by (metis nth_list_update_neq)
  then have "bucket hsize (s\<lparr> blks := (blks s)[b := x] \<rparr>) B i = bucket hsize s B i" for i
    by (auto simp: bucket_def)
  then show "hashed hsize s B \<Longrightarrow> ?thesis" by (simp add: hashed_def)
qed

lemma link_htab_ok:
  assumes "hashed hsize s B" "b \<notin> B" "b < length (blks s)" "0 < hsize" "hsize < 2 ^ 32"
  shows "succeeds (link_htab_ent hsize s b) (\<lambda>s'. hashed hsize s' (insert b B) \<and> same_ways s s')"
proof -
  let ?i = "CACHE_HASH hsize (tag (blks s ! b))"
  let ?s = "s\<lparr> hash_next := (hash_next s)(b := hash s ! ?i), hash := (hash s)[?i := Some b] \<rparr>"
  have i: "?i < hsize" using assms(4,5) by (rule CACHE_HASH_less)
  have l: "length (hash s) = hsize" using assms(1) by (simp add: hashed_def)
  have "\<exists>zs. links (hash_next ?s) (hash ?s ! j) zs None \<and> set zs = bucket hsize ?s (insert b B) j" if j: "j < hsize" for j
  proof -
    obtain ys where ys: "links (hash_next s) (hash s ! j) ys None" "set ys = bucket hsize s B j"
      using assms(1) j unfolding hashed_def by blast
    have "b \<notin> set ys" using ys(2) assms(2) by (simp add: bucket_def)
    then show ?thesis using ys l j i
      by (intro exI [of _ "if j = ?i then b # ys else ys"]) (auto simp: links_upd bucket_def)
  qed
  then have "hashed hsize ?s (insert b B)" using l by (simp add: hashed_def)
  then show ?thesis using l i assms(3) by (simp add: link_htab_ent_def rd_in same_ways_def Let_def)
qed

lemma unlink_links:
  assumes "links nx p (as @ b # cs) None"
  shows "links ((if as = [] then nx else nx(last as := nx b))(b := None)) (if as = [] then nx b else p) (as @ cs) None"
proof -
  have d: "distinct (as @ b # cs)" using assms by (rule links_distinct)
  show ?thesis
  proof (cases as rule: rev_cases)
    case (snoc as' a)
    then show ?thesis using assms d by (auto simp: chain_simps)
  qed (use assms d in \<open>auto simp: chain_simps\<close>)
qed

lemma unlink_htab_ok:
  assumes "hashed hsize s B" "b \<in> B" "b < length (blks s)" "0 < hsize" "hsize < 2 ^ 32"
  shows "succeeds (unlink_htab_ent hsize s b) (\<lambda>s'. hashed hsize s' (B - {b}) \<and> same_ways s s')"
proof -
  let ?i = "CACHE_HASH hsize (tag (blks s ! b))"
  have i: "?i < hsize" using assms(4,5) by (rule CACHE_HASH_less)
  have l: "length (hash s) = hsize" using assms(1) by (simp add: hashed_def)
  obtain xs where xs: "links (hash_next s) (hash s ! ?i) xs None" "set xs = bucket hsize s B ?i"
    using assms(1) i unfolding hashed_def by blast
  then have "b \<in> set xs" using assms(2) by (simp add: bucket_def)
  then obtain as cs where ac: "xs = as @ b # cs" by (auto simp: in_set_conv_decomp)
  have d: "distinct (as @ b # cs)" using links_distinct xs(1) ac by blast
  let ?nx = "(if as = [] then hash_next s else (hash_next s)(last as := hash_next s b))(b := None)"
  let ?s = "s\<lparr> hash_next := ?nx, hash := (if as = [] then (hash s)[?i := hash_next s b] else hash s) \<rparr>"
  have "\<exists>zs. links ?nx (hash ?s ! j) zs None \<and> set zs = bucket hsize ?s (B - {b}) j" if j: "j < hsize" for j
  proof (cases "j = ?i")
    case True
    have "links ?nx (hash ?s ! j) (as @ cs) None" 
      using unlink_links [of "hash_next s" "hash s ! ?i" as b cs] xs(1) ac i l True by (simp split: if_splits)
    moreover have "set (as @ cs) = bucket hsize ?s (B - {b}) j" using xs(2) ac d True by (auto simp: bucket_def)
    ultimately show ?thesis by blast
  next
    case False
    obtain ys where ys: "links (hash_next s) (hash s ! j) ys None" "set ys = bucket hsize s B j"
      using assms(1) j unfolding hashed_def by blast
    have "set ys \<inter> set xs = {}" using ys(2) xs(2) False by (auto simp: bucket_def)
    then have "b \<notin> set ys" "as \<noteq> [] \<Longrightarrow> last as \<notin> set ys" using ac last_in_set [of as] by auto
    then have "links ?nx (hash ?s ! j) ys None" using ys(1) False by (simp add: links_upd)
    moreover have "set ys = bucket hsize ?s (B - {b}) j" using ys(2) False by (auto simp: bucket_def)
    ultimately show ?thesis by blast
  qed
  then have h: "hashed hsize ?s (B - {b})" using l by (simp add: hashed_def)
  have "chain_before (hash_next s) b None (hash s ! ?i) = Some (if as = [] then None else Some (last as))"
    using chain_before_eq [of "hash_next s" "hash s ! ?i" as b cs None None] xs(1) ac d by simp
  then have "unlink_htab_ent hsize s b = Some ?s" using l i assms(3)
    by (simp add: unlink_htab_ent_def rd_in Let_def)
  then show ?thesis using h by (simp add: same_ways_def)
qed

end
