(* ===== verification/Ss_Cache.thy ===== *)
theory Ss_Cache
  imports Way_List
begin

text \<open>
  The cache module of Lab 4, \<^verbatim>\<open>cache.c\<close> of \<^verbatim>\<open>src/Lab4/simplesim-3.0d-assig4\<close>: creation, access with its fast
  path, replacement and write back, probing and flushing, and the three prefetchers, with the
  miss handlers of \<^verbatim>\<open>sim-cache.c\<close> that stack one cache on another.

  A pointer to a block is its set and its number in the set.  The block access function is a
  field of the cache, as in the code; it works on the state \<open>'g\<close> outside the cache and returns the
  latency and the new contents of the block.  The reference prediction table is a global
  variable that all caches share, so it is part of that state, with the program counter and
  the random numbers.  Latencies and times are integers: a signed overflow has no value in C.
  \<open>None\<close> is a \<^verbatim>\<open>fatal\<close> or \<^verbatim>\<open>panic\<close>, a failed assertion, or an access through a null pointer.
\<close>

section \<open>Data\<close>

datatype mem_cmd = Read | Write
datatype cache_policy = LRU | Random | FIFO

definition CACHE_BLK_VALID :: UINT32 where "CACHE_BLK_VALID = 1"
definition CACHE_BLK_DIRTY :: UINT32 where "CACHE_BLK_DIRTY = 2"

definition is_valid :: "cache_blk_t \<Rightarrow> bool" where
  "is_valid x = (status x AND CACHE_BLK_VALID \<noteq> 0)"

definition is_dirty :: "cache_blk_t \<Rightarrow> bool" where
  "is_dirty x = (status x AND CACHE_BLK_DIRTY \<noteq> 0)"

text \<open>The data and the user data of a block.\<close>

type_synonym contents = "byte_t list \<times> byte_t list option"
type_synonym 'g blk_access =
  "mem_cmd \<Rightarrow> md_addr_t \<Rightarrow> nat \<Rightarrow> cache_blk_t \<Rightarrow> int \<Rightarrow> bool \<Rightarrow> 'g \<Rightarrow> (int \<times> contents \<times> 'g) option"

record 'g cache_t =
  nsets :: nat
  bsize :: nat
  balloc :: bool
  usize :: nat
  assoc :: nat
  policy :: cache_policy
  hit_latency :: nat
  prefetch_type :: nat
  blk_access_fn :: "'g blk_access"
  hsize :: nat
  blk_mask :: md_addr_t
  set_shift :: nat
  set_mask :: md_addr_t
  tag_shift :: nat
  tag_mask :: md_addr_t
  tagset_mask :: md_addr_t
  bus_free :: int
  hits :: nat
  misses :: nat
  replacements :: nat
  writebacks :: nat
  invalidations :: nat
  read_hits :: nat
  read_misses :: nat
  prefetch_hits :: nat
  prefetch_misses :: nat
  last_tagset :: md_addr_t
  last_blk :: "(nat \<times> blkptr) option"
  sets :: "cache_set_t list"

definition CACHE_TAG :: "'g cache_t \<Rightarrow> md_addr_t \<Rightarrow> md_addr_t" where
  "CACHE_TAG cp addr = drop_bit (tag_shift cp) addr"

definition CACHE_SET :: "'g cache_t \<Rightarrow> md_addr_t \<Rightarrow> nat" where
  "CACHE_SET cp addr = unat (drop_bit (set_shift cp) addr AND set_mask cp)"

definition CACHE_BLK :: "'g cache_t \<Rightarrow> md_addr_t \<Rightarrow> nat" where
  "CACHE_BLK cp addr = unat (addr AND blk_mask cp)"

definition CACHE_TAGSET :: "'g cache_t \<Rightarrow> md_addr_t \<Rightarrow> md_addr_t" where
  "CACHE_TAGSET cp addr = addr AND tagset_mask cp"

definition CACHE_BADDR :: "'g cache_t \<Rightarrow> md_addr_t \<Rightarrow> md_addr_t" where
  "CACHE_BADDR cp addr = addr AND NOT (blk_mask cp)"

definition CACHE_MK_BADDR :: "'g cache_t \<Rightarrow> md_addr_t \<Rightarrow> nat \<Rightarrow> md_addr_t" where
  "CACHE_MK_BADDR cp t i = push_bit (tag_shift cp) t OR push_bit (set_shift cp) (of_nat i)"

text \<open>Copying bytes between a block and the buffer of the caller: 1, 2 or 4 bytes at once, more by words.\<close>

definition CACHE_BCOPY :: "mem_cmd \<Rightarrow> byte_t list \<Rightarrow> nat \<Rightarrow> byte_t list option \<Rightarrow> nat \<Rightarrow> (byte_t list \<times> byte_t list option) option" where
  "CACHE_BCOPY cmd d bofs p nbytes = do {
     buf \<leftarrow> p;
     case cmd of
       Read \<Rightarrow> do { x \<leftarrow> read_at d bofs nbytes; buf \<leftarrow> write_at buf 0 x; Some (d, Some buf) }
     | Write \<Rightarrow> do { x \<leftarrow> read_at buf 0 nbytes; d \<leftarrow> write_at d bofs x; Some (d, Some buf) }
   }"

definition BOUND_POS :: "int \<Rightarrow> int" where
  "BOUND_POS n = min (max 0 n) 2147483647"

function log_loop :: "nat \<Rightarrow> nat" where
  "log_loop n = (if n div 2 = 0 then 0 else log_loop (n div 2) + 1)"
  by pat_completeness auto
termination
  by (relation "measure id") auto

declare log_loop.simps [simp del]

definition log_base2 :: "int \<Rightarrow> nat option" where
  "log_base2 n = (if n \<le> 0 \<or> n AND (n - 1) \<noteq> 0 then None else Some (log_loop (nat n)))"

section \<open>Creation\<close>

definition CACHE_HIGHLY_ASSOC :: "nat \<Rightarrow> bool" where
  "CACHE_HIGHLY_ASSOC n = (4 < n)"

definition new_blk :: "bool \<Rightarrow> nat \<Rightarrow> nat \<Rightarrow> cache_blk_t" where
  "new_blk al bs us = \<lparr> tag = 0, status = 0, ready = 0,
     user_data = (if us \<noteq> 0 then Some (replicate us 0) else None), data = (if al then replicate bs 0 else []) \<rparr>"

definition add_way :: "nat \<Rightarrow> nat \<Rightarrow> cache_set_t \<Rightarrow> cache_set_t option" where
  "add_way hs j s = do {
     s \<leftarrow> (if hs \<noteq> 0 then link_htab_ent hs s j else Some s);
     let h = way_head s;
     let s = s\<lparr> way_next := (way_next s)(j := h), way_prev := (way_prev s)(j := None) \<rparr>;
     let s = (case h of Some k \<Rightarrow> s\<lparr> way_prev := (way_prev s)(k := Some j) \<rparr> | None \<Rightarrow> s);
     let s = s\<lparr> way_head := Some j \<rparr>;
     Some (if way_tail s = None then s\<lparr> way_tail := Some j \<rparr> else s)
   }"

fun add_ways :: "nat \<Rightarrow> nat list \<Rightarrow> cache_set_t \<Rightarrow> cache_set_t option" where
  "add_ways hs [] s = Some s"
| "add_ways hs (j # js) s = do { s \<leftarrow> add_way hs j s; add_ways hs js s }"

definition new_set :: "nat \<Rightarrow> nat \<Rightarrow> cache_blk_t \<Rightarrow> cache_set_t option" where
  "new_set hs n x = add_ways hs [0..<n]
     \<lparr> hash = replicate hs None, way_head = None, way_tail = None, way_next = (\<lambda>_. None),
       way_prev = (\<lambda>_. None), hash_next = (\<lambda>_. None), blks = replicate n x \<rparr>"

definition cache_create :: "int \<Rightarrow> int \<Rightarrow> bool \<Rightarrow> int \<Rightarrow> int \<Rightarrow> cache_policy \<Rightarrow> 'g blk_access \<Rightarrow> nat \<Rightarrow> int \<Rightarrow> 'g cache_t option" where
  "cache_create ns bs al us ass pol fn hl pf = do {
     assert_that (0 < ns);
     assert_that (ns AND (ns - 1) = 0);
     assert_that (8 \<le> bs);
     assert_that (bs AND (bs - 1) = 0);
     assert_that (0 \<le> us);
     assert_that (0 < ass);
     assert_that (ass AND (ass - 1) = 0);
     assert_that (0 \<le> pf);
     let hs = (if CACHE_HIGHLY_ASSOC (nat ass) then nat ass div 4 else 0);
     ss \<leftarrow> log_base2 bs;
     ls \<leftarrow> log_base2 ns;
     assert_that (ss + ls \<le> 32);
     s \<leftarrow> new_set hs (nat ass) (new_blk al (nat bs) (nat us));
     Some \<lparr> nsets = nat ns, bsize = nat bs, balloc = al, usize = nat us, assoc = nat ass, policy = pol,
       hit_latency = hl, prefetch_type = nat pf, blk_access_fn = fn, hsize = hs, blk_mask = of_int bs - 1,
       set_shift = ss, set_mask = of_int ns - 1, tag_shift = ss + ls, tag_mask = mask (32 - (ss + ls)),
       tagset_mask = NOT (of_int bs - 1), bus_free = 0, hits = 0, misses = 0, replacements = 0, writebacks = 0,
       invalidations = 0, read_hits = 0, read_misses = 0, prefetch_hits = 0, prefetch_misses = 0,
       last_tagset = 0, last_blk = None, sets = replicate (nat ns) s \<rparr>
   }"

definition cache_char2policy :: "char \<Rightarrow> cache_policy option" where
  "cache_char2policy c = (if c = CHR ''l'' then Some LRU else if c = CHR ''r'' then Some Random
     else if c = CHR ''f'' then Some FIFO else None)"

section \<open>The state outside the caches\<close>

datatype rpt_state = INIT | TRANSIENT | STEADY | NOPRED

record RPT =
  rtag :: md_addr_t
  prev_addr :: md_addr_t
  stride :: UINT32
  state :: rpt_state

record globals =
  regs_PC :: md_addr_t
  stride_init :: bool
  rpt_table :: "RPT list"
  myrand :: "nat \<Rightarrow> UINT32"
  rand_calls :: nat

section \<open>Lookup\<close>

definition blk_match :: "cache_set_t \<Rightarrow> md_addr_t \<Rightarrow> blkptr \<Rightarrow> bool" where
  "blk_match s t b = (tag (blks s ! b) = t \<and> is_valid (blks s ! b))"

definition find_blk :: "'g cache_t \<Rightarrow> nat \<Rightarrow> md_addr_t \<Rightarrow> blkptr option option" where
  "find_blk cp i t = do {
     s \<leftarrow> rd (sets cp) i;
     if hsize cp \<noteq> 0 then do {
       p \<leftarrow> rd (hash s) (CACHE_HASH (hsize cp) t);
       chain_find (hash_next s) (blk_match s t) p
     } else chain_find (way_next s) (blk_match s t) (way_head s)
   }"

definition cache_probe :: "'g cache_t \<Rightarrow> md_addr_t \<Rightarrow> bool option" where
  "cache_probe cp addr = do {
     r \<leftarrow> find_blk cp (CACHE_SET cp addr) (CACHE_TAG cp addr);
     Some (r \<noteq> None)
   }"

section \<open>Access\<close>

datatype outcome = Missed int | Hit nat blkptr

definition set_blk :: "'g cache_t \<Rightarrow> nat \<Rightarrow> blkptr \<Rightarrow> cache_blk_t \<Rightarrow> 'g cache_t" where
  "set_blk cp i b x = cp\<lparr> sets := (sets cp)[i := (sets cp ! i)\<lparr> blks := (blks (sets cp ! i))[b := x] \<rparr>] \<rparr>"

definition count_hit :: "mem_cmd \<Rightarrow> bool \<Rightarrow> 'g cache_t \<Rightarrow> 'g cache_t" where
  "count_hit cmd prefetch cp =
     (if \<not> prefetch then
        (let cp = cp\<lparr> hits := hits cp + 1 \<rparr> in if cmd = Read then cp\<lparr> read_hits := read_hits cp + 1 \<rparr> else cp)
      else cp\<lparr> prefetch_hits := prefetch_hits cp + 1 \<rparr>)"

definition count_miss :: "mem_cmd \<Rightarrow> bool \<Rightarrow> 'g cache_t \<Rightarrow> 'g cache_t" where
  "count_miss cmd prefetch cp =
     (if \<not> prefetch then
        (let cp = cp\<lparr> misses := misses cp + 1 \<rparr> in if cmd = Read then cp\<lparr> read_misses := read_misses cp + 1 \<rparr> else cp)
      else cp\<lparr> prefetch_misses := prefetch_misses cp + 1 \<rparr>)"

text \<open>Copy the data and mark a written block; the buffer is only used when the cache has data.\<close>

definition copy_blk :: "'g cache_t \<Rightarrow> mem_cmd \<Rightarrow> nat \<Rightarrow> byte_t list option \<Rightarrow> nat \<Rightarrow> cache_blk_t
    \<Rightarrow> (cache_blk_t \<times> byte_t list option) option" where
  "copy_blk cp cmd bofs p nbytes x = do {
     (d, p) \<leftarrow> (if balloc cp then CACHE_BCOPY cmd (data x) bofs p nbytes else Some (data x, p));
     let x = x\<lparr> data := d \<rparr>;
     Some (if cmd = Write then x\<lparr> status := status x OR CACHE_BLK_DIRTY \<rparr> else x, p)
   }"

definition cache_hit :: "'g cache_t \<Rightarrow> mem_cmd \<Rightarrow> md_addr_t \<Rightarrow> byte_t list option \<Rightarrow> nat \<Rightarrow> bool \<Rightarrow> blkptr
    \<Rightarrow> ('g cache_t \<times> byte_t list option) option" where
  "cache_hit cp cmd addr p nbytes prefetch b = do {
     let i = CACHE_SET cp addr;
     let cp = count_hit cmd prefetch cp;
     s \<leftarrow> rd (sets cp) i;
     x \<leftarrow> rd (blks s) b;
     (x, p) \<leftarrow> copy_blk cp cmd (CACHE_BLK cp addr) p nbytes x;
     let s = s\<lparr> blks := (blks s)[b := x] \<rparr>;
     s \<leftarrow> (if way_prev s b \<noteq> None \<and> policy cp = LRU then update_way_list s b Head else Some s);
     Some (cp\<lparr> sets := (sets cp)[i := s], last_tagset := CACHE_TAGSET cp addr, last_blk := Some (i, b) \<rparr>, p)
   }"

definition cache_fast_hit :: "'g cache_t \<Rightarrow> mem_cmd \<Rightarrow> md_addr_t \<Rightarrow> byte_t list option \<Rightarrow> nat \<Rightarrow> bool \<Rightarrow> nat \<times> blkptr
    \<Rightarrow> ('g cache_t \<times> byte_t list option) option" where
  "cache_fast_hit cp cmd addr p nbytes prefetch ib = do {
     let cp = count_hit cmd prefetch cp;
     s \<leftarrow> rd (sets cp) (fst ib);
     x \<leftarrow> rd (blks s) (snd ib);
     (x, p) \<leftarrow> copy_blk cp cmd (CACHE_BLK cp addr) p nbytes x;
     let cp = set_blk cp (fst ib) (snd ib) x;
     Some (cp\<lparr> last_tagset := CACHE_TAGSET cp addr, last_blk := Some ib \<rparr>, p)
   }"

text \<open>The block to replace, with the way list reordered.\<close>

definition select_repl :: "'g cache_t \<Rightarrow> cache_set_t \<Rightarrow> 'e globals_scheme \<Rightarrow> (blkptr \<times> cache_set_t \<times> 'e globals_scheme) option" where
  "select_repl cp s g =
     (if policy cp = Random then
        Some (unat (myrand g (rand_calls g) AND (of_nat (assoc cp) - 1)), s, g\<lparr> rand_calls := rand_calls g + 1 \<rparr>)
      else do {
        b \<leftarrow> way_tail s;
        s \<leftarrow> update_way_list s b Head;
        Some (b, s, g)
      })"

definition set_contents :: "contents \<Rightarrow> cache_blk_t \<Rightarrow> cache_blk_t" where
  "set_contents c x = x\<lparr> data := fst c, user_data := snd c \<rparr>"

text \<open>Make room: account for the replaced block and write it back if it is dirty.\<close>

definition evict :: "'g cache_t \<Rightarrow> 'g \<Rightarrow> nat \<Rightarrow> int \<Rightarrow> cache_blk_t
    \<Rightarrow> ('g cache_t \<times> 'g \<times> cache_blk_t \<times> int \<times> md_addr_t) option" where
  "evict cp g i now x =
     (if is_valid x then do {
        let cp = cp\<lparr> replacements := replacements cp + 1 \<rparr>;
        let ra = CACHE_MK_BADDR cp (tag x) i;
        let lat = BOUND_POS (ready x - now);
        let lat = lat + BOUND_POS (bus_free cp - (now + lat));
        let cp = cp\<lparr> bus_free := max (bus_free cp) (now + lat) + 1 \<rparr>;
        if is_dirty x then do {
          let cp = cp\<lparr> writebacks := writebacks cp + 1 \<rparr>;
          (l, c, g) \<leftarrow> blk_access_fn cp Write ra (bsize cp) x (now + lat) False g;
          Some (cp, g, set_contents c x, lat + l, ra)
        } else Some (cp, g, x, lat, ra)
      } else Some (cp, g, x, 0, 0))"

definition cache_miss :: "'e globals_scheme cache_t \<Rightarrow> 'e globals_scheme \<Rightarrow> mem_cmd \<Rightarrow> md_addr_t \<Rightarrow> byte_t list option \<Rightarrow> nat \<Rightarrow> int \<Rightarrow> bool
    \<Rightarrow> (int \<times> 'e globals_scheme cache_t \<times> 'e globals_scheme \<times> byte_t list option \<times> md_addr_t) option" where
  "cache_miss cp g cmd addr p nbytes now prefetch = do {
     let i = CACHE_SET cp addr;
     let cp = count_miss cmd prefetch cp;
     s \<leftarrow> rd (sets cp) i;
     (b, s, g) \<leftarrow> select_repl cp s g;
     s \<leftarrow> (if hsize cp \<noteq> 0 then unlink_htab_ent (hsize cp) s b else Some s);
     let cp = cp\<lparr> last_tagset := 0, last_blk := None \<rparr>;
     x \<leftarrow> rd (blks s) b;
     (cp, g, x, lat, ra) \<leftarrow> evict cp g i now x;
     let x = x\<lparr> tag := CACHE_TAG cp addr, status := CACHE_BLK_VALID \<rparr>;
     (l, c, g) \<leftarrow> blk_access_fn cp Read (CACHE_BADDR cp addr) (bsize cp) x (now + lat) prefetch g;
     let x = set_contents c x;
     let lat = lat + l;
     (x, p) \<leftarrow> copy_blk cp cmd (CACHE_BLK cp addr) p nbytes x;
     let x = x\<lparr> ready := now + lat \<rparr>;
     let s = s\<lparr> blks := (blks s)[b := x] \<rparr>;
     s \<leftarrow> (if hsize cp \<noteq> 0 then link_htab_ent (hsize cp) s b else Some s);
     Some (lat, cp\<lparr> sets := (sets cp)[i := s] \<rparr>, g, p, ra)
   }"

definition access_checks :: "'g cache_t \<Rightarrow> md_addr_t \<Rightarrow> nat \<Rightarrow> bool" where
  "access_checks cp addr nbytes =
     (of_nat nbytes AND (of_nat nbytes - 1 :: md_addr_t) = 0 \<and> addr AND (of_nat nbytes - 1) = 0
      \<and> \<not> addr + of_nat nbytes > (addr AND NOT (blk_mask cp)) + of_nat (bsize cp))"

text \<open>\<open>cache_access\<close> up to the point where it may generate a prefetch.\<close>

definition access_body :: "'e globals_scheme cache_t \<Rightarrow> 'e globals_scheme \<Rightarrow> mem_cmd \<Rightarrow> md_addr_t \<Rightarrow> byte_t list option \<Rightarrow> nat \<Rightarrow> int \<Rightarrow> bool
    \<Rightarrow> (outcome \<times> 'e globals_scheme cache_t \<times> 'e globals_scheme \<times> byte_t list option \<times> md_addr_t) option" where
  "access_body cp g cmd addr p nbytes now prefetch = do {
     assert_that (access_checks cp addr nbytes);
     if CACHE_TAGSET cp addr = last_tagset cp then do {
       ib \<leftarrow> last_blk cp;
       (cp, p) \<leftarrow> cache_fast_hit cp cmd addr p nbytes prefetch ib;
       Some (Hit (fst ib) (snd ib), cp, g, p, 0)
     } else do {
       r \<leftarrow> find_blk cp (CACHE_SET cp addr) (CACHE_TAG cp addr);
       case r of
         Some b \<Rightarrow> do {
           (cp, p) \<leftarrow> cache_hit cp cmd addr p nbytes prefetch b;
           Some (Hit (CACHE_SET cp addr) b, cp, g, p, 0)
         }
       | None \<Rightarrow> do {
           (lat, cp, g, p, ra) \<leftarrow> cache_miss cp g cmd addr p nbytes now prefetch;
           Some (Missed lat, cp, g, p, ra)
         }
     }
   }"

definition access_latency :: "'g cache_t \<Rightarrow> int \<Rightarrow> outcome \<Rightarrow> int option" where
  "access_latency cp now out = (case out of
       Missed lat \<Rightarrow> Some lat
     | Hit i b \<Rightarrow> do { s \<leftarrow> rd (sets cp) i; x \<leftarrow> rd (blks s) b; Some (max (int (hit_latency cp)) (ready x - now)) })"

section \<open>Prefetching\<close>

text \<open>The access of a prefetcher, at time 0 and without a buffer; it generates no further prefetch.\<close>

definition prefetch_access :: "'e globals_scheme cache_t \<Rightarrow> 'e globals_scheme \<Rightarrow> md_addr_t
    \<Rightarrow> ('e globals_scheme cache_t \<times> 'e globals_scheme) option" where
  "prefetch_access cp g addr = do {
     (out, cp, g, p, ra) \<leftarrow> access_body cp g Read addr None (bsize cp) 0 True;
     lat \<leftarrow> access_latency cp 0 out;
     Some (cp, g)
   }"

definition prefetch_absent :: "'e globals_scheme cache_t \<Rightarrow> 'e globals_scheme \<Rightarrow> md_addr_t \<Rightarrow> md_addr_t
    \<Rightarrow> ('e globals_scheme cache_t \<times> 'e globals_scheme) option" where
  "prefetch_absent cp g probed addr = do {
     present \<leftarrow> cache_probe cp probed;
     if present then Some (cp, g) else prefetch_access cp g addr
   }"

definition next_line_prefetcher :: "'e globals_scheme cache_t \<Rightarrow> 'e globals_scheme \<Rightarrow> md_addr_t
    \<Rightarrow> ('e globals_scheme cache_t \<times> 'e globals_scheme) option" where
  "next_line_prefetcher cp g addr = (let nl = addr + of_nat (bsize cp) in prefetch_absent cp g nl (CACHE_TAGSET cp nl))"

definition init_entry :: RPT where
  "init_entry = \<lparr> rtag = 0, prev_addr = 0, stride = 0, state = INIT \<rparr>"

definition init_stride :: "nat \<Rightarrow> RPT list" where
  "init_stride n = replicate n init_entry"

text \<open>The update of one entry by an access to \<open>addr\<close>.\<close>

definition rpt_train :: "md_addr_t \<Rightarrow> md_addr_t \<Rightarrow> RPT \<Rightarrow> RPT" where
  "rpt_train t addr e =
     (let e' = (if rtag e = t then
          let st = addr - prev_addr e in
          if st = stride e then e\<lparr> state := (if state e = NOPRED then TRANSIENT else STEADY) \<rparr>
          else (if state e \<noteq> STEADY then e\<lparr> stride := st \<rparr> else e)
            \<lparr> state := (case state e of INIT \<Rightarrow> TRANSIENT | TRANSIENT \<Rightarrow> NOPRED | STEADY \<Rightarrow> INIT | NOPRED \<Rightarrow> NOPRED) \<rparr>
        else e\<lparr> rtag := t, stride := 0, state := INIT \<rparr>)
      in e'\<lparr> prev_addr := addr \<rparr>)"

definition rpt_index :: "nat \<Rightarrow> md_addr_t \<Rightarrow> nat" where
  "rpt_index k pc = unat (drop_bit 3 (pc AND push_bit 3 (2 ^ k - 1)))"

definition rpt_tag :: "nat \<Rightarrow> md_addr_t \<Rightarrow> md_addr_t" where
  "rpt_tag k pc = drop_bit (k + 3) pc"

text \<open>Both table prefetchers start alike: the table is created by the first one that runs, with its size.\<close>

definition rpt_access :: "nat \<Rightarrow> 'e globals_scheme \<Rightarrow> md_addr_t \<Rightarrow> (RPT \<times> 'e globals_scheme) option" where
  "rpt_access n g addr = do {
     let g = (if \<not> stride_init g then g\<lparr> rpt_table := init_stride n, stride_init := True \<rparr> else g);
     k \<leftarrow> log_base2 (int n);
     e \<leftarrow> rd (rpt_table g) (rpt_index k (regs_PC g));
     let e = rpt_train (rpt_tag k (regs_PC g)) addr e;
     Some (e, g\<lparr> rpt_table := (rpt_table g)[rpt_index k (regs_PC g) := e] \<rparr>)
   }"

definition rpt_prefetch :: "'e globals_scheme cache_t \<Rightarrow> 'e globals_scheme \<Rightarrow> RPT
    \<Rightarrow> ('e globals_scheme cache_t \<times> 'e globals_scheme) option" where
  "rpt_prefetch cp g e = (let na = prev_addr e + stride e; na = na - na mod of_nat (bsize cp) in prefetch_absent cp g na na)"

definition open_ended_prefetcher :: "'e globals_scheme cache_t \<Rightarrow> 'e globals_scheme \<Rightarrow> md_addr_t
    \<Rightarrow> ('e globals_scheme cache_t \<times> 'e globals_scheme) option" where
  "open_ended_prefetcher cp g addr = do {
     (e, g) \<leftarrow> rpt_access 1024 g addr;
     if state e = STEADY then rpt_prefetch cp g e else Some (cp, g)
   }"

definition stride_prefetcher :: "'e globals_scheme cache_t \<Rightarrow> 'e globals_scheme \<Rightarrow> md_addr_t
    \<Rightarrow> ('e globals_scheme cache_t \<times> 'e globals_scheme) option" where
  "stride_prefetcher cp g addr = do {
     (e, g) \<leftarrow> rpt_access (prefetch_type cp) g addr;
     if state e \<noteq> NOPRED then rpt_prefetch cp g e else Some (cp, g)
   }"

definition generate_prefetch :: "'e globals_scheme cache_t \<Rightarrow> 'e globals_scheme \<Rightarrow> md_addr_t
    \<Rightarrow> ('e globals_scheme cache_t \<times> 'e globals_scheme) option" where
  "generate_prefetch cp g addr =
     (if prefetch_type cp = 0 then Some (cp, g)
      else if prefetch_type cp = 1 then next_line_prefetcher cp g addr
      else if prefetch_type cp = 2 then open_ended_prefetcher cp g addr
      else stride_prefetcher cp g addr)"

text \<open>The whole access: the latency, the cache, the outside state, the buffer, the block accessed on a hit
  and the address of the replaced block.\<close>

definition cache_access :: "'e globals_scheme cache_t \<Rightarrow> 'e globals_scheme \<Rightarrow> mem_cmd \<Rightarrow> md_addr_t \<Rightarrow> byte_t list option \<Rightarrow> nat \<Rightarrow> int \<Rightarrow> bool
    \<Rightarrow> (int \<times> 'e globals_scheme cache_t \<times> 'e globals_scheme \<times> byte_t list option \<times> md_addr_t) option" where
  "cache_access cp g cmd addr p nbytes now prefetch = do {
     (out, cp, g, p, ra) \<leftarrow> access_body cp g cmd addr p nbytes now prefetch;
     (cp, g) \<leftarrow> (if \<not> prefetch then generate_prefetch cp g addr else Some (cp, g));
     lat \<leftarrow> access_latency cp now out;
     Some (lat, cp, g, p, ra)
   }"

section \<open>Flushing\<close>

text \<open>Invalidate a valid block and write it back if it is dirty.\<close>

definition flush_blk :: "'g cache_t \<Rightarrow> 'g \<Rightarrow> int \<Rightarrow> int \<Rightarrow> nat \<Rightarrow> blkptr \<Rightarrow> ('g cache_t \<times> 'g \<times> int) option" where
  "flush_blk cp g now lat i b = do {
     s \<leftarrow> rd (sets cp) i;
     x \<leftarrow> rd (blks s) b;
     let cp = cp\<lparr> invalidations := invalidations cp + 1 \<rparr>;
     let x = x\<lparr> status := status x AND NOT CACHE_BLK_VALID \<rparr>;
     if is_dirty x then do {
       let cp = cp\<lparr> writebacks := writebacks cp + 1 \<rparr>;
       (l, c, g) \<leftarrow> blk_access_fn cp Write (CACHE_MK_BADDR cp (tag x) i) (bsize cp) x (now + lat) False g;
       Some (set_blk cp i b (set_contents c x), g, lat + l)
     } else Some (set_blk cp i b x, g, lat)
   }"

partial_function (option) flush_ways :: "'g cache_t \<Rightarrow> 'g \<Rightarrow> int \<Rightarrow> int \<Rightarrow> nat \<Rightarrow> blkptr option \<Rightarrow> ('g cache_t \<times> 'g \<times> int) option" where
  "flush_ways cp g now lat i p = (case p of
       None \<Rightarrow> Some (cp, g, lat)
     | Some b \<Rightarrow> do {
         s \<leftarrow> rd (sets cp) i;
         x \<leftarrow> rd (blks s) b;
         (cp, g, lat) \<leftarrow> (if is_valid x then flush_blk cp g now lat i b else Some (cp, g, lat));
         flush_ways cp g now lat i (way_next s b)
       })"

fun flush_sets :: "'g cache_t \<Rightarrow> 'g \<Rightarrow> int \<Rightarrow> int \<Rightarrow> nat list \<Rightarrow> ('g cache_t \<times> 'g \<times> int) option" where
  "flush_sets cp g now lat [] = Some (cp, g, lat)"
| "flush_sets cp g now lat (i # is) = do {
     s \<leftarrow> rd (sets cp) i;
     (cp, g, lat) \<leftarrow> flush_ways cp g now lat i (way_head s);
     flush_sets cp g now lat is
   }"

definition cache_flush :: "'g cache_t \<Rightarrow> 'g \<Rightarrow> int \<Rightarrow> ('g cache_t \<times> 'g \<times> int) option" where
  "cache_flush cp g now =
     flush_sets (cp\<lparr> last_tagset := 0, last_blk := None \<rparr>) g now (int (hit_latency cp)) [0..<nsets cp]"

definition cache_flush_addr :: "'g cache_t \<Rightarrow> 'g \<Rightarrow> md_addr_t \<Rightarrow> int \<Rightarrow> ('g cache_t \<times> 'g \<times> int) option" where
  "cache_flush_addr cp g addr now = do {
     let i = CACHE_SET cp addr;
     r \<leftarrow> find_blk cp i (CACHE_TAG cp addr);
     case r of
       None \<Rightarrow> Some (cp, g, int (hit_latency cp))
     | Some b \<Rightarrow> do {
         (cp, g, lat) \<leftarrow> flush_blk (cp\<lparr> last_tagset := 0, last_blk := None \<rparr>) g now (int (hit_latency cp)) i b;
         s \<leftarrow> rd (sets cp) i;
         s \<leftarrow> update_way_list s b Tail;
         Some (cp\<lparr> sets := (sets cp)[i := s] \<rparr>, g, lat)
       }
   }"

section \<open>The memory hierarchy of sim-cache\<close>

text \<open>The data caches are created without data, so their handlers leave the contents of a block alone.\<close>

definition dl2_access_fn :: "'e globals_scheme blk_access" where
  "dl2_access_fn cmd baddr bs blk now prefetch g = Some (1, (data blk, user_data blk), g)"

record sim_state = globals +
  cache_dl2 :: "globals cache_t option"

definition dl1_access_fn :: "sim_state blk_access" where
  "dl1_access_fn cmd baddr bs blk now prefetch g = (case cache_dl2 g of
       Some cp2 \<Rightarrow> do {
         (lat, cp2, g2, p, ra) \<leftarrow> cache_access cp2 (globals.truncate g) cmd baddr None bs now prefetch;
         Some (lat, (data blk, user_data blk), globals.extend g2 (sim_state.fields (Some cp2)))
       }
     | None \<Rightarrow> Some (1, (data blk, user_data blk), g))"

text \<open>The accesses a program makes to the first level data cache, at time 0 and without a buffer.\<close>

fun run_accesses :: "'e globals_scheme cache_t \<Rightarrow> 'e globals_scheme \<Rightarrow> (mem_cmd \<times> md_addr_t \<times> nat) list
    \<Rightarrow> ('e globals_scheme cache_t \<times> 'e globals_scheme) option" where
  "run_accesses cp g [] = Some (cp, g)"
| "run_accesses cp g ((cmd, addr, nbytes) # as) = do {
     (lat, cp, g, p, ra) \<leftarrow> cache_access cp g cmd addr None nbytes 0 False;
     run_accesses cp g as
   }"

end
