(* ===== verification/Ss_Cache_Correct.thy ===== *)
theory Ss_Cache_Correct
  imports Ss_Cache
begin

text \<open>
  Correctness of the Lab 4 cache: the invariant of a cache, that every operation keeps it, and the
  refinement of the sets by lists of tags in replacement order.
\<close>

section \<open>Geometry\<close>

definition cache_geom :: "'g cache_t \<Rightarrow> nat \<Rightarrow> nat \<Rightarrow> nat \<Rightarrow> bool" where
  "cache_geom cp k l a = (bsize cp = 2 ^ k \<and> nsets cp = 2 ^ l \<and> assoc cp = 2 ^ a \<and> k + l < 32 \<and> 3 \<le> k \<and> a < 31
     \<and> set_shift cp = k \<and> tag_shift cp = k + l \<and> blk_mask cp = mask k \<and> set_mask cp = mask l
     \<and> tagset_mask cp = NOT (mask k) \<and> hsize cp = (if CACHE_HIGHLY_ASSOC (assoc cp) then assoc cp div 4 else 0)
     \<and> length (sets cp) = nsets cp)"

definition legal_tag :: "'g cache_t \<Rightarrow> md_addr_t \<Rightarrow> bool" where
  "legal_tag cp t = (drop_bit (32 - tag_shift cp) t = 0)"

named_theorems geom \<open>addresses, tags and sets of a cache\<close>

lemma CACHE_SET_less [geom]: "cache_geom cp k l a \<Longrightarrow> CACHE_SET cp addr < nsets cp"
  unfolding CACHE_SET_def cache_geom_def
  by (rule unat_and_less) (auto simp: mask_eq_exp_minus_1 unat_minus_one_exp)

lemma baddr_tagset [geom]: "cache_geom cp k l a \<Longrightarrow> CACHE_BADDR cp addr = CACHE_TAGSET cp addr"
  by (simp add: CACHE_BADDR_def CACHE_TAGSET_def cache_geom_def)

lemma legal_tag_of [geom]: "cache_geom cp k l a \<Longrightarrow> legal_tag cp (CACHE_TAG cp addr)"
  unfolding legal_tag_def CACHE_TAG_def cache_geom_def
  by (auto intro!: bit_word_eqI simp: bit_simps dest: bit_imp_le_length)

lemma mk_baddr_of [geom]:
  "cache_geom cp k l a \<Longrightarrow> CACHE_MK_BADDR cp (CACHE_TAG cp addr) (CACHE_SET cp addr) = CACHE_TAGSET cp addr"
  unfolding CACHE_MK_BADDR_def CACHE_TAG_def CACHE_SET_def CACHE_TAGSET_def cache_geom_def
  by (auto intro!: bit_word_eqI simp: bit_simps)

lemma bit_of_small: "i < 2 ^ l \<Longrightarrow> bit (of_nat i :: 'a::len word) n \<Longrightarrow> n < l"
proof -
  assume "i < 2 ^ l" "bit (of_nat i :: 'a word) n"
  then have "take_bit l i = i" "bit i n" by (simp_all add: take_bit_nat_eq_self bit_simps)
  then show "n < l" by (metis bit_take_bit_iff)
qed

lemma legal_tag_bits: "legal_tag cp t \<Longrightarrow> bit t n \<Longrightarrow> n < 32 - tag_shift cp"
proof (rule ccontr)
  assume "legal_tag cp t" "bit t n" "\<not> n < 32 - tag_shift cp"
  then have "bit (drop_bit (32 - tag_shift cp) t) (n - (32 - tag_shift cp))" by (simp add: bit_simps)
  then show False using \<open>legal_tag cp t\<close> unfolding legal_tag_def by simp
qed

lemma tag_mk_baddr [geom]:
  "cache_geom cp k l a \<Longrightarrow> legal_tag cp t \<Longrightarrow> i < nsets cp \<Longrightarrow> CACHE_TAG cp (CACHE_MK_BADDR cp t i) = t"
  using bit_of_small [of i l, where ?'a=32] legal_tag_bits [of cp t]
  unfolding CACHE_MK_BADDR_def CACHE_TAG_def cache_geom_def
  by (intro bit_word_eqI) (fastforce simp: bit_simps)

lemma set_mk_baddr [geom]:
  assumes "cache_geom cp k l a" "i < nsets cp"
  shows "CACHE_SET cp (CACHE_MK_BADDR cp t i) = i"
proof -
  have b: "bit i n \<Longrightarrow> n < 32 \<Longrightarrow> n < l" for n
    using assms bit_of_small [of i l n, where ?'a=32] by (auto simp: cache_geom_def bit_simps)
  have "drop_bit k (push_bit (k + l) t OR push_bit k (of_nat i)) AND mask l = (of_nat i :: md_addr_t)"
    using assms unfolding cache_geom_def
    by (intro bit_word_eqI) (auto simp: bit_simps dest: b)
  moreover have "(2::nat) ^ l \<le> 2 ^ 32" using assms(1) by (intro power_increasing) (auto simp: cache_geom_def)
  then have "i < 2 ^ 32" using assms by (simp add: cache_geom_def)
  ultimately show ?thesis using assms
    by (auto simp: CACHE_SET_def CACHE_MK_BADDR_def cache_geom_def unat_of_nat)
qed

lemma tagset_eq [geom]:
  assumes "cache_geom cp k l a"
  shows "(CACHE_TAGSET cp x = CACHE_TAGSET cp y) = (CACHE_TAG cp x = CACHE_TAG cp y \<and> CACHE_SET cp x = CACHE_SET cp y)"
  using tag_mk_baddr [OF assms legal_tag_of [OF assms] CACHE_SET_less [OF assms]]
    set_mk_baddr [OF assms CACHE_SET_less [OF assms]] mk_baddr_of [OF assms] by metis

section \<open>The invariant\<close>

text \<open>\<open>A\<close> is the set of block addresses that the level below accepts.  A set holds at most one valid block for
  each tag; its way list is \<open>xs\<close> and its hash chains hold all its blocks.\<close>

definition set_ok :: "(md_addr_t \<Rightarrow> bool) \<Rightarrow> 'g cache_t \<Rightarrow> nat \<Rightarrow> cache_set_t \<Rightarrow> blkptr list \<Rightarrow> bool" where
  "set_ok A cp i s xs = (length (blks s) = assoc cp \<and> ways s xs \<and> set xs = {..<assoc cp}
     \<and> (hsize cp \<noteq> 0 \<longrightarrow> hashed (hsize cp) s {..<assoc cp})
     \<and> (\<forall>b<assoc cp. \<forall>c<assoc cp. is_valid (blks s ! b) \<and> is_valid (blks s ! c) \<and> tag (blks s ! b) = tag (blks s ! c) \<longrightarrow> b = c)
     \<and> (\<forall>b<assoc cp. is_valid (blks s ! b) \<longrightarrow> legal_tag cp (tag (blks s ! b)) \<and> A (CACHE_MK_BADDR cp (tag (blks s ! b)) i))
     \<and> (balloc cp \<longrightarrow> (\<forall>b<assoc cp. length (data (blks s ! b)) = bsize cp)))"

text \<open>The tags of the valid blocks in the order of the way list; outside random replacement the invalid
  blocks come last.\<close>

definition stack :: "cache_set_t \<Rightarrow> blkptr list \<Rightarrow> md_addr_t list" where
  "stack s xs = map (\<lambda>b. tag (blks s ! b)) (filter (\<lambda>b. is_valid (blks s ! b)) xs)"

definition ordered :: "cache_set_t \<Rightarrow> blkptr list \<Rightarrow> bool" where
  "ordered s xs = (xs = filter (\<lambda>b. is_valid (blks s ! b)) xs @ filter (\<lambda>b. \<not> is_valid (blks s ! b)) xs)"

text \<open>The last block that hit is in the cache, and first in its way list when replacement is LRU.\<close>

definition last_ok :: "'g cache_t \<Rightarrow> bool" where
  "last_ok cp = (case last_blk cp of
       None \<Rightarrow> last_tagset cp = 0
     | Some (i, b) \<Rightarrow> i < nsets cp \<and> b < assoc cp \<and> is_valid (blks (sets cp ! i) ! b)
         \<and> last_tagset cp = CACHE_MK_BADDR cp (tag (blks (sets cp ! i) ! b)) i
         \<and> (policy cp = LRU \<longrightarrow> way_head (sets cp ! i) = Some b))"

text \<open>The invariant, with the stacks \<open>L\<close> of tags that the sets represent.\<close>

definition cache_inv :: "(md_addr_t \<Rightarrow> bool) \<Rightarrow> 'g cache_t \<Rightarrow> (nat \<Rightarrow> md_addr_t list) \<Rightarrow> bool" where
  "cache_inv A cp L = ((\<exists>k l a. cache_geom cp k l a) \<and> last_ok cp
     \<and> (\<forall>i<nsets cp. \<exists>xs. set_ok A cp i (sets cp ! i) xs \<and> (policy cp \<noteq> Random \<longrightarrow> ordered (sets cp ! i) xs)
          \<and> L i = stack (sets cp ! i) xs))"

lemma set_okD:
  assumes "set_ok A cp i s xs"
  shows "length (blks s) = assoc cp" "distinct xs" "b \<in> set xs \<longleftrightarrow> b < assoc cp"
    "b < assoc cp \<Longrightarrow> c < assoc cp \<Longrightarrow> is_valid (blks s ! b) \<Longrightarrow> is_valid (blks s ! c)
       \<Longrightarrow> tag (blks s ! b) = tag (blks s ! c) \<Longrightarrow> b = c"
  using assms ways_distinct unfolding set_ok_def by blast+

section \<open>Lookup\<close>

lemma find_in: "List.find P xs = Some b \<Longrightarrow> b \<in> set xs \<and> P b"
  by (auto simp: find_Some_iff)

lemma find_not_in: "List.find P xs = None \<Longrightarrow> b \<in> set xs \<Longrightarrow> \<not> P b"
  by (auto simp: find_None_iff)

lemma hsize_range: "cache_geom cp k l a \<Longrightarrow> hsize cp < 2 ^ 32"
proof -
  assume "cache_geom cp k l a"
  then have "hsize cp \<le> 2 ^ a" "a < 32" by (auto simp: cache_geom_def)
  moreover have "(2 :: nat) ^ a < 2 ^ 32" using calculation(2) by (intro power_strict_increasing) auto
  ultimately show ?thesis by linarith
qed

lemma find_blk_ok:
  assumes "cache_geom cp k l a" "set_ok A cp i (sets cp ! i) xs" "i < nsets cp"
  shows "succeeds (find_blk cp i t) (\<lambda>r. case r of
      Some b \<Rightarrow> b < assoc cp \<and> blk_match (sets cp ! i) t b
    | None \<Rightarrow> \<forall>b<assoc cp. \<not> blk_match (sets cp ! i) t b)"
proof -
  let ?s = "sets cp ! i" and ?P = "blk_match (sets cp ! i) t"
  have rd: "rd (sets cp) i = Some ?s" using assms(1,3) by (simp add: cache_geom_def)
  show ?thesis
  proof (cases "hsize cp = 0")
    case True
    have "links (way_next ?s) (way_head ?s) xs None" using assms(2) by (simp add: set_ok_def ways_def)
    note f = chain_find_eq [OF this, of ?P]
    have "set xs = {..<assoc cp}" using assms(2) by (simp add: set_ok_def)
    moreover have "find_blk cp i t = Some (List.find ?P xs)" using f rd True by (simp add: find_blk_def rd_in)
    ultimately show ?thesis using find_in [of ?P xs] find_not_in [of ?P xs]
      by (auto split: option.splits)
  next
    case False
    let ?h = "CACHE_HASH (hsize cp) t"
    have h: "hashed (hsize cp) ?s {..<assoc cp}" using assms(2) False by (simp add: set_ok_def)
    have hl: "?h < hsize cp" using CACHE_HASH_less [of "hsize cp"] hsize_range [OF assms(1)] False by simp
    obtain ys where ys: "links (hash_next ?s) (hash ?s ! ?h) ys None" "set ys = bucket (hsize cp) ?s {..<assoc cp} ?h"
      using h hl unfolding hashed_def by blast
    note f = chain_find_eq [OF ys(1), of ?P]
    have l: "length (hash ?s) = hsize cp" using h by (simp add: hashed_def)
    have "find_blk cp i t = Some (List.find ?P ys)"
      using f rd False hl l by (simp add: find_blk_def rd_in)
    moreover have "?P b \<Longrightarrow> b < assoc cp \<Longrightarrow> b \<in> set ys" for b
      using ys(2) by (simp add: bucket_def blk_match_def)
    moreover have "b \<in> set ys \<Longrightarrow> b < assoc cp" for b using ys(2) by (simp add: bucket_def)
    ultimately show ?thesis using find_in [of ?P ys] find_not_in [of ?P ys]
      by (auto split: option.splits)
  qed
qed

lemma stack_mem:
  assumes "set_ok A cp i s xs"
  shows "t \<in> set (stack s xs) \<longleftrightarrow> (\<exists>b<assoc cp. blk_match s t b)"
  using assms by (auto simp: set_ok_def stack_def blk_match_def)

lemma probe_ok:
  assumes "cache_inv A cp L"
  shows "cache_probe cp addr = Some (CACHE_TAG cp addr \<in> set (L (CACHE_SET cp addr)))"
proof -
  obtain k l a where g: "cache_geom cp k l a" using assms by (auto simp: cache_inv_def)
  let ?i = "CACHE_SET cp addr" and ?t = "CACHE_TAG cp addr"
  have i: "?i < nsets cp" using g by (rule CACHE_SET_less)
  obtain xs where xs: "set_ok A cp ?i (sets cp ! ?i) xs" "L ?i = stack (sets cp ! ?i) xs"
    using assms i unfolding cache_inv_def by blast
  from find_blk_ok [OF g xs(1) i, of ?t] show ?thesis
    using stack_mem [OF xs(1), of ?t] xs(2)
    by (auto simp: cache_probe_def succeeds_iff split: option.splits)
qed

section \<open>Changing a set\<close>

lemma hashed_tag:
  "hashed h s B \<Longrightarrow> tag x = tag (blks s ! b) \<Longrightarrow> hashed h (s\<lparr> blks := (blks s)[b := x] \<rparr>) B"
proof -
  assume "tag x = tag (blks s ! b)"
  then have "tag ((blks s)[b := x] ! c) = tag (blks s ! c)" for c
    by (cases "b < length (blks s)") (auto simp: nth_list_update list_update_beyond)
  then show "hashed h s B \<Longrightarrow> ?thesis" by (simp add: hashed_def bucket_def)
qed

lemma ways_blks [simp]: "ways (s\<lparr> blks := ys \<rparr>) xs = ways s xs"
  by (simp add: ways_def)

text \<open>A block keeps its tag and stays valid or invalid.\<close>

lemma touch_set_ok:
  assumes "set_ok A cp i s xs" "b < assoc cp" "tag x = tag (blks s ! b)" "is_valid x = is_valid (blks s ! b)"
    "balloc cp \<Longrightarrow> length (data x) = bsize cp"
  shows "set_ok A cp i (s\<lparr> blks := (blks s)[b := x] \<rparr>) xs"
    "stack (s\<lparr> blks := (blks s)[b := x] \<rparr>) xs = stack s xs" "ordered (s\<lparr> blks := (blks s)[b := x] \<rparr>) xs = ordered s xs"
proof -
  have len: "length (blks s) = assoc cp" using assms(1) by (simp add: set_ok_def)
  have eq: "tag ((blks s)[b := x] ! c) = tag (blks s ! c)" "is_valid ((blks s)[b := x] ! c) = is_valid (blks s ! c)" for c
    using assms(2-4) len by (auto simp: nth_list_update)
  show "set_ok A cp i (s\<lparr> blks := (blks s)[b := x] \<rparr>) xs"
    using assms len hashed_tag [of "hsize cp" s "{..<assoc cp}" x b] eq
    by (auto simp: set_ok_def nth_list_update)
  show "stack (s\<lparr> blks := (blks s)[b := x] \<rparr>) xs = stack s xs" "ordered (s\<lparr> blks := (blks s)[b := x] \<rparr>) xs = ordered s xs"
    by (simp_all add: stack_def ordered_def eq)
qed

lemma reorder_set_ok:
  assumes "set_ok A cp i s (as @ b # cs)"
  shows "succeeds (update_way_list s b Head) (\<lambda>s'. set_ok A cp i s' (b # as @ cs) \<and> blks s' = blks s \<and> way_head s' = Some b)"
    "succeeds (update_way_list s b Tail) (\<lambda>s'. set_ok A cp i s' (as @ cs @ [b]) \<and> blks s' = blks s)"
proof -
  have w: "ways s (as @ b # cs)" using assms by (simp add: set_ok_def)
  have keep: "set_ok A cp i s' ys" if "ways s' ys" "same_rest s s'" "set ys = set (as @ b # cs)" for s' ys
    using assms that hashed_same [OF that(2)] by (simp add: set_ok_def same_rest_def)
  show "succeeds (update_way_list s b Head) (\<lambda>s'. set_ok A cp i s' (b # as @ cs) \<and> blks s' = blks s \<and> way_head s' = Some b)"
    by (rule succeeds_mono [OF update_way_list_ok [OF w, of Head]]) (auto intro!: keep dest: ways_ends simp: same_rest_def)
  show "succeeds (update_way_list s b Tail) (\<lambda>s'. set_ok A cp i s' (as @ cs @ [b]) \<and> blks s' = blks s)"
    by (rule succeeds_mono [OF update_way_list_ok [OF w, of Tail]]) (auto intro!: keep simp: same_rest_def)
qed

lemma stack_cong: "blks s' = blks s \<Longrightarrow> stack s' xs = stack s xs" "blks s' = blks s \<Longrightarrow> ordered s' xs = ordered s xs"
  by (simp_all add: stack_def ordered_def)

lemma stack_front:
  assumes "set_ok A cp i s (as @ b # cs)" "is_valid (blks s ! b)"
  shows "stack s (b # as @ cs) = tag (blks s ! b) # remove1 (tag (blks s ! b)) (stack s (as @ b # cs))"
    "ordered s (as @ b # cs) \<Longrightarrow> ordered s (b # as @ cs)"
proof -
  note o = set_okD [OF assms(1)]
  have d: "distinct (as @ b # cs)" by (rule o(2))
  have p: "b < assoc cp" "c \<in> set as \<Longrightarrow> c < assoc cp \<and> c \<noteq> b" for c using o(3) d by auto
  have "tag (blks s ! b) \<notin> (\<lambda>c. tag (blks s ! c)) ` set (filter (\<lambda>c. is_valid (blks s ! c)) as)"
  proof
    assume "tag (blks s ! b) \<in> (\<lambda>c. tag (blks s ! c)) ` set (filter (\<lambda>c. is_valid (blks s ! c)) as)"
    then obtain c where c: "c \<in> set as" "is_valid (blks s ! c)" "tag (blks s ! b) = tag (blks s ! c)" by auto
    from o(4) [OF p(1) _ assms(2) c(2,3)] p(2) [OF c(1)] show False by simp
  qed
  then show "stack s (b # as @ cs) = tag (blks s ! b) # remove1 (tag (blks s ! b)) (stack s (as @ b # cs))"
    using assms(2) by (simp add: stack_def remove1_append)
  let ?V = "filter (\<lambda>b. is_valid (blks s ! b))" and ?N = "filter (\<lambda>b. \<not> is_valid (blks s ! b))"
  assume "ordered s (as @ b # cs)"
  then have "as @ b # cs = ?V as @ b # ?V cs @ ?N as @ ?N cs" using assms(2) by (simp add: ordered_def)
  then have "remove1 b (as @ b # cs) = remove1 b (?V as @ b # ?V cs @ ?N as @ ?N cs)" by simp
  then have "as @ cs = ?V as @ ?V cs @ ?N as @ ?N cs" using d by (simp add: remove1_append)
  then show "ordered s (b # as @ cs)" using assms(2) by (simp add: ordered_def)
qed

lemma set_ok_length:
  assumes "set_ok A cp i s xs"
  shows "length xs = assoc cp"
  using distinct_card [OF set_okD(2) [OF assms]] assms by (simp add: set_ok_def)

text \<open>A block is taken off its hash chain, filled with another tag and put on the chain of that tag.\<close>

definition unlinked :: "'g cache_t \<Rightarrow> cache_set_t \<Rightarrow> blkptr \<Rightarrow> cache_set_t \<Rightarrow> bool" where
  "unlinked cp s b s' = (same_ways s s' \<and> (hsize cp \<noteq> 0 \<longrightarrow> hashed (hsize cp) s' ({..<assoc cp} - {b})))"

lemma unlink_ok:
  assumes "cache_geom cp k l a" "set_ok A cp i s xs" "b < assoc cp"
  shows "succeeds (if hsize cp \<noteq> 0 then unlink_htab_ent (hsize cp) s b else Some s) (unlinked cp s b)"
proof (cases "hsize cp = 0")
  case False
  then show ?thesis using unlink_htab_ok [of "hsize cp" s "{..<assoc cp}" b] hsize_range [OF assms(1)] assms(2,3)
    by (auto simp: set_ok_def unlinked_def elim!: succeeds_mono)
qed (simp add: unlinked_def same_ways_def)

lemma relink_ok:
  assumes "cache_geom cp k l a" "unlinked cp s b s1" "b < assoc cp" "length (blks s) = assoc cp"
  shows "succeeds (if hsize cp \<noteq> 0 then link_htab_ent (hsize cp) (s1\<lparr> blks := (blks s1)[b := x] \<rparr>) b
      else Some (s1\<lparr> blks := (blks s1)[b := x] \<rparr>))
    (\<lambda>s'. same_ways (s\<lparr> blks := (blks s)[b := x] \<rparr>) s' \<and> (hsize cp \<noteq> 0 \<longrightarrow> hashed (hsize cp) s' {..<assoc cp}))"
proof (cases "hsize cp = 0")
  case False
  let ?s = "s1\<lparr> blks := (blks s1)[b := x] \<rparr>"
  have "hashed (hsize cp) ?s ({..<assoc cp} - {b})" using assms(2) False
    by (intro hashed_blks) (auto simp: unlinked_def)
  from link_htab_ok [OF this, of b] have "succeeds (link_htab_ent (hsize cp) ?s b)
      (\<lambda>s'. hashed (hsize cp) s' (insert b ({..<assoc cp} - {b})) \<and> same_ways ?s s')"
    using False hsize_range [OF assms(1)] assms(2-4) by (auto simp: unlinked_def same_ways_def)
  moreover have "insert b ({..<assoc cp} - {b}) = {..<assoc cp}" using assms(3) by auto
  ultimately show ?thesis using False assms(2)
    by (auto simp: unlinked_def same_ways_def elim!: succeeds_mono)
qed (use assms(2) in \<open>simp add: unlinked_def same_ways_def\<close>)

lemma fill_set_ok:
  assumes "set_ok A cp i s xs" "b < assoc cp" "is_valid x" "tag x = t" "\<forall>c<assoc cp. \<not> blk_match s t c"
    "legal_tag cp t" "A (CACHE_MK_BADDR cp t i)" "balloc cp \<Longrightarrow> length (data x) = bsize cp"
    "same_ways (s\<lparr> blks := (blks s)[b := x] \<rparr>) s'" "hsize cp \<noteq> 0 \<Longrightarrow> hashed (hsize cp) s' {..<assoc cp}"
  shows "set_ok A cp i s' xs"
proof -
  note o = set_okD [OF assms(1)]
  have b': "blks s' ! c = (if c = b then x else blks s ! c)" for c
    using assms(2,9) o(1) by (simp add: same_ways_def nth_list_update)
  have w: "ways s' xs" using assms(1) ways_same [OF assms(9)] by (simp add: set_ok_def)
  have u: "c = d" if "c < assoc cp" "d < assoc cp" "is_valid (blks s' ! c)" "is_valid (blks s' ! d)"
    "tag (blks s' ! c) = tag (blks s' ! d)" for c d
  proof (cases "c = b \<or> d = b")
    case True
    then show ?thesis using that assms(4,5) unfolding b' blk_match_def by (cases "c = b"; cases "d = b") auto
  next
    case False
    then show ?thesis using that o(4) [of c d] unfolding b' by simp
  qed
  have g: "legal_tag cp (tag (blks s' ! c)) \<and> A (CACHE_MK_BADDR cp (tag (blks s' ! c)) i)"
    if "c < assoc cp" "is_valid (blks s' ! c)" for c
    using that assms(1,4,6,7) unfolding b' set_ok_def by (cases "c = b") simp_all
  have d: "length (data (blks s' ! c)) = bsize cp" if "balloc cp" "c < assoc cp" for c
    using that assms(1,8) unfolding b' set_ok_def by (cases "c = b") simp_all
  have n: "length (blks s') = assoc cp" using o(1) assms(9) by (simp add: same_ways_def)
  show ?thesis
    unfolding set_ok_def
  proof (intro conjI)
    show "set xs = {..<assoc cp}" using assms(1) by (simp add: set_ok_def)
    show "hsize cp \<noteq> 0 \<longrightarrow> hashed (hsize cp) s' {..<assoc cp}" using assms(10) by blast
  qed (use w n in simp_all, use u in blast, use g in blast, use d in blast)
qed

lemma stack_fill:
  assumes "set_ok A cp i s (ys @ [b])" "ordered s (ys @ [b])" "is_valid x" "blks s' = (blks s)[b := x]"
  shows "ordered s' (b # ys)" "stack s' (b # ys) = take (assoc cp) (tag x # stack s (ys @ [b]))"
proof -
  let ?V = "filter (\<lambda>b. is_valid (blks s ! b))" and ?N = "filter (\<lambda>b. \<not> is_valid (blks s ! b))"
  note o = set_okD [OF assms(1)]
  have b: "b \<notin> set ys" "b < assoc cp" and len: "length ys + 1 = assoc cp"
    using o(2,3) set_ok_length [OF assms(1)] by auto
  have same: "blks s' ! c = blks s ! c" if "c \<in> set ys" for c
    using that b(1) assms(4) by (metis nth_list_update_neq)
  have new: "blks s' ! b = x" using assms(4) b(2) o(1) by simp
  have f: "filter (\<lambda>c. is_valid (blks s' ! c)) ys = ?V ys" "filter (\<lambda>c. \<not> is_valid (blks s' ! c)) ys = ?N ys"
    using same by (auto intro: filter_cong)
  have m: "map (\<lambda>c. tag (blks s' ! c)) (?V ys) = map (\<lambda>c. tag (blks s ! c)) (?V ys)" using same by auto
  have v: "ys = ?V ys" if V: "is_valid (blks s ! b)"
  proof -
    have e: "ys @ [b] = ?V ys @ b # ?N ys" using assms(2) V by (simp add: ordered_def)
    have "last (b # ?N ys) = last (?V ys @ b # ?N ys)" by simp
    then have "last (b # ?N ys) = b" unfolding e [symmetric] by simp
    then have "?N ys = []" using b(1) last_in_set [of "?N ys"] by (auto split: if_splits)
    then show ?thesis using e by simp
  qed
  have ys: "ys = ?V ys @ ?N ys"
  proof (cases "is_valid (blks s ! b)")
    case True
    note v [OF this]
    moreover from this have "?N ys = []" by (simp add: filter_id_conv filter_empty_conv) (metis (mono_tags, lifting) filter_id_conv)
    ultimately show ?thesis by simp
  qed (use assms(2) in \<open>simp add: ordered_def\<close>)
  then show "ordered s' (b # ys)" using new assms(3) f by (simp add: ordered_def)
  have st: "stack s' (b # ys) = tag x # stack s ys" using new assms(3) f m by (simp add: stack_def)
  show "stack s' (b # ys) = take (assoc cp) (tag x # stack s (ys @ [b]))"
  proof (cases "is_valid (blks s ! b)")
    case True
    then have "length (?V ys) = length ys" using v by simp
    then show ?thesis using True unfolding st len [symmetric] by (simp add: stack_def)
  next
    case False
    then show ?thesis using length_filter_le [of "\<lambda>c. is_valid (blks s ! c)" ys]
      unfolding st len [symmetric] by (simp add: stack_def)
  qed
qed

section \<open>Frames\<close>

text \<open>What no operation changes.\<close>

definition same_params :: "'g cache_t \<Rightarrow> 'g cache_t \<Rightarrow> bool" where
  "same_params cp cp' = (nsets cp' = nsets cp \<and> bsize cp' = bsize cp \<and> balloc cp' = balloc cp \<and> assoc cp' = assoc cp
     \<and> policy cp' = policy cp \<and> hit_latency cp' = hit_latency cp \<and> prefetch_type cp' = prefetch_type cp
     \<and> blk_access_fn cp' = blk_access_fn cp \<and> hsize cp' = hsize cp \<and> blk_mask cp' = blk_mask cp
     \<and> set_shift cp' = set_shift cp \<and> set_mask cp' = set_mask cp \<and> tag_shift cp' = tag_shift cp
     \<and> tagset_mask cp' = tagset_mask cp \<and> length (sets cp') = length (sets cp))"

named_theorems frame \<open>what an operation leaves alone\<close>

lemma same_params_refl [simp]: "same_params cp cp"
  by (simp add: same_params_def)

lemma same_params_trans: "same_params cp cp' \<Longrightarrow> same_params cp' cp'' \<Longrightarrow> same_params cp cp''"
  by (simp add: same_params_def)

lemma same_params_fields [frame]:
  assumes "same_params cp cp'"
  shows "set_ok A cp' = set_ok A cp" "cache_geom cp' = cache_geom cp" "CACHE_TAG cp' = CACHE_TAG cp"
    "CACHE_SET cp' = CACHE_SET cp" "CACHE_BLK cp' = CACHE_BLK cp" "CACHE_TAGSET cp' = CACHE_TAGSET cp"
    "CACHE_BADDR cp' = CACHE_BADDR cp" "CACHE_MK_BADDR cp' = CACHE_MK_BADDR cp" "access_checks cp' = access_checks cp"
    "nsets cp' = nsets cp" "assoc cp' = assoc cp" "policy cp' = policy cp" "hsize cp' = hsize cp" "balloc cp' = balloc cp"
    "bsize cp' = bsize cp" "blk_access_fn cp' = blk_access_fn cp" "prefetch_type cp' = prefetch_type cp"
  using assms by (auto simp: fun_eq_iff same_params_def set_ok_def cache_geom_def CACHE_TAG_def CACHE_SET_def CACHE_BLK_def
      CACHE_TAGSET_def CACHE_BADDR_def CACHE_MK_BADDR_def access_checks_def legal_tag_def)

lemma cache_inv_upd:
  assumes "cache_inv A cp L" "same_params cp cp'" "i < nsets cp" "sets cp' = (sets cp)[i := s]" "set_ok A cp i s xs"
    "policy cp \<noteq> Random \<Longrightarrow> ordered s xs" "last_ok cp'"
  shows "cache_inv A cp' (L(i := stack s xs))"
proof -
  note f = same_params_fields [OF assms(2)]
  obtain k l a where g: "cache_geom cp k l a" using assms(1) by (auto simp: cache_inv_def)
  have len: "length (sets cp) = nsets cp" using g by (simp add: cache_geom_def)
  have "\<exists>ys. set_ok A cp j (sets cp' ! j) ys \<and> (policy cp \<noteq> Random \<longrightarrow> ordered (sets cp' ! j) ys)
      \<and> (L(i := stack s xs)) j = stack (sets cp' ! j) ys" if "j < nsets cp" for j
  proof (cases "j = i")
    case True
    then show ?thesis using assms(3-6) len by (intro exI [of _ xs]) simp
  next
    case False
    then show ?thesis using assms(1,4) that by (simp add: cache_inv_def)
  qed
  then show ?thesis using g assms(7) unfolding cache_inv_def f by blast
qed

lemma cache_inv_set:
  assumes "cache_inv A cp L" "i < nsets cp"
  obtains xs where "set_ok A cp i (sets cp ! i) xs" "policy cp \<noteq> Random \<longrightarrow> ordered (sets cp ! i) xs"
    "L i = stack (sets cp ! i) xs"
  using assms unfolding cache_inv_def by blast

lemma cache_inv_geom:
  assumes "cache_inv A cp L"
  obtains k l a where "cache_geom cp k l a" "length (sets cp) = nsets cp"
  using assms unfolding cache_inv_def cache_geom_def by blast

lemma count_frame:
  "same_params cp (count_hit cmd pf cp)" "same_params cp (count_miss cmd pf cp)"
  "sets (count_hit cmd pf cp) = sets cp" "sets (count_miss cmd pf cp) = sets cp"
  "last_blk (count_hit cmd pf cp) = last_blk cp" "last_tagset (count_hit cmd pf cp) = last_tagset cp"
  "hits (count_hit cmd pf cp) = hits cp + of_bool (\<not> pf)" "misses (count_hit cmd pf cp) = misses cp"
  "hits (count_miss cmd pf cp) = hits cp" "misses (count_miss cmd pf cp) = misses cp + of_bool (\<not> pf)"
  by (simp_all add: count_hit_def count_miss_def same_params_def Let_def)

section \<open>Hits\<close>

definition buf_ok :: "'g cache_t \<Rightarrow> md_addr_t \<Rightarrow> byte_t list option \<Rightarrow> nat \<Rightarrow> bool" where
  "buf_ok cp addr p nbytes = (balloc cp \<longrightarrow> (\<exists>buf. p = Some buf \<and> nbytes \<le> length buf) \<and> CACHE_BLK cp addr + nbytes \<le> bsize cp)"

lemma dirty_keeps_valid: "(st OR CACHE_BLK_DIRTY) AND CACHE_BLK_VALID = st AND CACHE_BLK_VALID"
  by (intro bit_word_eqI) (auto simp: CACHE_BLK_DIRTY_def CACHE_BLK_VALID_def bit_simps numeral_2_eq_2 bit_Suc)

lemma copy_blk_ok:
  assumes "buf_ok cp addr p nbytes" "balloc cp \<Longrightarrow> length (data x) = bsize cp"
  shows "succeeds (copy_blk cp cmd (CACHE_BLK cp addr) p nbytes x) (\<lambda>(x', p'). tag x' = tag x \<and> is_valid x' = is_valid x
    \<and> ready x' = ready x \<and> (balloc cp \<longrightarrow> length (data x') = bsize cp))"
proof (cases "balloc cp")
  case True
  then obtain buf where "p = Some buf" "nbytes \<le> length buf" "CACHE_BLK cp addr + nbytes \<le> bsize cp"
    using assms(1) by (auto simp: buf_ok_def)
  then show ?thesis using assms(2) True
    by (cases cmd) (auto simp: copy_blk_def CACHE_BCOPY_def read_at_def write_at_def is_valid_def dirty_keeps_valid)
qed (auto simp: copy_blk_def is_valid_def dirty_keeps_valid Let_def)

text \<open>The stack of a set after an access to tag \<open>t\<close>.\<close>

definition stack_hit :: "cache_policy \<Rightarrow> md_addr_t \<Rightarrow> md_addr_t list \<Rightarrow> md_addr_t list" where
  "stack_hit pol t l = (if pol = LRU then t # remove1 t l else l)"

definition stack_access :: "cache_policy \<Rightarrow> nat \<Rightarrow> md_addr_t \<Rightarrow> md_addr_t list \<Rightarrow> md_addr_t list" where
  "stack_access pol n t l = (if t \<in> set l then stack_hit pol t l else take n (t # l))"

lemma hit_reorder:
  assumes "set_ok A cp i s xs" "b < assoc cp" "blk_match s t b"
  shows "succeeds (if way_prev s b \<noteq> None \<and> policy cp = LRU then update_way_list s b Head else Some s)
    (\<lambda>s'. \<exists>ys. set_ok A cp i s' ys \<and> blks s' = blks s \<and> (ordered s xs \<longrightarrow> ordered s' ys)
       \<and> stack s' ys = stack_hit (policy cp) t (stack s xs) \<and> (policy cp = LRU \<longrightarrow> way_head s' = Some b))"
proof -
  have v: "is_valid (blks s ! b)" "tag (blks s ! b) = t" using assms(3) by (auto simp: blk_match_def)
  have "b \<in> set xs" using set_okD(3) [OF assms(1)] assms(2) by blast
  then obtain as cs where xs: "xs = as @ b # cs" by (auto simp: in_set_conv_decomp)
  have w: "ways s (as @ b # cs)" using assms(1) xs by (simp add: set_ok_def)
  note sf = stack_front [OF assms(1) [unfolded xs] v(1)]
  show ?thesis
  proof (cases "policy cp = LRU")
    case True
    show ?thesis
    proof (cases "as = []")
      case as: True
      then have "way_prev s b = None" "way_head s = Some b"
        using ways_neighbours(1) [OF w] ways_ends(1) [OF w] by simp_all
      moreover have "stack s xs = stack_hit LRU t (stack s xs)"
        using sf(1) as v(2) unfolding xs by (simp add: stack_hit_def)
      ultimately show ?thesis using assms(1) True by (auto intro!: exI [of _ xs])
    next
      case False
      then have "way_prev s b \<noteq> None" using ways_neighbours(1) [OF w] by simp
      then have e: "(if way_prev s b \<noteq> None \<and> policy cp = LRU then update_way_list s b Head else Some s) = update_way_list s b Head"
        using True by simp
      show ?thesis unfolding e
      proof (rule succeeds_mono [OF reorder_set_ok(1) [OF assms(1) [unfolded xs]]], rule exI [of _ "b # as @ cs"])
        fix s' assume s': "set_ok A cp i s' (b # as @ cs) \<and> blks s' = blks s \<and> way_head s' = Some b"
        then have "stack s' (b # as @ cs) = stack s (b # as @ cs)" "ordered s' (b # as @ cs) = ordered s (b # as @ cs)"
          using stack_cong [of s' s] by blast+
        then show "set_ok A cp i s' (b # as @ cs) \<and> blks s' = blks s \<and> (ordered s xs \<longrightarrow> ordered s' (b # as @ cs))
            \<and> stack s' (b # as @ cs) = stack_hit (policy cp) t (stack s xs) \<and> (policy cp = LRU \<longrightarrow> way_head s' = Some b)"
          using s' sf v(2) True by (simp add: stack_hit_def xs)
      qed
    qed
  next
    case False
    then show ?thesis using assms(1) by (auto simp: stack_hit_def)
  qed
qed

lemma cache_hit_ok:
  assumes "cache_inv A cp L" "b < assoc cp" "blk_match (sets cp ! CACHE_SET cp addr) (CACHE_TAG cp addr) b" "buf_ok cp addr p nbytes"
  shows "succeeds (cache_hit cp cmd addr p nbytes pf b) (\<lambda>(cp', p'). same_params cp cp'
    \<and> cache_inv A cp' (L(CACHE_SET cp addr := stack_hit (policy cp) (CACHE_TAG cp addr) (L (CACHE_SET cp addr))))
    \<and> hits cp' = hits cp + of_bool (\<not> pf) \<and> misses cp' = misses cp)"
proof -
  let ?i = "CACHE_SET cp addr" and ?t = "CACHE_TAG cp addr" and ?c = "count_hit cmd pf cp"
  let ?s = "sets cp ! ?i" let ?x = "blks ?s ! b"
  obtain k l a where g: "cache_geom cp k l a" "length (sets cp) = nsets cp" using cache_inv_geom [OF assms(1)] .
  have i: "?i < nsets cp" using g(1) by (rule CACHE_SET_less)
  obtain xs where xs: "set_ok A cp ?i ?s xs" "policy cp \<noteq> Random \<longrightarrow> ordered ?s xs" "L ?i = stack ?s xs"
    using cache_inv_set [OF assms(1) i] .
  have m: "tag ?x = ?t" "is_valid ?x" using assms(3) by (auto simp: blk_match_def)
  note fc = same_params_fields [OF count_frame(1) [of cp cmd pf]]
  have "buf_ok ?c addr p nbytes" "balloc ?c \<Longrightarrow> length (data ?x) = bsize ?c"
    using assms(2,4) xs(1) by (simp_all add: buf_ok_def fc set_ok_def)
  from copy_blk_ok [OF this, of cmd] obtain x p' where x: "copy_blk ?c cmd (CACHE_BLK ?c addr) p nbytes ?x = Some (x, p')"
    "tag x = tag ?x" "is_valid x = is_valid ?x" "balloc cp \<longrightarrow> length (data x) = bsize cp"
    by (auto simp: succeeds_iff fc)
  let ?s1 = "?s\<lparr> blks := (blks ?s)[b := x] \<rparr>"
  note t = touch_set_ok [OF xs(1) assms(2) x(2,3)]
  have len: "length (blks ?s) = assoc cp" using xs(1) by (simp add: set_ok_def)
  have m1: "blk_match ?s1 ?t b" using m x(2,3) len assms(2) by (simp add: blk_match_def)
  from hit_reorder [OF t(1) assms(2) m1] x(4) obtain s2 ys where s2:
    "(if way_prev ?s1 b \<noteq> None \<and> policy cp = LRU then update_way_list ?s1 b Head else Some ?s1) = Some s2"
    "set_ok A cp ?i s2 ys" "blks s2 = blks ?s1" "ordered ?s1 xs \<longrightarrow> ordered s2 ys"
    "stack s2 ys = stack_hit (policy cp) ?t (stack ?s1 xs)" "policy cp = LRU \<longrightarrow> way_head s2 = Some b"
    by (auto simp: succeeds_iff)
  let ?cp = "?c\<lparr> sets := (sets ?c)[?i := s2], last_tagset := CACHE_TAGSET ?c addr, last_blk := Some (?i, b) \<rparr>"
  have "cache_hit cp cmd addr p nbytes pf b = Some (?cp, p')"
    using x(1) s2(1) i g(2) assms(2) len by (simp add: cache_hit_def rd_in count_frame fc Let_def)
  moreover have sp: "same_params cp ?cp" using count_frame(1) [of cp cmd pf] by (simp add: same_params_def)
  have "last_ok ?cp" using i assms(2) g(2) m s2(3,6) x(2,3) len mk_baddr_of [OF g(1), of addr] sp
    by (simp add: last_ok_def same_params_fields fc count_frame)
  with cache_inv_upd [OF assms(1) sp i _ s2(2), of] s2(4,5) t(2,3) xs(2,3) x(4)
  have "cache_inv A ?cp (L(?i := stack_hit (policy cp) ?t (L ?i)))" by (simp add: count_frame)
  ultimately show ?thesis using sp by (simp add: count_frame)
qed

text \<open>The fast path finds the block that the slow path would find.\<close>

lemma last_match:
  assumes "cache_inv A cp L" "CACHE_TAGSET cp addr = last_tagset cp" "CACHE_TAGSET cp addr = 0 \<longrightarrow> last_blk cp \<noteq> None"
  obtains b where "last_blk cp = Some (CACHE_SET cp addr, b)" "b < assoc cp"
    "blk_match (sets cp ! CACHE_SET cp addr) (CACHE_TAG cp addr) b"
    "policy cp = LRU \<longrightarrow> way_head (sets cp ! CACHE_SET cp addr) = Some b"
proof -
  obtain k l a where g: "cache_geom cp k l a" "length (sets cp) = nsets cp" using cache_inv_geom [OF assms(1)] .
  have "last_ok cp" using assms(1) by (simp add: cache_inv_def)
  then obtain j b where lb: "last_blk cp = Some (j, b)" "j < nsets cp" "b < assoc cp" "is_valid (blks (sets cp ! j) ! b)"
    "last_tagset cp = CACHE_MK_BADDR cp (tag (blks (sets cp ! j) ! b)) j" "policy cp = LRU \<longrightarrow> way_head (sets cp ! j) = Some b"
    using assms(2,3) by (auto simp: last_ok_def split: option.splits)
  obtain xs where xs: "set_ok A cp j (sets cp ! j) xs" using cache_inv_set [OF assms(1) lb(2)] .
  have lt: "legal_tag cp (tag (blks (sets cp ! j) ! b))" using xs lb(3,4) by (simp add: set_ok_def)
  let ?a = "CACHE_MK_BADDR cp (CACHE_TAG cp addr) (CACHE_SET cp addr)"
  have e: "CACHE_MK_BADDR cp (tag (blks (sets cp ! j) ! b)) j = ?a"
    using assms(2) lb(5) mk_baddr_of [OF g(1), of addr] by simp
  have "j = CACHE_SET cp addr" "tag (blks (sets cp ! j) ! b) = CACHE_TAG cp addr"
    using arg_cong [OF e, of "CACHE_SET cp"] arg_cong [OF e, of "CACHE_TAG cp"] set_mk_baddr [OF g(1)] tag_mk_baddr [OF g(1)]
      lt lb(2) CACHE_SET_less [OF g(1)] legal_tag_of [OF g(1)] by simp_all
  then show ?thesis using that [of b] lb by (simp add: blk_match_def)
qed

lemma stack_hit_front:
  assumes "set_ok A cp i s xs" "way_head s = Some b" "blk_match s t b"
  shows "stack_hit pol t (stack s xs) = stack s xs"
proof -
  have "ways s xs" using assms(1) by (simp add: set_ok_def)
  then obtain ys where "xs = b # ys" using ways_ends(1) assms(2) by (cases xs) (auto simp: ways_def)
  then show ?thesis using assms(3) by (simp add: stack_hit_def stack_def blk_match_def)
qed

lemma fast_hit_ok:
  assumes "cache_inv A cp L" "b < assoc cp" "blk_match (sets cp ! CACHE_SET cp addr) (CACHE_TAG cp addr) b" "buf_ok cp addr p nbytes"
    "policy cp = LRU \<longrightarrow> way_head (sets cp ! CACHE_SET cp addr) = Some b"
  shows "succeeds (cache_fast_hit cp cmd addr p nbytes pf (CACHE_SET cp addr, b)) (\<lambda>(cp', p'). same_params cp cp'
    \<and> cache_inv A cp' (L(CACHE_SET cp addr := stack_hit (policy cp) (CACHE_TAG cp addr) (L (CACHE_SET cp addr))))
    \<and> hits cp' = hits cp + of_bool (\<not> pf) \<and> misses cp' = misses cp)"
proof -
  let ?i = "CACHE_SET cp addr" and ?t = "CACHE_TAG cp addr" and ?c = "count_hit cmd pf cp"
  let ?s = "sets cp ! ?i" let ?x = "blks ?s ! b"
  obtain k l a where g: "cache_geom cp k l a" "length (sets cp) = nsets cp" using cache_inv_geom [OF assms(1)] .
  have i: "?i < nsets cp" using g(1) by (rule CACHE_SET_less)
  obtain xs where xs: "set_ok A cp ?i ?s xs" "policy cp \<noteq> Random \<longrightarrow> ordered ?s xs" "L ?i = stack ?s xs"
    using cache_inv_set [OF assms(1) i] .
  have m: "tag ?x = ?t" "is_valid ?x" using assms(3) by (auto simp: blk_match_def)
  note fc = same_params_fields [OF count_frame(1) [of cp cmd pf]]
  have "buf_ok ?c addr p nbytes" "balloc ?c \<Longrightarrow> length (data ?x) = bsize ?c"
    using assms(2,4) xs(1) by (simp_all add: buf_ok_def fc set_ok_def)
  from copy_blk_ok [OF this, of cmd] obtain x p' where x: "copy_blk ?c cmd (CACHE_BLK ?c addr) p nbytes ?x = Some (x, p')"
    "tag x = tag ?x" "is_valid x = is_valid ?x" "balloc cp \<longrightarrow> length (data x) = bsize cp"
    by (auto simp: succeeds_iff fc)
  let ?s1 = "?s\<lparr> blks := (blks ?s)[b := x] \<rparr>"
  note t = touch_set_ok [OF xs(1) assms(2) x(2,3)]
  have len: "length (blks ?s) = assoc cp" using xs(1) by (simp add: set_ok_def)
  let ?cp = "?c\<lparr> sets := (sets ?c)[?i := ?s1], last_tagset := CACHE_TAGSET cp addr, last_blk := Some (?i, b) \<rparr>"
  have sp: "same_params cp ?cp" using count_frame(1) [of cp cmd pf] by (simp add: same_params_def)
  have ts: "CACHE_TAGSET (set_blk ?c ?i b x) = CACHE_TAGSET cp"
    by (simp add: set_blk_def CACHE_TAGSET_def fun_eq_iff) (metis count_frame(1) same_params_def)
  have r: "cache_fast_hit cp cmd addr p nbytes pf (?i, b) = Some (?cp, p')"
    using x(1) i g(2) assms(2) len ts by (simp add: cache_fast_hit_def rd_in count_frame fc Let_def set_blk_def)
  have "last_ok ?cp" using i assms(2,5) g(2) m x(2,3) len mk_baddr_of [OF g(1), of addr] sp
    by (simp add: last_ok_def same_params_fields fc count_frame)
  moreover have "stack_hit (policy cp) ?t (L ?i) = L ?i"
    using stack_hit_front [OF xs(1) _ assms(3), of LRU] assms(5) xs(3) by (simp add: stack_hit_def)
  ultimately have "cache_inv A ?cp (L(?i := stack_hit (policy cp) ?t (L ?i)))"
    using cache_inv_upd [OF assms(1) sp i _ t(1)] t(2,3) xs(2,3) x(4) by (simp add: count_frame)
  then show ?thesis using r sp by (simp add: count_frame)
qed

section \<open>Misses\<close>

lemma select_repl_ok:
  assumes "cache_geom cp k l a" "set_ok A cp i s xs"
  shows "succeeds (select_repl cp s g) (\<lambda>(b, s', g'). b < assoc cp \<and> blks s' = blks s
    \<and> (\<exists>ys. set_ok A cp i s' ys \<and> (policy cp \<noteq> Random \<longrightarrow> (\<exists>zs. xs = zs @ [b] \<and> ys = b # zs)))
    \<and> (g' = g \<or> g' = g\<lparr> rand_calls := rand_calls g + 1 \<rparr>))"
proof (cases "policy cp = Random")
  case True
  have a: "assoc cp = 2 ^ a" "a < 31" using assms(1) by (simp_all add: cache_geom_def)
  have "unat (myrand g (rand_calls g) AND (of_nat (assoc cp) - 1)) < assoc cp"
    by (rule unat_and_less) (use a in \<open>simp add: unat_minus_one_exp\<close>)
  then show ?thesis using True assms(2) by (auto simp: select_repl_def)
next
  case False
  have w: "ways s xs" using assms(2) by (simp add: set_ok_def)
  then obtain zs b where xs: "xs = zs @ [b]" by (cases xs rule: rev_cases) (auto simp: ways_def)
  then have "way_tail s = Some b" "b < assoc cp" using ways_ends(2) [OF w] set_okD(3) [OF assms(2)] by auto
  then show ?thesis using False reorder_set_ok(1) [of A cp i s zs b "[]"] assms(2) xs
    by (auto simp: select_repl_def succeeds_iff)
qed

text \<open>The reference prediction table and the program counter are the same.\<close>

definition same_rpt :: "'e globals_scheme \<Rightarrow> 'e globals_scheme \<Rightarrow> bool" where
  "same_rpt g g' = (rpt_table g' = rpt_table g \<and> stride_init g' = stride_init g \<and> regs_PC g' = regs_PC g)"

lemma same_rpt_refl [simp]: "same_rpt g g" "same_rpt g (g\<lparr> rand_calls := n \<rparr>)"
  by (simp_all add: same_rpt_def)

lemma same_rpt_trans: "same_rpt g g' \<Longrightarrow> same_rpt g' g'' \<Longrightarrow> same_rpt g g''"
  by (simp add: same_rpt_def)

text \<open>The level below the cache: it answers block accesses at the addresses of \<open>A\<close> while its state is \<open>ok\<close>.
  In \<open>next_level\<close> block 0 is excluded, because a cache that has no last block compares addresses with 0.\<close>

definition on_level :: "'g blk_access \<Rightarrow> nat \<Rightarrow> 'g cache_t \<Rightarrow> bool" where
  "on_level fn bs cp = (blk_access_fn cp = fn \<and> bsize cp = bs)"

lemma on_level_params: "same_params cp cp' \<Longrightarrow> on_level fn bs cp' = on_level fn bs cp"
  by (simp add: on_level_def same_params_def)

locale lower_level =
  fixes A :: "md_addr_t \<Rightarrow> bool" and ok :: "'e globals_scheme \<Rightarrow> bool" and fn :: "'e globals_scheme blk_access" and bs :: nat
  assumes fn_returns: "ok g \<Longrightarrow> A a \<Longrightarrow>
      succeeds (fn cmd a bs x now pf g) (\<lambda>(l, c, g'). ok g' \<and> same_rpt g g' \<and> length (fst c) = length (data x))"
    and ok_rand: "ok g \<Longrightarrow> ok (g\<lparr> rand_calls := n \<rparr>)"
    and ok_rpt: "ok g \<Longrightarrow> ok (g\<lparr> rpt_table := r, stride_init := b \<rparr>)"
begin

lemma evict_ok:
  assumes "on_level fn bs cp" "ok g" "is_valid x \<Longrightarrow> A (CACHE_MK_BADDR cp (tag x) i)"
  shows "succeeds (evict cp g i now x) (\<lambda>(cp', g', x', lat, ra). same_params cp cp' \<and> sets cp' = sets cp
    \<and> last_blk cp' = last_blk cp \<and> last_tagset cp' = last_tagset cp \<and> hits cp' = hits cp \<and> misses cp' = misses cp
    \<and> ok g' \<and> same_rpt g g' \<and> length (data x') = length (data x))"
proof -
  have mk: "CACHE_MK_BADDR (cp\<lparr> replacements := n \<rparr>) = CACHE_MK_BADDR cp" for n
    by (simp add: CACHE_MK_BADDR_def fun_eq_iff)
  have f: "blk_access_fn cp = fn" "bsize cp = bs" using assms(1) by (simp_all add: on_level_def)
  show ?thesis
  proof (cases "is_valid x \<and> is_dirty x")
    case True
    let ?lat = "BOUND_POS (ready x - now)"
    let ?lat' = "?lat + BOUND_POS (bus_free cp - (now + ?lat))"
    obtain l c g' where "fn Write (CACHE_MK_BADDR cp (tag x) i) bs x (now + ?lat') False g = Some (l, c, g')"
      "ok g'" "same_rpt g g'" "length (fst c) = length (data x)"
      using fn_returns [OF assms(2,3), of Write x "now + ?lat'" False] True by (auto simp: succeeds_iff)
    then show ?thesis using True f unfolding evict_def
      by (simp add: mk Let_def set_contents_def same_params_def)
  next
    case False
    then show ?thesis using assms(2) unfolding evict_def
      by (auto simp: Let_def same_params_def)
  qed
qed

lemma fill_ok:
  assumes "same_params cp c2" "on_level fn bs cp" "ok g" "A ba" "balloc cp \<Longrightarrow> length (data x) = bsize cp"
    "buf_ok cp addr p nbytes"
  obtains l c g' x' p' where
    "fn Read ba bs (x\<lparr> tag := t, status := CACHE_BLK_VALID \<rparr>) now pf g = Some (l, c, g')" "ok g'" "same_rpt g g'"
    "copy_blk c2 cmd (CACHE_BLK cp addr) p nbytes (set_contents c (x\<lparr> tag := t, status := CACHE_BLK_VALID \<rparr>)) = Some (x', p')"
    "tag x' = t" "is_valid x'" "balloc cp \<longrightarrow> length (data x') = bsize cp"
proof -
  note f2 = same_params_fields [OF assms(1)]
  let ?x = "x\<lparr> tag := t, status := CACHE_BLK_VALID \<rparr>"
  obtain l c g' where rd: "fn Read ba bs ?x now pf g = Some (l, c, g')" "ok g'" "length (fst c) = length (data x)" "same_rpt g g'"
    using fn_returns [OF assms(3,4), of Read ?x now pf] by (auto simp: succeeds_iff)
  have v: "is_valid (set_contents c ?x)" by (simp add: is_valid_def set_contents_def CACHE_BLK_VALID_def)
  have "buf_ok c2 addr p nbytes" "balloc c2 \<Longrightarrow> length (data (set_contents c ?x)) = bsize c2"
    using assms(5,6) rd(3) by (simp_all add: buf_ok_def f2 set_contents_def)
  from copy_blk_ok [OF this, of cmd] obtain x' p' where
    "copy_blk c2 cmd (CACHE_BLK cp addr) p nbytes (set_contents c ?x) = Some (x', p')" "tag x' = t" "is_valid x'"
    "balloc cp \<longrightarrow> length (data x') = bsize cp"
    using v by (auto simp: succeeds_iff f2 set_contents_def)
  with rd that show ?thesis by blast
qed

text \<open>The run of a miss: block \<open>b\<close> of the reordered set \<open>s1\<close> is filled with \<open>x\<close>.\<close>

lemma cache_miss_runs:
  assumes "cache_inv A cp L" "on_level fn bs cp" "ok g" "A (CACHE_TAGSET cp addr)" "buf_ok cp addr p nbytes"
    "set_ok A cp (CACHE_SET cp addr) (sets cp ! CACHE_SET cp addr) xs"
  obtains b s1 ys s3 x c2 g3 p' lat ra where
    "cache_miss cp g cmd addr p nbytes now pf = Some (lat, c2\<lparr> sets := (sets cp)[CACHE_SET cp addr := s3] \<rparr>, g3, p', ra)"
    "same_params cp c2" "last_blk c2 = None" "last_tagset c2 = 0" "hits c2 = hits cp" "misses c2 = misses cp + of_bool (\<not> pf)" "ok g3" "same_rpt g g3"
    "b < assoc cp" "blks s1 = blks (sets cp ! CACHE_SET cp addr)" "set_ok A cp (CACHE_SET cp addr) s1 ys"
    "policy cp \<noteq> Random \<longrightarrow> (\<exists>zs. xs = zs @ [b] \<and> ys = b # zs)"
    "is_valid x" "tag x = CACHE_TAG cp addr" "balloc cp \<longrightarrow> length (data x) = bsize cp"
    "same_ways (s1\<lparr> blks := (blks s1)[b := x] \<rparr>) s3" "hsize cp \<noteq> 0 \<longrightarrow> hashed (hsize cp) s3 {..<assoc cp}"
proof -
  let ?i = "CACHE_SET cp addr" and ?t = "CACHE_TAG cp addr" and ?c = "count_miss cmd pf cp"
  let ?s = "sets cp ! ?i"
  obtain k l a where geo: "cache_geom cp k l a" "length (sets cp) = nsets cp" using cache_inv_geom [OF assms(1)] .
  have i: "?i < nsets cp" using geo(1) by (rule CACHE_SET_less)
  note fc = same_params_fields [OF count_frame(2) [of cp cmd pf]]
  have geo': "cache_geom ?c k l a" and xs': "set_ok A ?c ?i ?s xs" using geo(1) assms(6) by (simp_all add: fc)
  from select_repl_ok [OF geo' xs', of g] obtain b s1 g1 ys where sel: "select_repl ?c ?s g = Some (b, s1, g1)"
    "b < assoc cp" "blks s1 = blks ?s" "set_ok A cp ?i s1 ys" "policy cp \<noteq> Random \<longrightarrow> (\<exists>zs. xs = zs @ [b] \<and> ys = b # zs)"
    "g1 = g \<or> g1 = g\<lparr> rand_calls := rand_calls g + 1 \<rparr>"
    by (auto simp: succeeds_iff fc)
  have g1: "ok g1" "same_rpt g g1" using sel(6) assms(3) ok_rand by auto
  from unlink_ok [OF geo(1) sel(4,2)] obtain s2 where s2:
    "(if hsize cp \<noteq> 0 then unlink_htab_ent (hsize cp) s1 b else Some s1) = Some s2" "unlinked cp s1 b s2"
    by (auto simp: succeeds_iff)
  have len: "length (blks s1) = assoc cp" using sel(4) by (simp add: set_ok_def)
  have b2: "blks s2 = blks s1" using s2(2) by (simp add: unlinked_def same_ways_def)
  then have len2: "length (blks s2) = assoc cp" using len by simp
  let ?x = "blks s2 ! b"
  let ?c1 = "?c\<lparr> last_tagset := 0, last_blk := None \<rparr>"
  have sp1: "same_params cp ?c1" using count_frame(2) [of cp cmd pf] by (simp add: same_params_def)
  have "is_valid ?x \<Longrightarrow> A (CACHE_MK_BADDR ?c1 (tag ?x) ?i)"
    using sel(2,4) b2 by (simp add: same_params_fields [OF sp1] set_ok_def)
  from evict_ok [OF _ g1(1) this, of now] obtain c2 g2 x2 lat ra where ev: "evict ?c1 g1 ?i now ?x = Some (c2, g2, x2, lat, ra)"
    "same_params ?c1 c2" "sets c2 = sets cp" "last_blk c2 = None" "last_tagset c2 = 0" "hits c2 = hits cp"
    "misses c2 = misses cp + of_bool (\<not> pf)" "ok g2" "length (data x2) = length (data ?x)" "same_rpt g1 g2"
    using assms(2) on_level_params [OF sp1] by (auto simp: succeeds_iff count_frame)
  have sp2: "same_params cp c2" using sp1 ev(2) by (rule same_params_trans)
  note f2 = same_params_fields [OF sp2]
  have dl: "balloc cp \<Longrightarrow> length (data x2) = bsize cp" using sel(2,4) b2 ev(9) by (simp add: set_ok_def)
  have "A (CACHE_BADDR cp addr)" using assms(4) baddr_tagset [OF geo(1)] by simp
  from fill_ok [OF sp2 assms(2) ev(8) this dl assms(5), of ?t "now + lat" pf cmd] obtain l' c g3 x5 p' where fi:
    "fn Read (CACHE_BADDR cp addr) bs (x2\<lparr> tag := ?t, status := CACHE_BLK_VALID \<rparr>) (now + lat) pf g2 = Some (l', c, g3)" "ok g3" "same_rpt g2 g3"
    "copy_blk c2 cmd (CACHE_BLK cp addr) p nbytes (set_contents c (x2\<lparr> tag := ?t, status := CACHE_BLK_VALID \<rparr>)) = Some (x5, p')"
    "tag x5 = ?t" "is_valid x5" "balloc cp \<longrightarrow> length (data x5) = bsize cp" .
  let ?x6 = "x5\<lparr> ready := now + (lat + l') \<rparr>"
  from relink_ok [OF geo(1) s2(2) sel(2) len, of ?x6] obtain s3 where s3:
    "(if hsize cp \<noteq> 0 then link_htab_ent (hsize cp) (s2\<lparr> blks := (blks s2)[b := ?x6] \<rparr>) b
      else Some (s2\<lparr> blks := (blks s2)[b := ?x6] \<rparr>)) = Some s3"
    "same_ways (s1\<lparr> blks := (blks s1)[b := ?x6] \<rparr>) s3" "hsize cp \<noteq> 0 \<longrightarrow> hashed (hsize cp) s3 {..<assoc cp}"
    by (auto simp: succeeds_iff)
  have "cache_miss cp g cmd addr p nbytes now pf = Some (lat + l', c2\<lparr> sets := (sets cp)[?i := s3] \<rparr>, g3, p', ra)"
    using i geo(2) sel(1,2) s2(1) ev(1,3) fi(1,4) s3(1) len2 assms(2)
    by (cases "hsize cp = 0") (simp_all add: cache_miss_def Let_def rd_in count_frame fc f2 on_level_def)
  moreover have "same_rpt g g3" using g1(2) ev(10) fi(3) same_rpt_trans by blast
  ultimately show ?thesis using that [OF _ sp2 ev(4-7) fi(2) _ sel(2-5) _ _ _ s3(2,3)] fi(5-7)
    by (simp add: is_valid_def)
qed

lemma cache_miss_ok:
  assumes "cache_inv A cp L" "on_level fn bs cp" "ok g" "A (CACHE_TAGSET cp addr)" "buf_ok cp addr p nbytes"
    "CACHE_TAG cp addr \<notin> set (L (CACHE_SET cp addr))"
  shows "succeeds (cache_miss cp g cmd addr p nbytes now pf) (\<lambda>(lat, cp', g', p', ra). same_params cp cp' \<and> ok g' \<and> same_rpt g g'
    \<and> (\<exists>l. cache_inv A cp' (L(CACHE_SET cp addr := l)) \<and> CACHE_TAG cp addr \<in> set l
         \<and> (policy cp \<noteq> Random \<longrightarrow> l = take (assoc cp) (CACHE_TAG cp addr # L (CACHE_SET cp addr))))
    \<and> hits cp' = hits cp \<and> misses cp' = misses cp + of_bool (\<not> pf))"
proof -
  let ?i = "CACHE_SET cp addr" and ?t = "CACHE_TAG cp addr"
  let ?s = "sets cp ! ?i"
  obtain k l a where geo: "cache_geom cp k l a" "length (sets cp) = nsets cp" using cache_inv_geom [OF assms(1)] .
  have i: "?i < nsets cp" using geo(1) by (rule CACHE_SET_less)
  obtain xs where xs: "set_ok A cp ?i ?s xs" "policy cp \<noteq> Random \<longrightarrow> ordered ?s xs" "L ?i = stack ?s xs"
    using cache_inv_set [OF assms(1) i] .
  from cache_miss_runs [OF assms(1-5) xs(1), of cmd now pf] obtain b s1 ys s3 x c2 g3 p' lat ra where r:
    "cache_miss cp g cmd addr p nbytes now pf = Some (lat, c2\<lparr> sets := (sets cp)[?i := s3] \<rparr>, g3, p', ra)"
    "same_params cp c2" "last_blk c2 = None" "last_tagset c2 = 0" "hits c2 = hits cp" "misses c2 = misses cp + of_bool (\<not> pf)" "ok g3" "same_rpt g g3"
    "b < assoc cp" "blks s1 = blks ?s" "set_ok A cp ?i s1 ys" "policy cp \<noteq> Random \<longrightarrow> (\<exists>zs. xs = zs @ [b] \<and> ys = b # zs)"
    "is_valid x" "tag x = ?t" "balloc cp \<longrightarrow> length (data x) = bsize cp"
    "same_ways (s1\<lparr> blks := (blks s1)[b := x] \<rparr>) s3" "hsize cp \<noteq> 0 \<longrightarrow> hashed (hsize cp) s3 {..<assoc cp}" .
  have b3: "blks s3 = (blks ?s)[b := x]" using r(10,16) by (simp add: same_ways_def)
  have "\<forall>c<assoc cp. \<not> blk_match s1 ?t c"
    using stack_mem [OF xs(1), of ?t] assms(6) xs(3) r(10) by (auto simp: blk_match_def)
  then have ok3: "set_ok A cp ?i s3 ys"
    using fill_set_ok [OF r(11,9,13,14) _ _ _ _ r(16)] legal_tag_of [OF geo(1)] mk_baddr_of [OF geo(1)] assms(4) r(15,17) by simp
  have st: "ordered s3 ys \<and> stack s3 ys = take (assoc cp) (?t # L ?i)" if "policy cp \<noteq> Random"
  proof -
    obtain zs where zs: "xs = zs @ [b]" "ys = b # zs" using r(12) \<open>policy cp \<noteq> Random\<close> by blast
    show ?thesis using stack_fill [of A cp ?i ?s zs b x s3] xs zs r(13,14) b3 that by simp
  qed
  have "blk_match s3 ?t b" using b3 r(9,13,14) set_okD(1) [OF xs(1)] by (simp add: blk_match_def)
  then have mem: "?t \<in> set (stack s3 ys)" using stack_mem [OF ok3] r(9) by blast
  let ?cp = "c2\<lparr> sets := (sets cp)[?i := s3] \<rparr>"
  have sp: "same_params cp ?cp" using r(2) by (simp add: same_params_def)
  have "last_ok ?cp" using r(3,4) by (simp add: last_ok_def)
  then have "cache_inv A ?cp (L(?i := stack s3 ys))" using cache_inv_upd [OF assms(1) sp i _ ok3] st by simp
  then show ?thesis using r(1,5-8) sp mem st by auto
qed

end

locale next_level = lower_level A ok fn bs
  for A :: "md_addr_t \<Rightarrow> bool" and ok :: "'e globals_scheme \<Rightarrow> bool" and fn :: "'e globals_scheme blk_access" and bs :: nat +
  assumes fn_nonzero: "A a \<Longrightarrow> a \<noteq> 0"

end
