(* ===== verification/Ss_Cache_Run.thy ===== *)
theory Ss_Cache_Run
  imports Ss_Cache_Correct
begin

text \<open>
  Whole accesses of the Lab 4 cache with their prefetches, flushing, the memory hierarchy of
  \<^verbatim>\<open>sim-cache.c\<close>, and the properties of the component.
\<close>

section \<open>Prefetch addresses\<close>

lemma tagset_checks:
  assumes "cache_geom cp k l a"
  shows "access_checks cp (CACHE_TAGSET cp addr) (bsize cp)"
proof -
  have k: "bsize cp = 2 ^ k" "blk_mask cp = mask k" "tagset_mask cp = NOT (mask k)"
    using assms by (simp_all add: cache_geom_def)
  have "(2 ^ k :: md_addr_t) AND mask k = 0" "(addr AND NOT (mask k)) AND mask k = 0"
    by (auto intro!: bit_word_eqI simp: bit_simps)
  moreover have "(addr AND NOT (mask k)) AND NOT (mask k) = addr AND NOT (mask k)"
    by (auto intro!: bit_word_eqI simp: bit_simps)
  ultimately show ?thesis
    by (simp add: access_checks_def k CACHE_TAGSET_def flip: mask_eq_exp_minus_1)
qed

lemma tagset_idem:
  "cache_geom cp k l a \<Longrightarrow> CACHE_TAGSET cp (CACHE_TAGSET cp addr) = CACHE_TAGSET cp addr"
  by (auto intro!: bit_word_eqI simp: bit_simps CACHE_TAGSET_def cache_geom_def)

lemma round_down_tagset:
  assumes "cache_geom cp k l a"
  shows "addr - addr mod of_nat (bsize cp) = CACHE_TAGSET cp addr"
proof -
  have "(addr AND NOT (mask k)) AND take_bit k addr = 0" "(addr AND NOT (mask k)) OR take_bit k addr = addr"
    by (auto intro!: bit_word_eqI simp: bit_simps)
  then have "(addr AND NOT (mask k)) + take_bit k addr = addr" by (simp add: disjunctive_add_eq_or)
  then have "addr - addr mod 2 ^ k = addr AND NOT (mask k)"
    by (simp add: algebra_simps flip: take_bit_eq_mod)
  then show ?thesis using assms by (simp add: CACHE_TAGSET_def cache_geom_def)
qed

text \<open>The size of the table of a table prefetcher, and the address that it predicts.\<close>

definition rpt_size :: "'g cache_t \<Rightarrow> nat" where
  "rpt_size cp = (if prefetch_type cp = 2 then 1024 else prefetch_type cp)"

definition rpt_entry :: "nat \<Rightarrow> 'e globals_scheme \<Rightarrow> RPT" where
  "rpt_entry k g = (if stride_init g then rpt_table g ! rpt_index k (regs_PC g) else init_entry)"

definition rpt_next :: "nat \<Rightarrow> 'e globals_scheme \<Rightarrow> md_addr_t \<Rightarrow> md_addr_t" where
  "rpt_next k g addr = (let e = rpt_train (rpt_tag k (regs_PC g)) addr (rpt_entry k g) in prev_addr e + stride e)"

text \<open>A prefetch is safe when the cache has no data to copy, the address it fetches is accepted below, and the
  table has the size this prefetcher gives it.\<close>

definition prefetch_safe :: "(md_addr_t \<Rightarrow> bool) \<Rightarrow> 'e globals_scheme cache_t \<Rightarrow> 'e globals_scheme \<Rightarrow> md_addr_t \<Rightarrow> bool" where
  "prefetch_safe A cp g addr = (prefetch_type cp = 0 \<or> \<not> balloc cp \<and>
     (if prefetch_type cp = 1 then A (CACHE_TAGSET cp (addr + of_nat (bsize cp)))
      else \<exists>k<29. rpt_size cp = 2 ^ k \<and> (stride_init g \<longrightarrow> length (rpt_table g) = 2 ^ k) \<and> A (CACHE_TAGSET cp (rpt_next k g addr))))"

lemma log_loop_exp: "log_loop (2 ^ k) = k"
proof (induction k)
  case (Suc k)
  then show ?case by (subst log_loop.simps) simp
qed (simp add: log_loop.simps)

lemma log_base2_exp: "log_base2 (int (2 ^ k)) = Some k"
proof -
  have "(2 ^ k :: int) AND (2 ^ k - 1) = 0"
    by (auto intro!: bit_eqI simp: bit_simps simp flip: mask_eq_exp_minus_1)
  then show ?thesis using log_loop_exp [of k] by (simp add: log_base2_def nat_power_eq)
qed

lemma rpt_index_less: "k < 29 \<Longrightarrow> rpt_index k pc < 2 ^ k"
proof -
  assume k: "k < 29"
  have "drop_bit 3 (pc AND push_bit 3 (2 ^ k - 1)) = drop_bit 3 pc AND (2 ^ k - 1 :: md_addr_t)"
    using k by (auto intro!: bit_word_eqI simp: bit_simps simp flip: mask_eq_exp_minus_1)
  then show ?thesis unfolding rpt_index_def
    by (simp only:) (rule unat_and_less, use k in \<open>simp add: unat_minus_one_exp\<close>)
qed

lemma rpt_access_ok:
  assumes "k < 29" "stride_init g \<longrightarrow> length (rpt_table g) = 2 ^ k"
  shows "\<exists>t e. rpt_access (2 ^ k) g addr = Some (e, g\<lparr> rpt_table := t, stride_init := True \<rparr>)
    \<and> e = rpt_train (rpt_tag k (regs_PC g)) addr (rpt_entry k g) \<and> length t = 2 ^ k
    \<and> t ! rpt_index k (regs_PC g) = e"
proof -
  have i: "rpt_index k (regs_PC g) < 2 ^ k" using assms(1) by (rule rpt_index_less)
  have "log_base2 (2 ^ k) = Some k" using log_base2_exp [of k] by simp
  then show ?thesis using i assms(2)
    by (cases g; cases "stride_init g")
      (auto simp: rpt_access_def rpt_entry_def init_stride_def rd_in Let_def
        intro!: exI [of _ "(if stride_init g then rpt_table g else init_stride (2 ^ k))
          [rpt_index k (regs_PC g) := rpt_train (rpt_tag k (regs_PC g)) addr (rpt_entry k g)]"])
qed

section \<open>Accesses\<close>

lemma latency_ok:
  assumes "cache_inv A cp L" "case out of Hit i b \<Rightarrow> i < nsets cp \<and> b < assoc cp | Missed lat \<Rightarrow> True"
  shows "access_latency cp now out \<noteq> None"
proof (cases out)
  case (Hit i b)
  then have ib: "i < nsets cp" "b < assoc cp" using assms(2) by auto
  obtain xs where "set_ok A cp i (sets cp ! i) xs" using cache_inv_set [OF assms(1) ib(1)] .
  then have "length (blks (sets cp ! i)) = assoc cp" by (rule set_okD)
  moreover have "length (sets cp) = nsets cp" using cache_inv_geom [OF assms(1)] .
  ultimately show ?thesis using ib Hit by (simp add: access_latency_def rd_in)
qed (simp add: access_latency_def)

text \<open>An invalidated block leaves the stack.\<close>

lemma flushed_stack:
  assumes "set_ok A cp i s (as @ b # cs)" "is_valid (blks s ! b)" "distinct (as @ b # cs)" "\<forall>c\<in>set (as @ b # cs). c < n"
    "\<And>c. c < n \<Longrightarrow> is_valid (blks s1 ! c) = (c \<noteq> b \<and> is_valid (blks s ! c))" "\<And>c. c < n \<Longrightarrow> tag (blks s1 ! c) = tag (blks s ! c)"
    "blks s2 = blks s1"
  shows "stack s2 (as @ cs @ [b]) = remove1 (tag (blks s ! b)) (stack s (as @ b # cs))"
    "ordered s (as @ b # cs) \<Longrightarrow> ordered s2 (as @ cs @ [b])"
proof -
  note sf = stack_front [OF assms(1,2)]
  have e: "is_valid (blks s2 ! c) = is_valid (blks s ! c)" "tag (blks s2 ! c) = tag (blks s ! c)"
    if "c \<in> set (as @ cs)" for c using that assms(3-7) by auto
  have nb: "\<not> is_valid (blks s2 ! b)" using assms(4,5,7) by simp
  have fv: "filter (\<lambda>c. is_valid (blks s2 ! c)) (as @ cs) = filter (\<lambda>c. is_valid (blks s ! c)) (as @ cs)"
    "filter (\<lambda>c. \<not> is_valid (blks s2 ! c)) (as @ cs) = filter (\<lambda>c. \<not> is_valid (blks s ! c)) (as @ cs)"
    using e(1) by (auto intro!: filter_cong simp del: filter_append)
  have "stack s2 (as @ cs) = stack s (as @ cs)" using e(2) unfolding stack_def fv by (auto simp del: filter_append)
  moreover have "stack s2 (as @ cs @ [b]) = stack s2 (as @ cs)" using nb by (simp add: stack_def)
  moreover have "stack s (as @ cs) = remove1 (tag (blks s ! b)) (stack s (as @ b # cs))"
    using sf(1) assms(2) by (simp add: stack_def)
  ultimately show "stack s2 (as @ cs @ [b]) = remove1 (tag (blks s ! b)) (stack s (as @ b # cs))" by simp
  assume "ordered s (as @ b # cs)"
  then have "as @ cs = filter (\<lambda>c. is_valid (blks s ! c)) (as @ cs) @ filter (\<lambda>c. \<not> is_valid (blks s ! c)) (as @ cs)"
    using sf(2) assms(2) by (simp add: ordered_def)
  moreover have "filter (\<lambda>c. is_valid (blks s2 ! c)) ((as @ cs) @ [b]) = filter (\<lambda>c. is_valid (blks s ! c)) (as @ cs)"
    by (subst filter_append, subst fv(1)) (simp add: nb)
  moreover have "filter (\<lambda>c. \<not> is_valid (blks s2 ! c)) ((as @ cs) @ [b]) = filter (\<lambda>c. \<not> is_valid (blks s ! c)) (as @ cs) @ [b]"
    by (subst filter_append, subst fv(2)) (simp add: nb)
  ultimately show "ordered s2 (as @ cs @ [b])" unfolding ordered_def by (metis append.assoc)
qed

context lower_level
begin

text \<open>An access that does not compare block 0 with the address of a missing last block.\<close>

lemma access_body_any:
  assumes "cache_inv A cp L" "on_level fn bs cp" "ok g" "access_checks cp addr nbytes" "A (CACHE_TAGSET cp addr)" "buf_ok cp addr p nbytes"
    "CACHE_TAGSET cp addr = 0 \<longrightarrow> last_blk cp \<noteq> None"
  shows "succeeds (access_body cp g cmd addr p nbytes now pf) (\<lambda>(out, cp', g', p', ra). same_params cp cp' \<and> ok g' \<and> same_rpt g g'
    \<and> (\<exists>l. cache_inv A cp' (L(CACHE_SET cp addr := l)) \<and> CACHE_TAG cp addr \<in> set l
         \<and> (policy cp \<noteq> Random \<longrightarrow> l = stack_access (policy cp) (assoc cp) (CACHE_TAG cp addr) (L (CACHE_SET cp addr))))
    \<and> hits cp' = hits cp + of_bool (\<not> pf \<and> CACHE_TAG cp addr \<in> set (L (CACHE_SET cp addr)))
    \<and> misses cp' = misses cp + of_bool (\<not> pf \<and> CACHE_TAG cp addr \<notin> set (L (CACHE_SET cp addr)))
    \<and> (case out of Hit i b \<Rightarrow> i < nsets cp \<and> b < assoc cp | Missed lat \<Rightarrow> True))"
proof -
  let ?i = "CACHE_SET cp addr" and ?t = "CACHE_TAG cp addr"
  obtain k l a where geo: "cache_geom cp k l a" "length (sets cp) = nsets cp" using cache_inv_geom [OF assms(1)] .
  have i: "?i < nsets cp" using geo(1) by (rule CACHE_SET_less)
  obtain xs where xs: "set_ok A cp ?i (sets cp ! ?i) xs" "L ?i = stack (sets cp ! ?i) xs"
    using cache_inv_set [OF assms(1) i] .
  note mem = stack_mem [OF xs(1), of ?t, folded xs(2)]
  have hit: "?t \<in> set (stack_hit (policy cp) ?t (L ?i))" if "?t \<in> set (L ?i)" using that by (simp add: stack_hit_def)
  show ?thesis
  proof (cases "CACHE_TAGSET cp addr = last_tagset cp")
    case True
    from last_match [OF assms(1) True assms(7)] obtain b where b: "last_blk cp = Some (?i, b)" "b < assoc cp"
      "blk_match (sets cp ! ?i) ?t b" "policy cp = LRU \<longrightarrow> way_head (sets cp ! ?i) = Some b" .
    have t: "?t \<in> set (L ?i)" using mem b(2,3) by blast
    show ?thesis using fast_hit_ok [OF assms(1) b(2,3) assms(6) b(4), of cmd pf] True b(1,2) t hit [OF t] assms(3,4) i
      by (fastforce simp: access_body_def succeeds_iff stack_access_def)
  next
    case False
    from find_blk_ok [OF geo(1) xs(1) i, of ?t] obtain r where r: "find_blk cp ?i ?t = Some r"
      "case r of Some b \<Rightarrow> b < assoc cp \<and> blk_match (sets cp ! ?i) ?t b | None \<Rightarrow> \<forall>b<assoc cp. \<not> blk_match (sets cp ! ?i) ?t b"
      by (auto simp: succeeds_iff)
    show ?thesis
    proof (cases r)
      case None
      then have t: "?t \<notin> set (L ?i)" using mem r(2) by auto
      show ?thesis using cache_miss_ok [OF assms(1-3,5,6) t, of cmd now pf] False r(1) None t assms(4)
        by (fastforce simp: access_body_def succeeds_iff stack_access_def)
    next
      case (Some b)
      then have b: "b < assoc cp" "blk_match (sets cp ! ?i) ?t b" using r(2) by auto
      then have t: "?t \<in> set (L ?i)" using mem by blast
      show ?thesis using cache_hit_ok [OF assms(1) b assms(6), of cmd pf] False r(1) Some b t hit [OF t] assms(3,4) i
        by (fastforce simp: access_body_def succeeds_iff stack_access_def same_params_fields)
    qed
  qed
qed

end

context next_level
begin

lemma access_body_ok:
  assumes "cache_inv A cp L" "on_level fn bs cp" "ok g" "access_checks cp addr nbytes" "A (CACHE_TAGSET cp addr)" "buf_ok cp addr p nbytes"
  shows "succeeds (access_body cp g cmd addr p nbytes now pf) (\<lambda>(out, cp', g', p', ra). same_params cp cp' \<and> ok g' \<and> same_rpt g g'
    \<and> (\<exists>l. cache_inv A cp' (L(CACHE_SET cp addr := l)) \<and> CACHE_TAG cp addr \<in> set l
         \<and> (policy cp \<noteq> Random \<longrightarrow> l = stack_access (policy cp) (assoc cp) (CACHE_TAG cp addr) (L (CACHE_SET cp addr))))
    \<and> hits cp' = hits cp + of_bool (\<not> pf \<and> CACHE_TAG cp addr \<in> set (L (CACHE_SET cp addr)))
    \<and> misses cp' = misses cp + of_bool (\<not> pf \<and> CACHE_TAG cp addr \<notin> set (L (CACHE_SET cp addr)))
    \<and> (case out of Hit i b \<Rightarrow> i < nsets cp \<and> b < assoc cp | Missed lat \<Rightarrow> True))"
  by (rule access_body_any [OF assms]) (use fn_nonzero [OF assms(5)] in simp)

text \<open>What a prefetch may change: the statistics of regular accesses stay.\<close>

definition prefetched :: "'e globals_scheme cache_t \<Rightarrow> 'e globals_scheme cache_t \<times> 'e globals_scheme \<Rightarrow> bool" where
  "prefetched cp r = (case r of (cp', g') \<Rightarrow> same_params cp cp' \<and> ok g' \<and> (\<exists>L. cache_inv A cp' L)
     \<and> hits cp' = hits cp \<and> misses cp' = misses cp)"

lemma prefetch_absent_ok:
  assumes "cache_inv A cp L" "on_level fn bs cp" "ok g" "\<not> balloc cp" "A (CACHE_TAGSET cp addr)"
    "CACHE_TAGSET cp q = CACHE_TAGSET cp addr"
  shows "succeeds (prefetch_absent cp g q (CACHE_TAGSET cp addr)) (\<lambda>r. prefetched cp r \<and> cache_probe (fst r) addr = Some True)"
proof -
  obtain k l a where geo: "cache_geom cp k l a" "length (sets cp) = nsets cp" using cache_inv_geom [OF assms(1)] .
  have A': "A (CACHE_TAGSET cp (CACHE_TAGSET cp addr))" using assms(5) tagset_idem [OF geo(1)] by simp
  have buf: "buf_ok cp (CACHE_TAGSET cp addr) None (bsize cp)" using assms(4) by (simp add: buf_ok_def)
  have ts: "CACHE_TAG cp (CACHE_TAGSET cp addr) = CACHE_TAG cp addr" "CACHE_SET cp (CACHE_TAGSET cp addr) = CACHE_SET cp addr"
    "CACHE_TAG cp q = CACHE_TAG cp addr" "CACHE_SET cp q = CACHE_SET cp addr"
    using tagset_eq [OF geo(1), of "CACHE_TAGSET cp addr" addr] tagset_idem [OF geo(1)] tagset_eq [OF geo(1), of q addr] assms(6)
    by simp_all
  have "succeeds (prefetch_access cp g (CACHE_TAGSET cp addr)) (\<lambda>r. prefetched cp r \<and> cache_probe (fst r) addr = Some True)"
    unfolding prefetch_access_def
  proof (rule succeeds_bind [OF access_body_ok [OF assms(1-3) tagset_checks [OF geo(1)] A' buf]], clarsimp)
    fix out cp' g' l
    assume h: "same_params cp cp'" "ok g'" "cache_inv A cp' (L(CACHE_SET cp (CACHE_TAGSET cp addr) := l))"
      "CACHE_TAG cp (CACHE_TAGSET cp addr) \<in> set l" "hits cp' = hits cp" "misses cp' = misses cp"
      "case out of Missed lat \<Rightarrow> True | Hit i b \<Rightarrow> i < nsets cp \<and> b < assoc cp"
    have "access_latency cp' 0 out \<noteq> None"
      using latency_ok [OF h(3), of out 0] h(7) same_params_fields [OF h(1)] by (simp split: outcome.splits)
    moreover have "cache_probe cp' addr = Some True"
      using probe_ok [OF h(3), of addr] h(4) same_params_fields [OF h(1)] ts by simp
    ultimately show "succeeds (access_latency cp' 0 out \<bind> (\<lambda>_. Some (cp', g')))
        (\<lambda>r. prefetched cp r \<and> cache_probe (fst r) addr = Some True)"
      using h by (auto simp: prefetched_def)
  qed
  then show ?thesis using probe_ok [OF assms(1), of q] probe_ok [OF assms(1), of addr] ts assms(1,3)
    by (auto simp: prefetch_absent_def prefetched_def)
qed

lemma rpt_prefetch_ok:
  assumes "cache_inv A cp L" "on_level fn bs cp" "ok g" "\<not> balloc cp" "A (CACHE_TAGSET cp (prev_addr e + stride e))"
  shows "succeeds (rpt_prefetch cp g e) (\<lambda>r. prefetched cp r \<and> cache_probe (fst r) (prev_addr e + stride e) = Some True)"
proof -
  obtain k l a where geo: "cache_geom cp k l a" "length (sets cp) = nsets cp" using cache_inv_geom [OF assms(1)] .
  show ?thesis using prefetch_absent_ok [OF assms, of "CACHE_TAGSET cp (prev_addr e + stride e)"] tagset_idem [OF geo(1)]
    by (simp add: rpt_prefetch_def Let_def round_down_tagset [OF geo(1)])
qed

lemma generate_prefetch_ok:
  assumes "cache_inv A cp L" "on_level fn bs cp" "ok g" "prefetch_safe A cp g addr"
  shows "succeeds (generate_prefetch cp g addr) (prefetched cp)"
proof -
  obtain k l a where geo: "cache_geom cp k l a" "length (sets cp) = nsets cp" using cache_inv_geom [OF assms(1)] .
  consider "prefetch_type cp = 0" | "prefetch_type cp = 1" | "2 \<le> prefetch_type cp" by linarith
  then show ?thesis
  proof cases
    case 1
    then show ?thesis using assms(1,3) by (auto simp: generate_prefetch_def prefetched_def)
  next
    case 2
    then show ?thesis using assms(4) prefetch_absent_ok [OF assms(1-3), of "addr + of_nat (bsize cp)" "addr + of_nat (bsize cp)"]
      by (auto simp: generate_prefetch_def next_line_prefetcher_def prefetch_safe_def Let_def elim!: succeeds_mono)
  next
    case 3
    then obtain k' where k': "k' < 29" "rpt_size cp = 2 ^ k'" "stride_init g \<longrightarrow> length (rpt_table g) = 2 ^ k'"
      "A (CACHE_TAGSET cp (rpt_next k' g addr))" "\<not> balloc cp"
      using assms(4) by (auto simp: prefetch_safe_def)
    obtain t e where te: "rpt_access (2 ^ k') g addr = Some (e, g\<lparr> rpt_table := t, stride_init := True \<rparr>)"
      "e = rpt_train (rpt_tag k' (regs_PC g)) addr (rpt_entry k' g)" using rpt_access_ok [OF k'(1,3)] by blast
    have "succeeds (rpt_prefetch cp (g\<lparr> rpt_table := t, stride_init := True \<rparr>) e) (prefetched cp)"
      by (rule succeeds_mono [OF rpt_prefetch_ok [OF assms(1,2) ok_rpt [OF assms(3)] k'(5)]])
        (use k'(4) te(2) in \<open>auto simp: rpt_next_def Let_def\<close>)
    then show ?thesis using 3 te(1) k'(2) assms(1) ok_rpt [OF assms(3)]
      by (auto simp: generate_prefetch_def open_ended_prefetcher_def stride_prefetcher_def rpt_size_def prefetched_def
          split: if_splits)
  qed
qed

lemma prefetch_safe_cong: "same_params cp cp' \<Longrightarrow> same_rpt g g' \<Longrightarrow> prefetch_safe A cp' g' addr = prefetch_safe A cp g addr"
  by (simp add: prefetch_safe_def same_params_fields rpt_size_def rpt_next_def rpt_entry_def same_rpt_def)

lemma access_ok:
  assumes "cache_inv A cp L" "on_level fn bs cp" "ok g" "access_checks cp addr nbytes" "A (CACHE_TAGSET cp addr)" "buf_ok cp addr p nbytes"
    "prefetch_safe A cp g addr"
  shows "succeeds (cache_access cp g cmd addr p nbytes now False) (\<lambda>(lat, cp', g', p', ra). same_params cp cp' \<and> ok g'
    \<and> (\<exists>L'. cache_inv A cp' L' \<and> (policy cp \<noteq> Random \<and> prefetch_type cp = 0 \<longrightarrow>
         L' = L(CACHE_SET cp addr := stack_access (policy cp) (assoc cp) (CACHE_TAG cp addr) (L (CACHE_SET cp addr)))))
    \<and> hits cp' = hits cp + of_bool (CACHE_TAG cp addr \<in> set (L (CACHE_SET cp addr)))
    \<and> misses cp' = misses cp + of_bool (CACHE_TAG cp addr \<notin> set (L (CACHE_SET cp addr))))"
  unfolding cache_access_def
proof (rule succeeds_bind [OF access_body_ok [OF assms(1-6)]])
  let ?i = "CACHE_SET cp addr" and ?t = "CACHE_TAG cp addr"
  fix r
  assume r: "case r of (out, cp', g', p', ra) \<Rightarrow> same_params cp cp' \<and> ok g' \<and> same_rpt g g'
    \<and> (\<exists>l. cache_inv A cp' (L(?i := l)) \<and> ?t \<in> set l
         \<and> (policy cp \<noteq> Random \<longrightarrow> l = stack_access (policy cp) (assoc cp) ?t (L ?i)))
    \<and> hits cp' = hits cp + of_bool (\<not> False \<and> ?t \<in> set (L ?i)) \<and> misses cp' = misses cp + of_bool (\<not> False \<and> ?t \<notin> set (L ?i))
    \<and> (case out of Hit i b \<Rightarrow> i < nsets cp \<and> b < assoc cp | Missed lat \<Rightarrow> True)"
  obtain out c1 g1 p1 ra where r': "r = (out, c1, g1, p1, ra)" by (cases r) auto
  from r obtain l where h: "same_params cp c1" "ok g1" "same_rpt g g1" "cache_inv A c1 (L(?i := l))"
    "policy cp \<noteq> Random \<longrightarrow> l = stack_access (policy cp) (assoc cp) ?t (L ?i)"
    "hits c1 = hits cp + of_bool (?t \<in> set (L ?i))" "misses c1 = misses cp + of_bool (?t \<notin> set (L ?i))"
    "case out of Missed lat \<Rightarrow> True | Hit i b \<Rightarrow> i < nsets cp \<and> b < assoc cp"
    unfolding r' by auto
  have "prefetch_safe A c1 g1 addr" using assms(7) prefetch_safe_cong [OF h(1,3)] by simp
  from generate_prefetch_ok [OF h(4) _ h(2) this] on_level_params [OF h(1)] assms(2)
  obtain c2 g2 L2 where g2: "generate_prefetch c1 g1 addr = Some (c2, g2)" "same_params c1 c2" "ok g2" "cache_inv A c2 L2"
    "hits c2 = hits c1" "misses c2 = misses c1"
    by (auto simp: succeeds_iff prefetched_def)
  have sp: "same_params cp c2" using h(1) g2(2) by (rule same_params_trans)
  have "access_latency c2 now out \<noteq> None"
    using latency_ok [OF g2(4), of out now] h(8) same_params_fields [OF sp] by (simp split: outcome.splits)
  moreover have "c2 = c1" if "prefetch_type cp = 0"
    using that g2(1) same_params_fields(17) [OF h(1)] by (simp add: generate_prefetch_def)
  then have "\<exists>L'. cache_inv A c2 L' \<and> (policy cp \<noteq> Random \<and> prefetch_type cp = 0 \<longrightarrow>
         L' = L(?i := stack_access (policy cp) (assoc cp) ?t (L ?i)))"
    using h(4,5) g2(4) by (cases "prefetch_type cp = 0") auto
  ultimately show "succeeds (case r of (out, cp, g, p, ra) \<Rightarrow> do {
       (cp, g) \<leftarrow> (if \<not> False then generate_prefetch cp g addr else Some (cp, g));
       lat \<leftarrow> access_latency cp now out;
       Some (lat, cp, g, p, ra) })
     (\<lambda>(lat, cp', g', p', ra). same_params cp cp' \<and> ok g' \<and> (\<exists>L'. cache_inv A cp' L' \<and> (policy cp \<noteq> Random \<and> prefetch_type cp = 0 \<longrightarrow>
         L' = L(?i := stack_access (policy cp) (assoc cp) ?t (L ?i))))
       \<and> hits cp' = hits cp + of_bool (?t \<in> set (L ?i)) \<and> misses cp' = misses cp + of_bool (?t \<notin> set (L ?i)))"
    using g2(1,3,5,6) h(6,7) sp unfolding r' by auto
qed

end

section \<open>Flushing\<close>

context lower_level
begin

text \<open>Block \<open>b\<close> of set \<open>i\<close> is no longer valid; nothing else has changed.\<close>

definition flushed :: "nat \<Rightarrow> blkptr set \<Rightarrow> 'e globals_scheme cache_t \<Rightarrow> 'e globals_scheme cache_t \<Rightarrow> blkptr list \<Rightarrow> bool" where
  "flushed i B cp cp' xs = (same_params cp cp' \<and> last_blk cp' = last_blk cp \<and> last_tagset cp' = last_tagset cp
     \<and> (\<forall>j. j \<noteq> i \<longrightarrow> sets cp' ! j = sets cp ! j) \<and> set_ok A cp i (sets cp' ! i) xs
     \<and> way_next (sets cp' ! i) = way_next (sets cp ! i) \<and> way_head (sets cp' ! i) = way_head (sets cp ! i)
     \<and> (\<forall>b<assoc cp. tag (blks (sets cp' ! i) ! b) = tag (blks (sets cp ! i) ! b)
          \<and> is_valid (blks (sets cp' ! i) ! b) = (b \<notin> B \<and> is_valid (blks (sets cp ! i) ! b))))"

lemma flush_blk_ok:
  assumes "on_level fn bs cp" "ok g" "length (sets cp) = nsets cp" "i < nsets cp" "set_ok A cp i (sets cp ! i) xs" "b < assoc cp"
    "is_valid (blks (sets cp ! i) ! b)"
  shows "succeeds (flush_blk cp g now lat i b) (\<lambda>(cp', g', lat'). ok g' \<and> flushed i {b} cp cp' xs
    \<and> invalidations cp' = invalidations cp + 1)"
proof -
  let ?s = "sets cp ! i" let ?x = "blks ?s ! b"
  let ?y = "?x\<lparr> status := status ?x AND NOT CACHE_BLK_VALID \<rparr>"
  have len: "length (blks ?s) = assoc cp" using assms(5) by (rule set_okD)
  have nv: "(status ?x AND NOT CACHE_BLK_VALID) AND CACHE_BLK_VALID = 0"
    by (auto intro!: bit_word_eqI simp: bit_simps)
  have fl: "flushed i {b} cp (c\<lparr> sets := (sets cp)[i := ?s\<lparr> blks := (blks ?s)[b := y] \<rparr>] \<rparr>) xs"
    if "same_params cp c" "last_blk c = last_blk cp" "last_tagset c = last_tagset cp" "tag y = tag ?x" "\<not> is_valid y"
      "length (data y) = length (data ?x)" for c y
  proof -
    have e: "(blks ?s)[b := y] ! c = (if c = b then y else blks ?s ! c)" for c using assms(6) len by (simp add: nth_list_update)
    have "set_ok A cp i (?s\<lparr> blks := (blks ?s)[b := y] \<rparr>) xs"
      using assms(5,6) hashed_tag [of "hsize cp" ?s "{..<assoc cp}" y b] that(4-6) unfolding set_ok_def
      by (auto simp: e split: if_splits)
    moreover have "same_params cp (c\<lparr> sets := (sets cp)[i := ?s\<lparr> blks := (blks ?s)[b := y] \<rparr>] \<rparr>)"
      using that(1) by (simp add: same_params_def)
    ultimately show ?thesis using that assms(3,4,7) by (auto simp: flushed_def e)
  qed
  show ?thesis
  proof (cases "is_dirty ?y")
    case True
    have "A (CACHE_MK_BADDR cp (tag ?x) i)" using assms(5-7) by (simp add: set_ok_def)
    then obtain l c g' where "fn Write (CACHE_MK_BADDR cp (tag ?x) i) bs ?y (now + lat) False g = Some (l, c, g')" "ok g'"
      "length (fst c) = length (data ?x)"
      using fn_returns [OF assms(2), of "CACHE_MK_BADDR cp (tag ?x) i" Write ?y "now + lat" False] by (auto simp: succeeds_iff)
    moreover have "CACHE_MK_BADDR (cp\<lparr> invalidations := n, writebacks := m \<rparr>) = CACHE_MK_BADDR cp" for n m
      by (simp add: CACHE_MK_BADDR_def fun_eq_iff)
    ultimately show ?thesis using True assms(1,3,4,6) len nv
        fl [of "cp\<lparr> invalidations := invalidations cp + 1, writebacks := writebacks cp + 1 \<rparr>" "set_contents c ?y"]
      by (simp add: flush_blk_def rd_in Let_def set_blk_def on_level_def same_params_def set_contents_def is_valid_def)
  next
    case False
    then show ?thesis using assms(2-4,6) len nv fl [of "cp\<lparr> invalidations := invalidations cp + 1 \<rparr>" ?y]
      by (simp add: flush_blk_def rd_in Let_def set_blk_def same_params_def is_valid_def)
  qed
qed

lemma flushed_refl:
  "set_ok A cp i (sets cp ! i) xs \<Longrightarrow> (\<forall>b\<in>B. \<not> is_valid (blks (sets cp ! i) ! b)) \<Longrightarrow> flushed i B cp cp xs"
  by (auto simp: flushed_def)

lemma flushed_trans:
  "flushed i B cp c1 xs \<Longrightarrow> flushed i C c1 c2 xs \<Longrightarrow> flushed i (B \<union> C) cp c2 xs"
  using same_params_trans [of cp c1 c2] by (auto simp: flushed_def same_params_fields)

lemma flush_ways_ok:
  assumes "on_level fn bs cp" "ok g" "length (sets cp) = nsets cp" "i < nsets cp" "set_ok A cp i (sets cp ! i) xs"
    "links (way_next (sets cp ! i)) p ys None" "set ys \<subseteq> {..<assoc cp}"
  shows "succeeds (flush_ways cp g now lat i p) (\<lambda>(cp', g', lat'). ok g' \<and> flushed i (set ys) cp cp' xs)"
  using assms
proof (induction ys arbitrary: cp g lat p)
  case Nil
  then show ?case using flushed_refl [of cp i xs "{}"] by (subst flush_ways.simps) simp
next
  case (Cons b ys)
  let ?s = "sets cp ! i"
  have b: "p = Some b" "b < assoc cp" "links (way_next ?s) (way_next ?s b) ys None" using Cons.prems(6,7) by auto
  have len: "length (blks ?s) = assoc cp" using Cons.prems(5) by (rule set_okD)
  obtain c1 g1 lat1 where one: "(if is_valid (blks ?s ! b) then flush_blk cp g now lat i b else Some (cp, g, lat)) = Some (c1, g1, lat1)"
    "ok g1" "flushed i {b} cp c1 xs"
  proof (cases "is_valid (blks ?s ! b)")
    case True
    from flush_blk_ok [OF Cons.prems(1-5) b(2) True, of now lat] that show ?thesis using True by (auto simp: succeeds_iff)
  next
    case False
    with flushed_refl [OF Cons.prems(5), of "{b}"] that Cons.prems(2) show ?thesis by simp
  qed
  have sp: "same_params cp c1" using one(3) by (simp add: flushed_def)
  note f = same_params_fields [OF sp]
  have "succeeds (flush_ways c1 g1 now lat1 i (way_next ?s b)) (\<lambda>(cp', g', lat'). ok g' \<and> flushed i (set ys) c1 cp' xs)"
    using Cons.IH [of c1 g1 "way_next ?s b" lat1] one(2,3) Cons.prems(1,3,4,7) b(3) on_level_params [OF sp] sp
    by (simp add: f flushed_def same_params_def)
  moreover have "flushed i (set (b # ys)) cp c xs" if "flushed i (set ys) c1 c xs" for c
    using flushed_trans [OF one(3) that] by simp
  ultimately show ?case using one(1) b(1,2) Cons.prems(3,4) len
    by (subst flush_ways.simps) (auto simp: rd_in succeeds_iff)
qed

lemma flush_sets_ok:
  assumes "on_level fn bs cp" "ok g" "length (sets cp) = nsets cp" "set js \<subseteq> {..<nsets cp}"
    "\<forall>j<nsets cp. \<exists>xs. set_ok A cp j (sets cp ! j) xs"
  shows "succeeds (flush_sets cp g now lat js) (\<lambda>(cp', g', lat'). ok g' \<and> same_params cp cp' \<and> last_blk cp' = last_blk cp
    \<and> last_tagset cp' = last_tagset cp \<and> (\<forall>j<nsets cp. (\<exists>xs. set_ok A cp j (sets cp' ! j) xs)
       \<and> (\<forall>b<assoc cp. is_valid (blks (sets cp' ! j) ! b) \<longrightarrow> j \<notin> set js \<and> is_valid (blks (sets cp ! j) ! b))))"
  using assms
proof (induction js arbitrary: cp g lat)
  case (Cons i js)
  have i: "i < nsets cp" using Cons.prems(4) by simp
  obtain xs where xs: "set_ok A cp i (sets cp ! i) xs" using Cons.prems(5) i by blast
  have w: "links (way_next (sets cp ! i)) (way_head (sets cp ! i)) xs None" "set xs \<subseteq> {..<assoc cp}"
    using xs by (simp_all add: set_ok_def ways_def)
  from flush_ways_ok [OF Cons.prems(1-3) i xs w, of now lat] obtain c1 g1 lat1 where one:
    "flush_ways cp g now lat i (way_head (sets cp ! i)) = Some (c1, g1, lat1)" "ok g1" "flushed i (set xs) cp c1 xs"
    by (auto simp: succeeds_iff)
  have sp: "same_params cp c1" using one(3) by (simp add: flushed_def)
  note f = same_params_fields [OF sp]
  have inval: "\<not> is_valid (blks (sets c1 ! i) ! b)" if "b < assoc cp" for b
    using one(3) that xs by (auto simp: flushed_def set_ok_def)
  have rest: "sets c1 ! j = sets cp ! j" if "j \<noteq> i" for j using one(3) that by (simp add: flushed_def)
  have "\<forall>j<nsets cp. \<exists>ys. set_ok A cp j (sets c1 ! j) ys"
    using Cons.prems(5) rest one(3) unfolding flushed_def by metis
  then obtain c2 g2 lat2 where two: "flush_sets c1 g1 now lat1 js = Some (c2, g2, lat2)" "ok g2" "same_params c1 c2"
    "last_blk c2 = last_blk c1" "last_tagset c2 = last_tagset c1" "\<forall>j<nsets cp. (\<exists>xs. set_ok A cp j (sets c2 ! j) xs)
       \<and> (\<forall>b<assoc cp. is_valid (blks (sets c2 ! j) ! b) \<longrightarrow> j \<notin> set js \<and> is_valid (blks (sets c1 ! j) ! b))"
    using Cons.IH [of c1 g1 lat1] one(2) Cons.prems(1,3,4) on_level_params [OF sp] sp
    by (auto simp: f same_params_def succeeds_iff)
  have "j \<notin> set (i # js) \<and> is_valid (blks (sets cp ! j) ! b)"
    if "j < nsets cp" "b < assoc cp" "is_valid (blks (sets c2 ! j) ! b)" for j b
    using two(6) that inval rest [of j] by (cases "j = i") auto
  then show ?case using one(1,3) two same_params_trans [OF sp two(3)] i Cons.prems(3)
    by (simp add: rd_in flushed_def)
qed simp

lemma flush_ok:
  assumes "cache_inv A cp L" "on_level fn bs cp" "ok g"
  shows "succeeds (cache_flush cp g now) (\<lambda>(cp', g', lat). ok g' \<and> same_params cp cp' \<and> cache_inv A cp' (\<lambda>_. []))"
proof -
  obtain k l a where geo: "cache_geom cp k l a" "length (sets cp) = nsets cp" using cache_inv_geom [OF assms(1)] .
  let ?c = "cp\<lparr> last_tagset := 0, last_blk := None \<rparr>"
  have sp: "same_params cp ?c" by (simp add: same_params_def)
  note f = same_params_fields [OF sp]
  have sets: "\<forall>j<nsets cp. \<exists>xs. set_ok A cp j (sets cp ! j) xs" using assms(1) unfolding cache_inv_def by blast
  obtain c2 g2 lat2 where two: "flush_sets ?c g now (int (hit_latency cp)) [0..<nsets cp] = Some (c2, g2, lat2)" "ok g2"
    "same_params ?c c2" "last_blk c2 = None" "last_tagset c2 = 0" "\<forall>j<nsets cp. (\<exists>xs. set_ok A cp j (sets c2 ! j) xs)
       \<and> (\<forall>b<assoc cp. \<not> is_valid (blks (sets c2 ! j) ! b))"
    using flush_sets_ok [of ?c g "[0..<nsets cp]" now "int (hit_latency cp)"] assms(2,3) geo(2) sets on_level_params [OF sp]
    by (auto simp: f succeeds_iff lessThan_atLeast0)
  have sp2: "same_params cp c2" using sp two(3) by (rule same_params_trans)
  note f2 = same_params_fields [OF sp2]
  have "\<exists>xs. set_ok A cp j (sets c2 ! j) xs \<and> (policy cp \<noteq> Random \<longrightarrow> ordered (sets c2 ! j) xs) \<and> [] = stack (sets c2 ! j) xs"
    if j: "j < nsets cp" for j
  proof -
    obtain xs where xs: "set_ok A cp j (sets c2 ! j) xs" "\<forall>b<assoc cp. \<not> is_valid (blks (sets c2 ! j) ! b)" using two(6) j by blast
    then have "\<forall>b\<in>set xs. \<not> is_valid (blks (sets c2 ! j) ! b)" using set_okD(3) [OF xs(1)] by simp
    then show ?thesis using xs(1) by (intro exI [of _ xs]) (simp add: ordered_def stack_def filter_empty_conv [THEN iffD2] filter_True)
  qed
  then have "cache_inv A c2 (\<lambda>_. [])" using geo(1) two(4,5) by (auto simp: cache_inv_def f2 last_ok_def)
  then show ?thesis using two(1,2) sp2 by (simp add: cache_flush_def)
qed

lemma flush_addr_ok:
  assumes "cache_inv A cp L" "on_level fn bs cp" "ok g"
  shows "succeeds (cache_flush_addr cp g addr now) (\<lambda>(cp', g', lat). ok g' \<and> same_params cp cp'
    \<and> cache_inv A cp' (L(CACHE_SET cp addr := remove1 (CACHE_TAG cp addr) (L (CACHE_SET cp addr)))))"
proof -
  let ?i = "CACHE_SET cp addr" and ?t = "CACHE_TAG cp addr" and ?c = "cp\<lparr> last_tagset := 0, last_blk := None \<rparr>"
  obtain k l a where geo: "cache_geom cp k l a" "length (sets cp) = nsets cp" using cache_inv_geom [OF assms(1)] .
  have i: "?i < nsets cp" using geo(1) by (rule CACHE_SET_less)
  obtain xs where xs: "set_ok A cp ?i (sets cp ! ?i) xs" "policy cp \<noteq> Random \<longrightarrow> ordered (sets cp ! ?i) xs"
    "L ?i = stack (sets cp ! ?i) xs" using cache_inv_set [OF assms(1) i] .
  note mem = stack_mem [OF xs(1), of ?t, folded xs(3)]
  from find_blk_ok [OF geo(1) xs(1) i, of ?t] obtain r where r: "find_blk cp ?i ?t = Some r"
    "case r of Some b \<Rightarrow> b < assoc cp \<and> blk_match (sets cp ! ?i) ?t b | None \<Rightarrow> \<forall>b<assoc cp. \<not> blk_match (sets cp ! ?i) ?t b"
    by (auto simp: succeeds_iff)
  show ?thesis
  proof (cases r)
    case None
    then have "remove1 ?t (L ?i) = L ?i" using mem r(2) by (simp add: remove1_idem)
    then show ?thesis using r(1) None assms(1,3) by (simp add: cache_flush_addr_def)
  next
    case (Some b)
    then have b: "b < assoc cp" "tag (blks (sets cp ! ?i) ! b) = ?t" "is_valid (blks (sets cp ! ?i) ! b)"
      using r(2) by (auto simp: blk_match_def)
    have sp: "same_params cp ?c" by (simp add: same_params_def)
    note f = same_params_fields [OF sp]
    from flush_blk_ok [of ?c g ?i xs b now "int (hit_latency cp)"] assms(2,3) geo(2) i xs(1) b on_level_params [OF sp]
    obtain c1 g1 lat where one: "flush_blk ?c g now (int (hit_latency cp)) ?i b = Some (c1, g1, lat)" "ok g1" "flushed ?i {b} ?c c1 xs"
      by (auto simp: f succeeds_iff)
    let ?s = "sets c1 ! ?i"
    have "b \<in> set xs" using set_okD(3) [OF xs(1)] b(1) by blast
    then obtain as cs where ac: "xs = as @ b # cs" by (auto simp: in_set_conv_decomp)
    have ok1: "set_ok A cp ?i ?s (as @ b # cs)" using one(3) ac by (simp add: flushed_def f)
    from reorder_set_ok(2) [OF this] obtain s2 where s2: "update_way_list ?s b Tail = Some s2" "set_ok A cp ?i s2 (as @ cs @ [b])"
      "blks s2 = blks ?s" by (auto simp: succeeds_iff)
    have v: "is_valid (blks ?s ! c) = (c \<noteq> b \<and> is_valid (blks (sets cp ! ?i) ! c))" "tag (blks ?s ! c) = tag (blks (sets cp ! ?i) ! c)"
      if "c < assoc cp" for c using one(3) that by (auto simp: flushed_def f)
    have "distinct xs" "\<forall>c\<in>set (as @ b # cs). c < assoc cp" using set_okD [OF xs(1)] ac by auto
    note st = flushed_stack [OF xs(1) [unfolded ac] b(3) this [unfolded ac] v s2(3)]
    let ?cp = "c1\<lparr> sets := (sets c1)[?i := s2] \<rparr>"
    have sp1: "same_params cp ?cp" using sp one(3) by (auto simp: flushed_def same_params_def)
    have le: "length (sets c1) = nsets cp" using sp1 geo(2) by (simp add: same_params_def)
    have "sets ?cp = (sets cp)[?i := s2]" using one(3) le geo(2) i
      by (intro nth_equalityI) (auto simp: flushed_def nth_list_update)
    then have "cache_inv A ?cp (L(?i := remove1 ?t (L ?i)))"
      using cache_inv_upd [OF assms(1) sp1 i _ s2(2)] st xs(2,3) ac b(2) one(3) by (auto simp: last_ok_def flushed_def)
    then show ?thesis using r(1) Some one(1,2) s2(1) i le sp1 by (simp add: cache_flush_addr_def rd_in)
  qed
qed

end

section \<open>Creation\<close>

lemma power_of_two_int:
  assumes "0 < n" "n AND (n - 1) = (0 :: int)"
  shows "\<exists>k. n = 2 ^ k"
  using assms
proof (induction "nat n" arbitrary: n rule: less_induct)
  case less
  show ?case
  proof (cases "even n")
    case True
    then obtain m where m: "n = 2 * m" by auto
    have "(2 * m - 1) div 2 = m - 1" by presburger
    then have "n AND (n - 1) = 2 * (m AND (m - 1))" using and_int_rec [of n "n - 1"] by (simp add: m)
    then have "0 < m" "m AND (m - 1) = 0" using less.prems m by auto
    then obtain k where "m = 2 ^ k" using less.hyps [of m] m by auto
    then show ?thesis using m by (intro exI [of _ "Suc k"]) simp
  next
    case False
    then obtain m where m: "n = 2 * m + 1" by (auto elim: oddE)
    then have "n AND (n - 1) = 2 * m" using and_int_rec [of n "n - 1"] by simp
    then show ?thesis using less.prems m by (intro exI [of _ 0]) simp
  qed
qed

lemma add_ways_append: "add_ways hs (js @ ks) s = do { s \<leftarrow> add_ways hs js s; add_ways hs ks s }"
  by (induction js arbitrary: s) (auto split: Option.bind_split)

lemma add_way_ok:
  assumes "if xs = [] then way_head s = None \<and> way_tail s = None else ways s xs" "j \<notin> set xs"
    "hs \<noteq> 0 \<longrightarrow> hashed hs s B" "j \<notin> B" "j < length (blks s)" "hs < 2 ^ 32"
  shows "succeeds (add_way hs j s) (\<lambda>s'. ways s' (j # xs) \<and> (hs \<noteq> 0 \<longrightarrow> hashed hs s' (insert j B)) \<and> blks s' = blks s)"
proof -
  obtain s1 where s1: "(if hs \<noteq> 0 then link_htab_ent hs s j else Some s) = Some s1" "hs \<noteq> 0 \<longrightarrow> hashed hs s1 (insert j B)" "same_ways s s1"
  proof (cases "hs = 0")
    case True
    then show ?thesis using that [of s] by (simp add: same_ways_def)
  next
    case False
    then show ?thesis using that link_htab_ok [of hs s B j] assms(3-6) by (auto simp: succeeds_iff)
  qed
  have xs: "if xs = [] then way_head s1 = None \<and> way_tail s1 = None else ways s1 xs"
    using assms(1) s1(3) ways_same [OF s1(3)] by (auto simp: same_ways_def)
  have h: "hashed hs s' (insert j B)" if "hs \<noteq> 0" "same_rest s1 s'" for s' using that s1(2) hashed_same [OF that(2)] by simp
  show ?thesis
  proof (cases "xs = []")
    case True
    then show ?thesis using xs s1(1,3) h
      by (auto simp: add_way_def Let_def ways_def same_ways_def same_rest_def simp del: fun_upd_apply)
         (simp_all add: fun_upd_def)
  next
    case False
    then have "ways s1 xs" using xs by simp
    from link_way_head [OF this assms(2)] obtain s2 where s2: "link_way s1 j Head = Some s2" "ways s2 (j # xs)" "same_rest s1 s2"
      by (auto simp: succeeds_iff)
    have "way_head s1 \<noteq> None" "way_tail s1 \<noteq> None" using ways_ends [OF \<open>ways s1 xs\<close>] by simp_all
    then have "add_way hs j s = Some s2" using s1(1) s2(1)
      by (auto simp: add_way_def link_way_def Let_def)
    then show ?thesis using s2 h s1(3) by (auto simp: same_rest_def same_ways_def)
  qed
qed

lemma new_set_ok:
  assumes "0 < n" "hs < 2 ^ 32"
  shows "succeeds (new_set hs n x) (\<lambda>s. ways s (rev [0..<n]) \<and> (hs \<noteq> 0 \<longrightarrow> hashed hs s {..<n}) \<and> blks s = replicate n x)"
proof -
  let ?s0 = "\<lparr> hash = replicate hs None, way_head = None, way_tail = None, way_next = (\<lambda>_. None),
       way_prev = (\<lambda>_. None), hash_next = (\<lambda>_. None), blks = replicate n x \<rparr>"
  have "succeeds (add_ways hs [0..<m] ?s0) (\<lambda>s. (if rev [0..<m] = [] then way_head s = None \<and> way_tail s = None else ways s (rev [0..<m]))
      \<and> (hs \<noteq> 0 \<longrightarrow> hashed hs s {..<m}) \<and> blks s = replicate n x)" if "m \<le> n" for m
    using that
  proof (induction m)
    case 0
    have "\<exists>ys. links (\<lambda>_. None) None ys None \<and> ys = []" by simp
    then show ?case by (auto simp: hashed_def bucket_def)
  next
    case (Suc m)
    from Suc obtain s where s: "add_ways hs [0..<m] ?s0 = Some s"
      "if rev [0..<m] = [] then way_head s = None \<and> way_tail s = None else ways s (rev [0..<m])"
      "hs \<noteq> 0 \<longrightarrow> hashed hs s {..<m}" "blks s = replicate n x"
      by (auto simp: succeeds_iff)
    from add_way_ok [OF s(2) _ s(3), of m] Suc.prems s(4) assms(2) obtain s' where s': "add_way hs m s = Some s'"
      "ways s' (m # rev [0..<m])" "hs \<noteq> 0 \<longrightarrow> hashed hs s' (insert m {..<m})" "blks s' = replicate n x"
      by (auto simp: succeeds_iff)
    then show ?case using s(1) by (simp add: add_ways_append lessThan_Suc)
  qed
  from this [of n] assms(1) show ?thesis by (simp add: new_set_def)
qed

lemma create_ok:
  assumes "cache_create ns bs al us ass pol fn hl pf = Some cp" "ns * bs < 2 ^ 32" "ass < 2 ^ 31"
  shows "cache_inv A cp (\<lambda>_. [])" "on_level fn (nat bs) cp" "policy cp = pol" "assoc cp = nat ass" "prefetch_type cp = nat pf"
    "balloc cp = al" "hits cp = 0" "misses cp = 0" "last_blk cp = None"
    "\<exists>k l a. bs = 2 ^ k \<and> ns = 2 ^ l \<and> ass = 2 ^ a \<and> cache_geom cp k l a"
proof -
  have c: "0 < ns" "ns AND (ns - 1) = 0" "8 \<le> bs" "bs AND (bs - 1) = 0" "0 < ass" "ass AND (ass - 1) = 0"
    using assms(1) by (auto simp: cache_create_def)
  obtain k l a where p: "bs = 2 ^ k" "ns = 2 ^ l" "ass = 2 ^ a"
    using power_of_two_int c by (metis less_le_trans zero_less_numeral)
  let ?hs = "if CACHE_HIGHLY_ASSOC (nat ass) then nat ass div 4 else 0" and ?x = "new_blk al (nat bs) (nat us)"
  have lg: "log_base2 bs = Some k" "log_base2 ns = Some l" using log_base2_exp p by simp_all
  have "(2::int) ^ (l + k) < 2 ^ 32" using assms(2) p by (simp add: power_add)
  then have kl: "k + l < 32" by (metis add.commute one_less_numeral_iff power_less_imp_less_exp semiring_norm(76))
  have a: "a < 31" using assms(3) p(3) by (metis one_less_numeral_iff power_less_imp_less_exp semiring_norm(76))
  have k: "3 \<le> k" using c(3) p(1) power_le_imp_le_exp [of "2::int" 3 k] by simp
  have na: "nat ass = 2 ^ a" "nat bs = 2 ^ k" "nat ns = 2 ^ l" using p by (simp_all add: nat_power_eq)
  have "(2 :: nat) ^ a < 2 ^ 32" using a by (intro power_strict_increasing) auto
  then have "nat ass < 2 ^ 32" unfolding na(1) .
  then have hs: "?hs < 2 ^ 32" by (auto simp: less_le_trans)
  obtain s where s: "new_set ?hs (nat ass) ?x = Some s" "ways s (rev [0..<nat ass])" "?hs \<noteq> 0 \<longrightarrow> hashed ?hs s {..<nat ass}"
    "blks s = replicate (nat ass) ?x"
    using new_set_ok [OF _ hs, of "nat ass" ?x] c(5) by (auto simp: succeeds_iff)
  have cp: "sets cp = replicate (2 ^ l) s" "nsets cp = 2 ^ l" "bsize cp = 2 ^ k" "assoc cp = 2 ^ a" "hsize cp = ?hs"
    "policy cp = pol" "blk_access_fn cp = fn" "set_shift cp = k" "tag_shift cp = k + l" "blk_mask cp = of_int bs - 1"
    "set_mask cp = of_int ns - 1" "tagset_mask cp = NOT (of_int bs - 1)" "last_tagset cp = 0" "last_blk cp = None"
    "balloc cp = al" "prefetch_type cp = nat pf" "hits cp = 0" "misses cp = 0"
    using assms(1) lg s(1) na p by (auto simp: cache_create_def Let_def nat_power_eq)
  have geo: "cache_geom cp k l a" using cp kl k a p na(1) by (simp add: cache_geom_def mask_eq_exp_minus_1 nat_power_eq)
  have iv: "\<not> is_valid ?x" "length (data ?x) = (if al then 2 ^ k else 0)" by (simp_all add: is_valid_def new_blk_def na(2))
  have hd: "hsize cp \<noteq> 0 \<longrightarrow> hashed (hsize cp) s {..<2 ^ a}" using s(3) unfolding cp(5) na(1) .
  have bl: "blks s = replicate (2 ^ a) ?x" using s(4) na(1) by simp
  have "set_ok A cp i s (rev [0..<2 ^ a])" for i
    unfolding set_ok_def cp(3,4,15) bl using s(2) na(1) hd iv by auto
  moreover have "ordered s (rev [0..<2 ^ a])" "stack s (rev [0..<2 ^ a]) = []"
    using iv(1) by (auto simp: ordered_def stack_def filter_empty_conv bl)
  ultimately have "\<exists>xs. set_ok A cp i s xs \<and> ordered s xs \<and> [] = stack s xs" for i by metis
  then show "cache_inv A cp (\<lambda>_. [])" using geo cp(1,2,13,14) by (auto simp: cache_inv_def last_ok_def)
  show "on_level fn (nat bs) cp" "policy cp = pol" "assoc cp = nat ass" "prefetch_type cp = nat pf" "balloc cp = al" "hits cp = 0" "misses cp = 0"
    "last_blk cp = None" using cp na by (simp_all add: on_level_def)
  show "\<exists>k l a. bs = 2 ^ k \<and> ns = 2 ^ l \<and> ass = 2 ^ a \<and> cache_geom cp k l a" using p geo by blast
qed

lemma create_returns:
  assumes "3 \<le> k" "k + l \<le> 32" "a < 31" "0 \<le> us" "0 \<le> pf"
  shows "\<exists>cp. cache_create (2 ^ l) (2 ^ k) al us (2 ^ a) pol fn hl pf = Some cp"
proof -
  have pw: "(2 ^ n :: int) AND (2 ^ n - 1) = 0" for n
    by (auto intro!: bit_eqI simp: bit_simps simp flip: mask_eq_exp_minus_1)
  have "(2 :: int) ^ 3 \<le> 2 ^ k" using assms(1) by (intro power_increasing) auto
  moreover have "(2 :: nat) ^ a < 2 ^ 32" using assms(3) by (intro power_strict_increasing) auto
  then have "(if CACHE_HIGHLY_ASSOC (2 ^ a) then 2 ^ a div 4 else 0) < (2 :: nat) ^ 32" by (auto simp: less_le_trans)
  from new_set_ok [OF _ this, of "2 ^ a" "new_blk al (2 ^ k) (nat us)"]
  have "new_set (if CACHE_HIGHLY_ASSOC (2 ^ a) then 2 ^ a div 4 else 0) (2 ^ a) (new_blk al (2 ^ k) (nat us)) \<noteq> None"
    by (auto simp: succeeds_iff)
  ultimately show ?thesis using assms pw log_base2_exp [of k] log_base2_exp [of l]
    by (auto simp: cache_create_def Let_def nat_power_eq)
qed

end
