(* ===== verification/Ss_Hierarchy.thy ===== *)
theory Ss_Hierarchy
  imports Ss_Cache_Run
begin

text \<open>
  The two levels of data cache of \<^verbatim>\<open>sim-cache.c\<close>: main memory and the second level cache both are levels in
  the sense of the locale \<open>next_level\<close>, so the first level cache is correct on top of either.  The
  properties of the Lab 4 caches and prefetchers.
\<close>

section \<open>The reference\<close>

text \<open>The misses of a list of addresses in sets that are lists of tags: a hit moves the tag to the front when
  replacement is LRU and changes nothing when it is FIFO, a miss puts the tag in front and drops what
  exceeds the associativity.\<close>

fun ref_misses :: "(md_addr_t \<Rightarrow> nat) \<Rightarrow> (md_addr_t \<Rightarrow> md_addr_t) \<Rightarrow> cache_policy \<Rightarrow> nat \<Rightarrow> (nat \<Rightarrow> md_addr_t list) \<Rightarrow> md_addr_t list \<Rightarrow> nat" where
  "ref_misses st tg pol n L [] = 0"
| "ref_misses st tg pol n L (a # as) = of_bool (tg a \<notin> set (L (st a)))
     + ref_misses st tg pol n (L(st a := stack_access pol n (tg a) (L (st a)))) as"

definition acc_addr :: "mem_cmd \<times> md_addr_t \<times> nat \<Rightarrow> md_addr_t" where
  "acc_addr a = fst (snd a)"

section \<open>The levels\<close>

interpretation any_memory: lower_level A "\<lambda>_. True" dl2_access_fn bs for A bs
  by unfold_locales (simp_all add: dl2_access_fn_def)

interpretation main_memory: next_level "\<lambda>a. a \<noteq> 0" "\<lambda>_. True" dl2_access_fn bs for bs
  by unfold_locales (simp_all add: dl2_access_fn_def)

context lower_level
begin

lemma access_below_any:
  assumes "cache_inv A cp L" "on_level fn bs cp" "ok g" "access_checks cp addr nbytes" "A (CACHE_TAGSET cp addr)" "buf_ok cp addr p nbytes"
    "CACHE_TAGSET cp addr = 0 \<longrightarrow> last_blk cp \<noteq> None" "pf \<or> prefetch_type cp = 0"
  shows "succeeds (cache_access cp g cmd addr p nbytes now pf) (\<lambda>(lat, cp', g', p', ra). same_params cp cp' \<and> ok g' \<and> same_rpt g g'
    \<and> (\<exists>L'. cache_inv A cp' L'))"
proof -
  obtain out c1 g1 p1 ra L1 where h: "access_body cp g cmd addr p nbytes now pf = Some (out, c1, g1, p1, ra)"
    "same_params cp c1" "ok g1" "same_rpt g g1" "cache_inv A c1 L1"
    "case out of Missed lat \<Rightarrow> True | Hit i b \<Rightarrow> i < nsets cp \<and> b < assoc cp"
    using access_body_any [OF assms(1-7), of cmd now pf] by (auto simp: succeeds_iff) blast
  have "(if \<not> pf then generate_prefetch c1 g1 addr else Some (c1, g1)) = Some (c1, g1)"
    using assms(8) same_params_fields(17) [OF h(2)] by (auto simp: generate_prefetch_def)
  moreover have "access_latency c1 now out \<noteq> None"
    using latency_ok [OF h(5), of out now] h(6) same_params_fields [OF h(2)] by (simp split: outcome.splits)
  ultimately show ?thesis using h by (auto simp: cache_access_def)
qed

end

context next_level
begin

lemma access_below_ok:
  assumes "cache_inv A cp L" "on_level fn bs cp" "ok g" "access_checks cp addr nbytes" "A (CACHE_TAGSET cp addr)" "buf_ok cp addr p nbytes"
    "pf \<or> prefetch_type cp = 0"
  shows "succeeds (cache_access cp g cmd addr p nbytes now pf) (\<lambda>(lat, cp', g', p', ra). same_params cp cp' \<and> ok g' \<and> same_rpt g g'
    \<and> (\<exists>L'. cache_inv A cp' L'))"
  by (rule access_below_any [OF assms(1-6) _ assms(7)]) (use fn_nonzero [OF assms(5)] in simp)

text \<open>An access whose entry of the table repeats its stride brings the next block into the cache.\<close>

lemma stride_access_ok:
  assumes "cache_inv A cp L" "on_level fn bs cp" "ok g" "access_checks cp addr nbytes" "A (CACHE_TAGSET cp addr)" "\<not> balloc cp"
    "prefetch_type cp = 2 ^ k" "1 < k" "k < 29" "stride_init g" "length (rpt_table g) = 2 ^ k"
    "rtag (rpt_entry k g) = rpt_tag k (regs_PC g)" "addr = prev_addr (rpt_entry k g) + stride (rpt_entry k g)"
    "A (CACHE_TAGSET cp (addr + stride (rpt_entry k g)))"
  shows "succeeds (cache_access cp g cmd addr p nbytes now False)
    (\<lambda>(lat, cp', g', p', ra). cache_probe cp' (addr + stride (rpt_entry k g)) = Some True)"
proof -
  have buf: "buf_ok cp addr p nbytes" using assms(6) by (simp add: buf_ok_def)
  obtain out c1 g1 p1 ra L1 where h: "access_body cp g cmd addr p nbytes now False = Some (out, c1, g1, p1, ra)"
    "same_params cp c1" "ok g1" "same_rpt g g1" "cache_inv A c1 L1"
    "case out of Missed lat \<Rightarrow> True | Hit i b \<Rightarrow> i < nsets cp \<and> b < assoc cp"
    using access_body_ok [OF assms(1-5) buf, of cmd now False] by (auto simp: succeeds_iff) blast
  note f = same_params_fields [OF h(2)]
  have e1: "rpt_entry k g1 = rpt_entry k g" "regs_PC g1 = regs_PC g" "stride_init g1 \<longrightarrow> length (rpt_table g1) = 2 ^ k"
    using h(4) assms(11) by (simp_all add: rpt_entry_def same_rpt_def)
  obtain t e where te: "rpt_access (2 ^ k) g1 addr = Some (e, g1\<lparr> rpt_table := t, stride_init := True \<rparr>)"
    "e = rpt_train (rpt_tag k (regs_PC g)) addr (rpt_entry k g)" using rpt_access_ok [OF assms(9) e1(3)] e1(1,2) by metis
  have e: "prev_addr e + stride e = addr + stride (rpt_entry k g)" "state e \<noteq> NOPRED"
    using te(2) assms(12,13) by (auto simp: rpt_train_def Let_def)
  have ty: "prefetch_type cp \<noteq> 0" "prefetch_type cp \<noteq> 1" "prefetch_type cp \<noteq> 2"
    using assms(7,8) power_strict_increasing [of 1 k "2 :: nat"] by auto
  have "succeeds (rpt_prefetch c1 (g1\<lparr> rpt_table := t, stride_init := True \<rparr>) e)
      (\<lambda>r. prefetched c1 r \<and> cache_probe (fst r) (addr + stride (rpt_entry k g)) = Some True)"
    using rpt_prefetch_ok [OF h(5) _ ok_rpt [OF h(3), where r = t and b = True], of e] e(1) assms(2,6,14) on_level_params [OF h(2)] by (simp add: f)
  then obtain c2 g2 L2 where g2: "generate_prefetch c1 g1 addr = Some (c2, g2)" "same_params c1 c2" "cache_inv A c2 L2"
    "cache_probe c2 (addr + stride (rpt_entry k g)) = Some True"
    using te(1) e(2) ty assms(7) by (auto simp: succeeds_iff generate_prefetch_def stride_prefetcher_def prefetched_def f)
  have "access_latency c2 now out \<noteq> None"
    using latency_ok [OF g2(3), of out now] h(6) same_params_fields [OF same_params_trans [OF h(2) g2(2)]]
    by (simp split: outcome.splits)
  then show ?thesis using h(1) g2(1,4) by (auto simp: cache_access_def)
qed

lemma run_accesses_ok:
  assumes "cache_inv A cp L" "on_level fn bs cp" "ok g" "policy cp \<noteq> Random" "prefetch_type cp = 0" "\<not> balloc cp"
    "\<forall>(cmd, addr, nbytes)\<in>set as. access_checks cp addr nbytes \<and> A (CACHE_TAGSET cp addr)"
  shows "succeeds (run_accesses cp g as) (\<lambda>(cp', g'). ok g' \<and> same_params cp cp'
    \<and> (\<exists>L'. cache_inv A cp' L') \<and> misses cp' = misses cp + ref_misses (CACHE_SET cp) (CACHE_TAG cp) (policy cp) (assoc cp) L (map acc_addr as)
    \<and> hits cp' + misses cp' = hits cp + misses cp + length as)"
  using assms
proof (induction as arbitrary: cp g L)
  case (Cons a as)
  obtain cmd addr nbytes where a: "a = (cmd, addr, nbytes)" by (cases a) auto
  have buf: "buf_ok cp addr None nbytes" using Cons.prems(6) by (simp add: buf_ok_def)
  have safe: "prefetch_safe A cp g addr" using Cons.prems(5) by (simp add: prefetch_safe_def)
  have la: "access_checks cp addr nbytes" "A (CACHE_TAGSET cp addr)" using Cons.prems(7) a by auto
  let ?L = "L(CACHE_SET cp addr := stack_access (policy cp) (assoc cp) (CACHE_TAG cp addr) (L (CACHE_SET cp addr)))"
  from access_ok [OF Cons.prems(1-3) la buf safe, of cmd 0] Cons.prems(4,5)
  obtain lat c1 g1 p1 ra where one: "cache_access cp g cmd addr None nbytes 0 False = Some (lat, c1, g1, p1, ra)"
    "same_params cp c1" "ok g1" "cache_inv A c1 ?L"
    "hits c1 = hits cp + of_bool (CACHE_TAG cp addr \<in> set (L (CACHE_SET cp addr)))"
    "misses c1 = misses cp + of_bool (CACHE_TAG cp addr \<notin> set (L (CACHE_SET cp addr)))"
    by (auto simp: succeeds_iff)
  note f = same_params_fields [OF one(2)]
  have "succeeds (run_accesses c1 g1 as) (\<lambda>(cp', g'). ok g' \<and> same_params c1 cp'
    \<and> (\<exists>L'. cache_inv A cp' L') \<and> misses cp' = misses c1 + ref_misses (CACHE_SET cp) (CACHE_TAG cp) (policy cp) (assoc cp) ?L (map acc_addr as)
    \<and> hits cp' + misses cp' = hits c1 + misses c1 + length as)"
    by (rule Cons.IH [OF one(4) _ one(3), unfolded f on_level_params [OF one(2)]]) (use Cons.prems(2,4-7) in auto)
  then obtain c2 g2 L2 where "run_accesses c1 g1 as = Some (c2, g2)" "ok g2" "same_params c1 c2" "cache_inv A c2 L2"
    "misses c2 = misses c1 + ref_misses (CACHE_SET cp) (CACHE_TAG cp) (policy cp) (assoc cp) ?L (map acc_addr as)"
    "hits c2 + misses c2 = hits c1 + misses c1 + length as" by (auto simp: succeeds_iff)
  moreover from this(4) have "\<exists>L'. cache_inv A c2 L'" by blast
  moreover have key: "ref_misses (CACHE_SET cp) (CACHE_TAG cp) (policy cp) (assoc cp) L (map acc_addr (a # as))
      = of_bool (CACHE_TAG cp addr \<notin> set (L (CACHE_SET cp addr)))
      + ref_misses (CACHE_SET cp) (CACHE_TAG cp) (policy cp) (assoc cp) ?L (map acc_addr as)"
    by (simp add: a acc_addr_def)
  ultimately show ?case using one(1,5,6) same_params_trans [OF one(2), of c2]
    unfolding key by (simp add: a)
qed auto

end

text \<open>The second level as the level below the first: an access of the first level must pass the checks of
  the second and must not touch its block 0.\<close>

definition l2_addr :: "nat \<Rightarrow> nat \<Rightarrow> md_addr_t \<Rightarrow> bool" where
  "l2_addr bs k a = (a AND NOT (mask k) \<noteq> 0 \<and> of_nat bs AND (of_nat bs - 1 :: md_addr_t) = 0 \<and> a AND (of_nat bs - 1) = 0
     \<and> \<not> a + of_nat bs > (a AND NOT (mask k)) + 2 ^ k)"

definition l2_ok :: "nat \<Rightarrow> sim_state \<Rightarrow> bool" where
  "l2_ok k g = (\<exists>cp2 L. cache_dl2 g = Some cp2 \<and> cache_inv (\<lambda>a. a \<noteq> 0) cp2 L \<and> on_level dl2_access_fn (2 ^ k) cp2
     \<and> prefetch_type cp2 = 0 \<and> \<not> balloc cp2)"

lemma geom_of_bsize:
  assumes "cache_geom cp k' l a" "bsize cp = 2 ^ k"
  shows "k' = k" "blk_mask cp = mask k" "CACHE_TAGSET cp x = x AND NOT (mask k)"
  using assms by (auto simp: cache_geom_def CACHE_TAGSET_def)

lemma dl1_access_ok:
  assumes "l2_ok k g" "l2_addr bs k a"
  shows "succeeds (dl1_access_fn cmd a bs x now pf g) (\<lambda>(l, c, g'). l2_ok k g' \<and> same_rpt g g' \<and> length (fst c) = length (data x))"
proof -
  obtain cp2 L where c: "cache_dl2 g = Some cp2" "cache_inv (\<lambda>a. a \<noteq> 0) cp2 L" "on_level dl2_access_fn (2 ^ k) cp2"
    "prefetch_type cp2 = 0" "\<not> balloc cp2" using assms(1) by (auto simp: l2_ok_def)
  have bs: "bsize cp2 = 2 ^ k" using c(3) by (simp add: on_level_def)
  obtain k' l a' where geo: "cache_geom cp2 k' l a'" "length (sets cp2) = nsets cp2" using cache_inv_geom [OF c(2)] .
  note g = geom_of_bsize [OF geo(1) bs]
  have "access_checks cp2 a bs" "CACHE_TAGSET cp2 a \<noteq> 0" "buf_ok cp2 a None bs"
    using assms(2) bs g(2,3) c(5) by (simp_all add: l2_addr_def access_checks_def buf_ok_def)
  from main_memory.access_below_ok [OF c(2,3) _ this, of pf "globals.truncate g" cmd now] c(4)
  obtain lat c2 g2 p ra L2 where two: "cache_access cp2 (globals.truncate g) cmd a None bs now pf = Some (lat, c2, g2, p, ra)"
    "same_params cp2 c2" "same_rpt (globals.truncate g) g2" "cache_inv (\<lambda>a. a \<noteq> 0) c2 L2"
    by (auto simp: succeeds_iff)
  have "l2_ok k (globals.extend g2 (sim_state.fields (Some c2)))"
    using two(4) c(3-5) on_level_params [OF two(2)] same_params_fields [OF two(2)]
    by (auto simp: l2_ok_def globals.defs sim_state.defs)
  moreover have "same_rpt g (globals.extend g2 (sim_state.fields (Some c2)))"
    using two(3) by (simp add: same_rpt_def globals.defs sim_state.defs)
  ultimately show ?thesis using c(1) two(1) by (simp add: dl1_access_fn_def)
qed

interpretation level_two: next_level "l2_addr bs k" "l2_ok k" dl1_access_fn bs for bs k
proof unfold_locales
  fix g a cmd x now pf
  assume "l2_ok k g" "l2_addr bs k a"
  then show "succeeds (dl1_access_fn cmd a bs x now pf g) (\<lambda>(l, c, g'). l2_ok k g' \<and> same_rpt g g' \<and> length (fst c) = length (data x))"
    by (rule dl1_access_ok)
qed (auto simp: l2_addr_def l2_ok_def)

lemma stack_distinct: "cache_inv A cp L \<Longrightarrow> i < nsets cp \<Longrightarrow> distinct (L i)"
proof -
  assume "cache_inv A cp L" "i < nsets cp"
  then obtain xs where xs: "set_ok A cp i (sets cp ! i) xs" "L i = stack (sets cp ! i) xs" using cache_inv_set by metis
  note o = set_okD [OF xs(1)]
  have "inj_on (\<lambda>b. tag (blks (sets cp ! i) ! b)) (set (filter (\<lambda>b. is_valid (blks (sets cp ! i) ! b)) xs))"
    using o(3,4) by (auto intro!: inj_onI)
  then show "distinct (L i)" using o(2) by (simp add: xs(2) stack_def distinct_map)
qed

section \<open>Properties\<close>

text \<open>The accesses that a first level cache of block size \<open>2 ^ k1\<close> may make above a second level of block size \<open>2 ^ k2\<close>.\<close>

definition legal_accesses :: "'g cache_t \<Rightarrow> nat \<Rightarrow> (mem_cmd \<times> md_addr_t \<times> nat) list \<Rightarrow> bool" where
  "legal_accesses cp k as = (\<forall>(cmd, addr, nbytes)\<in>set as. access_checks cp addr nbytes \<and> l2_addr (bsize cp) k (CACHE_TAGSET cp addr))"

text \<open>C10: The cache implements its replacement policy. Take a first and a second level data cache as
  \<open>cache_create\<close> returns them, the first with LRU or FIFO replacement, any associativity (with or
  without hash chains), and no prefetcher. Then every list of legal accesses is
  carried out, through both levels, without a failed assertion or a null pointer, and the number of misses of the first level is
  that of the reference in which each set is a list of tags: the fast path, the hash chains, the
  linked lists and the level below do not change it.\<close>

theorem cache_misses_reference:
  assumes "cache_create ns1 bs1 False us1 as1 pol dl1_access_fn hl1 0 = Some cp" "ns1 * bs1 < 2 ^ 32" "as1 < 2 ^ 31" "pol \<noteq> Random"
    "cache_create ns2 (2 ^ k) False us2 as2 pol2 dl2_access_fn hl2 0 = Some cp2" "ns2 * 2 ^ k < 2 ^ 32" "as2 < 2 ^ 31"
    "cache_dl2 g = Some cp2" "legal_accesses cp k as"
  shows "succeeds (run_accesses cp g as) (\<lambda>(cp', g').
    misses cp' = ref_misses (CACHE_SET cp) (CACHE_TAG cp) pol (nat as1) (\<lambda>_. []) (map acc_addr as)
    \<and> hits cp' + misses cp' = length as)"
proof -
  note c1 = create_ok [OF assms(1-3)] and c2 = create_ok [OF assms(5-7)]
  have g: "l2_ok k g" using c2(1,2,5,6) assms(8) unfolding l2_ok_def by (auto simp: nat_power_eq)
  have "bsize cp = nat bs1" using c1(2) by (simp add: on_level_def)
  then have la: "\<forall>(cmd, addr, nbytes)\<in>set as. access_checks cp addr nbytes \<and> l2_addr (nat bs1) k (CACHE_TAGSET cp addr)"
    using assms(9) by (simp add: legal_accesses_def)
  show ?thesis
    by (rule succeeds_mono2 [OF level_two.run_accesses_ok [OF c1(1,2) g _ _ _ la]]) (use c1 assms(4) in auto)
qed

text \<open>A cache without valid blocks has no last block, and the addresses of the blocks can be left open.\<close>

lemma empty_last_blk:
  assumes "cache_inv A cp (\<lambda>_. [])"
  shows "last_blk cp = None"
proof (rule ccontr)
  assume "last_blk cp \<noteq> None"
  then obtain i b where ib: "last_blk cp = Some (i, b)" "i < nsets cp" "b < assoc cp" "is_valid (blks (sets cp ! i) ! b)"
    using assms by (auto simp: cache_inv_def last_ok_def)
  obtain xs where xs: "set_ok A cp i (sets cp ! i) xs" "[] = stack (sets cp ! i) xs" using cache_inv_set [OF assms ib(2)] .
  then show False using stack_mem [OF xs(1), of "tag (blks (sets cp ! i) ! b)"] ib(3,4) by (auto simp: blk_match_def)
qed

lemma cache_inv_mono: "cache_inv A cp L \<Longrightarrow> cache_inv (\<lambda>_. True) cp L"
  unfolding cache_inv_def set_ok_def by blast

text \<open>C12: Flushing empties the cache and flushing a block removes that block and no other. From every reachable
  state of a cache on main memory (any replacement policy, block 0 included), \<open>cache_flush\<close> returns a well-formed cache with no last
  block, in which no address is found; \<open>cache_flush_addr\<close> returns a well-formed cache in which the block of its address is
  not found and every other block is found exactly when it was found before.\<close>

theorem flush_removes:
  assumes "cache_inv A cp L" "on_level dl2_access_fn (bsize cp) cp"
  shows "succeeds (cache_flush cp g now) (\<lambda>(cp', g', lat). cache_inv A cp' (\<lambda>_. []) \<and> last_blk cp' = None
       \<and> (\<forall>a. cache_probe cp' a = Some False))
    \<and> succeeds (cache_flush_addr cp g addr now) (\<lambda>(cp', g', lat). (\<exists>L'. cache_inv A cp' L')
       \<and> (\<forall>a. cache_probe cp' a = (if CACHE_TAGSET cp a = CACHE_TAGSET cp addr then Some False else cache_probe cp a)))"
proof -
  obtain k l a where geo: "cache_geom cp k l a" "length (sets cp) = nsets cp" using cache_inv_geom [OF assms(1)] .
  have "succeeds (cache_flush cp g now) (\<lambda>(cp', g', lat). cache_inv A cp' (\<lambda>_. []) \<and> last_blk cp' = None
      \<and> (\<forall>a. cache_probe cp' a = Some False))"
    using any_memory.flush_ok [OF assms, of g now] probe_ok [of A _ "\<lambda>_. []"] empty_last_blk [of A]
    by (auto simp: succeeds_iff)
  moreover have "cache_probe cp' a = (if CACHE_TAGSET cp a = CACHE_TAGSET cp addr then Some False else cache_probe cp a)"
    if sp: "same_params cp cp'" and inv: "cache_inv A cp' (L(CACHE_SET cp addr := remove1 (CACHE_TAG cp addr) (L (CACHE_SET cp addr))))"
    for cp' a
    using probe_ok [OF inv, of a] probe_ok [OF assms(1), of a] same_params_fields [OF sp] tagset_eq [OF geo(1), of a addr]
      stack_distinct [OF assms(1) CACHE_SET_less [OF geo(1), of addr]]
    by auto
  then have "succeeds (cache_flush_addr cp g addr now) (\<lambda>(cp', g', lat). (\<exists>L'. cache_inv A cp' L')
       \<and> (\<forall>a. cache_probe cp' a = (if CACHE_TAGSET cp a = CACHE_TAGSET cp addr then Some False else cache_probe cp a)))"
    using any_memory.flush_addr_ok [OF assms, of g addr now] by (fastforce simp: succeeds_iff)
  ultimately show ?thesis by blast
qed

text \<open>C11: The stride prefetcher fetches the next block of a regular pattern in time. If the entry of the
  current instruction has seen the previous address and the access repeats its stride, then after the access, hit or miss, the
  block that lies one stride further is in the cache.\<close>

theorem stride_prefetched:
  assumes "cache_inv (\<lambda>a. a \<noteq> 0) cp L" "on_level dl2_access_fn (bsize cp) cp" "access_checks cp addr nbytes"
    "CACHE_TAGSET cp addr \<noteq> 0" "\<not> balloc cp" "prefetch_type cp = 2 ^ k" "1 < k" "k < 29" "stride_init g" "length (rpt_table g) = 2 ^ k"
    "rtag (rpt_entry k g) = rpt_tag k (regs_PC g)" "addr = prev_addr (rpt_entry k g) + stride (rpt_entry k g)"
    "CACHE_TAGSET cp (addr + stride (rpt_entry k g)) \<noteq> 0"
  shows "succeeds (cache_access cp g cmd addr p nbytes now False)
    (\<lambda>(lat, cp', g', p', ra). cache_probe cp' (addr + stride (rpt_entry k g)) = Some True)"
  by (rule main_memory.stride_access_ok [OF assms(1,2) TrueI assms(3-13)])

text \<open>C14: The reference prediction table learns a stride from three accesses. Whatever the entry held before, after accesses
  to \<open>a\<close>, \<open>a + s\<close> and \<open>a + 2 s\<close> by an instruction with another tag the entry is steady, holds the stride \<open>s\<close>, and predicts
  \<open>a + 3 s\<close>; one irregular access to \<open>b\<close> afterwards leaves the stride in place, and the pattern is steady again
  as soon as it continues from \<open>b\<close>.\<close>

theorem stride_learned:
  assumes "rtag e \<noteq> t" "s \<noteq> 0"
  shows "let e3 = rpt_train t (a + s + s) (rpt_train t (a + s) (rpt_train t a e)) in
    state e3 = STEADY \<and> stride e3 = s \<and> prev_addr e3 + stride e3 = a + s + s + s
    \<and> (let e5 = rpt_train t (b + s) (rpt_train t b e3) in state e5 = STEADY \<and> stride e5 = s \<and> prev_addr e5 = b + s)"
  using assms by (auto simp: rpt_train_def Let_def)

text \<open>C13: When an access fails. An access (without a prefetcher, or of one) to a well-formed cache on main memory fails in
  exactly two cases: the code stops with an error because the size, the alignment or the end of the access is wrong, or
  the access is to block 0 while there is no last block, that is after creation, after every miss and after every flush.  In the
  second case the fast path, which compares the address with that of the last block and takes 0 when there is none, follows
  the null pointer instead of missing.  In all other cases the access returns, block 0 included when there is a last block.\<close>

theorem access_fails_iff:
  assumes "cache_inv (\<lambda>_. True) cp L" "on_level dl2_access_fn (bsize cp) cp" "buf_ok cp addr p nbytes" "pf \<or> prefetch_type cp = 0"
  shows "cache_access cp g cmd addr p nbytes now pf = None \<longleftrightarrow>
    \<not> access_checks cp addr nbytes \<or> CACHE_TAGSET cp addr = 0 \<and> last_blk cp = None"
proof (cases "access_checks cp addr nbytes \<and> (CACHE_TAGSET cp addr = 0 \<longrightarrow> last_blk cp \<noteq> None)")
  case True
  then show ?thesis using any_memory.access_below_any [OF assms(1,2) TrueI _ TrueI assms(3) _ assms(4), of g cmd now]
    by (auto simp: succeeds_iff)
next
  case False
  then show ?thesis using assms(1)
    by (auto simp: cache_inv_def last_ok_def cache_access_def access_body_def assert_that_def split: option.splits)
qed

section \<open>Witnesses\<close>

definition demo_l2 :: "globals cache_t" where
  "demo_l2 = the (cache_create 16 32 False 0 8 LRU dl2_access_fn 1 0)"

definition demo_l1 :: "sim_state cache_t" where
  "demo_l1 = the (cache_create 4 16 False 0 2 LRU dl1_access_fn 1 0)"

definition demo_pf :: "globals cache_t" where
  "demo_pf = the (cache_create 16 32 False 0 2 LRU dl2_access_fn 1 4)"

definition demo_globals :: globals where
  "demo_globals = \<lparr> regs_PC = 0, stride_init = True,
     rpt_table = \<lparr> rtag = 0, prev_addr = 0x100, stride = 0x40, state = TRANSIENT \<rparr> # replicate 3 init_entry,
     myrand = (\<lambda>_. 0), rand_calls = 0 \<rparr>"

definition demo_state :: sim_state where
  "demo_state = globals.extend demo_globals (sim_state.fields (Some demo_l2))"

lemma demo_created:
  "cache_create 16 32 False 0 8 LRU dl2_access_fn 1 0 = Some demo_l2"
  "cache_create 4 16 False 0 2 LRU dl1_access_fn 1 0 = Some demo_l1"
  "cache_create 16 32 False 0 2 LRU dl2_access_fn 1 4 = Some demo_pf"
  using create_returns [of 5 4 3 0 0 False LRU "dl2_access_fn :: globals blk_access" 1]
    create_returns [of 4 2 1 0 0 False LRU dl1_access_fn 1]
    create_returns [of 5 4 1 0 4 False LRU "dl2_access_fn :: globals blk_access" 1]
  by (auto simp: demo_l2_def demo_l1_def demo_pf_def)

lemma create_geom:
  assumes "cache_create (2 ^ l) (2 ^ k) al us (2 ^ a) pol fn hl pf = Some cp" "2 ^ l * 2 ^ k < (2 :: int) ^ 32" "(2 :: int) ^ a < 2 ^ 31"
  shows "cache_geom cp k l a"
  using create_ok(10) [OF assms] by auto

lemma demo_geom: "cache_geom demo_l2 5 4 3" "cache_geom demo_l1 4 2 1" "cache_geom demo_pf 5 4 1"
  using demo_created create_geom [of 4 5 False 0 3] create_geom [of 2 4 False 0 1] create_geom [of 4 5 False 0 1] by simp_all

definition demo_accesses :: "(mem_cmd \<times> md_addr_t \<times> nat) list" where
  "demo_accesses = [(Read, 0x100, 4), (Write, 0x104, 4), (Read, 0x180, 4), (Read, 0x200, 4), (Read, 0x100, 4)]"

lemma demo_legal: "legal_accesses demo_l1 5 demo_accesses"
  using demo_geom(2) by (simp add: legal_accesses_def demo_accesses_def access_checks_def l2_addr_def cache_geom_def CACHE_TAGSET_def mask_numeral)

lemma demo_ref: "ref_misses (CACHE_SET demo_l1) (CACHE_TAG demo_l1) LRU 2 (\<lambda>_. []) (map acc_addr demo_accesses) = 4"
  using demo_geom(2) by (simp add: demo_accesses_def acc_addr_def cache_geom_def CACHE_SET_def CACHE_TAG_def stack_access_def stack_hit_def mask_numeral)
theorem cache_misses_reference_witness:
  "succeeds (run_accesses demo_l1 demo_state demo_accesses) (\<lambda>(cp', g'). misses cp' = 4 \<and> hits cp' + misses cp' = 5)"
proof -
  have "cache_create 16 (2 ^ 5) False 0 8 LRU dl2_access_fn 1 0 = Some demo_l2" using demo_created(1) by simp
  note c = cache_misses_reference [OF demo_created(2) _ _ _ this, of demo_state demo_accesses]
  have d: "cache_dl2 demo_state = Some demo_l2" by (simp add: demo_state_def globals.defs sim_state.defs)
  have "succeeds (run_accesses demo_l1 demo_state demo_accesses) (\<lambda>(cp', g').
      misses cp' = ref_misses (CACHE_SET demo_l1) (CACHE_TAG demo_l1) LRU (nat 2) (\<lambda>_. []) (map acc_addr demo_accesses)
      \<and> hits cp' + misses cp' = length demo_accesses)"
    by (rule c [OF _ _ _ _ _ d demo_legal]) simp_all
  moreover have "length demo_accesses = 5" by (simp add: demo_accesses_def)
  ultimately show ?thesis using demo_ref by simp
qed

lemma demo_inv:
  "cache_inv (\<lambda>a. a \<noteq> 0) demo_l2 (\<lambda>_. [])" "on_level dl2_access_fn (bsize demo_l2) demo_l2" "last_blk demo_l2 = None"
  "cache_inv (\<lambda>a. a \<noteq> 0) demo_pf (\<lambda>_. [])" "on_level dl2_access_fn (bsize demo_pf) demo_pf"
  "prefetch_type demo_pf = 2 ^ 2" "\<not> balloc demo_pf" "\<not> balloc demo_l2" "prefetch_type demo_l2 = 0"
  using create_ok(1,2,5,6,9) [OF demo_created(1)] create_ok(1,2,5,6) [OF demo_created(3)] by (auto simp: on_level_def)

theorem flush_removes_witness:
  "succeeds (cache_flush demo_l2 demo_globals 0) (\<lambda>(cp', g', lat). \<forall>a. cache_probe cp' a = Some False)"
  using flush_removes [OF demo_inv(1,2), of demo_globals 0 0] by (auto simp: succeeds_iff)

theorem access_fails_iff_witness:
  "cache_access demo_l2 demo_globals Read 8 None 4 0 False = None \<and> cache_access demo_l2 demo_globals Read 0x102 None 4 0 False = None
    \<and> cache_access demo_l2 demo_globals Read 0x108 None 4 0 False \<noteq> None"
proof -
  have "buf_ok demo_l2 a None 4" for a by (simp add: buf_ok_def demo_inv(8))
  note f = access_fails_iff [OF cache_inv_mono [OF demo_inv(1)] demo_inv(2) this disjI2 [OF demo_inv(9)], of demo_globals Read _ 0]
  show ?thesis unfolding f using demo_geom(1) demo_inv(3)
    by (simp add: access_checks_def CACHE_TAGSET_def cache_geom_def mask_numeral)
qed

theorem stride_prefetched_witness:
  "succeeds (cache_access demo_pf demo_globals Read 0x140 None 4 0 False)
    (\<lambda>(lat, cp', g', p', ra). cache_probe cp' 0x180 = Some True)"
proof -
  have e: "rpt_entry 2 demo_globals = \<lparr> rtag = 0, prev_addr = 0x100, stride = 0x40, state = TRANSIENT \<rparr>"
    by (simp add: rpt_entry_def demo_globals_def rpt_index_def)
  have "access_checks demo_pf 0x140 4" "CACHE_TAGSET demo_pf 0x140 \<noteq> 0" "CACHE_TAGSET demo_pf (0x140 + 0x40) \<noteq> 0"
    using demo_geom(3) by (simp_all add: access_checks_def CACHE_TAGSET_def cache_geom_def mask_numeral)
  note a = stride_prefetched [OF demo_inv(4,5) this(1,2) demo_inv(7,6), of demo_globals Read None 0, unfolded e] this(3)
  show ?thesis using a(1) a(2) by (simp add: demo_globals_def rpt_tag_def)
qed

theorem stride_learned_witness:
  "let e3 = rpt_train 1 108 (rpt_train 1 104 (rpt_train 1 100 init_entry)) in state e3 = STEADY \<and> stride e3 = 4"
  using stride_learned [of init_entry 1 4 100 7] by (simp add: init_entry_def Let_def)

end
