(* ===== verification/Msi_L1.thy ===== *)
theory Msi_L1
  imports Line_Store
begin

text \<open>
  The L1 cache controller of the Lab 5 coherence protocol,
  \<^verbatim>\<open>src/Lab5/gem5/src/mem/protocol/MSI-cache.sm\<close>, with the messages of \<^verbatim>\<open>MSI-msg.sm\<close>.  A SLICC
  state machine is a table: \<open>l1_transition\<close> has one line per \<^verbatim>\<open>transition\<close> of the source and gives
  its actions, in order, and its next state; \<open>l1_act\<close> has one equation per \<^verbatim>\<open>action\<close>.  The code that
  runs a transition is generated by \<^verbatim>\<open>StateMachine.py\<close> (\<^verbatim>\<open>printCSwitch\<close>) and is \<open>l1_doTransition\<close>:
  a pair of state and event without a line is \<^verbatim>\<open>fatal("Invalid transition")\<close>, a line with \<^verbatim>\<open>z_stall\<close>
  leaves everything as it is, and every other line runs its actions and then \<^verbatim>\<open>setState\<close> and
  \<^verbatim>\<open>setAccessPermission\<close>.

  All actions of one transition work on one address.  The model takes the cache entry and the
  transaction buffer of that address out of the controller (an \<open>l1_slot\<close>), runs the actions on
  them and collects what they send, the callbacks to the processor and the queues they pop.
  The cache array and the transaction table implement partial maps (\<^verbatim>\<open>Line_Store\<close>), and a
  \<open>NetDest\<close> implements a set of machines (\<^verbatim>\<open>Net_Dest\<close>); here they are those maps and sets.  A data
  block is the list of its bytes.  Message sizes and latencies only affect time and are left out.
\<close>

section \<open>Messages\<close>

type_synonym blk = "8 word list"

datatype machine = L1Cache nat | Directory nat

datatype CoherenceRequestType = GETM | GETS | PUTM | PUTS | WB_ACK | WB_NACK | INV | FWD

datatype CoherenceResponseType = ACK | DATA | DATA_EXCLUSIVE_CLEAN | DATA_EXCLUSIVE_DIRTY
  | UNBLOCK | UNBLOCK_EXCLUSIVE | RESP_WB_ACK | WRITEBACK_CLEAN | WRITEBACK_DIRTY | WRITEBACK
  | DATA_FROM_DIR | DATA_FROM_OWNER

record RequestMsg =
  rq_Address :: addr
  rq_Type :: CoherenceRequestType
  rq_Requestor :: machine
  rq_Destination :: "machine set"
  rq_DataBlk :: blk

record ResponseMsg =
  rs_Address :: addr
  rs_Type :: CoherenceResponseType
  rs_Sender :: machine
  rs_Destination :: "machine set"
  rs_DataBlk :: blk
  rs_AckCount :: int

record RubyRequest =
  rr_LineAddress :: addr
  rr_Type :: RubyRequestType

datatype msi_error = Invalid_transition | Assertion_failed | Slicc_error | TBETable_full

type_synonym 'a res = "msi_error + 'a"

section \<open>States, events and entries\<close>

datatype l1_state = L1_I | L1_S | L1_M | L1_IS_D | L1_IM_AD | L1_IM_A | L1_SM_AD | L1_SM_A
  | L1_MI_A | L1_SI_A | L1_II_A

datatype l1_event = Load | Ifetch | Store | Repl | Fwd_GetS | Fwd_GetM | Inv | WB_Ack
  | Inv_Ack | Inv_Ack_all | Data_from_Dir_No_Acks | Data_from_Dir_Ack_Cnt
  | Data_from_Dir_Ack_Cnt_Last | Data_from_Owner

record l1_entry =
  CacheState :: l1_state
  Permission :: AccessPermission
  Dirty :: bool
  DataBlk :: blk

record l1_tbe =
  TBEState :: l1_state
  tDataBlk :: blk
  pendingAcks :: int

datatype GenericMachineType = GM_L1Cache | GM_L1Cache_wCC | GM_Directory

datatype callback =
    readCallback nat addr GenericMachineType blk
  | writeCallback nat addr GenericMachineType blk blk
  | evictionCallback nat addr

datatype l1_port = mandatoryQueue_in | responseNetwork_in | forwardRequestNetwork_in

record l1_slot =
  cache_entry :: "l1_entry option"
  tbe :: "l1_tbe option"
  requestNetwork_out :: "RequestMsg list"
  responseNetwork_out :: "ResponseMsg list"
  callbacks :: "callback list"
  popped :: "l1_port list"

text \<open>
  What a transition can read besides its slot: the controller's version, the address, the version
  of the directory of the address (\<^verbatim>\<open>map_Address_to_Directory\<close>), the fresh data block of a new
  message or entry, whether the transaction table has room, what the sequencer's pending store
  does to the block that its \<^verbatim>\<open>writeCallback\<close> is handed by reference (an arbitrary update), and the
  messages at the heads of the queues.
\<close>

record l1_env =
  version :: nat
  address :: addr
  home :: nat
  blk0 :: blk
  tbe_room :: bool
  send_evictions :: bool
  pending_store :: "blk \<Rightarrow> blk"
  fwd_msg :: "RequestMsg option"
  rsp_msg :: "ResponseMsg option"

definition l1_State_to_permission :: "l1_state \<Rightarrow> AccessPermission" where
  "l1_State_to_permission st = (case st of L1_I \<Rightarrow> Invalid | L1_S \<Rightarrow> Read_Only | L1_M \<Rightarrow> Read_Write
     | _ \<Rightarrow> Busy)"

definition l1_getState :: "l1_slot \<Rightarrow> l1_state" where
  "l1_getState sl = (case tbe sl of Some t \<Rightarrow> TBEState t
     | None \<Rightarrow> (case cache_entry sl of Some e \<Rightarrow> CacheState e | None \<Rightarrow> L1_I))"

definition l1_setState :: "l1_state \<Rightarrow> l1_slot \<Rightarrow> l1_slot" where
  "l1_setState st sl = sl \<lparr> tbe := map_option (TBEState_update (\<lambda>_. st)) (tbe sl),
     cache_entry := map_option (CacheState_update (\<lambda>_. st)) (cache_entry sl) \<rparr>"

definition l1_setAccessPermission :: "l1_state \<Rightarrow> l1_slot \<Rightarrow> l1_slot" where
  "l1_setAccessPermission st sl = sl \<lparr> cache_entry :=
     map_option (Permission_update (\<lambda>_. l1_State_to_permission st)) (cache_entry sl) \<rparr>"

definition l1_getAccessPermission :: "l1_slot \<Rightarrow> AccessPermission" where
  "l1_getAccessPermission sl = (case tbe sl of Some t \<Rightarrow> l1_State_to_permission (TBEState t)
     | None \<Rightarrow> (case cache_entry sl of Some e \<Rightarrow> l1_State_to_permission (CacheState e)
         | None \<Rightarrow> NotPresent))"

definition getNondirectHitMachType :: "machine \<Rightarrow> GenericMachineType" where
  "getNondirectHitMachType m = (case m of L1Cache _ \<Rightarrow> GM_L1Cache_wCC | Directory _ \<Rightarrow> GM_Directory)"

section \<open>Actions\<close>

text \<open>A \<open>writeCallback\<close> records the block that the sequencer is handed and the block it leaves.\<close>

datatype l1_action = as_issueGetS | am_issueGetM | bs_issuePUTS | bm_issuePUTM
  | e_sendDataFromCacheToRequestor | ee_sendDataFromTBEToRequestor | de_sendDataFromCacheToDir
  | dee_sendDataFromTBEToDir | fi_sendInvAck | i_allocateL1CacheBlock | h_deallocateL1CacheBlock
  | m_popMandatoryQueue | n_popResponseQueue | o_popForwardedRequestQueue | p_profileMiss
  | r_load_hit | rx_load_hit | s_store_hit | sx_store_hit | u_writeDataToCache | q_updateAckCount
  | forward_eviction_to_cpu | v_allocateTBE | w_deallocateTBE | x_copyDataFromCacheToTBE | z_stall

definition need :: "'a option \<Rightarrow> ('a \<Rightarrow> 'b res) \<Rightarrow> 'b res" where
  "need x f = (case x of None \<Rightarrow> Inl Assertion_failed | Some v \<Rightarrow> f v)"

definition l1_request :: "l1_env \<Rightarrow> CoherenceRequestType \<Rightarrow> blk \<Rightarrow> RequestMsg" where
  "l1_request en ty d = \<lparr> rq_Address = address en, rq_Type = ty, rq_Requestor = L1Cache (version en),
     rq_Destination = {Directory (home en)}, rq_DataBlk = d \<rparr>"

definition l1_response :: "l1_env \<Rightarrow> CoherenceResponseType \<Rightarrow> machine \<Rightarrow> blk \<Rightarrow> int \<Rightarrow> ResponseMsg" where
  "l1_response en ty dst d n = \<lparr> rs_Address = address en, rs_Type = ty,
     rs_Sender = L1Cache (version en), rs_Destination = {dst}, rs_DataBlk = d, rs_AckCount = n \<rparr>"

definition send_rq :: "RequestMsg \<Rightarrow> l1_slot \<Rightarrow> l1_slot" where
  "send_rq m sl = sl \<lparr> requestNetwork_out := requestNetwork_out sl @ [m] \<rparr>"

definition send_rs :: "ResponseMsg \<Rightarrow> l1_slot \<Rightarrow> l1_slot" where
  "send_rs m sl = sl \<lparr> responseNetwork_out := responseNetwork_out sl @ [m] \<rparr>"

definition call :: "callback \<Rightarrow> l1_slot \<Rightarrow> l1_slot" where
  "call k sl = sl \<lparr> callbacks := callbacks sl @ [k] \<rparr>"

definition pop :: "l1_port \<Rightarrow> l1_slot \<Rightarrow> l1_slot" where
  "pop p sl = sl \<lparr> popped := popped sl @ [p] \<rparr>"

definition load_hit :: "l1_env \<Rightarrow> GenericMachineType \<Rightarrow> l1_slot \<Rightarrow> l1_slot res" where
  "load_hit en g sl = need (cache_entry sl)
     (\<lambda>e. Inr (call (readCallback (version en) (address en) g (DataBlk e)) sl))"

definition store_hit :: "l1_env \<Rightarrow> GenericMachineType \<Rightarrow> l1_slot \<Rightarrow> l1_slot res" where
  "store_hit en g sl = need (cache_entry sl) (\<lambda>e. let d = pending_store en (DataBlk e) in
     Inr (call (writeCallback (version en) (address en) g (DataBlk e) d)
       (sl \<lparr> cache_entry := Some (e \<lparr> DataBlk := d \<rparr>) \<rparr>)))"

fun l1_act :: "l1_env \<Rightarrow> l1_action \<Rightarrow> l1_slot \<Rightarrow> l1_slot res" where
  "l1_act en as_issueGetS sl = Inr (send_rq (l1_request en GETS (blk0 en)) sl)"
| "l1_act en am_issueGetM sl = Inr (send_rq (l1_request en GETM (blk0 en)) sl)"
| "l1_act en bs_issuePUTS sl = need (cache_entry sl)
     (\<lambda>e. Inr (send_rq (l1_request en PUTS (DataBlk e)) sl))"
| "l1_act en bm_issuePUTM sl = need (cache_entry sl)
     (\<lambda>e. Inr (send_rq (l1_request en PUTM (DataBlk e)) sl))"
| "l1_act en e_sendDataFromCacheToRequestor sl = need (fwd_msg en) (\<lambda>m. need (cache_entry sl)
     (\<lambda>e. Inr (send_rs (l1_response en DATA_FROM_OWNER (rq_Requestor m) (DataBlk e) 0) sl)))"
| "l1_act en ee_sendDataFromTBEToRequestor sl = need (fwd_msg en) (\<lambda>m. need (tbe sl)
     (\<lambda>t. Inr (send_rs (l1_response en DATA_FROM_OWNER (rq_Requestor m) (tDataBlk t) 0) sl)))"
| "l1_act en de_sendDataFromCacheToDir sl = need (cache_entry sl)
     (\<lambda>e. Inr (send_rs (l1_response en DATA (Directory (home en)) (DataBlk e) 0) sl))"
| "l1_act en dee_sendDataFromTBEToDir sl = need (tbe sl)
     (\<lambda>t. Inr (send_rs (l1_response en DATA (Directory (home en)) (tDataBlk t) 0) sl))"
| "l1_act en fi_sendInvAck sl = need (fwd_msg en)
     (\<lambda>m. Inr (send_rs (l1_response en ACK (rq_Requestor m) (blk0 en) 1) sl))"
| "l1_act en i_allocateL1CacheBlock sl = (case cache_entry sl of
     Some _ \<Rightarrow> if l1_getAccessPermission sl \<noteq> Invalid then Inl Slicc_error else Inr sl
   | None \<Rightarrow> Inr (sl \<lparr> cache_entry :=
       Some \<lparr> CacheState = L1_I, Permission = NotPresent, Dirty = False, DataBlk = blk0 en \<rparr> \<rparr>))"
| "l1_act en h_deallocateL1CacheBlock sl = Inr (sl \<lparr> cache_entry := None \<rparr>)"
| "l1_act en m_popMandatoryQueue sl = Inr (pop mandatoryQueue_in sl)"
| "l1_act en n_popResponseQueue sl = Inr (pop responseNetwork_in sl)"
| "l1_act en o_popForwardedRequestQueue sl = Inr (pop forwardRequestNetwork_in sl)"
| "l1_act en p_profileMiss sl = Inr sl"
| "l1_act en r_load_hit sl = load_hit en GM_L1Cache sl"
| "l1_act en rx_load_hit sl = need (rsp_msg en)
     (\<lambda>m. load_hit en (getNondirectHitMachType (rs_Sender m)) sl)"
| "l1_act en s_store_hit sl = store_hit en GM_L1Cache sl"
| "l1_act en sx_store_hit sl = need (rsp_msg en)
     (\<lambda>m. store_hit en (getNondirectHitMachType (rs_Sender m)) sl)"
| "l1_act en u_writeDataToCache sl = need (rsp_msg en) (\<lambda>m. need (cache_entry sl)
     (\<lambda>e. Inr (sl \<lparr> cache_entry := Some (e \<lparr> DataBlk := rs_DataBlk m \<rparr>) \<rparr>)))"
| "l1_act en q_updateAckCount sl = need (rsp_msg en) (\<lambda>m. need (tbe sl)
     (\<lambda>t. Inr (sl \<lparr> tbe := Some (t \<lparr> pendingAcks := pendingAcks t - rs_AckCount m \<rparr>) \<rparr>)))"
| "l1_act en forward_eviction_to_cpu sl =
     Inr (if send_evictions en then call (evictionCallback (version en) (address en)) sl else sl)"
| "l1_act en v_allocateTBE sl = (if tbe sl \<noteq> None then Inl Assertion_failed
     else if \<not> tbe_room en then Inl TBETable_full
     else Inr (sl \<lparr> tbe := Some \<lparr> TBEState = L1_I, tDataBlk = blk0 en, pendingAcks = 0 \<rparr> \<rparr>))"
| "l1_act en w_deallocateTBE sl = (if tbe sl = None then Inl Assertion_failed
     else Inr (sl \<lparr> tbe := None \<rparr>))"
| "l1_act en x_copyDataFromCacheToTBE sl = need (cache_entry sl) (\<lambda>e. need (tbe sl)
     (\<lambda>t. Inr (sl \<lparr> tbe := Some (t \<lparr> tDataBlk := DataBlk e \<rparr>) \<rparr>)))"
| "l1_act en z_stall sl = Inr sl"

section \<open>Transitions\<close>

fun l1_transition :: "l1_state \<Rightarrow> l1_event \<Rightarrow> (l1_action list \<times> l1_state) option" where
  "l1_transition L1_I ev = (if ev \<in> {Load, Ifetch} then Some ([i_allocateL1CacheBlock, v_allocateTBE,
       p_profileMiss, as_issueGetS, m_popMandatoryQueue], L1_IS_D)
     else if ev = Store then Some ([i_allocateL1CacheBlock, v_allocateTBE, p_profileMiss,
       am_issueGetM, m_popMandatoryQueue], L1_IM_AD)
     else if ev = Inv then Some ([fi_sendInvAck, o_popForwardedRequestQueue], L1_I)
     else None)"
| "l1_transition L1_IS_D ev = (if ev \<in> {Load, Ifetch, Store, Repl, Inv} then Some ([z_stall], L1_IS_D)
     else if ev \<in> {Data_from_Dir_No_Acks, Data_from_Owner} then Some ([u_writeDataToCache,
       rx_load_hit, w_deallocateTBE, n_popResponseQueue], L1_S)
     else None)"
| "l1_transition L1_IM_AD ev =
     (if ev \<in> {Load, Ifetch, Store, Repl, Fwd_GetS, Fwd_GetM} then Some ([z_stall], L1_IM_AD)
     else if ev \<in> {Data_from_Dir_No_Acks, Data_from_Owner} then Some ([u_writeDataToCache,
       sx_store_hit, w_deallocateTBE, n_popResponseQueue], L1_M)
     else if ev = Data_from_Dir_Ack_Cnt then Some ([u_writeDataToCache, q_updateAckCount,
       n_popResponseQueue], L1_IM_A)
     else if ev = Data_from_Dir_Ack_Cnt_Last then Some ([u_writeDataToCache, q_updateAckCount,
       sx_store_hit, w_deallocateTBE, n_popResponseQueue], L1_M)
     else if ev = Inv_Ack then Some ([q_updateAckCount, n_popResponseQueue], L1_IM_AD)
     else None)"
| "l1_transition L1_IM_A ev =
     (if ev \<in> {Load, Ifetch, Store, Repl, Fwd_GetS, Fwd_GetM} then Some ([z_stall], L1_IM_A)
     else if ev = Inv_Ack then Some ([q_updateAckCount, n_popResponseQueue], L1_IM_A)
     else if ev = Inv_Ack_all then Some ([q_updateAckCount, sx_store_hit, w_deallocateTBE,
       n_popResponseQueue], L1_M)
     else None)"
| "l1_transition L1_S ev = (if ev \<in> {Load, Ifetch} then Some ([r_load_hit, m_popMandatoryQueue], L1_S)
     else if ev = Store then Some ([v_allocateTBE, p_profileMiss, am_issueGetM,
       x_copyDataFromCacheToTBE, m_popMandatoryQueue], L1_SM_AD)
     else if ev = Repl then Some ([v_allocateTBE, bs_issuePUTS, x_copyDataFromCacheToTBE], L1_SI_A)
     else if ev = Inv then Some ([forward_eviction_to_cpu, fi_sendInvAck, h_deallocateL1CacheBlock,
       o_popForwardedRequestQueue], L1_I)
     else None)"
| "l1_transition L1_SM_AD ev =
     (if ev \<in> {Load, Ifetch} then Some ([r_load_hit, m_popMandatoryQueue], L1_SM_AD)
     else if ev \<in> {Store, Repl, Fwd_GetS, Fwd_GetM} then Some ([z_stall], L1_SM_AD)
     else if ev = Inv then Some ([fi_sendInvAck, o_popForwardedRequestQueue], L1_IM_AD)
     else if ev \<in> {Data_from_Dir_No_Acks, Data_from_Owner} then Some ([u_writeDataToCache,
       sx_store_hit, w_deallocateTBE, n_popResponseQueue], L1_M)
     else if ev = Data_from_Dir_Ack_Cnt then Some ([u_writeDataToCache, q_updateAckCount,
       n_popResponseQueue], L1_SM_A)
     else if ev = Data_from_Dir_Ack_Cnt_Last then Some ([q_updateAckCount, u_writeDataToCache,
       w_deallocateTBE, sx_store_hit, n_popResponseQueue], L1_M)
     else if ev = Inv_Ack then Some ([q_updateAckCount, n_popResponseQueue], L1_SM_AD)
     else None)"
| "l1_transition L1_SM_A ev =
     (if ev \<in> {Load, Ifetch} then Some ([r_load_hit, m_popMandatoryQueue], L1_SM_A)
     else if ev \<in> {Store, Repl, Fwd_GetS, Fwd_GetM} then Some ([z_stall], L1_SM_A)
     else if ev = Inv_Ack then Some ([q_updateAckCount, n_popResponseQueue], L1_SM_A)
     else if ev = Inv_Ack_all then Some ([q_updateAckCount, sx_store_hit, w_deallocateTBE,
       n_popResponseQueue], L1_M)
     else None)"
| "l1_transition L1_M ev = (if ev \<in> {Load, Ifetch} then Some ([r_load_hit, m_popMandatoryQueue], L1_M)
     else if ev = Store then Some ([s_store_hit, m_popMandatoryQueue], L1_M)
     else if ev = Repl then Some ([v_allocateTBE, bm_issuePUTM, x_copyDataFromCacheToTBE], L1_MI_A)
     else if ev = Fwd_GetS then Some ([e_sendDataFromCacheToRequestor, de_sendDataFromCacheToDir,
       o_popForwardedRequestQueue], L1_S)
     else if ev = Fwd_GetM then Some ([e_sendDataFromCacheToRequestor, forward_eviction_to_cpu,
       h_deallocateL1CacheBlock, o_popForwardedRequestQueue], L1_I)
     else None)"
| "l1_transition L1_MI_A ev = (if ev \<in> {Load, Ifetch, Store, Repl} then Some ([z_stall], L1_MI_A)
     else if ev = Fwd_GetS then Some ([ee_sendDataFromTBEToRequestor, dee_sendDataFromTBEToDir,
       o_popForwardedRequestQueue], L1_SI_A)
     else if ev = Fwd_GetM then Some ([ee_sendDataFromTBEToRequestor, o_popForwardedRequestQueue], L1_II_A)
     else if ev = WB_Ack then Some ([forward_eviction_to_cpu, h_deallocateL1CacheBlock,
       w_deallocateTBE, o_popForwardedRequestQueue], L1_I)
     else None)"
| "l1_transition L1_SI_A ev = (if ev \<in> {Load, Ifetch, Store, Repl} then Some ([z_stall], L1_SI_A)
     else if ev = Inv then Some ([fi_sendInvAck, o_popForwardedRequestQueue], L1_II_A)
     else if ev = WB_Ack then Some ([forward_eviction_to_cpu, h_deallocateL1CacheBlock,
       w_deallocateTBE, o_popForwardedRequestQueue], L1_I)
     else None)"
| "l1_transition L1_II_A ev = (if ev \<in> {Load, Ifetch, Store, Repl} then Some ([z_stall], L1_II_A)
     else if ev = WB_Ack then Some ([forward_eviction_to_cpu, h_deallocateL1CacheBlock,
       w_deallocateTBE, o_popForwardedRequestQueue], L1_I)
     else None)"

text \<open>\<^verbatim>\<open>doTransition\<close> and \<^verbatim>\<open>doTransitionWorker\<close>; \<open>None\<close> in the result is \<^verbatim>\<open>TransitionResult_ProtocolStall\<close>.\<close>

fun l1_acts :: "l1_env \<Rightarrow> l1_action list \<Rightarrow> l1_slot \<Rightarrow> l1_slot res" where
  "l1_acts en [] sl = Inr sl"
| "l1_acts en (x # xs) sl = (case l1_act en x sl of Inl e \<Rightarrow> Inl e | Inr sl' \<Rightarrow> l1_acts en xs sl')"

definition l1_doTransition :: "l1_env \<Rightarrow> l1_event \<Rightarrow> l1_slot \<Rightarrow> l1_slot option res" where
  "l1_doTransition en ev sl = (case l1_transition (l1_getState sl) ev of
     None \<Rightarrow> Inl Invalid_transition
   | Some (acts, next_state) \<Rightarrow>
       if z_stall \<in> set acts then Inr None
       else (case l1_acts en acts sl of Inl e \<Rightarrow> Inl e
         | Inr sl' \<Rightarrow> Inr (Some (l1_setAccessPermission next_state (l1_setState next_state sl')))))"

section \<open>Input ports\<close>

definition l1_forward_event :: "RequestMsg \<Rightarrow> l1_event res" where
  "l1_forward_event m = (if rq_Type m = GETM then Inr Fwd_GetM
     else if rq_Type m = GETS then Inr Fwd_GetS
     else if rq_Type m = INV then Inr Inv
     else if rq_Type m = WB_ACK then Inr WB_Ack
     else Inl Slicc_error)"

definition getPendingAcks :: "l1_tbe option \<Rightarrow> int res" where
  "getPendingAcks t = need t (\<lambda>t. Inr (pendingAcks t))"

definition l1_response_event :: "l1_tbe option \<Rightarrow> ResponseMsg \<Rightarrow> l1_event res" where
  "l1_response_event t m =
     (if rs_Type m = DATA_FROM_DIR then
        if rs_AckCount m = 0 then Inr Data_from_Dir_No_Acks
        else (case getPendingAcks t of Inl e \<Rightarrow> Inl e
          | Inr p \<Rightarrow> Inr (if p - rs_AckCount m = 0 then Data_from_Dir_Ack_Cnt_Last
              else Data_from_Dir_Ack_Cnt))
      else if rs_Type m = DATA_FROM_OWNER then Inr Data_from_Owner
      else if rs_Type m = ACK then (case getPendingAcks t of Inl e \<Rightarrow> Inl e
          | Inr p \<Rightarrow> Inr (if p - rs_AckCount m = 0 then Inv_Ack_all else Inv_Ack))
      else Inl Slicc_error)"

definition mandatory_request_type_to_event :: "RubyRequestType \<Rightarrow> l1_event res" where
  "mandatory_request_type_to_event ty = (if ty = LD then Inr Load
     else if ty = IFETCH then Inr Ifetch
     else if ty = ST \<or> ty = ATOMIC then Inr Store
     else Inl Slicc_error)"

end
