(* ===== verification/Msi_Dir.thy ===== *)
theory Msi_Dir
  imports Msi_L1
begin

text \<open>
  The directory controller of the Lab 5 coherence protocol,
  \<^verbatim>\<open>src/Lab5/gem5/src/mem/protocol/MSI-dir.sm\<close>, in the form of \<^verbatim>\<open>Msi_L1\<close>: \<open>dir_transition\<close> has one
  line per \<^verbatim>\<open>transition\<close>, \<open>dir_act\<close> one equation per \<^verbatim>\<open>action\<close>.  \<^verbatim>\<open>getDirectoryEntry\<close> allocates an entry
  where there is none, so that the directory is a total map of entries.  A directory that is an array
  starts an entry on the block of the memory of the node and never removes it.  A directory that is a sparse
  map (\<open>use_map\<close>) starts an entry with a cleared block and removes it when the state becomes I, so that
  the data of the line is lost.
  The names \<^verbatim>\<open>z_stall\<close> and \<^verbatim>\<open>w_deallocateTBE\<close>, which both controllers use, have a prefix here.  The action
  \<^verbatim>\<open>qwt_queueMemoryWBRequest_partialTBE\<close> is in no transition; the source leaves the sender of its
  message unset, the model gives the directory.
\<close>

section \<open>States, events and entries\<close>

datatype MemoryRequestType = MEMORY_READ | MEMORY_WB | MEMORY_DATA | MEMORY_ACK

record MemoryMsg =
  mm_Address :: addr
  mm_Type :: MemoryRequestType
  mm_Sender :: machine
  mm_OriginalRequestorMachId :: machine
  mm_DataBlk :: blk

datatype dir_state = Dir_I | Dir_M | Dir_S | Dir_IS_MD | Dir_IM_MD | Dir_MS_OD | Dir_MS_MA | Dir_MI_MA

datatype dir_event = DE_GETM | DE_GETS | DE_PUTM | PUTM_Owner | PUTM_NotOwner | PUTS_NotLast
  | PUTS_Last | PUT_Ack | Memory_Data | Memory_Ack | Data

record msi_dir_entry =
  DirectoryState :: dir_state
  dPermission :: AccessPermission
  dDataBlk :: blk
  Sharers :: "machine set"
  Owner :: "machine set"

record dir_tbe =
  PhysicalAddress :: addr
  dTBEState :: dir_state
  dtDataBlk :: blk
  Len :: nat
  DmaRequestor :: machine

datatype dir_port = requestQueue_in | responseQueue_in | memQueue_in

record dir_slot =
  dir_entry :: msi_dir_entry
  dtbe :: "dir_tbe option"
  forwardNetwork_out :: "RequestMsg list"
  dresponseNetwork_out :: "ResponseMsg list"
  memQueue_out :: "MemoryMsg list"
  dpopped :: "dir_port list"

record dir_env =
  dversion :: nat
  daddress :: addr
  dblk0 :: blk
  block_bits :: nat
  use_map :: bool
  dtbe_room :: bool
  req_msg :: "RequestMsg option"
  drsp_msg :: "ResponseMsg option"
  mem_msg :: "MemoryMsg option"

definition dir_State_to_permission :: "dir_state \<Rightarrow> AccessPermission" where
  "dir_State_to_permission st = (case st of Dir_I \<Rightarrow> Invalid | Dir_M \<Rightarrow> Read_Write | Dir_S \<Rightarrow> Read_Only
     | _ \<Rightarrow> Busy)"

definition dir_getState :: "dir_slot \<Rightarrow> dir_state" where
  "dir_getState sl = (case dtbe sl of Some t \<Rightarrow> dTBEState t | None \<Rightarrow> DirectoryState (dir_entry sl))"

text \<open>
  The entry that \<^verbatim>\<open>getDirectoryEntry\<close> allocates where there is none: \<open>z\<close> is a cleared block, \<open>d\<close> the block of the memory.
  After \<^verbatim>\<open>invalidateBlock\<close> of a sparse map the next access to the entry, already the one by
  \<^verbatim>\<open>setAccessPermission\<close> at the end of the transition, allocates it anew.
\<close>

definition new_dir_entry :: "bool \<Rightarrow> blk \<Rightarrow> blk \<Rightarrow> msi_dir_entry" where
  "new_dir_entry um z d = \<lparr> DirectoryState = Dir_I, dPermission = (if um then Read_Write else Read_Only),
     dDataBlk = (if um then z else d), Sharers = {}, Owner = {} \<rparr>"

definition invalidateBlock :: "bool \<Rightarrow> blk \<Rightarrow> msi_dir_entry \<Rightarrow> msi_dir_entry" where
  "invalidateBlock um z e = (if um then new_dir_entry True z z else e)"

definition dir_setState :: "bool \<Rightarrow> blk \<Rightarrow> dir_state \<Rightarrow> dir_slot \<Rightarrow> dir_slot res" where
  "dir_setState um z st sl =
     (let sl = sl \<lparr> dtbe := map_option (dTBEState_update (\<lambda>_. st)) (dtbe sl) \<rparr>;
          e = dir_entry sl in
      if st = Dir_M \<and> \<not> (card (Owner e) = 1 \<and> card (Sharers e) = 0) then Inl Assertion_failed
      else if st = Dir_I then
        if card (Owner e) = 0 \<and> card (Sharers e) = 0
        then Inr (sl \<lparr> dir_entry := invalidateBlock um z (e \<lparr> DirectoryState := st \<rparr>) \<rparr>)
        else Inl Assertion_failed
      else Inr (sl \<lparr> dir_entry := e \<lparr> DirectoryState := st \<rparr> \<rparr>))"

definition dir_setAccessPermission :: "dir_state \<Rightarrow> dir_slot \<Rightarrow> dir_slot" where
  "dir_setAccessPermission st sl =
     sl \<lparr> dir_entry := dir_entry sl \<lparr> dPermission := dir_State_to_permission st \<rparr> \<rparr>"

definition copyPartial :: "blk \<Rightarrow> nat \<Rightarrow> nat \<Rightarrow> blk \<Rightarrow> blk res" where
  "copyPartial src off len dst = (if off + len \<le> length dst
     then Inr (take off dst @ take len (drop off src) @ drop (off + len) dst)
     else Inl Assertion_failed)"

definition copy_from_tbe :: "nat \<Rightarrow> dir_tbe \<Rightarrow> blk \<Rightarrow> (blk \<Rightarrow> 'a res) \<Rightarrow> 'a res" where
  "copy_from_tbe bb t dst f = need (getOffset bb (PhysicalAddress t))
     (\<lambda>off. case copyPartial (dtDataBlk t) (unat off) (Len t) dst of Inl e \<Rightarrow> Inl e | Inr d \<Rightarrow> f d)"

section \<open>Actions\<close>

datatype dir_action = kk_removeRequestSharer | ars1_addRequestorToSharers
  | ars2_addRequestorToSharers | aos_addOwnertoSharers | a_sendWriteBackAck | la_sendWriteBackAck
  | c_clearOwner | cs_clearSharers | d_sendData | ds_sendSharedData | ds2_sendSharedData
  | e_ownerIsRequestor | f_forwardRequest | i_popIncomingRequestQueue | pr_popIncomingResponseQueue
  | pl_writeDataToDirectory | pl2_writeDataToDirectory | vv_allocateTBEFromRequestNet
  | dw_deallocateTBE | dz_stall | qf_queueMemoryFetchRequest | qwt_queueMemoryWBRequest_partialTBE
  | lq_queueMemoryWBRequest | lq2_queueMemoryWBRequest | qm_popMemQueue
  | w_writeDataToDirectoryFromTBE | fwm_sendFwdInvToSharersMinusRequestor

definition upd_entry :: "(msi_dir_entry \<Rightarrow> msi_dir_entry) \<Rightarrow> dir_slot \<Rightarrow> dir_slot" where
  "upd_entry f sl = sl \<lparr> dir_entry := f (dir_entry sl) \<rparr>"

definition dir_forward :: "dir_env \<Rightarrow> CoherenceRequestType \<Rightarrow> machine \<Rightarrow> machine set \<Rightarrow> dir_slot \<Rightarrow> dir_slot" where
  "dir_forward en ty r dst sl = sl \<lparr> forwardNetwork_out := forwardNetwork_out sl @
     [\<lparr> rq_Address = daddress en, rq_Type = ty, rq_Requestor = r, rq_Destination = dst,
        rq_DataBlk = dblk0 en \<rparr>] \<rparr>"

definition dir_data :: "dir_env \<Rightarrow> machine \<Rightarrow> blk \<Rightarrow> int \<Rightarrow> dir_slot \<Rightarrow> dir_slot" where
  "dir_data en dst d n sl = sl \<lparr> dresponseNetwork_out := dresponseNetwork_out sl @
     [\<lparr> rs_Address = daddress en, rs_Type = DATA_FROM_DIR, rs_Sender = Directory (dversion en),
        rs_Destination = {dst}, rs_DataBlk = d, rs_AckCount = n \<rparr>] \<rparr>"

definition dir_memory :: "dir_env \<Rightarrow> MemoryRequestType \<Rightarrow> machine \<Rightarrow> blk \<Rightarrow> dir_slot \<Rightarrow> dir_slot" where
  "dir_memory en ty r d sl = sl \<lparr> memQueue_out := memQueue_out sl @
     [\<lparr> mm_Address = daddress en, mm_Type = ty, mm_Sender = Directory (dversion en),
        mm_OriginalRequestorMachId = r, mm_DataBlk = d \<rparr>] \<rparr>"

definition dpop :: "dir_port \<Rightarrow> dir_slot \<Rightarrow> dir_slot" where
  "dpop p sl = sl \<lparr> dpopped := dpopped sl @ [p] \<rparr>"

fun dir_act :: "dir_env \<Rightarrow> dir_action \<Rightarrow> dir_slot \<Rightarrow> dir_slot res" where
  "dir_act en kk_removeRequestSharer sl = need (req_msg en)
     (\<lambda>m. Inr (upd_entry (Sharers_update (\<lambda>s. s - {rq_Requestor m})) sl))"
| "dir_act en ars1_addRequestorToSharers sl = need (mem_msg en)
     (\<lambda>m. Inr (upd_entry (Sharers_update (insert (mm_OriginalRequestorMachId m))) sl))"
| "dir_act en ars2_addRequestorToSharers sl = need (req_msg en)
     (\<lambda>m. Inr (upd_entry (Sharers_update (insert (rq_Requestor m))) sl))"
| "dir_act en aos_addOwnertoSharers sl = need (req_msg en)
     (\<lambda>m. Inr (upd_entry (\<lambda>e. e \<lparr> Sharers := Sharers e \<union> Owner e \<rparr>) sl))"
| "dir_act en a_sendWriteBackAck sl = need (req_msg en)
     (\<lambda>m. Inr (dir_forward en WB_ACK (Directory (dversion en)) {rq_Requestor m} sl))"
| "dir_act en la_sendWriteBackAck sl = need (mem_msg en)
     (\<lambda>m. Inr (dir_forward en WB_ACK (mm_OriginalRequestorMachId m) {mm_OriginalRequestorMachId m} sl))"
| "dir_act en c_clearOwner sl = Inr (upd_entry (Owner_update (\<lambda>_. {})) sl)"
| "dir_act en cs_clearSharers sl = Inr (upd_entry (Sharers_update (\<lambda>_. {})) sl)"
| "dir_act en d_sendData sl = need (mem_msg en)
     (\<lambda>m. Inr (dir_data en (mm_OriginalRequestorMachId m) (mm_DataBlk m) 0 sl))"
| "dir_act en ds_sendSharedData sl = need (req_msg en)
     (\<lambda>m. Inr (dir_data en (rq_Requestor m) (dDataBlk (dir_entry sl)) 0 sl))"
| "dir_act en ds2_sendSharedData sl = need (req_msg en)
     (\<lambda>m. let sh = Sharers (dir_entry sl) in
       Inr (dir_data en (rq_Requestor m) (dDataBlk (dir_entry sl))
         (if rq_Requestor m \<in> sh then 1 - int (card sh) else 0 - int (card sh)) sl))"
| "dir_act en e_ownerIsRequestor sl = need (req_msg en)
     (\<lambda>m. Inr (upd_entry (Owner_update (\<lambda>_. {rq_Requestor m})) sl))"
| "dir_act en f_forwardRequest sl = need (req_msg en)
     (\<lambda>m. Inr (dir_forward en (rq_Type m) (rq_Requestor m) (Owner (dir_entry sl)) sl))"
| "dir_act en i_popIncomingRequestQueue sl = Inr (dpop requestQueue_in sl)"
| "dir_act en pr_popIncomingResponseQueue sl = Inr (dpop responseQueue_in sl)"
| "dir_act en pl_writeDataToDirectory sl = need (req_msg en)
     (\<lambda>m. Inr (upd_entry (dDataBlk_update (\<lambda>_. rq_DataBlk m)) sl))"
| "dir_act en pl2_writeDataToDirectory sl = need (drsp_msg en)
     (\<lambda>m. Inr (upd_entry (dDataBlk_update (\<lambda>_. rs_DataBlk m)) sl))"
| "dir_act en vv_allocateTBEFromRequestNet sl = need (req_msg en)
     (\<lambda>m. if dtbe sl \<noteq> None then Inl Assertion_failed
       else if \<not> dtbe_room en then Inl TBETable_full
       else Inr (sl \<lparr> dtbe := Some \<lparr> PhysicalAddress = 0, dTBEState = Dir_I,
              dtDataBlk = rq_DataBlk m, Len = 0, DmaRequestor = L1Cache 0 \<rparr> \<rparr>))"
| "dir_act en dw_deallocateTBE sl = (if dtbe sl = None then Inl Assertion_failed
     else Inr (sl \<lparr> dtbe := None \<rparr>))"
| "dir_act en dz_stall sl = Inr sl"
| "dir_act en qf_queueMemoryFetchRequest sl = need (req_msg en)
     (\<lambda>m. Inr (dir_memory en MEMORY_READ (rq_Requestor m) (dDataBlk (dir_entry sl)) sl))"
| "dir_act en qwt_queueMemoryWBRequest_partialTBE sl = need (req_msg en) (\<lambda>m. need (dtbe sl)
     (\<lambda>t. copy_from_tbe (block_bits en) t (dblk0 en)
        (\<lambda>d. Inr (dir_memory en MEMORY_WB (rq_Requestor m) d sl))))"
| "dir_act en lq_queueMemoryWBRequest sl = need (req_msg en)
     (\<lambda>m. Inr (dir_memory en MEMORY_WB (rq_Requestor m) (rq_DataBlk m) sl))"
| "dir_act en lq2_queueMemoryWBRequest sl = need (drsp_msg en)
     (\<lambda>m. Inr (dir_memory en MEMORY_WB (rs_Sender m) (rs_DataBlk m) sl))"
| "dir_act en qm_popMemQueue sl = Inr (dpop memQueue_in sl)"
| "dir_act en w_writeDataToDirectoryFromTBE sl = need (dtbe sl)
     (\<lambda>t. copy_from_tbe (block_bits en) t (dDataBlk (dir_entry sl))
        (\<lambda>d. Inr (upd_entry (dDataBlk_update (\<lambda>_. d)) sl)))"
| "dir_act en fwm_sendFwdInvToSharersMinusRequestor sl = need (req_msg en)
     (\<lambda>m. Inr (dir_forward en INV (rq_Requestor m) (Sharers (dir_entry sl) - {rq_Requestor m}) sl))"

section \<open>Transitions\<close>

fun dir_transition :: "dir_state \<Rightarrow> dir_event \<Rightarrow> (dir_action list \<times> dir_state) option" where
  "dir_transition Dir_I ev = (if ev = DE_GETS then Some ([vv_allocateTBEFromRequestNet,
       ars2_addRequestorToSharers, qf_queueMemoryFetchRequest, i_popIncomingRequestQueue], Dir_IS_MD)
     else if ev = DE_GETM then Some ([vv_allocateTBEFromRequestNet, e_ownerIsRequestor,
       qf_queueMemoryFetchRequest, i_popIncomingRequestQueue], Dir_IM_MD)
     else if ev \<in> {PUTS_NotLast, PUTS_Last, PUTM_NotOwner} then Some ([a_sendWriteBackAck,
       i_popIncomingRequestQueue], Dir_I)
     else None)"
| "dir_transition Dir_IS_MD ev = (if ev = Memory_Data then Some ([d_sendData,
       w_writeDataToDirectoryFromTBE, dw_deallocateTBE, qm_popMemQueue], Dir_S)
     else if ev \<in> {DE_GETS, DE_GETM, PUTM_NotOwner, PUTS_Last, PUTS_NotLast}
       then Some ([dz_stall], Dir_IS_MD)
     else None)"
| "dir_transition Dir_S ev = (if ev = DE_GETS then Some ([ds_sendSharedData,
       ars2_addRequestorToSharers, i_popIncomingRequestQueue], Dir_S)
     else if ev = DE_GETM then Some ([ds2_sendSharedData, fwm_sendFwdInvToSharersMinusRequestor,
       cs_clearSharers, e_ownerIsRequestor, i_popIncomingRequestQueue], Dir_M)
     else if ev \<in> {PUTS_NotLast, PUTM_NotOwner} then Some ([kk_removeRequestSharer,
       a_sendWriteBackAck, i_popIncomingRequestQueue], Dir_S)
     else if ev = PUTS_Last then Some ([kk_removeRequestSharer, a_sendWriteBackAck,
       i_popIncomingRequestQueue], Dir_I)
     else None)"
| "dir_transition Dir_IM_MD ev = (if ev = Memory_Data then Some ([d_sendData,
       w_writeDataToDirectoryFromTBE, dw_deallocateTBE, qm_popMemQueue], Dir_M)
     else if ev \<in> {DE_GETS, DE_GETM, PUTM_NotOwner, PUTS_Last, PUTS_NotLast}
       then Some ([dz_stall], Dir_IM_MD)
     else None)"
| "dir_transition Dir_M ev = (if ev = DE_GETS then Some ([vv_allocateTBEFromRequestNet,
       f_forwardRequest, aos_addOwnertoSharers, ars2_addRequestorToSharers, c_clearOwner,
       i_popIncomingRequestQueue], Dir_MS_OD)
     else if ev = DE_GETM then Some ([f_forwardRequest, c_clearOwner, e_ownerIsRequestor,
       i_popIncomingRequestQueue], Dir_M)
     else if ev \<in> {PUTS_NotLast, PUTS_Last, PUTM_NotOwner} then Some ([a_sendWriteBackAck,
       i_popIncomingRequestQueue], Dir_M)
     else if ev = PUTM_Owner then Some ([vv_allocateTBEFromRequestNet, lq_queueMemoryWBRequest,
       pl_writeDataToDirectory, i_popIncomingRequestQueue], Dir_MI_MA)
     else None)"
| "dir_transition Dir_MS_OD ev = (if ev = Data then Some ([lq2_queueMemoryWBRequest,
       pl2_writeDataToDirectory, pr_popIncomingResponseQueue], Dir_MS_MA)
     else if ev \<in> {DE_GETS, DE_GETM, PUTS_Last} then Some ([dz_stall], Dir_MS_OD)
     else if ev \<in> {PUTS_NotLast, PUTM_NotOwner, PUTM_Owner} then Some ([kk_removeRequestSharer,
       a_sendWriteBackAck, i_popIncomingRequestQueue], Dir_MS_OD)
     else None)"
| "dir_transition Dir_MS_MA ev = (if ev = Memory_Ack then Some ([dw_deallocateTBE, c_clearOwner,
       qm_popMemQueue], Dir_S)
     else if ev \<in> {DE_GETS, DE_GETM, PUTS_Last} then Some ([dz_stall], Dir_MS_MA)
     else if ev \<in> {PUTS_NotLast, PUTM_NotOwner, PUTM_Owner} then Some ([kk_removeRequestSharer,
       a_sendWriteBackAck, i_popIncomingRequestQueue], Dir_MS_MA)
     else None)"
| "dir_transition Dir_MI_MA ev = (if ev = Memory_Ack then Some ([la_sendWriteBackAck,
       dw_deallocateTBE, c_clearOwner, qm_popMemQueue], Dir_I)
     else if ev \<in> {DE_GETS, DE_GETM, PUTS_Last} then Some ([dz_stall], Dir_MI_MA)
     else if ev \<in> {PUTM_NotOwner, PUTS_NotLast} then Some ([kk_removeRequestSharer,
       a_sendWriteBackAck, i_popIncomingRequestQueue], Dir_MI_MA)
     else None)"

fun dir_acts :: "dir_env \<Rightarrow> dir_action list \<Rightarrow> dir_slot \<Rightarrow> dir_slot res" where
  "dir_acts en [] sl = Inr sl"
| "dir_acts en (x # xs) sl = (case dir_act en x sl of Inl e \<Rightarrow> Inl e | Inr sl' \<Rightarrow> dir_acts en xs sl')"

definition dir_doTransition :: "dir_env \<Rightarrow> dir_event \<Rightarrow> dir_slot \<Rightarrow> dir_slot option res" where
  "dir_doTransition en ev sl = (case dir_transition (dir_getState sl) ev of
     None \<Rightarrow> Inl Invalid_transition
   | Some (acts, next_state) \<Rightarrow>
       if dz_stall \<in> set acts then Inr None
       else (case dir_acts en acts sl of Inl e \<Rightarrow> Inl e
         | Inr sl' \<Rightarrow> (case dir_setState (use_map en) (dblk0 en) next_state sl' of Inl e \<Rightarrow> Inl e
             | Inr sl'' \<Rightarrow> Inr (Some (dir_setAccessPermission next_state sl'')))))"

section \<open>Input ports\<close>

definition dir_response_event :: "ResponseMsg \<Rightarrow> dir_event res" where
  "dir_response_event m = (if rs_Type m = DATA then Inr Data else Inl Slicc_error)"

definition dir_request_event :: "msi_dir_entry \<Rightarrow> RequestMsg \<Rightarrow> dir_event res" where
  "dir_request_event e m = (if rq_Type m = GETS then Inr DE_GETS
     else if rq_Type m = GETM then Inr DE_GETM
     else if rq_Type m = PUTM then
       Inr (if rq_Requestor m \<in> Owner e then PUTM_Owner else PUTM_NotOwner)
     else if rq_Type m = PUTS then
       Inr (if card (Sharers e) < 2 \<and> rq_Requestor m \<in> Sharers e then PUTS_Last else PUTS_NotLast)
     else Inl Slicc_error)"

definition dir_memory_event :: "MemoryMsg \<Rightarrow> dir_event res" where
  "dir_memory_event m = (if mm_Type m = MEMORY_READ then Inr Memory_Data
     else if mm_Type m = MEMORY_WB then Inr Memory_Ack
     else Inl Slicc_error)"

end
