(* ===== verification/Msi_Line.thy ===== *)
theory Msi_Line
  imports Msi_Dir "HOL-Library.Multiset"
begin

text \<open>
  What the protocol is meant to do for one line: an abstract machine that has only the data a
  state needs (\<open>acache\<close>) and the messages that are under way, with the current value of the line
  as a specification variable.  \<open>aline_inv\<close> is its inductive invariant.  It says where the right
  to write is (at the directory, on its way there, or at one cache), what every cache that waits
  is waiting for, and that the acknowledgements a writer waits for are exactly the invalidations
  and acknowledgements under way.  \<^verbatim>\<open>Msi_Refine\<close> shows that the two controllers implement it.
\<close>

section \<open>The abstract machine\<close>

datatype acache = A_I | A_S blk | A_M blk | A_ISD | A_IMAD int | A_IMA int blk | A_SMAD int blk
  | A_SMA int blk | A_MIA blk | A_SIA | A_IIA

datatype areq = GetS | GetM | PutS | PutM blk
datatype afwd = FwdS nat | FwdM nat | is_FInv: FInv nat | FWb
datatype adata = FromDir int blk | FromOwner blk
datatype amem = MRead nat blk | MWb nat

record aline =
  caches :: "nat \<Rightarrow> acache"
  reqs :: "nat \<Rightarrow> areq multiset"
  fwds :: "nat \<Rightarrow> afwd list"
  datas :: "nat \<Rightarrow> adata multiset"
  acks :: "nat \<Rightarrow> nat"
  tohome :: "blk multiset"
  mems :: "amem multiset"
  dstate :: dir_state
  ddata :: blk
  sharers :: "nat set"
  owners :: "nat set"
  val :: blk

fun data_of :: "adata \<Rightarrow> blk" where
  "data_of (FromDir n d) = d"
| "data_of (FromOwner d) = d"

fun ackc :: "adata \<Rightarrow> int" where
  "ackc (FromDir n d) = n"
| "ackc (FromOwner d) = 0"

fun pend :: "acache \<Rightarrow> int" where
  "pend (A_IMAD p) = p"
| "pend (A_IMA p d) = p"
| "pend (A_SMAD p d) = p"
| "pend (A_SMA p d) = p"
| "pend _ = 0"

fun set_pend :: "acache \<Rightarrow> int \<Rightarrow> acache" where
  "set_pend (A_IMAD p) n = A_IMAD n"
| "set_pend (A_IMA p d) n = A_IMA n d"
| "set_pend (A_SMAD p d) n = A_SMAD n d"
| "set_pend (A_SMA p d) n = A_SMA n d"
| "set_pend k n = k"

definition waits_data :: "acache \<Rightarrow> bool" where
  "waits_data k = (\<exists>p d. k = A_IMAD p \<or> k = A_SMAD p d)"

definition waits_acks :: "acache \<Rightarrow> bool" where
  "waits_acks k = (\<exists>p d. k = A_IMA p d \<or> k = A_SMA p d)"

definition leaving :: "acache \<Rightarrow> bool" where
  "leaving k = (k = A_SIA \<or> k = A_IIA \<or> (\<exists>d. k = A_MIA d))"

definition post :: "(nat \<Rightarrow> 'a list) \<Rightarrow> nat set \<Rightarrow> 'a \<Rightarrow> nat \<Rightarrow> 'a list" where
  "post F B f = (\<lambda>b. if b \<in> B then F b @ [f] else F b)"

inductive cache_step :: "aline \<Rightarrow> aline \<Rightarrow> bool" where
  load_miss: "caches s c = A_I \<Longrightarrow>
    cache_step s (s \<lparr> caches := (caches s)(c := A_ISD), reqs := (reqs s)(c := add_mset GetS (reqs s c)) \<rparr>)"
| store_miss: "caches s c = A_I \<Longrightarrow>
    cache_step s (s \<lparr> caches := (caches s)(c := A_IMAD 0), reqs := (reqs s)(c := add_mset GetM (reqs s c)) \<rparr>)"
| upgrade: "caches s c = A_S d \<Longrightarrow>
    cache_step s (s \<lparr> caches := (caches s)(c := A_SMAD 0 d), reqs := (reqs s)(c := add_mset GetM (reqs s c)) \<rparr>)"
| replace_S: "caches s c = A_S d \<Longrightarrow>
    cache_step s (s \<lparr> caches := (caches s)(c := A_SIA), reqs := (reqs s)(c := add_mset PutS (reqs s c)) \<rparr>)"
| replace_M: "caches s c = A_M d \<Longrightarrow>
    cache_step s (s \<lparr> caches := (caches s)(c := A_MIA d), reqs := (reqs s)(c := add_mset (PutM d) (reqs s c)) \<rparr>)"
| store_hit: "caches s c = A_M d \<Longrightarrow>
    cache_step s (s \<lparr> caches := (caches s)(c := A_M d'), val := d' \<rparr>)"
| invalidate: "\<lbrakk> fwds s c = FInv r # F;
      caches s c = A_S d \<and> k = A_I \<or> caches s c = A_SMAD p d \<and> k = A_IMAD p \<or> caches s c = A_SIA \<and> k = A_IIA \<rbrakk> \<Longrightarrow>
    cache_step s (s \<lparr> caches := (caches s)(c := k), fwds := (fwds s)(c := F), acks := (acks s)(r := Suc (acks s r)) \<rparr>)"
| share: "\<lbrakk> fwds s c = FwdS r # F; caches s c = A_M d \<and> k = A_S d \<or> caches s c = A_MIA d \<and> k = A_SIA \<rbrakk> \<Longrightarrow>
    cache_step s (s \<lparr> caches := (caches s)(c := k), fwds := (fwds s)(c := F),
      datas := (datas s)(r := add_mset (FromOwner d) (datas s r)), tohome := add_mset d (tohome s) \<rparr>)"
| hand_over: "\<lbrakk> fwds s c = FwdM r # F; caches s c = A_M d \<and> k = A_I \<or> caches s c = A_MIA d \<and> k = A_IIA \<rbrakk> \<Longrightarrow>
    cache_step s (s \<lparr> caches := (caches s)(c := k), fwds := (fwds s)(c := F),
      datas := (datas s)(r := add_mset (FromOwner d) (datas s r)) \<rparr>)"
| written_back: "\<lbrakk> fwds s c = FWb # F; leaving (caches s c) \<rbrakk> \<Longrightarrow>
    cache_step s (s \<lparr> caches := (caches s)(c := A_I), fwds := (fwds s)(c := F) \<rparr>)"
| fill_S: "\<lbrakk> caches s c = A_ISD; x \<in># datas s c; ackc x = 0 \<rbrakk> \<Longrightarrow>
    cache_step s (s \<lparr> caches := (caches s)(c := A_S (data_of x)), datas := (datas s)(c := datas s c - {#x#}) \<rparr>)"
| fill_M: "\<lbrakk> waits_data (caches s c); x \<in># datas s c; ackc x = 0 \<or> pend (caches s c) = ackc x \<rbrakk> \<Longrightarrow>
    cache_step s (s \<lparr> caches := (caches s)(c := A_M d'), datas := (datas s)(c := datas s c - {#x#}), val := d' \<rparr>)"
| fill_acks: "\<lbrakk> caches s c = A_IMAD p \<and> k = A_IMA (p - n) d \<or> caches s c = A_SMAD p d0 \<and> k = A_SMA (p - n) d;
      FromDir n d \<in># datas s c; n \<noteq> 0; p \<noteq> n \<rbrakk> \<Longrightarrow>
    cache_step s (s \<lparr> caches := (caches s)(c := k), datas := (datas s)(c := datas s c - {#FromDir n d#}) \<rparr>)"
| ack: "\<lbrakk> waits_data (caches s c) \<or> waits_acks (caches s c); 0 < acks s c; pend (caches s c) \<noteq> 1 \<rbrakk> \<Longrightarrow>
    cache_step s (s \<lparr> caches := (caches s)(c := set_pend (caches s c) (pend (caches s c) - 1)),
      acks := (acks s)(c := acks s c - 1) \<rparr>)"
| last_ack: "\<lbrakk> waits_acks (caches s c); 0 < acks s c; pend (caches s c) = 1 \<rbrakk> \<Longrightarrow>
    cache_step s (s \<lparr> caches := (caches s)(c := A_M d'), acks := (acks s)(c := acks s c - 1), val := d' \<rparr>)"

inductive home_step :: "aline \<Rightarrow> aline \<Rightarrow> bool" where
  gets_I: "\<lbrakk> dstate s = Dir_I; GetS \<in># reqs s c \<rbrakk> \<Longrightarrow>
    home_step s (s \<lparr> dstate := Dir_IS_MD, reqs := (reqs s)(c := reqs s c - {#GetS#}),
      sharers := insert c (sharers s), mems := add_mset (MRead c (ddata s)) (mems s) \<rparr>)"
| getm_I: "\<lbrakk> dstate s = Dir_I; GetM \<in># reqs s c \<rbrakk> \<Longrightarrow>
    home_step s (s \<lparr> dstate := Dir_IM_MD, reqs := (reqs s)(c := reqs s c - {#GetM#}),
      owners := {c}, mems := add_mset (MRead c (ddata s)) (mems s) \<rparr>)"
| gets_S: "\<lbrakk> dstate s = Dir_S; GetS \<in># reqs s c \<rbrakk> \<Longrightarrow>
    home_step s (s \<lparr> reqs := (reqs s)(c := reqs s c - {#GetS#}), sharers := insert c (sharers s),
      datas := (datas s)(c := add_mset (FromDir 0 (ddata s)) (datas s c)) \<rparr>)"
| getm_S: "\<lbrakk> dstate s = Dir_S; GetM \<in># reqs s c \<rbrakk> \<Longrightarrow>
    home_step s (s \<lparr> dstate := Dir_M, reqs := (reqs s)(c := reqs s c - {#GetM#}), sharers := {}, owners := {c},
      datas := (datas s)(c := add_mset (FromDir (- int (card (sharers s - {c}))) (ddata s)) (datas s c)),
      fwds := post (fwds s) (sharers s - {c}) (FInv c) \<rparr>)"
| gets_M: "\<lbrakk> dstate s = Dir_M; GetS \<in># reqs s c \<rbrakk> \<Longrightarrow>
    home_step s (s \<lparr> dstate := Dir_MS_OD, reqs := (reqs s)(c := reqs s c - {#GetS#}),
      sharers := insert c (sharers s \<union> owners s), owners := {}, fwds := post (fwds s) (owners s) (FwdS c) \<rparr>)"
| getm_M: "\<lbrakk> dstate s = Dir_M; GetM \<in># reqs s c \<rbrakk> \<Longrightarrow>
    home_step s (s \<lparr> reqs := (reqs s)(c := reqs s c - {#GetM#}), owners := {c},
      fwds := post (fwds s) (owners s) (FwdM c) \<rparr>)"
| put: "\<lbrakk> x \<in># reqs s c; x = PutS \<or> x = PutM d \<and> c \<notin> owners s;
      dstate s \<notin> {Dir_IS_MD, Dir_IM_MD}; ds = dstate s \<or> dstate s = Dir_S \<and> ds = Dir_I \<and> sharers s - {c} = {};
      sh = sharers s - {c} \<rbrakk> \<Longrightarrow>
    home_step s (s \<lparr> dstate := ds, reqs := (reqs s)(c := reqs s c - {#x#}), sharers := sh,
      fwds := post (fwds s) {c} FWb \<rparr>)"
| put_owner: "\<lbrakk> dstate s = Dir_M; PutM d \<in># reqs s c; c \<in> owners s \<rbrakk> \<Longrightarrow>
    home_step s (s \<lparr> dstate := Dir_MI_MA, reqs := (reqs s)(c := reqs s c - {#PutM d#}), ddata := d,
      mems := add_mset (MWb c) (mems s) \<rparr>)"
| mem_S: "\<lbrakk> dstate s = Dir_IS_MD; MRead r d \<in># mems s \<rbrakk> \<Longrightarrow>
    home_step s (s \<lparr> dstate := Dir_S, mems := mems s - {#MRead r d#},
      datas := (datas s)(r := add_mset (FromDir 0 d) (datas s r)) \<rparr>)"
| mem_M: "\<lbrakk> dstate s = Dir_IM_MD; MRead r d \<in># mems s \<rbrakk> \<Longrightarrow>
    home_step s (s \<lparr> dstate := Dir_M, mems := mems s - {#MRead r d#},
      datas := (datas s)(r := add_mset (FromDir 0 d) (datas s r)) \<rparr>)"
| owner_data: "\<lbrakk> dstate s = Dir_MS_OD; d \<in># tohome s \<rbrakk> \<Longrightarrow>
    home_step s (s \<lparr> dstate := Dir_MS_MA, tohome := tohome s - {#d#}, ddata := d,
      mems := add_mset (MWb r) (mems s) \<rparr>)"
| wb_done_S: "\<lbrakk> dstate s = Dir_MS_MA; MWb r \<in># mems s \<rbrakk> \<Longrightarrow>
    home_step s (s \<lparr> dstate := Dir_S, mems := mems s - {#MWb r#}, owners := {} \<rparr>)"
| wb_done_I: "\<lbrakk> dstate s = Dir_MI_MA; MWb r \<in># mems s \<rbrakk> \<Longrightarrow>
    home_step s (s \<lparr> dstate := Dir_I, mems := mems s - {#MWb r#}, owners := {},
      fwds := post (fwds s) {r} FWb \<rparr>)"

section \<open>The invariant\<close>

datatype place = Home | ToHome | At nat
datatype source = Unneeded | Unsent | Memory | Owed nat | Arrived

text \<open>
  The ghosts of the invariant: where the right to write is, what each cache that waits for data
  waits for, and the cache that has the request of a reader to answer.
\<close>

record ghost =
  place :: place
  source :: "nat \<Rightarrow> source"
  sharing :: "nat option"

definition tail_ok :: "aline \<Rightarrow> nat \<Rightarrow> afwd list \<Rightarrow> bool" where
  "tail_ok s c F = (F = [] \<and> dstate s = Dir_M \<and> owners s = {c} \<and> c \<notin> sharers s
     \<or> (\<exists>r. F = [FwdM r]) \<and> c \<notin> owners s \<and> c \<notin> sharers s
     \<or> (\<exists>r. F = [FwdS r]) \<and> c \<notin> owners s \<and> c \<in> sharers s \<and> dstate s = Dir_MS_OD)"

definition share_ok :: "aline \<Rightarrow> place \<Rightarrow> nat \<Rightarrow> afwd list \<Rightarrow> bool" where
  "share_ok s t c F = (c \<notin> owners s \<and> (F = [] \<and> c \<in> sharers s \<and> (\<forall>h. t \<noteq> At h) \<and> dstate s \<noteq> Dir_IS_MD
     \<or> (\<exists>r. F = [FInv r]) \<and> c \<notin> sharers s))"

definition away :: "aline \<Rightarrow> place \<Rightarrow> nat \<Rightarrow> bool" where
  "away s t c = (c \<notin> sharers s \<and> c \<notin> owners s \<and> t \<noteq> At c)"

fun cache_ok :: "aline \<Rightarrow> place \<Rightarrow> nat \<Rightarrow> acache \<Rightarrow> source \<Rightarrow> areq multiset \<Rightarrow> afwd list
    \<Rightarrow> adata multiset \<Rightarrow> bool" where
  "cache_ok s t c A_I g R F D = (g = Unneeded \<and> R = {#} \<and> F = [] \<and> D = {#} \<and> away s t c)"
| "cache_ok s t c (A_S d) g R F D = (g = Unneeded \<and> R = {#} \<and> D = {#} \<and> d = val s \<and> t \<noteq> At c \<and> share_ok s t c F)"
| "cache_ok s t c (A_M d) g R F D = (g = Unneeded \<and> R = {#} \<and> D = {#} \<and> d = val s \<and> t = At c \<and> tail_ok s c F)"
| "cache_ok s t c A_ISD g R F D = (t \<noteq> At c \<and> (case g of
     Unsent \<Rightarrow> R = {#GetS#} \<and> F = [] \<and> D = {#} \<and> away s t c
   | Memory \<Rightarrow> R = {#} \<and> F = [] \<and> D = {#} \<and> c \<in> sharers s \<and> c \<notin> owners s \<and> dstate s = Dir_IS_MD
   | Owed b \<Rightarrow> R = {#} \<and> F = [] \<and> D = {#} \<and> c \<in> sharers s \<and> c \<notin> owners s \<and> dstate s = Dir_MS_OD
   | Arrived \<Rightarrow> R = {#} \<and> (D = {#FromDir 0 (val s)#} \<or> D = {#FromOwner (val s)#}) \<and> share_ok s t c F
   | Unneeded \<Rightarrow> False))"
| "cache_ok s t c (A_IMAD p) g R F D = (p \<le> 0 \<and> (case g of
     Unsent \<Rightarrow> R = {#GetM#} \<and> F = [] \<and> D = {#} \<and> away s t c
   | Memory \<Rightarrow> R = {#} \<and> F = [] \<and> D = {#} \<and> t \<noteq> At c \<and> owners s = {c} \<and> dstate s = Dir_IM_MD
   | Owed b \<Rightarrow> R = {#} \<and> D = {#} \<and> t \<noteq> At c \<and> tail_ok s c F
   | Arrived \<Rightarrow> R = {#} \<and> ((\<exists>n\<le>0. D = {#FromDir n (val s)#}) \<or> D = {#FromOwner (val s)#}) \<and> t = At c \<and> tail_ok s c F
   | Unneeded \<Rightarrow> False))"
| "cache_ok s t c (A_SMAD p d) g R F D = (p \<le> 0 \<and> d = val s \<and> (case g of
     Unsent \<Rightarrow> R = {#GetM#} \<and> D = {#} \<and> t \<noteq> At c \<and> share_ok s t c F
   | Owed b \<Rightarrow> R = {#} \<and> D = {#} \<and> t \<noteq> At c \<and> (\<exists>r F'. F = FInv r # F' \<and> tail_ok s c F')
   | Arrived \<Rightarrow> R = {#} \<and> (\<exists>n\<le>0. D = {#FromDir n (val s)#}) \<and> t = At c \<and> tail_ok s c F
   | _ \<Rightarrow> False))"
| "cache_ok s t c (A_IMA p d) g R F D = (g = Unneeded \<and> R = {#} \<and> D = {#} \<and> d = val s \<and> t = At c \<and> tail_ok s c F)"
| "cache_ok s t c (A_SMA p d) g R F D = (g = Unneeded \<and> R = {#} \<and> D = {#} \<and> d = val s \<and> t = At c \<and> tail_ok s c F)"
| "cache_ok s t c (A_MIA d) g R F D = (g = Unneeded \<and> D = {#} \<and>
     (R = {#PutM d#} \<and> d = val s \<and> t = At c \<and> tail_ok s c F
    \<or> R = {#} \<and> d = val s \<and> t = At c \<and> c \<notin> sharers s \<and> c \<notin> owners s
        \<and> (\<exists>r. F = [FwdM r, FWb] \<or> F = [FwdS r, FWb] \<and> dstate s = Dir_MS_OD)
    \<or> R = {#} \<and> F = [] \<and> t \<noteq> At c \<and> dstate s = Dir_MI_MA \<and> owners s = {c}
    \<or> R = {#} \<and> F = [FWb] \<and> away s t c))"
| "cache_ok s t c A_SIA g R F D = (g = Unneeded \<and> D = {#} \<and> t \<noteq> At c \<and>
     ((\<exists>x. R = {#x#} \<and> (x = PutS \<or> (\<exists>d. x = PutM d))) \<and> share_ok s t c F
    \<or> R = {#} \<and> away s t c \<and> (F = [FWb] \<or> (\<exists>r. F = [FInv r, FWb]))))"
| "cache_ok s t c A_IIA g R F D = (g = Unneeded \<and> D = {#} \<and> away s t c \<and>
     ((\<exists>x. R = {#x#} \<and> (x = PutS \<or> (\<exists>d. x = PutM d))) \<and> F = [] \<or> R = {#} \<and> F = [FWb]))"

definition home_ok :: "aline \<Rightarrow> place \<Rightarrow> bool" where
  "home_ok s t = ((t = Home) = (dstate s \<notin> {Dir_M, Dir_MS_OD}) \<and> (t = ToHome \<longrightarrow> dstate s = Dir_MS_OD)
     \<and> tohome s = (if t = ToHome then {#val s#} else {#}) \<and> (t = Home \<longrightarrow> ddata s = val s)
     \<and> finite (sharers s)
     \<and> (case dstate s of
          Dir_I \<Rightarrow> sharers s = {} \<and> owners s = {} \<and> mems s = {#}
        | Dir_S \<Rightarrow> owners s = {} \<and> mems s = {#}
        | Dir_M \<Rightarrow> sharers s = {} \<and> (\<exists>c. owners s = {c}) \<and> mems s = {#}
        | Dir_IS_MD \<Rightarrow> owners s = {} \<and> (\<exists>r. sharers s = {r} \<and> mems s = {#MRead r (val s)#})
        | Dir_IM_MD \<Rightarrow> sharers s = {} \<and> (\<exists>r. owners s = {r} \<and> mems s = {#MRead r (val s)#})
        | Dir_MS_OD \<Rightarrow> owners s = {} \<and> mems s = {#}
        | Dir_MS_MA \<Rightarrow> owners s = {} \<and> (\<exists>r. mems s = {#MWb r#})
        | Dir_MI_MA \<Rightarrow> sharers s = {} \<and> (\<exists>r. owners s = {r} \<and> mems s = {#MWb r#})))"

fun fwd_ok :: "aline \<Rightarrow> ghost \<Rightarrow> nat \<Rightarrow> afwd \<Rightarrow> bool" where
  "fwd_ok s gh b (FwdS r) = (source gh r = Owed b \<and> caches s r = A_ISD \<and> sharing gh = Some b)"
| "fwd_ok s gh b (FwdM r) = (source gh r = Owed b \<and> waits_data (caches s r))"
| "fwd_ok s gh b (FInv r) = (place gh = At r)"
| "fwd_ok s gh b FWb = True"

fun has_inv :: "afwd list \<Rightarrow> bool" where
  "has_inv [] = False"
| "has_inv (FInv r # F) = True"
| "has_inv (f # F) = has_inv F"

definition invs :: "aline \<Rightarrow> nat set" where
  "invs s = {b. has_inv (fwds s b)}"

definition awaited :: "acache \<Rightarrow> adata multiset \<Rightarrow> int" where
  "awaited k D = pend k - (\<Sum>x\<in>#D. ackc x)"

definition acks_ok :: "aline \<Rightarrow> place \<Rightarrow> bool" where
  "acks_ok s t = (finite (invs s)
     \<and> (case t of At h \<Rightarrow> awaited (caches s h) (datas s h) = int (card (invs s)) + int (acks s h) | _ \<Rightarrow> invs s = {})
     \<and> (\<forall>c. t \<noteq> At c \<longrightarrow> acks s c = 0 \<and> pend (caches s c) = 0))"

definition owed_ok :: "aline \<Rightarrow> ghost \<Rightarrow> bool" where
  "owed_ok s gh = (\<forall>c b. source gh c = Owed b \<longrightarrow> FwdS c \<in> set (fwds s b) \<or> FwdM c \<in> set (fwds s b))"

definition aline_inv :: "aline \<Rightarrow> ghost \<Rightarrow> bool" where
  "aline_inv s gh = (home_ok s (place gh) \<and> acks_ok s (place gh)
     \<and> (\<forall>c. cache_ok s (place gh) c (caches s c) (source gh c) (reqs s c) (fwds s c) (datas s c))
     \<and> (\<forall>b. \<forall>f\<in>set (fwds s b). fwd_ok s gh b f)
     \<and> (place gh = ToHome \<longrightarrow> sharing gh = None) \<and> owed_ok s gh)"

section \<open>Frame rules\<close>

named_theorems line_simps \<open>updates that a part of the invariant does not read\<close>

lemma tail_ok_frame [line_simps]:
  "tail_ok (s \<lparr> caches := x1 \<rparr>) = tail_ok s" "tail_ok (s \<lparr> reqs := x2 \<rparr>) = tail_ok s"
  "tail_ok (s \<lparr> fwds := x3 \<rparr>) = tail_ok s" "tail_ok (s \<lparr> datas := x4 \<rparr>) = tail_ok s"
  "tail_ok (s \<lparr> acks := x5 \<rparr>) = tail_ok s" "tail_ok (s \<lparr> tohome := x6 \<rparr>) = tail_ok s"
  "tail_ok (s \<lparr> mems := x7 \<rparr>) = tail_ok s" "tail_ok (s \<lparr> ddata := x8 \<rparr>) = tail_ok s"
  "tail_ok (s \<lparr> val := v \<rparr>) = tail_ok s"
  by (simp_all add: fun_eq_iff tail_ok_def)

lemma share_ok_frame [line_simps]:
  "share_ok (s \<lparr> caches := x1 \<rparr>) = share_ok s" "share_ok (s \<lparr> reqs := x2 \<rparr>) = share_ok s"
  "share_ok (s \<lparr> fwds := x3 \<rparr>) = share_ok s" "share_ok (s \<lparr> datas := x4 \<rparr>) = share_ok s"
  "share_ok (s \<lparr> acks := x5 \<rparr>) = share_ok s" "share_ok (s \<lparr> tohome := x6 \<rparr>) = share_ok s"
  "share_ok (s \<lparr> mems := x7 \<rparr>) = share_ok s" "share_ok (s \<lparr> ddata := x8 \<rparr>) = share_ok s"
  "share_ok (s \<lparr> val := v \<rparr>) = share_ok s"
  by (simp_all add: fun_eq_iff share_ok_def)

lemma away_frame [line_simps]:
  "away (s \<lparr> caches := x1 \<rparr>) = away s" "away (s \<lparr> reqs := x2 \<rparr>) = away s"
  "away (s \<lparr> fwds := x3 \<rparr>) = away s" "away (s \<lparr> datas := x4 \<rparr>) = away s"
  "away (s \<lparr> acks := x5 \<rparr>) = away s" "away (s \<lparr> tohome := x6 \<rparr>) = away s"
  "away (s \<lparr> mems := x7 \<rparr>) = away s" "away (s \<lparr> ddata := x8 \<rparr>) = away s"
  "away (s \<lparr> val := v \<rparr>) = away s"
  by (simp_all add: fun_eq_iff away_def)

lemma cache_ok_cong:
  assumes "dstate s' = dstate s" "sharers s' = sharers s" "owners s' = owners s" "val s' = val s"
  shows "cache_ok s' t c k g R F D = cache_ok s t c k g R F D"
  using assms by (cases k) (simp_all add: tail_ok_def share_ok_def away_def cong: source.case_cong)

lemma cache_ok_frame [line_simps]:
  "cache_ok (s \<lparr> caches := x1 \<rparr>) = cache_ok s" "cache_ok (s \<lparr> reqs := x2 \<rparr>) = cache_ok s"
  "cache_ok (s \<lparr> fwds := x3 \<rparr>) = cache_ok s" "cache_ok (s \<lparr> datas := x4 \<rparr>) = cache_ok s"
  "cache_ok (s \<lparr> acks := x5 \<rparr>) = cache_ok s" "cache_ok (s \<lparr> tohome := x6 \<rparr>) = cache_ok s"
  "cache_ok (s \<lparr> mems := x7 \<rparr>) = cache_ok s" "cache_ok (s \<lparr> ddata := x8 \<rparr>) = cache_ok s"
  by (intro ext cache_ok_cong; simp)+

lemma home_ok_frame [line_simps]:
  "home_ok (s \<lparr> caches := x1 \<rparr>) t = home_ok s t" "home_ok (s \<lparr> reqs := x2 \<rparr>) t = home_ok s t"
  "home_ok (s \<lparr> fwds := x3 \<rparr>) t = home_ok s t" "home_ok (s \<lparr> datas := x4 \<rparr>) t = home_ok s t"
  "home_ok (s \<lparr> acks := x5 \<rparr>) t = home_ok s t"
  by (simp_all add: home_ok_def cong: dir_state.case_cong)

lemma invs_frame [line_simps]:
  "invs (s \<lparr> caches := x1 \<rparr>) = invs s" "invs (s \<lparr> reqs := x2 \<rparr>) = invs s"
  "invs (s \<lparr> datas := x3 \<rparr>) = invs s" "invs (s \<lparr> acks := x4 \<rparr>) = invs s"
  "invs (s \<lparr> tohome := x5 \<rparr>) = invs s" "invs (s \<lparr> mems := x6 \<rparr>) = invs s"
  "invs (s \<lparr> dstate := x7 \<rparr>) = invs s" "invs (s \<lparr> ddata := x8 \<rparr>) = invs s"
  "invs (s \<lparr> sharers := x9 \<rparr>) = invs s" "invs (s \<lparr> owners := x10 \<rparr>) = invs s"
  "invs (s \<lparr> val := v \<rparr>) = invs s"
  by (simp_all add: invs_def)

section \<open>Reading the invariant\<close>

lemma aline_invI:
  assumes "home_ok s (place gh)" "acks_ok s (place gh)"
    and "\<And>c. cache_ok s (place gh) c (caches s c) (source gh c) (reqs s c) (fwds s c) (datas s c)"
    and "\<And>b f. f \<in> set (fwds s b) \<Longrightarrow> fwd_ok s gh b f"
    and "place gh = ToHome \<Longrightarrow> sharing gh = None" "owed_ok s gh"
  shows "aline_inv s gh"
  using assms by (simp add: aline_inv_def)

lemma aline_invD:
  assumes "aline_inv s gh"
  shows "home_ok s (place gh)" "acks_ok s (place gh)"
    and "cache_ok s (place gh) c (caches s c) (source gh c) (reqs s c) (fwds s c) (datas s c)"
    and "f \<in> set (fwds s b) \<Longrightarrow> fwd_ok s gh b f"
    and "place gh = ToHome \<Longrightarrow> sharing gh = None" "owed_ok s gh"
  using assms by (auto simp: aline_inv_def)

lemma acks_local:
  assumes "acks_ok s t" "caches s' = (caches s)(c := k)" "datas s' = (datas s)(c := D)" "acks s' = acks s"
    and "invs s' = invs s" "t = At c \<Longrightarrow> awaited k D = awaited (caches s c) (datas s c)" "t \<noteq> At c \<Longrightarrow> pend k = 0"
  shows "acks_ok s' t"
  using assms by (cases t) (auto simp: acks_ok_def)

lemma acks_same:
  assumes "acks_ok s t" "caches s' = caches s" "datas s' = datas s" "acks s' = acks s" "invs s' = invs s"
  shows "acks_ok s' t"
  using assms by (simp add: acks_ok_def cong: place.case_cong)

lemma acks_none:
  assumes "acks_ok s (At c)" "awaited (caches s c) (datas s c) = 0"
  shows "invs s = {}" "acks s c = 0"
proof -
  have f: "finite (invs s)" "awaited (caches s c) (datas s c) = int (card (invs s)) + int (acks s c)"
    using assms(1) by (simp_all add: acks_ok_def)
  then have "card (invs s) = 0" "acks s c = 0" using assms(2) by linarith+
  then show "invs s = {}" "acks s c = 0" using f(1) by simp_all
qed

lemma has_inv_set: "has_inv F = (\<exists>r. FInv r \<in> set F)"
  by (induction F rule: has_inv.induct) auto

lemma has_inv_append [simp]: "has_inv (F @ G) = (has_inv F \<or> has_inv G)"
  by (auto simp: has_inv_set)

lemma invs_empty: "invs s = {} \<Longrightarrow> \<not> has_inv (fwds s b)"
  by (auto simp: invs_def)

text \<open>While a cache has the right to write and no invalidation is under way, no other cache has a
  copy, so that the value may change.\<close>

lemma writer_alone:
  assumes "cache_ok s (At h) c k g R F D" "c \<noteq> h" "\<not> has_inv F"
  shows "cache_ok (s \<lparr> val := v \<rparr>) (At h) c k g R F D"
  using assms by (cases k) (auto simp: line_simps share_ok_def split: source.splits)

lemma cache_ok_release:
  assumes "cache_ok s (At h) c k g R F D" "c \<noteq> h"
  shows "cache_ok s ToHome c k g R F D"
  using assms by (cases k) (auto simp: share_ok_def away_def split: source.splits)

lemma cache_ok_move:
  assumes "cache_ok s (At h) c k g R F D" "c \<noteq> h" "c \<noteq> h'"
  shows "cache_ok s (At h') c k g R F D"
  using assms by (cases k) (auto simp: share_ok_def away_def split: source.splits)

lemma home_ok_move: "home_ok s (At h) \<Longrightarrow> home_ok s (At h')"
  by (simp add: home_ok_def)

lemma owed_pop:
  assumes ow: "owed_ok s gh" and F: "fwds s c = f # F" and F': "fwds s' = (fwds s)(c := F)"
    and g: "\<And>r b. source gh' r = Owed b \<Longrightarrow> source gh r = Owed b"
    and f: "\<And>r. source gh' r = Owed c \<Longrightarrow> f \<noteq> FwdS r \<and> f \<noteq> FwdM r"
  shows "owed_ok s' gh'"
  unfolding owed_ok_def
proof (intro allI impI)
  fix r b assume b: "source gh' r = Owed b"
  then have "FwdS r \<in> set (fwds s b) \<or> FwdM r \<in> set (fwds s b)" using ow g by (simp add: owed_ok_def)
  then show "FwdS r \<in> set (fwds s' b) \<or> FwdM r \<in> set (fwds s' b)"
    using F F' f b by (cases "b = c") auto
qed

section \<open>Steps of the caches\<close>

lemma fwd_ok_other:
  assumes "fwd_ok s gh b f" "caches s c \<noteq> A_ISD" "\<not> waits_data (caches s c)"
    and "\<And>r. r \<noteq> c \<Longrightarrow> caches s' r = caches s r \<and> source gh' r = source gh r"
    and "place gh' = place gh" "sharing gh' = sharing gh"
  shows "fwd_ok s' gh' b f"
  using assms(1) assms(2-6) by (cases f) (auto, metis+)

text \<open>The requests that a cache sends.\<close>

lemma request_issue_inv:
  assumes inv: "aline_inv s gh"
    and c: "caches s c = A_I \<and> k = A_ISD \<and> x = GetS \<and> g = Unsent
      \<or> caches s c = A_I \<and> k = A_IMAD 0 \<and> x = GetM \<and> g = Unsent
      \<or> caches s c = A_S d \<and> k = A_SMAD 0 d \<and> x = GetM \<and> g = Unsent
      \<or> caches s c = A_S d \<and> k = A_SIA \<and> x = PutS \<and> g = Unneeded
      \<or> caches s c = A_M d \<and> k = A_MIA d \<and> x = PutM d \<and> g = Unneeded"
  shows "aline_inv (s \<lparr> caches := (caches s)(c := k), reqs := (reqs s)(c := add_mset x (reqs s c)) \<rparr>)
    (gh \<lparr> source := (source gh)(c := g) \<rparr>)"
proof (rule aline_invI, goal_cases)
  case 1 show ?case using aline_invD(1) [OF inv] by (simp add: line_simps)
next
  case 2 show ?case using aline_invD(2) [OF inv] c
    by (auto simp: line_simps awaited_def intro: acks_local [where k = k and c = c and D = "datas s c"])
next
  case (3 c') show ?case using aline_invD(3) [OF inv, of c'] c by (auto simp: line_simps away_def)
next
  case (4 b f)
  show ?case by (rule fwd_ok_other [where s = s and gh = gh and c = c])
    (use 4 aline_invD(4) [OF inv, of f b] c in \<open>auto simp: waits_data_def\<close>)
next
  case 5 then show ?case using aline_invD(5) [OF inv] by simp
next
  case 6 show ?case using aline_invD(6) [OF inv] c by (auto simp: owed_ok_def)
qed

text \<open>A cache that has the right to write and waits for nothing completes a store.\<close>

lemma write_inv:
  assumes inv: "aline_inv s gh" and t: "place gh = At c"
    and k: "caches s c = A_M d \<or> waits_data (caches s c) \<or> waits_acks (caches s c)"
    and aw: "awaited (caches s c) (datas s c) = int n" "n \<le> acks s c"
  shows "aline_inv (s \<lparr> caches := (caches s)(c := A_M d'), datas := (datas s)(c := {#}),
      acks := (acks s)(c := acks s c - n), val := d' \<rparr>)
    (gh \<lparr> source := (source gh)(c := Unneeded) \<rparr>)"
proof -
  have f: "finite (invs s)" "awaited (caches s c) (datas s c) = int (card (invs s)) + int (acks s c)"
    and ao: "\<forall>b. c \<noteq> b \<longrightarrow> acks s b = 0 \<and> pend (caches s b) = 0"
    using aline_invD(2) [OF inv] t by (simp_all add: acks_ok_def)
  then have "card (invs s) = 0" and ac: "acks s c = n" using aw by linarith+
  then have ak: "invs s = {}" using f(1) by simp
  note no = invs_empty [OF ak]
  show ?thesis
  proof (rule aline_invI, goal_cases)
    case 1 show ?case using aline_invD(1) [OF inv] t
      by (auto simp: home_ok_def split: dir_state.splits)
  next
    case 2 show ?case using ak ac ao t by (simp add: acks_ok_def line_simps awaited_def)
  next
    case (3 c')
    show ?case
    proof (cases "c' = c")
      case True
      then show ?thesis using aline_invD(3) [OF inv, of c] k t no [of c]
        by (auto simp: line_simps waits_data_def waits_acks_def share_ok_def away_def split: source.splits)
    next
      case False
      then show ?thesis using writer_alone [of s c c' _ _ _ _ _ d'] aline_invD(3) [OF inv, of c'] t no
        by (simp add: line_simps cache_ok_cong [of "s \<lparr> caches := _, datas := _, acks := _, val := d' \<rparr>" "s \<lparr> val := d' \<rparr>"])
    qed
  next
    case (4 b f)
    then have f: "fwd_ok s gh b f" using aline_invD(4) [OF inv, of f b] by simp
    have "cache_ok s (At c) c (caches s c) (source gh c) (reqs s c) (fwds s c) (datas s c)"
      using aline_invD(3) [OF inv, of c] t by simp
    then have "source gh c = Arrived \<or> source gh c = Unneeded" using k t
      by (auto simp: waits_data_def waits_acks_def share_ok_def away_def split: source.splits)
    then show ?case using f by (cases f) auto
  next
    case 5 then show ?case using t by simp
  next
    case 6 show ?case using aline_invD(6) [OF inv] by (auto simp: owed_ok_def)
  qed
qed

text \<open>A cache acknowledges an invalidation; one step less is then awaited by the writer, and one
  acknowledgement more is under way.\<close>

lemma tail_no_inv: "tail_ok s c F \<Longrightarrow> \<not> has_inv F"
  by (auto simp: tail_ok_def)

lemma inv_shape:
  assumes "cache_ok s t c k g R (FInv r # F) D" "t = At r"
  shows "c \<noteq> r \<and> \<not> has_inv F"
  using assms(1) unfolding assms(2)
  by (cases k; cases g) (auto simp: share_ok_def away_def dest: tail_no_inv)

lemma invalidate_inv:
  assumes inv: "aline_inv s gh" and F: "fwds s c = FInv r # F"
    and k: "caches s c = A_S d \<and> k = A_I \<or> caches s c = A_SMAD p d \<and> k = A_IMAD p \<or> caches s c = A_SIA \<and> k = A_IIA"
  shows "aline_inv (s \<lparr> caches := (caches s)(c := k), fwds := (fwds s)(c := F), acks := (acks s)(r := Suc (acks s r)) \<rparr>) gh"
    (is "aline_inv ?s gh")
proof -
  have t: "place gh = At r" using aline_invD(4) [OF inv, of "FInv r" c] F by simp
  note ck = aline_invD(3) [OF inv, of c]
  have cr: "c \<noteq> r" and nF: "\<not> has_inv F" using inv_shape [OF ck [unfolded F] t] by auto
  have iv: "invs ?s = invs s - {c}" "c \<in> invs s" using F nF by (auto simp: invs_def)
  have ak: "finite (invs s)" "awaited (caches s r) (datas s r) = int (card (invs s)) + int (acks s r)"
    "\<forall>b. b \<noteq> r \<longrightarrow> acks s b = 0 \<and> pend (caches s b) = 0"
    using aline_invD(2) [OF inv] t by (auto simp: acks_ok_def)
  have cd: "card (invs s) = Suc (card (invs s - {c}))" using iv(2) ak(1) by (metis card_Suc_Diff1)
  show ?thesis
  proof (rule aline_invI, goal_cases)
    case 1 show ?case using aline_invD(1) [OF inv] by (simp add: line_simps)
  next
    case 2
    have "pend k = 0" using ak(3) cr k by auto
    moreover have "awaited (caches s r) (datas s r) = int (card (invs s - {c})) + int (Suc (acks s r))"
      using ak(2) cd by linarith
    ultimately show ?case using ak(1,3) cr t by (simp add: acks_ok_def iv(1))
  next
    case (3 c') show ?case using aline_invD(3) [OF inv, of c'] k t F cr
      by (auto simp: line_simps share_ok_def away_def split: source.splits)
  next
    case (4 b f)
    then have "fwd_ok s gh b f" using aline_invD(4) [OF inv, of f b] F by (auto split: if_splits)
    then show ?case using k t by (cases f) (auto simp: waits_data_def)
  next
    case 5 then show ?case using t by simp
  next
    case 6 show ?case by (rule owed_pop [OF aline_invD(6) [OF inv] F]) (use F in auto)
  qed
qed

text \<open>The owner answers a reader: the data goes to the reader and to the directory, which gets the
  right to write.\<close>

lemma fwd_shape:
  assumes "cache_ok s t c k g R (f # F) D" "k = A_M d \<or> k = A_MIA d" "f = FwdS r \<or> f = FwdM r"
  shows "t = At c" "d = val s" "c \<notin> owners s" "\<not> has_inv F" "\<forall>r'. FwdS r' \<notin> set F" "\<forall>r'. FwdM r' \<notin> set F"
  using assms by (auto simp: tail_ok_def)

lemma share_inv:
  assumes inv: "aline_inv s gh" and F: "fwds s c = FwdS r # F"
    and k: "caches s c = A_M d \<and> k = A_S d \<or> caches s c = A_MIA d \<and> k = A_SIA"
  shows "aline_inv (s \<lparr> caches := (caches s)(c := k), fwds := (fwds s)(c := F),
      datas := (datas s)(r := add_mset (FromOwner d) (datas s r)), tohome := add_mset d (tohome s) \<rparr>)
    \<lparr> place = ToHome, source = (source gh)(r := Arrived), sharing = None \<rparr>" (is "aline_inv ?s ?gh")
proof -
  have r: "source gh r = Owed c" "caches s r = A_ISD" "sharing gh = Some c"
    using aline_invD(4) [OF inv, of "FwdS r" c] F by simp_all
  then have cr: "c \<noteq> r" using k by auto
  note ck = aline_invD(3) [OF inv, of c]
  have kk: "caches s c = A_M d \<or> caches s c = A_MIA d" using k by auto
  note sh = fwd_shape [OF ck [unfolded F] kk disjI1 [OF refl]]
  have t: "place gh = At c" and d: "d = val s" using sh(1,2) by simp_all
  have "awaited (caches s c) (datas s c) = 0" using ck k by (auto simp: awaited_def)
  with acks_none [of s c] aline_invD(2) [OF inv] t have iv: "invs s = {}" "acks s c = 0" by auto
  note no = invs_empty [OF iv(1)]
  have iv': "invs ?s = {}" using iv(1) sh(4) by (auto simp: invs_def)
  have ms: "dstate s = Dir_MS_OD" using ck k F by (auto simp: tail_ok_def)
  show ?thesis
  proof (rule aline_invI, goal_cases)
    case 1 show ?case using aline_invD(1) [OF inv] t ms d by (simp add: home_ok_def)
  next
    case 2 show ?case using aline_invD(2) [OF inv] t iv iv' k r by (auto simp: acks_ok_def)
  next
    case (3 c')
    have "cache_ok s ToHome c' (caches s c') (source gh c') (reqs s c') (fwds s c') (datas s c')" if "c' \<noteq> c"
      using cache_ok_release [of s c c'] aline_invD(3) [OF inv, of c'] t that by simp
    then show ?case using ck k F r cr t d ms
      by (auto simp: line_simps share_ok_def tail_ok_def away_def)
  next
    case (4 b f)
    then have f: "fwd_ok s gh b f" "f \<in> set (fwds s b)" "b = c \<Longrightarrow> f \<in> set F"
      using aline_invD(4) [OF inv, of f b] F by (auto split: if_splits)
    have "\<not> is_FInv f" using f(2) no [of b] by (auto simp: has_inv_set is_FInv_def)
    then show ?case using f r k sh(5) by (cases f) (auto simp: waits_data_def)
  next
    case 5 show ?case by simp
  next
    case 6 show ?case by (rule owed_pop [OF aline_invD(6) [OF inv] F]) (use r in \<open>auto split: if_splits\<close>)
  qed
qed

text \<open>The owner hands the line over to the next writer.\<close>

lemma hand_over_inv:
  assumes inv: "aline_inv s gh" and F: "fwds s c = FwdM r # F"
    and k: "caches s c = A_M d \<and> k = A_I \<or> caches s c = A_MIA d \<and> k = A_IIA"
  shows "aline_inv (s \<lparr> caches := (caches s)(c := k), fwds := (fwds s)(c := F),
      datas := (datas s)(r := add_mset (FromOwner d) (datas s r)) \<rparr>)
    \<lparr> place = At r, source = (source gh)(r := Arrived), sharing = sharing gh \<rparr>" (is "aline_inv ?s ?gh")
proof -
  have r: "source gh r = Owed c" "waits_data (caches s r)"
    using aline_invD(4) [OF inv, of "FwdM r" c] F by simp_all
  then have cr: "c \<noteq> r" using k by (auto simp: waits_data_def)
  note ck = aline_invD(3) [OF inv, of c]
  have kk: "caches s c = A_M d \<or> caches s c = A_MIA d" using k by auto
  note sh = fwd_shape [OF ck [unfolded F] kk disjI2 [OF refl]]
  have t: "place gh = At c" and d: "d = val s" using sh(1,2) by simp_all
  have "awaited (caches s c) (datas s c) = 0" using ck k by (auto simp: awaited_def)
  with acks_none [of s c] aline_invD(2) [OF inv] t have iv: "invs s = {}" "acks s c = 0" by auto
  note no = invs_empty [OF iv(1)]
  have iv': "invs ?s = {}" using iv(1) sh(4) by (auto simp: invs_def)
  have ao: "\<forall>b. b \<noteq> c \<longrightarrow> acks s b = 0 \<and> pend (caches s b) = 0"
    using aline_invD(2) [OF inv] t by (auto simp: acks_ok_def)
  have rk: "caches s r = A_IMAD 0 \<and> reqs s r = {#} \<and> datas s r = {#} \<and> tail_ok s r (fwds s r)"
  proof -
    have "\<not> has_inv (fwds s r)" "pend (caches s r) = 0" using no ao cr by auto
    then show ?thesis using aline_invD(3) [OF inv, of r] r by (auto simp: waits_data_def)
  qed
  show ?thesis
  proof (rule aline_invI, goal_cases)
    case 1 show ?case using home_ok_move [of s c r] aline_invD(1) [OF inv] t by (simp add: line_simps)
  next
    case 2 show ?case using ao iv iv' k rk cr by (auto simp: acks_ok_def awaited_def)
  next
    case (3 c')
    consider "c' = c" | "c' = r" | "c' \<noteq> c" "c' \<noteq> r" by blast
    then show ?case
    proof cases
      case 1
      then show ?thesis using ck k F cr by (auto simp: line_simps tail_ok_def away_def)
    next
      case 2
      then show ?thesis using rk cr d by (simp add: line_simps)
    next
      case 3
      then show ?thesis using cache_ok_move [of s c c' _ _ _ _ _ r] aline_invD(3) [OF inv, of c'] t
        by (simp add: line_simps)
    qed
  next
    case (4 b f)
    then have f: "fwd_ok s gh b f" "f \<in> set (fwds s b)" "b = c \<Longrightarrow> f \<in> set F"
      using aline_invD(4) [OF inv, of f b] F by (auto split: if_splits)
    have "\<not> is_FInv f" using f(2) no [of b] by (auto simp: has_inv_set is_FInv_def)
    then show ?case using f r k sh(6) rk by (cases f) (auto simp: waits_data_def)
  next
    case 5 then show ?case by simp
  next
    case 6 show ?case by (rule owed_pop [OF aline_invD(6) [OF inv] F]) (use r in \<open>auto split: if_splits\<close>)
  qed
qed

text \<open>The directory's answer to a write-back ends it.\<close>

lemma written_back_inv:
  assumes inv: "aline_inv s gh" and F: "fwds s c = FWb # F" and k: "leaving (caches s c)"
  shows "aline_inv (s \<lparr> caches := (caches s)(c := A_I), fwds := (fwds s)(c := F) \<rparr>) gh" (is "aline_inv ?s gh")
proof -
  have ck: "F = [] \<and> reqs s c = {#} \<and> datas s c = {#} \<and> away s (place gh) c \<and> source gh c = Unneeded"
    using aline_invD(3) [OF inv, of c] F k by (auto simp: leaving_def tail_ok_def share_ok_def)
  have iv: "invs ?s = invs s" using F ck by (auto simp: invs_def)
  show ?thesis
  proof (rule aline_invI, goal_cases)
    case 1 show ?case using aline_invD(1) [OF inv] by (simp add: line_simps)
  next
    case 2 show ?case by (rule acks_local [where k = A_I and c = c and D = "datas s c"])
      (use aline_invD(2) [OF inv] ck iv in \<open>simp_all add: away_def fun_upd_idem\<close>)
  next
    case (3 c') show ?case using aline_invD(3) [OF inv, of c'] ck by (simp add: line_simps)
  next
    case (4 b f)
    then have "fwd_ok s gh b f" using aline_invD(4) [OF inv, of f b] ck by (auto split: if_splits)
    then show ?case by (rule fwd_ok_other [where c = c]) (use k in \<open>auto simp: leaving_def waits_data_def\<close>)
  next
    case 5 then show ?case using aline_invD(5) [OF inv] by simp
  next
    case 6 show ?case by (rule owed_pop [OF aline_invD(6) [OF inv] F]) (use ck in auto)
  qed
qed

text \<open>Data and acknowledgements arrive.\<close>

lemma fill_S_inv:
  assumes inv: "aline_inv s gh" and c: "caches s c = A_ISD" and x: "x \<in># datas s c"
  shows "aline_inv (s \<lparr> caches := (caches s)(c := A_S (data_of x)), datas := (datas s)(c := datas s c - {#x#}) \<rparr>)
    (gh \<lparr> source := (source gh)(c := Unneeded) \<rparr>)"
proof -
  have ck: "place gh \<noteq> At c" "source gh c = Arrived" "reqs s c = {#}" "datas s c = {#x#}" "data_of x = val s"
      "share_ok s (place gh) c (fwds s c)"
    using aline_invD(3) [OF inv, of c] c x by (auto split: source.splits)
  show ?thesis
  proof (rule aline_invI, goal_cases)
    case 1 show ?case using aline_invD(1) [OF inv] by (simp add: line_simps)
  next
    case 2 show ?case using aline_invD(2) [OF inv] ck
      by (auto simp: line_simps intro: acks_local [where k = "A_S (data_of x)" and c = c and D = "{#}"])
  next
    case (3 c') show ?case using aline_invD(3) [OF inv, of c'] ck by (simp add: line_simps)
  next
    case (4 b f)
    then have "fwd_ok s gh b f" using aline_invD(4) [OF inv, of f b] by simp
    then show ?case using c ck(2) by (cases f) (auto simp: waits_data_def)
  next
    case 5 then show ?case using aline_invD(5) [OF inv] by simp
  next
    case 6 show ?case using aline_invD(6) [OF inv] by (auto simp: owed_ok_def)
  qed
qed

lemma waiting_data:
  assumes inv: "aline_inv s gh" and k: "waits_data (caches s c)" and x: "x \<in># datas s c"
  shows "place gh = At c" "source gh c = Arrived" "reqs s c = {#}" "datas s c = {#x#}" "data_of x = val s"
    "tail_ok s c (fwds s c)" "pend (caches s c) \<le> 0"
  using aline_invD(3) [OF inv, of c] k x by (auto simp: waits_data_def split: source.splits)

lemma fill_acks_inv:
  assumes inv: "aline_inv s gh" and x: "FromDir n d \<in># datas s c"
    and k: "caches s c = A_IMAD p \<and> k = A_IMA (p - n) d \<or> caches s c = A_SMAD p d0 \<and> k = A_SMA (p - n) d"
  shows "aline_inv (s \<lparr> caches := (caches s)(c := k), datas := (datas s)(c := datas s c - {#FromDir n d#}) \<rparr>)
    (gh \<lparr> source := (source gh)(c := Unneeded) \<rparr>)"
proof -
  have w: "waits_data (caches s c)" using k by (auto simp: waits_data_def)
  note wd = waiting_data [OF inv w x]
  show ?thesis
  proof (rule aline_invI, goal_cases)
    case 1 show ?case using aline_invD(1) [OF inv] by (simp add: line_simps)
  next
    case 2 show ?case using aline_invD(2) [OF inv] wd k
      by (auto simp: line_simps awaited_def intro: acks_local [where k = k and c = c and D = "{#}"])
  next
    case (3 c') show ?case using aline_invD(3) [OF inv, of c'] wd k by (auto simp: line_simps)
  next
    case (4 b f)
    then have "fwd_ok s gh b f" using aline_invD(4) [OF inv, of f b] by simp
    then show ?case using k wd(2) by (cases f) auto
  next
    case 5 then show ?case using aline_invD(5) [OF inv] by simp
  next
    case 6 show ?case using aline_invD(6) [OF inv] by (auto simp: owed_ok_def)
  qed
qed

lemma ack_inv:
  assumes inv: "aline_inv s gh" and k: "waits_data (caches s c) \<or> waits_acks (caches s c)" and a: "0 < acks s c"
  shows "aline_inv (s \<lparr> caches := (caches s)(c := set_pend (caches s c) (pend (caches s c) - 1)),
      acks := (acks s)(c := acks s c - 1) \<rparr>) gh"
proof -
  have t: "place gh = At c" using aline_invD(2) [OF inv] a by (auto simp: acks_ok_def)
  show ?thesis
  proof (rule aline_invI, goal_cases)
    case 1 show ?case using aline_invD(1) [OF inv] by (simp add: line_simps)
  next
    case 2
    have "awaited (set_pend (caches s c) (pend (caches s c) - 1)) D = awaited (caches s c) D - 1" for D
      using k by (auto simp: waits_data_def waits_acks_def awaited_def)
    then show ?case using aline_invD(2) [OF inv] t a by (simp add: acks_ok_def line_simps of_nat_diff)
  next
    case (3 c') show ?case using aline_invD(3) [OF inv, of c'] t k
      by (auto simp: line_simps waits_data_def waits_acks_def split: source.splits)
  next
    case (4 b f)
    then have "fwd_ok s gh b f" using aline_invD(4) [OF inv, of f b] by simp
    then show ?case using k by (cases f) (auto simp: waits_data_def waits_acks_def)
  next
    case 5 then show ?case using aline_invD(5) [OF inv] by simp
  next
    case 6 show ?case using aline_invD(6) [OF inv] by (auto simp: owed_ok_def)
  qed
qed

theorem cache_step_inv:
  assumes "cache_step s s'" "aline_inv s gh"
  shows "\<exists>gh'. aline_inv s' gh'"
  using assms
proof (induction rule: cache_step.induct)
  case (load_miss s c) then show ?case using request_issue_inv [of s gh c A_ISD GetS Unsent] by blast
next
  case (store_miss s c) then show ?case using request_issue_inv [of s gh c "A_IMAD 0" GetM Unsent] by blast
next
  case (upgrade s c d) then show ?case using request_issue_inv [of s gh c "A_SMAD 0 d" GetM Unsent d] by blast
next
  case (replace_S s c d) then show ?case using request_issue_inv [of s gh c A_SIA PutS Unneeded d] by blast
next
  case (replace_M s c d) then show ?case using request_issue_inv [of s gh c "A_MIA d" "PutM d" Unneeded d] by blast
next
  case (store_hit s c d d')
  have "place gh = At c" "datas s c = {#}" using aline_invD(3) [OF store_hit(2), of c] store_hit(1) by auto
  then show ?case using write_inv [OF store_hit(2), of c d 0 d'] store_hit(1)
    by (auto simp: awaited_def fun_upd_idem)
next
  case (invalidate s c r F d k p) then show ?case using invalidate_inv by blast
next
  case (share s c r F d k) then show ?case using share_inv by blast
next
  case (hand_over s c r F d k) then show ?case using hand_over_inv by blast
next
  case (written_back s c F) then show ?case using written_back_inv by blast
next
  case (fill_S s c x) then show ?case using fill_S_inv by blast
next
  case (fill_M s c x d')
  note wd = waiting_data [OF fill_M(4,1,2)]
  have aw: "awaited (caches s c) (datas s c) = int (card (invs s)) + int (acks s c)"
    using aline_invD(2) [OF fill_M(4)] wd(1) by (simp add: acks_ok_def)
  have "awaited (caches s c) (datas s c) = 0"
  proof (cases "ackc x = 0")
    case True then show ?thesis using aw wd(4,7) by (simp add: awaited_def)
  next
    case False then show ?thesis using fill_M(3) wd(4) by (simp add: awaited_def)
  qed
  then show ?case using write_inv [OF fill_M(4) wd(1), of undefined 0 d'] fill_M(1) wd(4) by auto
next
  case (fill_acks s c p k n d d0) then show ?case using fill_acks_inv by blast
next
  case (ack s c) then show ?case using ack_inv by blast
next
  case (last_ack s c d')
  have t: "place gh = At c" using aline_invD(2) [OF last_ack(4)] last_ack(2) by (auto simp: acks_ok_def)
  have D: "datas s c = {#}" using aline_invD(3) [OF last_ack(4), of c] last_ack(1) by (auto simp: waits_acks_def)
  show ?case using write_inv [OF last_ack(4) t, of undefined 1 d'] last_ack(1-3) D
    by (auto simp: awaited_def fun_upd_idem)
qed

end
