(* ===== verification/Msi_Home.thy ===== *)
theory Msi_Home
  imports Msi_Line
begin

text \<open>
  The steps of the directory keep the invariant of \<^verbatim>\<open>Msi_Line\<close>, which is therefore an invariant of
  the abstract machine.  It gives the two coherence properties: while one cache may write, no other
  may read or write, and every copy that may be read has the current value.
\<close>

section \<open>Steps of the directory\<close>

text \<open>How the condition of a cache that is not concerned survives a change at the directory.\<close>

lemma absent_simps:
  assumes "c \<notin> sharers s" "c \<notin> owners s"
  shows "tail_ok s c F = (\<exists>r. F = [FwdM r])" "share_ok s t c F = (\<exists>r. F = [FInv r])" "away s t c = (t \<noteq> At c)"
  using assms by (auto simp: tail_ok_def share_ok_def away_def)

lemma cache_ok_absent:
  assumes "cache_ok s t c k g R F D" "c \<notin> sharers s" "c \<notin> owners s" "c \<notin> sharers s'" "c \<notin> owners s'"
    and "val s' = val s" "(t = At c) = (t' = At c)" "dstate s = Dir_MS_OD \<longrightarrow> dstate s' = Dir_MS_OD"
  shows "cache_ok s' t' c k g R F D"
  using assms by (cases k; cases g) (auto simp: absent_simps)

lemma cache_ok_iff:
  assumes "(c \<in> sharers s') = (c \<in> sharers s)" "owners s' = owners s" "val s' = val s" "dstate s' = dstate s"
  shows "cache_ok s' t c k g R F D = cache_ok s t c k g R F D"
  using assms by (cases k) (simp_all add: tail_ok_def share_ok_def away_def cong: source.case_cong)

lemma fwdS_MS_OD:
  assumes "cache_ok s t c k g R F D" "FwdS r \<in> set F"
  shows "dstate s = Dir_MS_OD"
  using assms by (cases k; cases g) (auto simp: share_ok_def tail_ok_def)

lemma home_no_invs: "aline_inv s gh \<Longrightarrow> place gh = Home \<Longrightarrow> invs s = {} \<and> (\<forall>c. acks s c = 0 \<and> pend (caches s c) = 0)"
  using aline_invD(2) [of s gh] by (simp add: acks_ok_def)

text \<open>Requests that have not been served.\<close>

lemma unserved_gets:
  assumes "cache_ok s t c k g R F D" "GetS \<in># R"
  shows "k = A_ISD \<and> g = Unsent \<and> R = {#GetS#} \<and> F = [] \<and> D = {#} \<and> away s t c"
  using assms by (cases k; cases g) auto

lemma unserved_getm:
  assumes "cache_ok s t c k g R F D" "GetM \<in># R"
  shows "g = Unsent \<and> R = {#GetM#} \<and> D = {#} \<and> t \<noteq> At c \<and> c \<notin> owners s \<and>
    ((\<exists>p. k = A_IMAD p) \<and> F = [] \<and> c \<notin> sharers s \<or> (\<exists>p. k = A_SMAD p (val s)) \<and> share_ok s t c F)"
  using assms by (cases k; cases g) (auto simp: away_def share_ok_def)

lemma unserved_put:
  assumes "cache_ok s t c k g R F D" "x \<in># R" "x = PutS \<or> x = PutM d"
  shows "g = Unneeded \<and> R = {#x#} \<and> D = {#} \<and>
    (k = A_MIA d \<and> x = PutM d \<and> d = val s \<and> t = At c \<and> tail_ok s c F
     \<or> k = A_SIA \<and> t \<noteq> At c \<and> share_ok s t c F
     \<or> k = A_IIA \<and> away s t c \<and> F = [])"
  using assms by (cases k; cases g) auto

lemma fwd_ok_served:
  assumes "fwd_ok s gh b f" "\<forall>r b. source gh r = Owed b \<longrightarrow> source gh' r = Owed b"
    and "caches s' = caches s" "is_FInv f \<Longrightarrow> place gh' = place gh"
    and "(\<exists>r. f = FwdS r) \<Longrightarrow> sharing gh' = sharing gh"
  shows "fwd_ok s' gh' b f"
  using assms(1) assms(2-5) by (cases f) auto

lemma gets_I_inv:
  assumes inv: "aline_inv s gh" and ds: "dstate s = Dir_I" and q: "GetS \<in># reqs s c"
  shows "aline_inv (s \<lparr> dstate := Dir_IS_MD, reqs := (reqs s)(c := reqs s c - {#GetS#}),
      sharers := insert c (sharers s), mems := add_mset (MRead c (ddata s)) (mems s) \<rparr>)
    (gh \<lparr> source := (source gh)(c := Memory) \<rparr>)" (is "aline_inv ?s ?gh")
proof -
  have h: "place gh = Home" "sharers s = {}" "owners s = {}" "mems s = {#}" "ddata s = val s" "tohome s = {#}"
    using aline_invD(1) [OF inv] ds by (auto simp: home_ok_def)
  note ck = unserved_gets [OF aline_invD(3) [OF inv] q]
  show ?thesis
  proof (rule aline_invI, goal_cases)
    case 1 show ?case using h by (simp add: home_ok_def)
  next
    case 2 show ?case using aline_invD(2) [OF inv] h by (simp add: acks_ok_def line_simps)
  next
    case (3 c')
    show ?case
    proof (cases "c' = c")
      case True then show ?thesis using ck h by simp
    next
      case False
      then show ?thesis using cache_ok_absent [OF aline_invD(3) [OF inv, of c'], of ?s] h ds by simp
    qed
  next
    case (4 b f) show ?case
      by (rule fwd_ok_served [of s gh b f]) (use 4 aline_invD(4) [OF inv, of f b] ck in auto)
  next
    case 5 then show ?case using h by simp
  next
    case 6 show ?case using aline_invD(6) [OF inv] by (auto simp: owed_ok_def)
  qed
qed

lemma getm_I_inv:
  assumes inv: "aline_inv s gh" and ds: "dstate s = Dir_I" and q: "GetM \<in># reqs s c"
  shows "aline_inv (s \<lparr> dstate := Dir_IM_MD, reqs := (reqs s)(c := reqs s c - {#GetM#}),
      owners := {c}, mems := add_mset (MRead c (ddata s)) (mems s) \<rparr>)
    (gh \<lparr> source := (source gh)(c := Memory) \<rparr>)" (is "aline_inv ?s ?gh")
proof -
  have h: "place gh = Home" "sharers s = {}" "owners s = {}" "mems s = {#}" "ddata s = val s" "tohome s = {#}"
    using aline_invD(1) [OF inv] ds by (auto simp: home_ok_def)
  have iv: "\<not> has_inv (fwds s c)" "pend (caches s c) = 0" using home_no_invs [OF inv h(1)] invs_empty by auto
  note ck = unserved_getm [OF aline_invD(3) [OF inv] q]
  then have kc: "caches s c = A_IMAD 0" "fwds s c = []" using iv h by (auto simp: share_ok_def)
  show ?thesis
  proof (rule aline_invI, goal_cases)
    case 1 show ?case using h by (simp add: home_ok_def)
  next
    case 2 show ?case using aline_invD(2) [OF inv] h by (simp add: acks_ok_def line_simps)
  next
    case (3 c')
    show ?case
    proof (cases "c' = c")
      case True then show ?thesis using ck kc h by simp
    next
      case False
      then show ?thesis using cache_ok_absent [OF aline_invD(3) [OF inv, of c'], of ?s] h ds by simp
    qed
  next
    case (4 b f) show ?case
      by (rule fwd_ok_served [of s gh b f]) (use 4 aline_invD(4) [OF inv, of f b] ck in auto)
  next
    case 5 then show ?case using h by simp
  next
    case 6 show ?case using aline_invD(6) [OF inv] by (auto simp: owed_ok_def)
  qed
qed

lemma gets_S_inv:
  assumes inv: "aline_inv s gh" and ds: "dstate s = Dir_S" and q: "GetS \<in># reqs s c"
  shows "aline_inv (s \<lparr> reqs := (reqs s)(c := reqs s c - {#GetS#}), sharers := insert c (sharers s),
      datas := (datas s)(c := add_mset (FromDir 0 (ddata s)) (datas s c)) \<rparr>)
    (gh \<lparr> source := (source gh)(c := Arrived) \<rparr>)" (is "aline_inv ?s ?gh")
proof -
  have h: "place gh = Home" "owners s = {}" "mems s = {#}" "ddata s = val s" "tohome s = {#}" "finite (sharers s)"
    using aline_invD(1) [OF inv] ds by (auto simp: home_ok_def)
  note ck = unserved_gets [OF aline_invD(3) [OF inv] q]
  show ?thesis
  proof (rule aline_invI, goal_cases)
    case 1 show ?case using h ds by (simp add: home_ok_def)
  next
    case 2 show ?case using aline_invD(2) [OF inv] h by (simp add: acks_ok_def line_simps)
  next
    case (3 c')
    show ?case
    proof (cases "c' = c")
      case True then show ?thesis using ck h ds by (simp add: share_ok_def)
    next
      case False
      then show ?thesis using cache_ok_iff [of c' ?s s] aline_invD(3) [OF inv, of c'] by simp
    qed
  next
    case (4 b f) show ?case
      by (rule fwd_ok_served [of s gh b f]) (use 4 aline_invD(4) [OF inv, of f b] ck in auto)
  next
    case 5 then show ?case using h by simp
  next
    case 6 show ?case using aline_invD(6) [OF inv] by (auto simp: owed_ok_def)
  qed
qed

text \<open>A request to write a shared line: every other sharer is invalidated, and the requestor will
  wait for as many acknowledgements.\<close>

lemma invalidated:
  assumes "cache_ok s Home c k g R F D" "c \<in> sharers s" "dstate s = Dir_S" "owners s = {}"
    and "c \<notin> sharers s'" "c \<notin> owners s'" "val s' = val s" "t' \<noteq> At c"
  shows "cache_ok s' t' c k g R (F @ [FInv r]) D"
  using assms by (cases k; cases g) (auto simp: absent_simps share_ok_def tail_ok_def away_def)

lemma getm_S_inv:
  assumes inv: "aline_inv s gh" and ds: "dstate s = Dir_S" and q: "GetM \<in># reqs s c"
  shows "aline_inv (s \<lparr> dstate := Dir_M, reqs := (reqs s)(c := reqs s c - {#GetM#}), sharers := {}, owners := {c},
      datas := (datas s)(c := add_mset (FromDir (- int (card (sharers s - {c}))) (ddata s)) (datas s c)),
      fwds := post (fwds s) (sharers s - {c}) (FInv c) \<rparr>)
    (gh \<lparr> place := At c, source := (source gh)(c := Arrived) \<rparr>)" (is "aline_inv ?s ?gh")
proof -
  have h: "place gh = Home" "owners s = {}" "mems s = {#}" "ddata s = val s" "tohome s = {#}" "finite (sharers s)"
    using aline_invD(1) [OF inv] ds by (auto simp: home_ok_def)
  have iv: "invs s = {}" "\<forall>c. acks s c = 0 \<and> pend (caches s c) = 0" using home_no_invs [OF inv h(1)] by auto
  note no = invs_empty [OF iv(1)]
  note ck = unserved_getm [OF aline_invD(3) [OF inv] q]
  have kc: "fwds s c = []" "caches s c = A_IMAD 0 \<or> caches s c = A_SMAD 0 (val s)"
    using ck iv(2) [rule_format, of c] no [of c] by (auto simp: share_ok_def)
  have iv': "invs ?s = sharers s - {c}" using no by (auto simp: invs_def post_def)
  show ?thesis
  proof (rule aline_invI, goal_cases)
    case 1 show ?case using h by (simp add: home_ok_def)
  next
    case 2 show ?case using iv h ck iv' by (simp add: acks_ok_def awaited_def)
  next
    case (3 c')
    consider "c' = c" | "c' \<noteq> c" "c' \<in> sharers s" | "c' \<noteq> c" "c' \<notin> sharers s" by blast
    then show ?case
    proof cases
      case 1 then show ?thesis using ck kc h by (auto simp: post_def tail_ok_def)
    next
      case 2
      then show ?thesis using invalidated [of s c' _ _ _ _ _ ?s "At c" c] aline_invD(3) [OF inv, of c'] h ds
        by (simp add: post_def)
    next
      case 3
      then show ?thesis using cache_ok_absent [OF aline_invD(3) [OF inv, of c'], of ?s] h ds by (simp add: post_def)
    qed
  next
    case (4 b f)
    show ?case
    proof (cases "is_FInv f")
      case True then show ?thesis using 4 no [of b] by (auto simp: post_def has_inv_set is_FInv_def split: if_splits)
    next
      case False
      then have "fwd_ok s gh b f" using 4 aline_invD(4) [OF inv, of f b] by (auto simp: post_def split: if_splits)
      then show ?thesis by (rule fwd_ok_served) (use ck False in auto)
    qed
  next
    case 5 then show ?case by simp
  next
    case 6 show ?case using aline_invD(6) [OF inv] by (auto simp: owed_ok_def post_def)
  qed
qed

text \<open>Requests for a line that is modified go to its owner.\<close>

lemma owner_forward:
  assumes "cache_ok s t o' k g R F D" "dstate s = Dir_M" "owners s = {o'}" "sharers s = {}" "val s' = val s"
    and "f = FwdM r \<and> o' \<notin> owners s' \<and> o' \<notin> sharers s'
      \<or> f = FwdS r \<and> o' \<notin> owners s' \<and> o' \<in> sharers s' \<and> dstate s' = Dir_MS_OD"
  shows "cache_ok s' t o' k g R (F @ [f]) D"
proof -
  have tl: "tail_ok s' o' (F @ [f])" if "tail_ok s o' F" for F using that assms(2-6) by (auto simp: tail_ok_def)
  show ?thesis using assms(1-4) assms(5) tl
    by (cases k; cases g) (auto simp: share_ok_def away_def)
qed

lemma gets_M_inv:
  assumes inv: "aline_inv s gh" and ds: "dstate s = Dir_M" and q: "GetS \<in># reqs s c" and o: "owners s = {o'}"
  shows "aline_inv (s \<lparr> dstate := Dir_MS_OD, reqs := (reqs s)(c := reqs s c - {#GetS#}),
      sharers := insert c (sharers s \<union> owners s), owners := {}, fwds := post (fwds s) (owners s) (FwdS c) \<rparr>)
    (gh \<lparr> source := (source gh)(c := Owed o'), sharing := Some o' \<rparr>)" (is "aline_inv ?s ?gh")
proof -
  have h: "sharers s = {}" "mems s = {#}" "tohome s = {#}" "place gh \<noteq> Home" "place gh \<noteq> ToHome"
    using aline_invD(1) [OF inv] ds by (auto simp: home_ok_def split: if_splits)
  note ck = unserved_gets [OF aline_invD(3) [OF inv] q]
  have co: "c \<noteq> o'" using ck o by (auto simp: away_def)
  have iv': "invs ?s = invs s" by (auto simp: invs_def post_def)
  show ?thesis
  proof (rule aline_invI, goal_cases)
    case 1 show ?case using h by (simp add: home_ok_def o)
  next
    case 2 show ?case using acks_same [OF aline_invD(2) [OF inv], of ?s] iv' by simp
  next
    case (3 c')
    consider "c' = c" | "c' = o'" | "c' \<noteq> c" "c' \<noteq> o'" by blast
    then show ?case
    proof cases
      case 1 then show ?thesis using ck co o by (simp add: post_def away_def)
    next
      case 2
      then show ?thesis using owner_forward [OF aline_invD(3) [OF inv, of o'], of ?s "FwdS c" c] h ds o co
        by (simp add: post_def)
    next
      case 3
      then show ?thesis using cache_ok_absent [OF aline_invD(3) [OF inv, of c'], of ?s] h ds o by (simp add: post_def)
    qed
  next
    case (4 b f)
    show ?case
    proof (cases "f \<in> set (fwds s b)")
      case True
      have "\<nexists>r. f = FwdS r" using True fwdS_MS_OD [OF aline_invD(3) [OF inv, of b]] ds by auto
      then show ?thesis using aline_invD(4) [OF inv True] ck by (cases f) (auto simp: waits_data_def)
    next
      case False
      then show ?thesis using 4 ck o by (auto simp: post_def split: if_splits)
    qed
  next
    case 5 then show ?case using h by simp
  next
    case 6 show ?case using aline_invD(6) [OF inv] o by (auto simp: owed_ok_def post_def)
  qed
qed

lemma getm_M_inv:
  assumes inv: "aline_inv s gh" and ds: "dstate s = Dir_M" and q: "GetM \<in># reqs s c" and o: "owners s = {o'}"
  shows "aline_inv (s \<lparr> reqs := (reqs s)(c := reqs s c - {#GetM#}), owners := {c},
      fwds := post (fwds s) (owners s) (FwdM c) \<rparr>)
    (gh \<lparr> source := (source gh)(c := Owed o') \<rparr>)" (is "aline_inv ?s ?gh")
proof -
  have h: "sharers s = {}" "mems s = {#}" "tohome s = {#}" "place gh \<noteq> Home" "place gh \<noteq> ToHome"
    using aline_invD(1) [OF inv] ds by (auto simp: home_ok_def split: if_splits)
  note ck = unserved_getm [OF aline_invD(3) [OF inv] q]
  have co: "c \<noteq> o'" using ck o by auto
  have iv': "invs ?s = invs s" by (auto simp: invs_def post_def)
  have pc: "pend (caches s c) = 0" using aline_invD(2) [OF inv] ck by (simp add: acks_ok_def)
  show ?thesis
  proof (rule aline_invI, goal_cases)
    case 1 show ?case using h ds by (simp add: home_ok_def)
  next
    case 2 show ?case using acks_same [OF aline_invD(2) [OF inv], of ?s] iv' by simp
  next
    case (3 c')
    consider "c' = c" | "c' = o'" | "c' \<noteq> c" "c' \<noteq> o'" by blast
    then show ?case
    proof cases
      case 1 then show ?thesis using ck co o h ds pc by (auto simp: post_def share_ok_def tail_ok_def)
    next
      case 2
      then show ?thesis using owner_forward [OF aline_invD(3) [OF inv, of o'], of ?s "FwdM c" c] h ds o co
        by (simp add: post_def)
    next
      case 3
      then show ?thesis using cache_ok_absent [OF aline_invD(3) [OF inv, of c'], of ?s] h ds o by (simp add: post_def)
    qed
  next
    case (4 b f)
    show ?case
    proof (cases "f \<in> set (fwds s b)")
      case True
      show ?thesis by (rule fwd_ok_served [OF aline_invD(4) [OF inv True]]) (use ck in auto)
    next
      case False
      then show ?thesis using 4 ck o by (auto simp: post_def waits_data_def split: if_splits)
    qed
  next
    case 5 then show ?case using h by simp
  next
    case 6 show ?case using aline_invD(6) [OF inv] o by (auto simp: owed_ok_def post_def)
  qed
qed

text \<open>Write-backs: one that comes too late, because the line has been asked for in the meantime, is
  only acknowledged; the one of the owner gives the line back to the directory.\<close>

lemma put_shape:
  assumes "cache_ok s t c k g R F D" "x \<in># R" "x = PutS \<or> x = PutM d \<and> c \<notin> owners s"
    and "c \<notin> sharers s'" "c \<notin> owners s'" "val s' = val s" "dstate s = Dir_MS_OD \<longrightarrow> dstate s' = Dir_MS_OD"
  shows "cache_ok s' t c k g (R - {#x#}) (F @ [FWb]) D \<and> c \<notin> owners s"
proof -
  have x: "x = PutS \<or> x = PutM d" using assms(3) by auto
  show ?thesis using unserved_put [OF assms(1,2) x] assms(3-7)
    by (auto simp: absent_simps tail_ok_def share_ok_def away_def)
qed

lemma put_inv:
  assumes inv: "aline_inv s gh" and q: "x \<in># reqs s c" and x: "x = PutS \<or> x = PutM d \<and> c \<notin> owners s"
    and ds: "dstate s \<notin> {Dir_IS_MD, Dir_IM_MD}"
    and ds': "ds = dstate s \<or> dstate s = Dir_S \<and> ds = Dir_I \<and> sharers s - {c} = {}"
  shows "aline_inv (s \<lparr> dstate := ds, reqs := (reqs s)(c := reqs s c - {#x#}), sharers := sharers s - {c},
      fwds := post (fwds s) {c} FWb \<rparr>) gh" (is "aline_inv ?s gh")
proof -
  have iv': "invs ?s = invs s" by (auto simp: invs_def post_def)
  have co: "c \<notin> owners s" using put_shape [OF aline_invD(3) [OF inv] q x, of "s \<lparr> sharers := {}, owners := {} \<rparr>"] by simp
  show ?thesis
  proof (rule aline_invI, goal_cases)
    case 1 show ?case using aline_invD(1) [OF inv] ds ds' by (auto simp: home_ok_def split: dir_state.splits)
  next
    case 2 show ?case using acks_same [OF aline_invD(2) [OF inv], of ?s] iv' by simp
  next
    case (3 c')
    consider "c' = c" | "c' \<noteq> c" "ds = dstate s" | "c' \<noteq> c" "dstate s = Dir_S" "c' \<notin> sharers s" using ds' by blast
    then show ?case
    proof cases
      case 1
      then show ?thesis using put_shape [OF aline_invD(3) [OF inv] q x, of ?s] co ds' by (auto simp: post_def)
    next
      case 2
      then show ?thesis using cache_ok_iff [of c' ?s s] aline_invD(3) [OF inv, of c'] by (simp add: post_def)
    next
      case 3
      then have "owners s = {}" using aline_invD(1) [OF inv] by (simp add: home_ok_def)
      with 3 show ?thesis using cache_ok_absent [OF aline_invD(3) [OF inv, of c'], of ?s] by (simp add: post_def)
    qed
  next
    case (4 b f)
    then have "f = FWb \<or> f \<in> set (fwds s b)" by (auto simp: post_def split: if_splits)
    then show ?case using aline_invD(4) [OF inv, of f b] by (cases f) auto
  next
    case 5 then show ?case using aline_invD(5) [OF inv] by simp
  next
    case 6 show ?case using aline_invD(6) [OF inv] by (auto simp: owed_ok_def post_def)
  qed
qed

lemma put_owner_inv:
  assumes inv: "aline_inv s gh" and ds: "dstate s = Dir_M" and q: "PutM d \<in># reqs s c" and c: "c \<in> owners s"
  shows "aline_inv (s \<lparr> dstate := Dir_MI_MA, reqs := (reqs s)(c := reqs s c - {#PutM d#}), ddata := d,
      mems := add_mset (MWb c) (mems s) \<rparr>) (gh \<lparr> place := Home \<rparr>)" (is "aline_inv ?s ?gh")
proof -
  have h: "sharers s = {}" "owners s = {c}" "mems s = {#}" "finite (sharers s)"
    using aline_invD(1) [OF inv] ds c by (auto simp: home_ok_def)
  have ck: "source gh c = Unneeded" "caches s c = A_MIA d" "reqs s c = {#PutM d#}" "datas s c = {#}" "d = val s"
      "place gh = At c" "fwds s c = []"
    using unserved_put [OF aline_invD(3) [OF inv] q disjI2 [OF refl]] c
    by (auto simp: share_ok_def away_def tail_ok_def)
  then have "awaited (caches s c) (datas s c) = 0" by (simp add: awaited_def)
  with acks_none [of s c] aline_invD(2) [OF inv] ck have iv: "invs s = {}" "acks s c = 0" by auto
  have th: "tohome s = {#}" using aline_invD(1) [OF inv] ck(6) by (simp add: home_ok_def)
  show ?thesis
  proof (rule aline_invI, goal_cases)
    case 1 show ?case using h ck(5) th by (simp add: home_ok_def)
  next
    case 2
    have "acks s b = 0 \<and> pend (caches s b) = 0" for b
      using aline_invD(2) [OF inv] iv ck(2,6) by (cases "b = c") (auto simp: acks_ok_def)
    then show ?case using iv by (simp add: acks_ok_def line_simps)
  next
    case (3 c')
    show ?case
    proof (cases "c' = c")
      case True then show ?thesis using ck h by simp
    next
      case False
      then show ?thesis using cache_ok_absent [OF aline_invD(3) [OF inv, of c'], of ?s] h ds ck(6) by simp
    qed
  next
    case (4 b f)
    then have "fwd_ok s gh b f" "\<not> is_FInv f" using aline_invD(4) [OF inv, of f b] invs_empty [OF iv(1), of b]
      by (auto simp: has_inv_set is_FInv_def)
    then show ?case by (cases f) auto
  next
    case 5 then show ?case by simp
  next
    case 6 show ?case using aline_invD(6) [OF inv] by (auto simp: owed_ok_def)
  qed
qed

text \<open>The answers of the memory.\<close>

lemma mem_S_inv:
  assumes inv: "aline_inv s gh" and ds: "dstate s = Dir_IS_MD" and q: "MRead r d \<in># mems s"
  shows "aline_inv (s \<lparr> dstate := Dir_S, mems := mems s - {#MRead r d#},
      datas := (datas s)(r := add_mset (FromDir 0 d) (datas s r)) \<rparr>)
    (gh \<lparr> source := (source gh)(r := Arrived) \<rparr>)" (is "aline_inv ?s ?gh")
proof -
  have h: "place gh = Home" "sharers s = {r}" "owners s = {}" "mems s = {#MRead r d#}" "d = val s" "ddata s = val s"
      "tohome s = {#}" using aline_invD(1) [OF inv] ds q by (auto simp: home_ok_def)
  have no: "\<not> has_inv (fwds s r)" using home_no_invs [OF inv h(1)] invs_empty by auto
  have ck: "caches s r = A_ISD" "source gh r = Memory" "reqs s r = {#}" "fwds s r = []" "datas s r = {#}"
    using aline_invD(3) [OF inv, of r] h ds no
    by (cases "caches s r"; cases "source gh r"; auto simp: away_def share_ok_def tail_ok_def)+
  show ?thesis
  proof (rule aline_invI, goal_cases)
    case 1 show ?case using h by (simp add: home_ok_def)
  next
    case 2 show ?case using aline_invD(2) [OF inv] h by (simp add: acks_ok_def line_simps)
  next
    case (3 c')
    show ?case
    proof (cases "c' = r")
      case True then show ?thesis using ck h by (simp add: share_ok_def)
    next
      case False
      then show ?thesis using cache_ok_absent [OF aline_invD(3) [OF inv, of c'], of ?s] h ds by simp
    qed
  next
    case (4 b f) show ?case
      by (rule fwd_ok_served [of s gh b f]) (use 4 aline_invD(4) [OF inv, of f b] ck in auto)
  next
    case 5 then show ?case using h by simp
  next
    case 6 show ?case using aline_invD(6) [OF inv] by (auto simp: owed_ok_def)
  qed
qed

lemma mem_M_inv:
  assumes inv: "aline_inv s gh" and ds: "dstate s = Dir_IM_MD" and q: "MRead r d \<in># mems s"
  shows "aline_inv (s \<lparr> dstate := Dir_M, mems := mems s - {#MRead r d#},
      datas := (datas s)(r := add_mset (FromDir 0 d) (datas s r)) \<rparr>)
    (gh \<lparr> place := At r, source := (source gh)(r := Arrived) \<rparr>)" (is "aline_inv ?s ?gh")
proof -
  have h: "place gh = Home" "sharers s = {}" "owners s = {r}" "mems s = {#MRead r d#}" "d = val s" "tohome s = {#}"
    using aline_invD(1) [OF inv] ds q by (auto simp: home_ok_def)
  have iv: "invs s = {}" "\<forall>c. acks s c = 0 \<and> pend (caches s c) = 0" using home_no_invs [OF inv h(1)] by auto
  note no = invs_empty [OF iv(1)]
  have ck: "\<exists>p. caches s r = A_IMAD p" "source gh r = Memory" "reqs s r = {#}" "fwds s r = []" "datas s r = {#}"
    using aline_invD(3) [OF inv, of r] h ds no [of r]
    by (cases "caches s r"; cases "source gh r"; auto simp: away_def share_ok_def tail_ok_def)+
  show ?thesis
  proof (rule aline_invI, goal_cases)
    case 1 show ?case using h by (simp add: home_ok_def)
  next
    case 2 show ?case using iv ck by (auto simp: acks_ok_def line_simps awaited_def)
  next
    case (3 c')
    show ?case
    proof (cases "c' = r")
      case True
      have "pend (caches s r) = 0" using iv by simp
      then show ?thesis using ck h True by (auto simp: tail_ok_def)
    next
      case False
      then show ?thesis using cache_ok_absent [OF aline_invD(3) [OF inv, of c'], of ?s] h ds by simp
    qed
  next
    case (4 b f)
    then have "\<not> is_FInv f" using no [of b] by (auto simp: has_inv_set is_FInv_def)
    then show ?case using fwd_ok_served [of s gh b f ?gh ?s] 4 aline_invD(4) [OF inv, of f b] ck by simp
  next
    case 5 then show ?case by simp
  next
    case 6 show ?case using aline_invD(6) [OF inv] by (auto simp: owed_ok_def)
  qed
qed

lemma owner_data_inv:
  assumes inv: "aline_inv s gh" and ds: "dstate s = Dir_MS_OD" and q: "d \<in># tohome s"
  shows "aline_inv (s \<lparr> dstate := Dir_MS_MA, tohome := tohome s - {#d#}, ddata := d,
      mems := add_mset (MWb r) (mems s) \<rparr>) (gh \<lparr> place := Home \<rparr>)" (is "aline_inv ?s ?gh")
proof -
  have h: "place gh = ToHome" "tohome s = {#d#}" "d = val s" "owners s = {}" "mems s = {#}" "finite (sharers s)"
    using aline_invD(1) [OF inv] ds q by (auto simp: home_ok_def split: if_splits)
  have sn: "sharing gh = None" using aline_invD(5) [OF inv h(1)] .
  have noS: "FwdS r' \<notin> set (fwds s b)" for r' b using aline_invD(4) [OF inv, of "FwdS r'" b] sn by auto
  have nod: "source gh c \<noteq> Owed b" if "caches s c = A_ISD" for c b
    using aline_invD(6) [OF inv] aline_invD(4) [OF inv, of "FwdM c" b] noS that
    by (auto simp: owed_ok_def waits_data_def)
  show ?thesis
  proof (rule aline_invI, goal_cases)
    case 1 show ?case using h by (simp add: home_ok_def)
  next
    case 2 show ?case using aline_invD(2) [OF inv] h by (simp add: acks_ok_def line_simps)
  next
    case (3 c')
    have tl: "tail_ok ?s c' F" if "tail_ok s c' F" "\<forall>r'. FwdS r' \<notin> set F" for F
      using that ds by (auto simp: tail_ok_def)
    have sh: "share_ok ?s Home c' F = share_ok s ToHome c' F" for F using ds by (simp add: share_ok_def)
    show ?case using aline_invD(3) [OF inv, of c'] tl nod [of c'] noS [of _ c'] h ds sh
      by (cases "caches s c'"; cases "source gh c'") (auto simp: away_def)
  next
    case (4 b f)
    then have f: "fwd_ok s gh b f" using aline_invD(4) [OF inv, of f b] by simp
    then show ?case using h by (cases f) auto
  next
    case 5 then show ?case by simp
  next
    case 6 show ?case using aline_invD(6) [OF inv] by (auto simp: owed_ok_def)
  qed
qed

lemma wb_done_S_inv:
  assumes inv: "aline_inv s gh" and ds: "dstate s = Dir_MS_MA" and q: "MWb r \<in># mems s"
  shows "aline_inv (s \<lparr> dstate := Dir_S, mems := mems s - {#MWb r#}, owners := {} \<rparr>) gh" (is "aline_inv ?s gh")
proof -
  have h: "place gh = Home" "tohome s = {#}" "ddata s = val s" "owners s = {}" "mems s = {#MWb r#}" "finite (sharers s)"
    using aline_invD(1) [OF inv] ds q by (auto simp: home_ok_def)
  show ?thesis
  proof (rule aline_invI, goal_cases)
    case 1 show ?case using h by (simp add: home_ok_def)
  next
    case 2 show ?case using aline_invD(2) [OF inv] h by (simp add: acks_ok_def line_simps)
  next
    case (3 c')
    have "tail_ok ?s c' F" if "tail_ok s c' F" for F using that ds h by (auto simp: tail_ok_def)
    moreover have "share_ok ?s Home c' F = share_ok s Home c' F" for F using ds h by (simp add: share_ok_def)
    ultimately show ?case using aline_invD(3) [OF inv, of c'] h ds
      by (cases "caches s c'"; cases "source gh c'") (auto simp: away_def)
  next
    case (4 b f)
    then have "fwd_ok s gh b f" using aline_invD(4) [OF inv, of f b] by simp
    then show ?case by (cases f) auto
  next
    case 5 then show ?case using h by simp
  next
    case 6 show ?case using aline_invD(6) [OF inv] by (auto simp: owed_ok_def)
  qed
qed

lemma wb_done_I_inv:
  assumes inv: "aline_inv s gh" and ds: "dstate s = Dir_MI_MA" and q: "MWb r \<in># mems s"
  shows "aline_inv (s \<lparr> dstate := Dir_I, mems := mems s - {#MWb r#}, owners := {},
      fwds := post (fwds s) {r} FWb \<rparr>) gh" (is "aline_inv ?s gh")
proof -
  have h: "place gh = Home" "tohome s = {#}" "ddata s = val s" "sharers s = {}" "owners s = {r}" "mems s = {#MWb r#}"
    using aline_invD(1) [OF inv] ds q by (auto simp: home_ok_def)
  have ck: "\<exists>d. caches s r = A_MIA d" "source gh r = Unneeded" "reqs s r = {#}" "fwds s r = []" "datas s r = {#}"
    using aline_invD(3) [OF inv, of r] h ds
    by (cases "caches s r"; cases "source gh r"; auto simp: away_def share_ok_def tail_ok_def)+
  have iv': "invs ?s = invs s" by (auto simp: invs_def post_def)
  show ?thesis
  proof (rule aline_invI, goal_cases)
    case 1 show ?case using h by (simp add: home_ok_def)
  next
    case 2 show ?case using acks_same [OF aline_invD(2) [OF inv], of ?s] iv' by simp
  next
    case (3 c')
    show ?case
    proof (cases "c' = r")
      case True then show ?thesis using ck h by (auto simp: post_def away_def)
    next
      case False
      then show ?thesis using cache_ok_absent [OF aline_invD(3) [OF inv, of c'], of ?s] h ds by (simp add: post_def)
    qed
  next
    case (4 b f)
    then have "f = FWb \<or> f \<in> set (fwds s b)" by (auto simp: post_def split: if_splits)
    then show ?case using aline_invD(4) [OF inv, of f b] by (cases f) auto
  next
    case 5 then show ?case using h by simp
  next
    case 6 show ?case using aline_invD(6) [OF inv] by (auto simp: owed_ok_def post_def)
  qed
qed

lemma home_step_inv:
  assumes "home_step s s'" "aline_inv s gh"
  shows "\<exists>gh'. aline_inv s' gh'"
  using assms
proof (induction rule: home_step.induct)
  case (gets_I s c) then show ?case using gets_I_inv by blast
next
  case (getm_I s c) then show ?case using getm_I_inv by blast
next
  case (gets_S s c) then show ?case using gets_S_inv by blast
next
  case (getm_S s c) then show ?case using getm_S_inv by blast
next
  case (gets_M s c)
  then obtain o' where "owners s = {o'}" using aline_invD(1) [of s gh] by (auto simp: home_ok_def)
  then show ?case using gets_M_inv [OF gets_M(3,1,2)] by blast
next
  case (getm_M s c)
  then obtain o' where "owners s = {o'}" using aline_invD(1) [of s gh] by (auto simp: home_ok_def)
  then show ?case using getm_M_inv [OF getm_M(3,1,2)] by blast
next
  case (put x s c d ds sh) then show ?case using put_inv [OF put(6,1,2,3,4)] put(5) by blast
next
  case (put_owner s d c) then show ?case using put_owner_inv by blast
next
  case (mem_S s r d) then show ?case using mem_S_inv by blast
next
  case (mem_M s r d) then show ?case using mem_M_inv by blast
next
  case (owner_data s d r) then show ?case using owner_data_inv by blast
next
  case (wb_done_S s r) then show ?case using wb_done_S_inv by blast
next
  case (wb_done_I s r) then show ?case using wb_done_I_inv by blast
qed

section \<open>Coherence of one line\<close>

definition readable :: "acache \<Rightarrow> blk \<Rightarrow> bool" where
  "readable k d = (k = A_S d \<or> k = A_M d \<or> (\<exists>p. k = A_SMAD p d \<or> k = A_SMA p d))"

lemma readable_current:
  assumes "aline_inv s gh" "readable (caches s c) d"
  shows "d = val s"
  using aline_invD(3) [OF assms(1), of c] assms(2) by (auto simp: readable_def split: source.splits)

lemma single_writer:
  assumes inv: "aline_inv s gh" and w: "caches s c = A_M d" and ne: "c' \<noteq> c"
  shows "\<not> readable (caches s c') d'"
proof
  assume r: "readable (caches s c') d'"
  have t: "place gh = At c" and "datas s c = {#}" using aline_invD(3) [OF inv, of c] w by auto
  then have "invs s = {}" using acks_none [of s c] aline_invD(2) [OF inv] w by (simp add: awaited_def)
  then have "\<not> has_inv (fwds s c')" by (rule invs_empty)
  then show False using aline_invD(3) [OF inv, of c'] r t ne
    by (auto simp: readable_def share_ok_def split: source.splits)
qed

text \<open>While the directory is in state I, no copy and no message carries the value of the line.\<close>

lemma forget_inv:
  assumes inv: "aline_inv s gh" and I: "dstate s = Dir_I"
  shows "aline_inv (s \<lparr> ddata := z, val := z \<rparr>) gh"
proof (rule aline_invI)
  let ?s = "s \<lparr> ddata := z, val := z \<rparr>"
  have h: "home_ok s (place gh)" by (rule aline_invD(1) [OF inv])
  then have e: "place gh = Home" "sharers s = {}" "owners s = {}" "tohome s = {#}" "mems s = {#}"
    using I by (auto simp: home_ok_def)
  have ni: "fwds s c \<noteq> FInv r # F" for r c F using aline_invD(4) [OF inv, of "FInv r" c] e by auto
  show "home_ok ?s (place gh)" using e I by (simp add: home_ok_def)
  show "acks_ok ?s (place gh)" by (rule acks_same [OF aline_invD(2) [OF inv]]) (simp_all add: line_simps)
  show "cache_ok ?s (place gh) c (caches ?s c) (source gh c) (reqs ?s c) (fwds ?s c) (datas ?s c)" for c
  proof -
    have "\<not> share_ok s (place gh) c (fwds s c)" using ni e by (simp add: share_ok_def)
    then show ?thesis using aline_invD(3) [OF inv, of c] ni e I
      by (cases "caches s c") (auto simp: line_simps tail_ok_def split: source.splits)
  qed
  show "fwd_ok ?s gh b f" if "f \<in> set (fwds ?s b)" for b f
    using aline_invD(4) [OF inv, of f b] that by (cases f) simp_all
  show "place gh = ToHome \<Longrightarrow> sharing gh = None" using aline_invD(5) [OF inv] .
  show "owed_ok ?s gh" using aline_invD(6) [OF inv] by (simp add: owed_ok_def)
qed

definition aline_init :: "blk \<Rightarrow> aline" where
  "aline_init v = \<lparr> caches = (\<lambda>_. A_I), reqs = (\<lambda>_. {#}), fwds = (\<lambda>_. []), datas = (\<lambda>_. {#}), acks = (\<lambda>_. 0),
     tohome = {#}, mems = {#}, dstate = Dir_I, ddata = v, sharers = {}, owners = {}, val = v \<rparr>"

lemma aline_init_inv: "aline_inv (aline_init v) \<lparr> place = Home, source = (\<lambda>_. Unneeded), sharing = None \<rparr>"
  by (simp add: aline_inv_def aline_init_def home_ok_def acks_ok_def invs_def away_def owed_ok_def)

end
