(* ===== verification/Msi_System.thy ===== *)
theory Msi_System
  imports Msi_Dir
begin

text \<open>
  The Lab 5 memory system: any number of L1 controllers (\<^verbatim>\<open>Msi_L1\<close>) and directory controllers
  (\<^verbatim>\<open>Msi_Dir\<close>) that exchange messages over the virtual networks that the two controllers declare.
  A virtual network keeps, for every machine, the messages that are on their way to it and the
  queue of its input port; the networks are declared ordered, so that two messages from the same
  machine do not overtake each other, while messages from different machines may arrive in any order.
  The buffers are unbounded (\<^verbatim>\<open>MessageBuffer\<close> without a size).

  One label of \<open>exec\<close> is one transition: a controller serves the head of one of its input ports, in any
  order of the ports and the controllers, a network delivers a message, a memory request is
  completed (in any order), or a processor issues a request.  The time at which it happens is left
  open.  The address map, the room in the cache array and the room in the transaction tables are
  parameters (\<open>msi_conf\<close>).  The line that the replacement policy of a full set picks
  (\<^verbatim>\<open>cacheProbe\<close>) is part of the label and can be any line of the array, since the policies depend on
  the history of the accesses (\<^verbatim>\<open>Replacement\<close>); \<^verbatim>\<open>Cache_Memory\<close> shows that \<^verbatim>\<open>cacheProbe\<close> always gives one.  \<^verbatim>\<open>block_on\<close>, used by locked accesses, is left out.
\<close>

section \<open>Virtual networks\<close>

record 'm vnet =
  transit :: "machine \<Rightarrow> (machine \<times> 'm) list"
  inport :: "machine \<Rightarrow> 'm list"

definition vn_send :: "machine \<Rightarrow> ('m \<Rightarrow> machine set) \<Rightarrow> 'm list \<Rightarrow> 'm vnet \<Rightarrow> 'm vnet" where
  "vn_send src dst ms v = v \<lparr> transit :=
     (\<lambda>x. transit v x @ map (Pair src) (filter (\<lambda>m. x \<in> dst m) ms)) \<rparr>"

definition vn_may_arrive :: "(machine \<times> 'm) list \<Rightarrow> nat \<Rightarrow> bool" where
  "vn_may_arrive q i = (i < length q \<and> fst (q ! i) \<notin> fst ` set (take i q))"

definition vn_deliver :: "machine \<Rightarrow> nat \<Rightarrow> 'm vnet \<Rightarrow> 'm vnet" where
  "vn_deliver x i v = (let q = transit v x in
     if vn_may_arrive q i
     then v \<lparr> transit := (transit v)(x := take i q @ drop (Suc i) q),
              inport := (inport v)(x := inport v x @ [snd (q ! i)]) \<rparr>
     else v)"

definition vn_pop :: "machine \<Rightarrow> 'm vnet \<Rightarrow> 'm vnet" where
  "vn_pop x v = v \<lparr> inport := (inport v)(x := tl (inport v x)) \<rparr>"

definition vn_empty :: "'m vnet" where
  "vn_empty = \<lparr> transit = (\<lambda>_. []), inport = (\<lambda>_. []) \<rparr>"

section \<open>The state of the system\<close>

record l1_cntrl =
  cacheMemory :: "addr \<rightharpoonup> l1_entry"
  TBEs :: "addr \<rightharpoonup> l1_tbe"
  mandatoryQueue :: "RubyRequest list"

record dir_cntrl =
  directory :: "addr \<Rightarrow> msi_dir_entry"
  dTBEs :: "addr \<rightharpoonup> dir_tbe"
  memBuffer :: "MemoryMsg list"

record msi_sys =
  l1s :: "nat \<Rightarrow> l1_cntrl"
  dirs :: "nat \<Rightarrow> dir_cntrl"
  requests :: "RequestMsg vnet"
  forwards :: "RequestMsg vnet"
  responses :: "ResponseMsg vnet"
  call_log :: "callback list"

record msi_conf =
  map_Address_to_Directory :: "addr \<Rightarrow> nat"
  new_block :: blk
  block_size_bits :: nat
  evictions_sent :: bool
  sparse_directory :: bool
  l1_cacheAvail :: "(addr \<rightharpoonup> l1_entry) \<Rightarrow> addr \<Rightarrow> bool"
  TBEs_room :: "(addr \<rightharpoonup> l1_tbe) \<Rightarrow> bool"
  dTBEs_room :: "(addr \<rightharpoonup> dir_tbe) \<Rightarrow> bool"

section \<open>One transition of an L1 controller\<close>

definition l1_slot_of :: "l1_cntrl \<Rightarrow> addr \<Rightarrow> l1_slot" where
  "l1_slot_of k a = \<lparr> cache_entry = cacheMemory k a, tbe = TBEs k a, requestNetwork_out = [],
     responseNetwork_out = [], callbacks = [], popped = [] \<rparr>"

definition l1_env_of :: "msi_conf \<Rightarrow> nat \<Rightarrow> addr \<Rightarrow> (blk \<Rightarrow> blk) \<Rightarrow> RequestMsg option \<Rightarrow> ResponseMsg option
    \<Rightarrow> l1_cntrl \<Rightarrow> l1_env" where
  "l1_env_of cf c a w fm rm k = \<lparr> version = c, address = a, home = map_Address_to_Directory cf a,
     blk0 = new_block cf, tbe_room = TBEs_room cf (TBEs k), send_evictions = evictions_sent cf,
     pending_store = w, fwd_msg = fm, rsp_msg = rm \<rparr>"

definition l1_commit :: "nat \<Rightarrow> addr \<Rightarrow> l1_slot \<Rightarrow> msi_sys \<Rightarrow> msi_sys" where
  "l1_commit c a sl s = (let k = l1s s c in
     s \<lparr> l1s := (l1s s)(c := \<lparr> cacheMemory = (cacheMemory k)(a := cache_entry sl),
             TBEs = (TBEs k)(a := tbe sl),
             mandatoryQueue = (if mandatoryQueue_in \<in> set (popped sl) then tl (mandatoryQueue k)
               else mandatoryQueue k) \<rparr>),
         requests := vn_send (L1Cache c) rq_Destination (requestNetwork_out sl) (requests s),
         forwards := (if forwardRequestNetwork_in \<in> set (popped sl) then vn_pop (L1Cache c) (forwards s)
             else forwards s),
         responses := vn_send (L1Cache c) rs_Destination (responseNetwork_out sl)
             (if responseNetwork_in \<in> set (popped sl) then vn_pop (L1Cache c) (responses s)
              else responses s),
         call_log := call_log s @ callbacks sl \<rparr>)"

definition l1_trigger :: "msi_conf \<Rightarrow> nat \<Rightarrow> l1_event \<Rightarrow> addr \<Rightarrow> (blk \<Rightarrow> blk) \<Rightarrow> RequestMsg option
    \<Rightarrow> ResponseMsg option \<Rightarrow> msi_sys \<Rightarrow> msi_sys res" where
  "l1_trigger cf c ev a w fm rm s =
     (case l1_doTransition (l1_env_of cf c a w fm rm (l1s s c)) ev (l1_slot_of (l1s s c) a) of
        Inl e \<Rightarrow> Inl e | Inr None \<Rightarrow> Inr s | Inr (Some sl) \<Rightarrow> Inr (l1_commit c a sl s))"

definition l1_mandatory :: "msi_conf \<Rightarrow> nat \<Rightarrow> (blk \<Rightarrow> blk) \<Rightarrow> addr \<Rightarrow> msi_sys \<Rightarrow> msi_sys res" where
  "l1_mandatory cf c w victim s = (case mandatoryQueue (l1s s c) of [] \<Rightarrow> Inr s
     | m # _ \<Rightarrow> (let cm = cacheMemory (l1s s c); a = rr_LineAddress m in
         if cm a = None \<and> \<not> l1_cacheAvail cf cm a
         then (if cm victim = None then Inr s else l1_trigger cf c Repl victim w None None s)
         else (case mandatory_request_type_to_event (rr_Type m) of Inl e \<Rightarrow> Inl e
           | Inr ev \<Rightarrow> l1_trigger cf c ev a w None None s)))"

definition l1_forward :: "msi_conf \<Rightarrow> nat \<Rightarrow> (blk \<Rightarrow> blk) \<Rightarrow> msi_sys \<Rightarrow> msi_sys res" where
  "l1_forward cf c w s = (case inport (forwards s) (L1Cache c) of [] \<Rightarrow> Inr s
     | m # _ \<Rightarrow> (case l1_forward_event m of Inl e \<Rightarrow> Inl e
         | Inr ev \<Rightarrow> l1_trigger cf c ev (rq_Address m) w (Some m) None s))"

definition l1_respond :: "msi_conf \<Rightarrow> nat \<Rightarrow> (blk \<Rightarrow> blk) \<Rightarrow> msi_sys \<Rightarrow> msi_sys res" where
  "l1_respond cf c w s = (case inport (responses s) (L1Cache c) of [] \<Rightarrow> Inr s
     | m # _ \<Rightarrow> (case l1_response_event (TBEs (l1s s c) (rs_Address m)) m of Inl e \<Rightarrow> Inl e
         | Inr ev \<Rightarrow> l1_trigger cf c ev (rs_Address m) w None (Some m) s))"

section \<open>One transition of a directory controller\<close>

definition dir_slot_of :: "dir_cntrl \<Rightarrow> addr \<Rightarrow> dir_slot" where
  "dir_slot_of k a = \<lparr> dir_entry = directory k a, dtbe = dTBEs k a, forwardNetwork_out = [],
     dresponseNetwork_out = [], memQueue_out = [], dpopped = [] \<rparr>"

definition dir_env_of :: "msi_conf \<Rightarrow> nat \<Rightarrow> addr \<Rightarrow> RequestMsg option \<Rightarrow> ResponseMsg option
    \<Rightarrow> MemoryMsg option \<Rightarrow> dir_cntrl \<Rightarrow> dir_env" where
  "dir_env_of cf d a qm rm mm k = \<lparr> dversion = d, daddress = a, dblk0 = new_block cf,
     block_bits = block_size_bits cf, use_map = sparse_directory cf, dtbe_room = dTBEs_room cf (dTBEs k),
     req_msg = qm, drsp_msg = rm, mem_msg = mm \<rparr>"

definition dir_commit :: "nat \<Rightarrow> addr \<Rightarrow> nat \<Rightarrow> dir_slot \<Rightarrow> msi_sys \<Rightarrow> msi_sys" where
  "dir_commit d a i sl s = (let k = dirs s d in
     s \<lparr> dirs := (dirs s)(d := \<lparr> directory = (directory k)(a := dir_entry sl),
             dTBEs = (dTBEs k)(a := dtbe sl),
             memBuffer = (if memQueue_in \<in> set (dpopped sl) then take i (memBuffer k) @ drop (Suc i) (memBuffer k)
               else memBuffer k) @ memQueue_out sl \<rparr>),
         requests := (if requestQueue_in \<in> set (dpopped sl) then vn_pop (Directory d) (requests s)
             else requests s),
         forwards := vn_send (Directory d) rq_Destination (forwardNetwork_out sl) (forwards s),
         responses := vn_send (Directory d) rs_Destination (dresponseNetwork_out sl)
             (if responseQueue_in \<in> set (dpopped sl) then vn_pop (Directory d) (responses s)
              else responses s) \<rparr>)"

definition dir_trigger :: "msi_conf \<Rightarrow> nat \<Rightarrow> dir_event \<Rightarrow> addr \<Rightarrow> RequestMsg option \<Rightarrow> ResponseMsg option
    \<Rightarrow> MemoryMsg option \<Rightarrow> nat \<Rightarrow> msi_sys \<Rightarrow> msi_sys res" where
  "dir_trigger cf d ev a qm rm mm i s =
     (case dir_doTransition (dir_env_of cf d a qm rm mm (dirs s d)) ev (dir_slot_of (dirs s d) a) of
        Inl e \<Rightarrow> Inl e | Inr None \<Rightarrow> Inr s | Inr (Some sl) \<Rightarrow> Inr (dir_commit d a i sl s))"

definition dir_request :: "msi_conf \<Rightarrow> nat \<Rightarrow> msi_sys \<Rightarrow> msi_sys res" where
  "dir_request cf d s = (case inport (requests s) (Directory d) of [] \<Rightarrow> Inr s
     | m # _ \<Rightarrow> (case dir_request_event (directory (dirs s d) (rq_Address m)) m of Inl e \<Rightarrow> Inl e
         | Inr ev \<Rightarrow> dir_trigger cf d ev (rq_Address m) (Some m) None None 0 s))"

definition dir_respond :: "msi_conf \<Rightarrow> nat \<Rightarrow> msi_sys \<Rightarrow> msi_sys res" where
  "dir_respond cf d s = (case inport (responses s) (Directory d) of [] \<Rightarrow> Inr s
     | m # _ \<Rightarrow> (case dir_response_event m of Inl e \<Rightarrow> Inl e
         | Inr ev \<Rightarrow> dir_trigger cf d ev (rs_Address m) None (Some m) None 0 s))"

definition dir_mem :: "msi_conf \<Rightarrow> nat \<Rightarrow> nat \<Rightarrow> msi_sys \<Rightarrow> msi_sys res" where
  "dir_mem cf d i s = (if i < length (memBuffer (dirs s d)) then
     (let m = memBuffer (dirs s d) ! i in case dir_memory_event m of Inl e \<Rightarrow> Inl e
        | Inr ev \<Rightarrow> dir_trigger cf d ev (mm_Address m) None None (Some m) i s)
     else Inr s)"

section \<open>Runs\<close>

datatype label = Issue nat RubyRequest | L1_Mandatory nat "blk \<Rightarrow> blk" addr | L1_Forward nat
  | L1_Response nat "blk \<Rightarrow> blk" | Dir_Request nat | Dir_Response nat | Dir_Memory nat nat
  | Deliver_Request machine nat | Deliver_Forward machine nat | Deliver_Response machine nat

fun exec :: "msi_conf \<Rightarrow> label \<Rightarrow> msi_sys \<Rightarrow> msi_sys res" where
  "exec cf (Issue c r) s = Inr (s \<lparr> l1s := (l1s s)(c := (l1s s c)
     \<lparr> mandatoryQueue := mandatoryQueue (l1s s c) @ [r] \<rparr>) \<rparr>)"
| "exec cf (L1_Mandatory c w victim) s = l1_mandatory cf c w victim s"
| "exec cf (L1_Forward c) s = l1_forward cf c id s"
| "exec cf (L1_Response c w) s = l1_respond cf c w s"
| "exec cf (Dir_Request d) s = dir_request cf d s"
| "exec cf (Dir_Response d) s = dir_respond cf d s"
| "exec cf (Dir_Memory d i) s = dir_mem cf d i s"
| "exec cf (Deliver_Request x i) s = Inr (s \<lparr> requests := vn_deliver x i (requests s) \<rparr>)"
| "exec cf (Deliver_Forward x i) s = Inr (s \<lparr> forwards := vn_deliver x i (forwards s) \<rparr>)"
| "exec cf (Deliver_Response x i) s = Inr (s \<lparr> responses := vn_deliver x i (responses s) \<rparr>)"

definition init_sys :: "msi_conf \<Rightarrow> (addr \<Rightarrow> blk) \<Rightarrow> msi_sys" where
  "init_sys cf ram = \<lparr> l1s = (\<lambda>_. \<lparr> cacheMemory = Map.empty, TBEs = Map.empty, mandatoryQueue = [] \<rparr>),
     dirs = (\<lambda>_. \<lparr> directory = (\<lambda>a. new_dir_entry (sparse_directory cf) (new_block cf) (ram a)), dTBEs = Map.empty, memBuffer = [] \<rparr>),
     requests = vn_empty, forwards = vn_empty, responses = vn_empty, call_log = [] \<rparr>"

inductive reachable :: "msi_conf \<Rightarrow> (addr \<Rightarrow> blk) \<Rightarrow> msi_sys \<Rightarrow> bool" for cf ram where
  start: "reachable cf ram (init_sys cf ram)"
| step: "reachable cf ram s \<Longrightarrow> exec cf l s = Inr s' \<Longrightarrow> reachable cf ram s'"

fun exec_all :: "msi_conf \<Rightarrow> label list \<Rightarrow> msi_sys \<Rightarrow> msi_sys res" where
  "exec_all cf [] s = Inr s"
| "exec_all cf (l # ls) s = (case exec cf l s of Inl e \<Rightarrow> Inl e | Inr s' \<Rightarrow> exec_all cf ls s')"

lemma exec_all_reachable:
  "reachable cf ram s \<Longrightarrow> exec_all cf ls s = Inr s' \<Longrightarrow> reachable cf ram s'"
  by (induction cf ls s rule: exec_all.induct) (auto split: sum.splits intro: reachable.step)

section \<open>The blocks that the processors see\<close>

text \<open>
  The value of a line after a sequence of callbacks, and whether every load and every store in it
  was handed the value of the line at that moment.
\<close>

fun line_value :: "addr \<Rightarrow> blk \<Rightarrow> callback list \<Rightarrow> blk" where
  "line_value a v [] = v"
| "line_value a v (writeCallback c b g d d' # ks) = line_value a (if b = a then d' else v) ks"
| "line_value a v (readCallback c b g d # ks) = line_value a v ks"
| "line_value a v (evictionCallback c b # ks) = line_value a v ks"

fun line_coherent :: "addr \<Rightarrow> blk \<Rightarrow> callback list \<Rightarrow> bool" where
  "line_coherent a v [] = True"
| "line_coherent a v (writeCallback c b g d d' # ks) =
     ((b = a \<longrightarrow> d = v) \<and> line_coherent a (if b = a then d' else v) ks)"
| "line_coherent a v (readCallback c b g d # ks) = ((b = a \<longrightarrow> d = v) \<and> line_coherent a v ks)"
| "line_coherent a v (evictionCallback c b # ks) = line_coherent a v ks"

lemma line_value_append: "line_value a v (xs @ ys) = line_value a (line_value a v xs) ys"
  by (induction a v xs rule: line_value.induct) auto

lemma line_coherent_append:
  "line_coherent a v (xs @ ys) = (line_coherent a v xs \<and> line_coherent a (line_value a v xs) ys)"
  by (induction a v xs rule: line_coherent.induct) auto

text \<open>
  The same when the line may lose its value between two callbacks (\<open>sp\<close>): it then has the value \<open>z\<close>.
\<close>

inductive line_run :: "bool \<Rightarrow> blk \<Rightarrow> addr \<Rightarrow> blk \<Rightarrow> callback list \<Rightarrow> blk \<Rightarrow> bool" for sp z a v where
  line_start: "line_run sp z a v [] v"
| line_lost: "line_run sp z a v ks u \<Longrightarrow> sp \<Longrightarrow> line_run sp z a v ks z"
| line_call: "line_run sp z a v ks u \<Longrightarrow> line_coherent a u [k] \<Longrightarrow> line_run sp z a v (ks @ [k]) (line_value a u [k])"

lemma line_run_append:
  "line_run sp z a v ks u \<Longrightarrow> line_coherent a u js \<Longrightarrow> line_run sp z a v (ks @ js) (line_value a u js)"
proof (induction js rule: rev_induct)
  case (snoc j js)
  then show ?case using line_call [of sp z a v "ks @ js" "line_value a u js" j]
    by (simp add: line_coherent_append line_value_append)
qed simp

lemma line_run_exact: "line_run sp z a v ks u \<Longrightarrow> \<not> sp \<Longrightarrow> line_coherent a v ks \<and> u = line_value a v ks"
  by (induction rule: line_run.induct) (auto simp: line_coherent_append line_value_append)

lemma line_run_Nil: "line_run sp z a v ks u \<Longrightarrow> ks = [] \<Longrightarrow> u = v \<or> sp \<and> u = z"
  by (induction rule: line_run.induct) auto

lemma line_run_snoc:
  "line_run sp z a v js u \<Longrightarrow> js = ks @ [k] \<Longrightarrow>
   \<exists>w. line_run sp z a v ks w \<and> line_coherent a w [k] \<and> (u = line_value a w [k] \<or> sp \<and> u = z)"
  by (induction arbitrary: ks k rule: line_run.induct) auto

end
