(* ===== verification/Msi_Rep.thy ===== *)
theory Msi_Rep
  imports Msi_Home Msi_System
begin

text \<open>
  How a state of the system (\<^verbatim>\<open>Msi_System\<close>) represents a state of the abstract machine of one line
  (\<^verbatim>\<open>Msi_Home\<close>): \<open>rep\<close> reads the entries of the line in every controller and the messages about the
  line that are under way.  \<open>wf_sys\<close> says that every message is one that its receiver can get.
\<close>

section \<open>Messages under way\<close>

definition vn_all :: "'m vnet \<Rightarrow> machine \<Rightarrow> 'm list" where
  "vn_all v x = inport v x @ map snd (transit v x)"

lemma vn_all_send [simp]: "vn_all (vn_send src dst ms v) x = vn_all v x @ filter (\<lambda>m. x \<in> dst m) ms"
  by (simp add: vn_all_def vn_send_def comp_def)

lemma vn_all_pop: "inport v x = m # q \<Longrightarrow> vn_all v x = m # vn_all (vn_pop x v) x"
  by (simp add: vn_all_def vn_pop_def)

lemma vn_all_pop_other: "y \<noteq> x \<Longrightarrow> vn_all (vn_pop x v) y = vn_all v y"
  by (simp add: vn_all_def vn_pop_def)

lemma vn_pop_subset: "set (vn_all (vn_pop x v) y) \<subseteq> set (vn_all v y)"
  by (cases "inport v x") (auto simp: vn_all_def vn_pop_def)

lemma vn_popD: "m \<in> set (vn_all (vn_pop x v) y) \<Longrightarrow> m \<in> set (vn_all v y)"
  using vn_pop_subset by (rule subsetD)

lemma transit_pop [simp]: "transit (vn_pop x v) = transit v"
  by (simp add: vn_pop_def)

lemma vn_all_empty [simp]: "vn_all vn_empty x = []"
  by (simp add: vn_all_def vn_empty_def)

lemma vn_deliver_cases:
  "vn_deliver x i v = v \<or> (\<exists>l y m r. transit v x = l @ (y, m) # r \<and> y \<notin> fst ` set l
     \<and> vn_deliver x i v = v \<lparr> transit := (transit v)(x := l @ r), inport := (inport v)(x := inport v x @ [m]) \<rparr>)"
proof (cases "vn_may_arrive (transit v x) i")
  case True
  let ?q = "transit v x"
  have i: "i < length ?q" "fst (?q ! i) \<notin> fst ` set (take i ?q)" using True by (simp_all add: vn_may_arrive_def)
  have "?q = take i ?q @ (fst (?q ! i), snd (?q ! i)) # drop (Suc i) ?q" using i(1) by (simp add: id_take_nth_drop)
  moreover have "vn_deliver x i v = v \<lparr> transit := (transit v)(x := take i ?q @ drop (Suc i) ?q),
      inport := (inport v)(x := inport v x @ [snd (?q ! i)]) \<rparr>" using True by (simp add: vn_deliver_def Let_def)
  ultimately show ?thesis using i(2) by blast
qed (simp add: vn_deliver_def Let_def)

lemma mset_vn_deliver: "mset (vn_all (vn_deliver x i v) y) = mset (vn_all v y)"
  using vn_deliver_cases [of x i v] by (auto simp: vn_all_def)

lemma set_vn_deliver: "set (vn_all (vn_deliver x i v) y) = set (vn_all v y)"
  by (metis mset_vn_deliver set_mset_mset)

lemma transit_vn_deliver: "set (transit (vn_deliver x i v) y) \<subseteq> set (transit v y)"
  using vn_deliver_cases [of x i v] by (auto split: if_splits)

text \<open>Messages that all come from the same machine arrive in the order in which they were sent.\<close>

lemma filter_vn_deliver:
  assumes "\<forall>(y, m) \<in> set (transit v x). P m \<longrightarrow> y = h"
  shows "filter P (vn_all (vn_deliver x i v) z) = filter P (vn_all v z)"
proof -
  consider "vn_deliver x i v = v"
    | l y m r where "transit v x = l @ (y, m) # r" "y \<notin> fst ` set l"
      "vn_deliver x i v = v \<lparr> transit := (transit v)(x := l @ r), inport := (inport v)(x := inport v x @ [m]) \<rparr>"
    using vn_deliver_cases [of x i v] by blast
  then show ?thesis
  proof cases
    case (2 l y m r)
    have "filter P (map snd l) = []" if "P m"
      using that 2(1,2) assms by (auto simp: filter_empty_conv image_iff)
    then show ?thesis using 2 by (auto simp: vn_all_def)
  qed simp
qed

section \<open>Abstract messages\<close>

definition mach_no :: "machine \<Rightarrow> nat" where
  "mach_no m = (case m of L1Cache c \<Rightarrow> c | Directory d \<Rightarrow> d)"

definition abs_req :: "RequestMsg \<Rightarrow> areq" where
  "abs_req m = (if rq_Type m = GETS then GetS else if rq_Type m = GETM then GetM
     else if rq_Type m = PUTM then PutM (rq_DataBlk m) else PutS)"

definition abs_fwd :: "RequestMsg \<Rightarrow> afwd" where
  "abs_fwd m = (if rq_Type m = GETS then FwdS (mach_no (rq_Requestor m))
     else if rq_Type m = GETM then FwdM (mach_no (rq_Requestor m))
     else if rq_Type m = INV then FInv (mach_no (rq_Requestor m)) else FWb)"

definition abs_data :: "ResponseMsg \<Rightarrow> adata" where
  "abs_data m = (if rs_Type m = DATA_FROM_DIR then FromDir (rs_AckCount m) (rs_DataBlk m)
     else FromOwner (rs_DataBlk m))"

definition abs_mem :: "MemoryMsg \<Rightarrow> amem" where
  "abs_mem m = (if mm_Type m = MEMORY_READ then MRead (mach_no (mm_OriginalRequestorMachId m)) (mm_DataBlk m)
     else MWb (mach_no (mm_OriginalRequestorMachId m)))"

definition reqs_of :: "addr \<Rightarrow> RequestMsg list \<Rightarrow> nat \<Rightarrow> areq multiset" where
  "reqs_of a q c = image_mset abs_req {#m \<in># mset q. rq_Address m = a \<and> rq_Requestor m = L1Cache c#}"

definition fwds_of :: "addr \<Rightarrow> RequestMsg list \<Rightarrow> afwd list" where
  "fwds_of a q = map abs_fwd (filter (\<lambda>m. rq_Address m = a) q)"

definition datas_of :: "addr \<Rightarrow> ResponseMsg list \<Rightarrow> adata multiset" where
  "datas_of a q = image_mset abs_data {#m \<in># mset q. rs_Address m = a \<and> rs_Type m \<noteq> ACK#}"

definition acks_of :: "addr \<Rightarrow> ResponseMsg list \<Rightarrow> nat" where
  "acks_of a q = size {#m \<in># mset q. rs_Address m = a \<and> rs_Type m = ACK#}"

definition tohome_of :: "addr \<Rightarrow> ResponseMsg list \<Rightarrow> blk multiset" where
  "tohome_of a q = image_mset rs_DataBlk {#m \<in># mset q. rs_Address m = a#}"

definition mems_of :: "addr \<Rightarrow> MemoryMsg list \<Rightarrow> amem multiset" where
  "mems_of a q = image_mset abs_mem {#m \<in># mset q. mm_Address m = a#}"

named_theorems msg_simps \<open>abstract messages of a list of messages\<close>

lemma reqs_of_simps [msg_simps]:
  "reqs_of a [] c = {#}" "reqs_of a (q @ r) c = reqs_of a q c + reqs_of a r c"
  "reqs_of a (m # q) c = (if rq_Address m = a \<and> rq_Requestor m = L1Cache c then add_mset (abs_req m) (reqs_of a q c)
     else reqs_of a q c)"
  by (simp_all add: reqs_of_def)

lemma fwds_of_simps [msg_simps]:
  "fwds_of a [] = []" "fwds_of a (q @ r) = fwds_of a q @ fwds_of a r"
  "fwds_of a (m # q) = (if rq_Address m = a then abs_fwd m # fwds_of a q else fwds_of a q)"
  by (simp_all add: fwds_of_def)

lemma datas_of_simps [msg_simps]:
  "datas_of a [] = {#}" "datas_of a (q @ r) = datas_of a q + datas_of a r"
  "datas_of a (m # q) = (if rs_Address m = a \<and> rs_Type m \<noteq> ACK then add_mset (abs_data m) (datas_of a q)
     else datas_of a q)"
  by (simp_all add: datas_of_def)

lemma acks_of_simps [msg_simps]:
  "acks_of a [] = 0" "acks_of a (q @ r) = acks_of a q + acks_of a r"
  "acks_of a (m # q) = (if rs_Address m = a \<and> rs_Type m = ACK then Suc (acks_of a q) else acks_of a q)"
  by (simp_all add: acks_of_def)

lemma tohome_of_simps [msg_simps]:
  "tohome_of a [] = {#}" "tohome_of a (q @ r) = tohome_of a q + tohome_of a r"
  "tohome_of a (m # q) = (if rs_Address m = a then add_mset (rs_DataBlk m) (tohome_of a q) else tohome_of a q)"
  by (simp_all add: tohome_of_def)

lemma mems_of_simps [msg_simps]:
  "mems_of a [] = {#}" "mems_of a (q @ r) = mems_of a q + mems_of a r"
  "mems_of a (m # q) = (if mm_Address m = a then add_mset (abs_mem m) (mems_of a q) else mems_of a q)"
  by (simp_all add: mems_of_def)

text \<open>Messages about other lines.\<close>

lemma other_line:
  "\<forall>m\<in>set q. rq_Address m \<noteq> a \<Longrightarrow> reqs_of a q c = {#}"
  "\<forall>m\<in>set q. rq_Address m \<noteq> a \<Longrightarrow> fwds_of a q = []"
  "\<forall>m\<in>set r. rs_Address m \<noteq> a \<Longrightarrow> datas_of a r = {#}"
  "\<forall>m\<in>set r. rs_Address m \<noteq> a \<Longrightarrow> acks_of a r = 0"
  "\<forall>m\<in>set r. rs_Address m \<noteq> a \<Longrightarrow> tohome_of a r = {#}"
  "\<forall>m\<in>set l. mm_Address m \<noteq> a \<Longrightarrow> mems_of a l = {#}"
  by (auto simp: reqs_of_def fwds_of_def datas_of_def acks_of_def tohome_of_def mems_of_def
      filter_mset_eq_conv filter_empty_conv)

lemma of_mset_eq:
  "mset q = mset q' \<Longrightarrow> reqs_of a q c = reqs_of a q' c"
  "mset r = mset r' \<Longrightarrow> datas_of a r = datas_of a r'"
  "mset r = mset r' \<Longrightarrow> acks_of a r = acks_of a r'"
  "mset r = mset r' \<Longrightarrow> tohome_of a r = tohome_of a r'"
  by (simp_all add: reqs_of_def datas_of_def acks_of_def tohome_of_def)

lemma vn_pop_head:
  assumes "inport v x = m # q"
  shows "fwds_of a (vn_all (vn_pop x v) x) = (if rq_Address m = a then tl (fwds_of a (vn_all v x)) else fwds_of a (vn_all v x))"
  using vn_all_pop [OF assms] by (simp add: msg_simps)

lemma vn_pop_response:
  assumes "inport v x = m # q"
  shows "datas_of a (vn_all (vn_pop x v) x) = datas_of a (vn_all v x) - datas_of a [m]"
    and "acks_of a (vn_all (vn_pop x v) x) = acks_of a (vn_all v x) - acks_of a [m]"
    and "tohome_of a (vn_all (vn_pop x v) x) = tohome_of a (vn_all v x) - tohome_of a [m]"
  using vn_all_pop [OF assms] by (simp_all add: msg_simps)

section \<open>The representation\<close>

definition stable_rep :: "l1_state \<Rightarrow> blk \<Rightarrow> l1_entry option \<Rightarrow> l1_tbe option \<Rightarrow> bool" where
  "stable_rep st d e t = (t = None \<and> (\<exists>x. e = Some x \<and> CacheState x = st \<and> DataBlk x = d))"

definition busy_rep :: "l1_state \<Rightarrow> blk \<Rightarrow> int \<Rightarrow> blk \<Rightarrow> l1_entry option \<Rightarrow> l1_tbe option \<Rightarrow> bool" where
  "busy_rep st d p td e t = ((\<exists>x. e = Some x \<and> CacheState x = st \<and> DataBlk x = d)
     \<and> (\<exists>y. t = Some y \<and> TBEState y = st \<and> pendingAcks y = p \<and> tDataBlk y = td))"

fun l1_rep :: "acache \<Rightarrow> l1_entry option \<Rightarrow> l1_tbe option \<Rightarrow> bool" where
  "l1_rep A_I e t = (e = None \<and> t = None)"
| "l1_rep (A_S d) e t = stable_rep L1_S d e t"
| "l1_rep (A_M d) e t = stable_rep L1_M d e t"
| "l1_rep A_ISD e t = (\<exists>d p td. busy_rep L1_IS_D d p td e t)"
| "l1_rep (A_IMAD p) e t = (\<exists>d td. busy_rep L1_IM_AD d p td e t)"
| "l1_rep (A_IMA p d) e t = (\<exists>td. busy_rep L1_IM_A d p td e t)"
| "l1_rep (A_SMAD p d) e t = (\<exists>td. busy_rep L1_SM_AD d p td e t)"
| "l1_rep (A_SMA p d) e t = (\<exists>td. busy_rep L1_SM_A d p td e t)"
| "l1_rep (A_MIA d) e t = (\<exists>d0 p. busy_rep L1_MI_A d0 p d e t)"
| "l1_rep A_SIA e t = (\<exists>d0 p td. busy_rep L1_SI_A d0 p td e t)"
| "l1_rep A_IIA e t = (\<exists>d0 p td. busy_rep L1_II_A d0 p td e t)"

definition dir_rep :: "aline \<Rightarrow> msi_dir_entry \<Rightarrow> dir_tbe option \<Rightarrow> bool" where
  "dir_rep p e t = (DirectoryState e = dstate p \<and> dDataBlk e = ddata p
     \<and> Sharers e = L1Cache ` sharers p \<and> Owner e = L1Cache ` owners p
     \<and> (if dstate p \<in> {Dir_I, Dir_S, Dir_M} then t = None
        else (\<exists>y. t = Some y \<and> dTBEState y = dstate p \<and> PhysicalAddress y = 0 \<and> Len y = 0)))"

definition initial_block :: "msi_conf \<Rightarrow> (addr \<Rightarrow> blk) \<Rightarrow> addr \<Rightarrow> blk" where
  "initial_block cf ram a = (if sparse_directory cf then new_block cf else ram a)"

definition rep :: "msi_conf \<Rightarrow> (addr \<Rightarrow> blk) \<Rightarrow> addr \<Rightarrow> msi_sys \<Rightarrow> aline \<Rightarrow> bool" where
  "rep cf ram a s p = (let h = map_Address_to_Directory cf a in
     (\<forall>c. l1_rep (caches p c) (cacheMemory (l1s s c) a) (TBEs (l1s s c) a))
     \<and> (\<forall>c. reqs p c = reqs_of a (vn_all (requests s) (Directory h)) c)
     \<and> (\<forall>c. fwds p c = fwds_of a (vn_all (forwards s) (L1Cache c)))
     \<and> (\<forall>c. datas p c = datas_of a (vn_all (responses s) (L1Cache c)))
     \<and> (\<forall>c. acks p c = acks_of a (vn_all (responses s) (L1Cache c)))
     \<and> tohome p = tohome_of a (vn_all (responses s) (Directory h))
     \<and> mems p = mems_of a (memBuffer (dirs s h))
     \<and> dir_rep p (directory (dirs s h) a) (dTBEs (dirs s h) a)
     \<and> line_run (sparse_directory cf) (new_block cf) a (initial_block cf ram a) (call_log s) (val p))"

definition rq_ok :: "msi_conf \<Rightarrow> nat \<Rightarrow> RequestMsg \<Rightarrow> bool" where
  "rq_ok cf d m = (map_Address_to_Directory cf (rq_Address m) = d \<and> rq_Type m \<in> {GETS, GETM, PUTM, PUTS}
     \<and> (\<exists>c. rq_Requestor m = L1Cache c))"

definition fw_ok :: "RequestMsg \<Rightarrow> bool" where
  "fw_ok m = (rq_Type m = WB_ACK \<or> rq_Type m \<in> {GETS, GETM, INV} \<and> (\<exists>c. rq_Requestor m = L1Cache c))"

definition rs_ok :: "ResponseMsg \<Rightarrow> bool" where
  "rs_ok m = (rs_Type m = DATA_FROM_DIR \<or> rs_Type m = DATA_FROM_OWNER \<and> rs_AckCount m = 0
     \<or> rs_Type m = ACK \<and> rs_AckCount m = 1)"

definition rd_ok :: "msi_conf \<Rightarrow> nat \<Rightarrow> ResponseMsg \<Rightarrow> bool" where
  "rd_ok cf d m = (map_Address_to_Directory cf (rs_Address m) = d \<and> rs_Type m = DATA
     \<and> (\<exists>c. rs_Sender m = L1Cache c))"

definition mm_ok :: "msi_conf \<Rightarrow> nat \<Rightarrow> MemoryMsg \<Rightarrow> bool" where
  "mm_ok cf d m = (map_Address_to_Directory cf (mm_Address m) = d \<and> mm_Type m \<in> {MEMORY_READ, MEMORY_WB}
     \<and> (\<exists>c. mm_OriginalRequestorMachId m = L1Cache c))"

definition wf_sys :: "msi_conf \<Rightarrow> msi_sys \<Rightarrow> bool" where
  "wf_sys cf s = ((\<forall>d. \<forall>m\<in>set (vn_all (requests s) (Directory d)). rq_ok cf d m)
     \<and> (\<forall>c. \<forall>m\<in>set (vn_all (forwards s) (L1Cache c)). fw_ok m)
     \<and> (\<forall>c. \<forall>(x, m)\<in>set (transit (forwards s) (L1Cache c)).
          x = Directory (map_Address_to_Directory cf (rq_Address m)))
     \<and> (\<forall>c. \<forall>m\<in>set (vn_all (responses s) (L1Cache c)). rs_ok m)
     \<and> (\<forall>d. \<forall>m\<in>set (vn_all (responses s) (Directory d)). rd_ok cf d m)
     \<and> (\<forall>d. \<forall>m\<in>set (memBuffer (dirs s d)). mm_ok cf d m))"

lemma wf_sysI:
  assumes "\<And>d m. m \<in> set (vn_all (requests s) (Directory d)) \<Longrightarrow> rq_ok cf d m"
    and "\<And>c m. m \<in> set (vn_all (forwards s) (L1Cache c)) \<Longrightarrow> fw_ok m"
    and "\<And>c x m. (x, m) \<in> set (transit (forwards s) (L1Cache c)) \<Longrightarrow> x = Directory (map_Address_to_Directory cf (rq_Address m))"
    and "\<And>c m. m \<in> set (vn_all (responses s) (L1Cache c)) \<Longrightarrow> rs_ok m"
    and "\<And>d m. m \<in> set (vn_all (responses s) (Directory d)) \<Longrightarrow> rd_ok cf d m"
    and "\<And>d m. m \<in> set (memBuffer (dirs s d)) \<Longrightarrow> mm_ok cf d m"
  shows "wf_sys cf s"
  using assms by (auto simp: wf_sys_def)

lemma wf_sysD:
  assumes "wf_sys cf s"
  shows "m \<in> set (vn_all (requests s) (Directory d)) \<Longrightarrow> rq_ok cf d m"
    and "m \<in> set (vn_all (forwards s) (L1Cache c)) \<Longrightarrow> fw_ok m"
    and "(x, m) \<in> set (transit (forwards s) (L1Cache c)) \<Longrightarrow> x = Directory (map_Address_to_Directory cf (rq_Address m))"
    and "r \<in> set (vn_all (responses s) (L1Cache c)) \<Longrightarrow> rs_ok r"
    and "r \<in> set (vn_all (responses s) (Directory d)) \<Longrightarrow> rd_ok cf d r"
    and "l \<in> set (memBuffer (dirs s d)) \<Longrightarrow> mm_ok cf d l"
  using assms by (auto simp: wf_sys_def)

lemma init_rep:
  "rep cf ram a (init_sys cf ram) (aline_init (initial_block cf ram a))" "wf_sys cf (init_sys cf ram)"
  by (simp_all add: rep_def aline_init_def init_sys_def msg_simps dir_rep_def wf_sys_def vn_empty_def vn_all_def
      new_dir_entry_def initial_block_def line_start)

section \<open>Deliveries and requests of the processors\<close>

lemma deliver_rep:
  assumes "rep cf ram a s p" "wf_sys cf s"
  shows "rep cf ram a (s \<lparr> requests := vn_deliver x i (requests s) \<rparr>) p"
    and "rep cf ram a (s \<lparr> responses := vn_deliver x i (responses s) \<rparr>) p"
    and "rep cf ram a (s \<lparr> forwards := vn_deliver x i (forwards s) \<rparr>) p"
proof -
  show "rep cf ram a (s \<lparr> requests := vn_deliver x i (requests s) \<rparr>) p"
    using assms(1) by (simp add: rep_def of_mset_eq(1) [OF mset_vn_deliver])
  show "rep cf ram a (s \<lparr> responses := vn_deliver x i (responses s) \<rparr>) p"
    using assms(1) by (simp add: rep_def of_mset_eq(2-4) [OF mset_vn_deliver])
  have "fwds_of a (vn_all (vn_deliver x i (forwards s)) (L1Cache c)) = fwds_of a (vn_all (forwards s) (L1Cache c))" for c
  proof (cases x)
    case (L1Cache c')
    have "\<forall>(y, m) \<in> set (transit (forwards s) x). rq_Address m = a \<longrightarrow> y = Directory (map_Address_to_Directory cf a)"
      using wf_sysD(3) [OF assms(2)] L1Cache by fastforce
    then show ?thesis unfolding fwds_of_def by (simp only: filter_vn_deliver)
  next
    case (Directory d)
    then show ?thesis using vn_deliver_cases [of x i "forwards s"] by (auto simp: vn_all_def)
  qed
  then show "rep cf ram a (s \<lparr> forwards := vn_deliver x i (forwards s) \<rparr>) p"
    using assms(1) by (simp add: rep_def)
qed

lemma deliver_wf:
  assumes "wf_sys cf s"
  shows "wf_sys cf (s \<lparr> requests := vn_deliver x i (requests s) \<rparr>)"
    and "wf_sys cf (s \<lparr> responses := vn_deliver x i (responses s) \<rparr>)"
    and "wf_sys cf (s \<lparr> forwards := vn_deliver x i (forwards s) \<rparr>)"
proof -
  show "wf_sys cf (s \<lparr> requests := vn_deliver x i (requests s) \<rparr>)"
    "wf_sys cf (s \<lparr> responses := vn_deliver x i (responses s) \<rparr>)"
    using assms by (simp_all add: wf_sys_def set_vn_deliver)
  show "wf_sys cf (s \<lparr> forwards := vn_deliver x i (forwards s) \<rparr>)"
  proof (rule wf_sysI, goal_cases)
    case (3 c y m)
    then have "(y, m) \<in> set (transit (forwards s) (L1Cache c))"
      using transit_vn_deliver [of x i "forwards s" "L1Cache c"] by auto
    then show ?case by (rule wf_sysD(3) [OF assms])
  qed (use wf_sysD [OF assms] in \<open>simp_all add: set_vn_deliver\<close>)
qed

lemma issue_rep:
  assumes "rep cf ram a s p" "wf_sys cf s"
  shows "rep cf ram a (s \<lparr> l1s := (l1s s)(c := (l1s s c) \<lparr> mandatoryQueue := q \<rparr>) \<rparr>) p"
    and "wf_sys cf (s \<lparr> l1s := (l1s s)(c := (l1s s c) \<lparr> mandatoryQueue := q \<rparr>) \<rparr>)"
  using assms by (simp_all add: rep_def wf_sys_def Let_def)

section \<open>The invariant of the system\<close>

definition sys_inv :: "msi_conf \<Rightarrow> (addr \<Rightarrow> blk) \<Rightarrow> msi_sys \<Rightarrow> bool" where
  "sys_inv cf ram s = (wf_sys cf s \<and> (\<forall>a. \<exists>p gh. rep cf ram a s p \<and> aline_inv p gh))"

lemma sys_inv_init: "sys_inv cf ram (init_sys cf ram)"
  unfolding sys_inv_def using init_rep aline_init_inv by blast

end
