(* ===== verification/Msi_Sim_L1.thy ===== *)
theory Msi_Sim_L1
  imports Msi_Rep
begin

text \<open>
  Every transition of an L1 controller is a step of the abstract machine of its line, or changes
  nothing there, and leaves the other lines alone.
\<close>

section \<open>What a transition sends\<close>

fun cb_address :: "callback \<Rightarrow> addr" where
  "cb_address (readCallback c a g d) = a"
| "cb_address (writeCallback c a g d d') = a"
| "cb_address (evictionCallback c a) = a"

lemma other_callbacks:
  assumes "\<forall>k\<in>set ks. cb_address k \<noteq> a"
  shows "line_value a v ks = v \<and> line_coherent a v ks"
  using assms by (induction a v ks rule: line_value.induct) auto

fun l1_port_of :: "l1_event \<Rightarrow> l1_port" where
  "l1_port_of ev = (if ev \<in> {Load, Ifetch, Store, Repl} then mandatoryQueue_in
     else if ev \<in> {Fwd_GetS, Fwd_GetM, Inv, WB_Ack} then forwardRequestNetwork_in
     else responseNetwork_in)"

definition l1_outs_ok :: "l1_env \<Rightarrow> l1_slot \<Rightarrow> bool" where
  "l1_outs_ok en sl = ((\<forall>m\<in>set (requestNetwork_out sl). rq_Address m = address en
       \<and> rq_Destination m = {Directory (home en)} \<and> rq_Requestor m = L1Cache (version en)
       \<and> rq_Type m \<in> {GETS, GETM, PUTM, PUTS})
     \<and> (\<forall>m\<in>set (responseNetwork_out sl). rs_Address m = address en \<and> rs_Sender m = L1Cache (version en)
       \<and> ((\<exists>c. rs_Destination m = {L1Cache c}) \<and> rs_ok m
          \<or> rs_Destination m = {Directory (home en)} \<and> rs_Type m = DATA))
     \<and> (\<forall>k\<in>set (callbacks sl). cb_address k = address en))"

lemmas l1_sem = l1_doTransition_def need_def load_hit_def store_hit_def send_rq_def send_rs_def call_def
  pop_def l1_request_def l1_response_def l1_setState_def l1_setAccessPermission_def Let_def

definition l1_fresh :: "l1_slot \<Rightarrow> bool" where
  "l1_fresh sl = (requestNetwork_out sl = [] \<and> responseNetwork_out sl = [] \<and> callbacks sl = [] \<and> popped sl = [])"

definition answers :: "l1_action set" where
  "answers = {e_sendDataFromCacheToRequestor, ee_sendDataFromTBEToRequestor, fi_sendInvAck}"

fun pops :: "l1_action \<Rightarrow> l1_port set" where
  "pops m_popMandatoryQueue = {mandatoryQueue_in}"
| "pops n_popResponseQueue = {responseNetwork_in}"
| "pops o_popForwardedRequestQueue = {forwardRequestNetwork_in}"
| "pops _ = {}"

lemma l1_outs_ok_simps [simp]:
  "l1_outs_ok en (sl \<lparr> cache_entry := e \<rparr>) = l1_outs_ok en sl" "l1_outs_ok en (sl \<lparr> tbe := t \<rparr>) = l1_outs_ok en sl"
  "l1_outs_ok en (pop p sl) = l1_outs_ok en sl"
  "l1_outs_ok en (send_rq (l1_request en ty d) sl) = (l1_outs_ok en sl \<and> ty \<in> {GETS, GETM, PUTM, PUTS})"
  "l1_outs_ok en (call k sl) = (l1_outs_ok en sl \<and> cb_address k = address en)"
  by (auto simp: l1_outs_ok_def pop_def send_rq_def l1_request_def call_def)

lemma l1_outs_ok_send_rs:
  assumes "l1_outs_ok en sl" "(\<exists>c. dst = L1Cache c) \<and> (ty = DATA_FROM_OWNER \<and> n = 0 \<or> ty = ACK \<and> n = 1)
    \<or> dst = Directory (home en) \<and> ty = DATA"
  shows "l1_outs_ok en (send_rs (l1_response en ty dst d n) sl)"
  using assms by (auto simp: l1_outs_ok_def send_rs_def l1_response_def rs_ok_def)

lemma popped_simps [simp]:
  "popped (send_rq m sl) = popped sl" "popped (send_rs r sl) = popped sl" "popped (call k sl) = popped sl"
  "popped (pop p sl) = popped sl @ [p]"
  by (simp_all add: send_rq_def send_rs_def call_def pop_def)

lemma l1_act_outs:
  assumes "l1_act en x sl = Inr sl'" "l1_outs_ok en sl"
    and "x \<in> answers \<Longrightarrow> \<exists>m r. fwd_msg en = Some m \<and> rq_Requestor m = L1Cache r"
  shows "l1_outs_ok en sl' \<and> set (popped sl') \<subseteq> set (popped sl) \<union> pops x"
  using assms
  by (cases x) (auto simp: need_def load_hit_def store_hit_def Let_def answers_def intro!: l1_outs_ok_send_rs
      split: option.splits if_splits)

lemma l1_acts_outs:
  assumes "l1_acts en xs sl = Inr sl'" "l1_outs_ok en sl"
    and "\<exists>x\<in>set xs. x \<in> answers \<Longrightarrow> \<exists>m r. fwd_msg en = Some m \<and> rq_Requestor m = L1Cache r"
  shows "l1_outs_ok en sl' \<and> set (popped sl') \<subseteq> set (popped sl) \<union> (\<Union>x\<in>set xs. pops x)"
  using assms
proof (induction en xs sl rule: l1_acts.induct)
  case (2 en x xs sl)
  then obtain sl1 where s1: "l1_act en x sl = Inr sl1" "l1_acts en xs sl1 = Inr sl'" by (auto split: sum.splits)
  have "l1_outs_ok en sl1 \<and> set (popped sl1) \<subseteq> set (popped sl) \<union> pops x"
    by (rule l1_act_outs [OF s1(1) 2(3)]) (use 2(4) in auto)
  moreover have "l1_outs_ok en sl' \<and> set (popped sl') \<subseteq> set (popped sl1) \<union> (\<Union>x\<in>set xs. pops x)"
    by (rule 2(1) [OF s1]) (use 2(4) calculation in auto)
  ultimately show ?case by auto
qed simp

lemma l1_table_outs:
  assumes "l1_transition st ev = Some (acts, st')"
  shows "(\<Union>x\<in>set acts. pops x) \<subseteq> {l1_port_of ev} \<and> ((\<exists>x\<in>set acts. x \<in> answers) \<longrightarrow> ev \<in> {Fwd_GetS, Fwd_GetM, Inv})"
  using assms by (cases st; cases ev) (auto simp: answers_def)

lemma l1_outs:
  assumes "l1_doTransition en ev sl = Inr (Some sl')" "l1_fresh sl"
    and "ev \<in> {Fwd_GetS, Fwd_GetM, Inv} \<Longrightarrow> \<exists>m r. fwd_msg en = Some m \<and> rq_Requestor m = L1Cache r"
  shows "l1_outs_ok en sl' \<and> set (popped sl') \<subseteq> {l1_port_of ev}"
proof -
  obtain acts st' sl1 where tr: "l1_transition (l1_getState sl) ev = Some (acts, st')" "l1_acts en acts sl = Inr sl1"
      "sl' = l1_setAccessPermission st' (l1_setState st' sl1)"
    using assms(1) by (auto simp: l1_doTransition_def split: option.splits sum.splits if_splits)
  have "l1_outs_ok en sl1 \<and> set (popped sl1) \<subseteq> set (popped sl) \<union> (\<Union>x\<in>set acts. pops x)"
    by (rule l1_acts_outs [OF tr(2)])
      (use assms(2,3) l1_table_outs [OF tr(1)] in \<open>auto simp: l1_fresh_def l1_outs_ok_def\<close>)
  moreover have "popped sl' = popped sl1" using tr(3) by (simp add: l1_setState_def l1_setAccessPermission_def)
  moreover have "l1_outs_ok en sl' = l1_outs_ok en sl1" using tr(3) by (simp add: l1_setState_def l1_setAccessPermission_def)
  ultimately show ?thesis using l1_table_outs [OF tr(1)] assms(2) by (auto simp: l1_fresh_def simp del: l1_port_of.simps)
qed

section \<open>The effect of a transition on the lines\<close>

text \<open>\<open>rms\<close> is the response that the transition was triggered by, if any.\<close>

definition l1_eff :: "nat \<Rightarrow> addr \<Rightarrow> nat \<Rightarrow> acache \<Rightarrow> l1_slot \<Rightarrow> ResponseMsg list \<Rightarrow> aline \<Rightarrow> aline" where
  "l1_eff c a h k sl rms p = p \<lparr> caches := (caches p)(c := k),
     reqs := (\<lambda>x. reqs p x + reqs_of a (requestNetwork_out sl) x),
     fwds := (if forwardRequestNetwork_in \<in> set (popped sl) then (fwds p)(c := tl (fwds p c)) else fwds p),
     datas := (\<lambda>x. (if x = c \<and> responseNetwork_in \<in> set (popped sl) then datas p x - datas_of a rms else datas p x)
       + datas_of a (filter (\<lambda>m. L1Cache x \<in> rs_Destination m) (responseNetwork_out sl))),
     acks := (\<lambda>x. (if x = c \<and> responseNetwork_in \<in> set (popped sl) then acks p x - acks_of a rms else acks p x)
       + acks_of a (filter (\<lambda>m. L1Cache x \<in> rs_Destination m) (responseNetwork_out sl))),
     tohome := tohome p + tohome_of a (filter (\<lambda>m. Directory h \<in> rs_Destination m) (responseNetwork_out sl)),
     val := line_value a (val p) (callbacks sl) \<rparr>"

definition l1_heads :: "nat \<Rightarrow> addr \<Rightarrow> l1_slot \<Rightarrow> ResponseMsg list \<Rightarrow> msi_sys \<Rightarrow> bool" where
  "l1_heads c a sl rms s =
     ((forwardRequestNetwork_in \<in> set (popped sl) \<longrightarrow>
        (\<exists>m q. inport (forwards s) (L1Cache c) = m # q \<and> rq_Address m = a))
    \<and> (responseNetwork_in \<in> set (popped sl) \<longrightarrow>
        (\<exists>m q. inport (responses s) (L1Cache c) = m # q \<and> rs_Address m = a \<and> rms = [m])))"

lemma l1_commit_rep:
  assumes r: "rep cf ram a s p" and k: "l1_rep k (cache_entry sl) (tbe sl)"
    and o: "l1_outs_ok en sl" "home en = map_Address_to_Directory cf a" and hd: "l1_heads c a sl rms s"
    and co: "line_coherent a (val p) (callbacks sl)"
  shows "rep cf ram a (l1_commit c a sl s) (l1_eff c a (map_Address_to_Directory cf a) k sl rms p)"
proof -
  let ?h = "map_Address_to_Directory cf a" and ?s = "l1_commit c a sl s"
  have rq: "filter (\<lambda>m. Directory ?h \<in> rq_Destination m) (requestNetwork_out sl) = requestNetwork_out sl"
    using o by (auto simp: l1_outs_ok_def filter_id_conv)
  have f: "fwds_of a (vn_all (forwards ?s) (L1Cache x)) = (if forwardRequestNetwork_in \<in> set (popped sl)
      then ((fwds p)(c := tl (fwds p c))) x else fwds p x)" for x
    using r hd by (auto simp: l1_commit_def Let_def rep_def l1_heads_def vn_pop_head vn_all_pop_other)
  have d: "datas_of a (vn_all (if responseNetwork_in \<in> set (popped sl) then vn_pop (L1Cache c) (responses s) else responses s) (L1Cache x))
      = (if x = c \<and> responseNetwork_in \<in> set (popped sl) then datas p x - datas_of a rms else datas p x)" for x
    using r hd by (auto simp: Let_def rep_def l1_heads_def vn_pop_response vn_all_pop_other)
  have ak: "acks_of a (vn_all (if responseNetwork_in \<in> set (popped sl) then vn_pop (L1Cache c) (responses s) else responses s) (L1Cache x))
      = (if x = c \<and> responseNetwork_in \<in> set (popped sl) then acks p x - acks_of a rms else acks p x)" for x
    using r hd by (auto simp: Let_def rep_def l1_heads_def vn_pop_response vn_all_pop_other)
  have th: "tohome_of a (vn_all (if responseNetwork_in \<in> set (popped sl) then vn_pop (L1Cache c) (responses s) else responses s) (Directory ?h))
      = tohome p" using r by (simp add: Let_def rep_def vn_all_pop_other)
  have "dir_rep (l1_eff c a ?h k sl rms p) = dir_rep p" by (simp add: fun_eq_iff dir_rep_def l1_eff_def)
  then show ?thesis using r k f d ak th rq co
    by (simp add: rep_def Let_def l1_eff_def l1_commit_def msg_simps line_run_append del: filter_filter)
qed

lemma l1_commit_other:
  assumes r: "rep cf ram a s p" and ab: "a \<noteq> b" and o: "l1_outs_ok en sl" "address en = b" and hd: "l1_heads c b sl rms s"
  shows "rep cf ram a (l1_commit c b sl s) p"
proof -
  let ?s = "l1_commit c b sl s"
  have q: "reqs_of a (filter P (requestNetwork_out sl)) x = {#}" "datas_of a (filter Q (responseNetwork_out sl)) = {#}"
    "acks_of a (filter Q (responseNetwork_out sl)) = 0" "tohome_of a (filter Q (responseNetwork_out sl)) = {#}" for P Q x
    using o ab by (auto simp: l1_outs_ok_def intro!: other_line)
  have cb: "line_value a u (callbacks sl) = u \<and> line_coherent a u (callbacks sl)" for u
    using o ab by (intro other_callbacks) (auto simp: l1_outs_ok_def)
  have f: "fwds_of a (vn_all (forwards ?s) x) = fwds_of a (vn_all (forwards s) x)" for x
    using hd ab by (cases "x = L1Cache c")
      (auto simp: l1_commit_def Let_def l1_heads_def vn_pop_head vn_all_pop_other)
  have d: "datas_of a (vn_all (if responseNetwork_in \<in> set (popped sl) then vn_pop (L1Cache c) (responses s) else responses s) x)
        = datas_of a (vn_all (responses s) x)"
      "acks_of a (vn_all (if responseNetwork_in \<in> set (popped sl) then vn_pop (L1Cache c) (responses s) else responses s) x)
        = acks_of a (vn_all (responses s) x)"
      "tohome_of a (vn_all (if responseNetwork_in \<in> set (popped sl) then vn_pop (L1Cache c) (responses s) else responses s) x)
        = tohome_of a (vn_all (responses s) x)" for x
    using hd ab by (cases "x = L1Cache c"; auto simp: l1_heads_def vn_pop_response vn_all_pop_other msg_simps)+
  have "line_run sp z a v (call_log s) (val p) \<Longrightarrow> line_run sp z a v (call_log s @ callbacks sl) (val p)" for sp z v
    using line_run_append [of sp z a v "call_log s" "val p" "callbacks sl"] cb [of "val p"] by simp
  then show ?thesis using r ab q f d
    by (simp add: rep_def Let_def l1_commit_def msg_simps)
qed

lemma l1_commit_wf:
  assumes w: "wf_sys cf s" and o: "l1_outs_ok en sl" "home en = map_Address_to_Directory cf a" "address en = a"
  shows "wf_sys cf (l1_commit c a sl s)"
proof -
  note wD = wf_sysD [OF w]
  show ?thesis
  proof (rule wf_sysI, goal_cases)
    case (1 d m)
    then show ?case using wD(1) [of m d] o by (auto simp: l1_commit_def Let_def l1_outs_ok_def rq_ok_def)
  next
    case (2 x m)
    then have "m \<in> set (vn_all (forwards s) (L1Cache x))" using vn_popD by (auto simp: l1_commit_def Let_def split: if_splits)
    then show ?case by (rule wD(2))
  next
    case (3 x y m)
    then show ?case using wD(3) [of y m x] by (auto simp: l1_commit_def Let_def split: if_splits)
  next
    case (4 x m)
    then have "m \<in> set (vn_all (responses s) (L1Cache x)) \<or> m \<in> set (responseNetwork_out sl) \<and> L1Cache x \<in> rs_Destination m"
      using vn_popD by (fastforce simp: l1_commit_def Let_def split: if_splits)
    then show ?case using wD(4) [of m x] o by (auto simp: l1_outs_ok_def)
  next
    case (5 x m)
    then have "m \<in> set (vn_all (responses s) (Directory x)) \<or> m \<in> set (responseNetwork_out sl) \<and> Directory x \<in> rs_Destination m"
      using vn_popD by (fastforce simp: l1_commit_def Let_def split: if_splits)
    then show ?case using wD(5) [of m x] o by (auto simp: l1_outs_ok_def rd_ok_def)
  next
    case (6 x m)
    then show ?case using wD(6) [of m x] by (simp add: l1_commit_def Let_def)
  qed
qed

section \<open>Transitions are steps of the line\<close>

definition abs_cache :: "l1_entry option \<Rightarrow> l1_tbe option \<Rightarrow> acache" where
  "abs_cache e t = (case e of None \<Rightarrow> A_I
     | Some x \<Rightarrow> (case t of None \<Rightarrow> if CacheState x = L1_M then A_M (DataBlk x) else A_S (DataBlk x)
         | Some y \<Rightarrow> (case TBEState y of L1_IS_D \<Rightarrow> A_ISD | L1_IM_AD \<Rightarrow> A_IMAD (pendingAcks y)
             | L1_IM_A \<Rightarrow> A_IMA (pendingAcks y) (DataBlk x) | L1_SM_AD \<Rightarrow> A_SMAD (pendingAcks y) (DataBlk x)
             | L1_SM_A \<Rightarrow> A_SMA (pendingAcks y) (DataBlk x) | L1_MI_A \<Rightarrow> A_MIA (tDataBlk y)
             | L1_SI_A \<Rightarrow> A_SIA | _ \<Rightarrow> A_IIA)))"

definition l1_sim :: "aline \<Rightarrow> nat \<Rightarrow> addr \<Rightarrow> nat \<Rightarrow> ResponseMsg list \<Rightarrow> l1_slot option res \<Rightarrow> bool" where
  "l1_sim p c a h rms r = (case r of Inl e \<Rightarrow> e = TBETable_full | Inr None \<Rightarrow> True
     | Inr (Some sl) \<Rightarrow> (let k = abs_cache (cache_entry sl) (tbe sl) in
         l1_rep k (cache_entry sl) (tbe sl) \<and> line_coherent a (val p) (callbacks sl)
         \<and> (l1_eff c a h k sl rms p = p \<or> cache_step p (l1_eff c a h k sl rms p))))"

lemma l1_sim_simps [simp]:
  "l1_sim p c a h rms (Inl e) = (e = TBETable_full)" "l1_sim p c a h rms (Inr None)"
  by (simp_all add: l1_sim_def)

lemma l1_sim_noop:
  assumes "l1_rep (caches p c) (cache_entry sl) (tbe sl)" "abs_cache (cache_entry sl) (tbe sl) = caches p c"
    and "requestNetwork_out sl = []" "responseNetwork_out sl = []" "line_coherent a (val p) (callbacks sl)"
    and "line_value a (val p) (callbacks sl) = val p" "set (popped sl) \<subseteq> {mandatoryQueue_in}"
  shows "l1_sim p c a h rms (Inr (Some sl))"
proof -
  have "responseNetwork_in \<notin> set (popped sl)" "forwardRequestNetwork_in \<notin> set (popped sl)" using assms(7) by auto
  then have "l1_eff c a h (caches p c) sl rms p = p"
    using assms(3-6) by (intro aline.equality) (simp_all add: l1_eff_def msg_simps)
  then show ?thesis using assms by (simp add: l1_sim_def)
qed

lemma l1_sim_step:
  assumes "cache_step p q" "l1_rep (abs_cache (cache_entry sl) (tbe sl)) (cache_entry sl) (tbe sl)"
    and "line_coherent a (val p) (callbacks sl)"
    and "caches q = (caches p)(c := abs_cache (cache_entry sl) (tbe sl))" "reqs q = (\<lambda>x. reqs p x + reqs_of a (requestNetwork_out sl) x)"
    and "fwds q = (if forwardRequestNetwork_in \<in> set (popped sl) then (fwds p)(c := tl (fwds p c)) else fwds p)"
    and "datas q = (\<lambda>x. (if x = c \<and> responseNetwork_in \<in> set (popped sl) then datas p x - datas_of a rms else datas p x)
       + datas_of a (filter (\<lambda>m. L1Cache x \<in> rs_Destination m) (responseNetwork_out sl)))"
    and "acks q = (\<lambda>x. (if x = c \<and> responseNetwork_in \<in> set (popped sl) then acks p x - acks_of a rms else acks p x)
       + acks_of a (filter (\<lambda>m. L1Cache x \<in> rs_Destination m) (responseNetwork_out sl)))"
    and "tohome q = tohome p + tohome_of a (filter (\<lambda>m. Directory h \<in> rs_Destination m) (responseNetwork_out sl))"
    and "val q = line_value a (val p) (callbacks sl)"
    and "mems q = mems p" "dstate q = dstate p" "ddata q = ddata p" "sharers q = sharers p" "owners q = owners p"
  shows "l1_sim p c a h rms (Inr (Some sl))"
proof -
  have "l1_eff c a h (abs_cache (cache_entry sl) (tbe sl)) sl rms p = q" using assms by (intro aline.equality) (simp_all add: l1_eff_def)
  then show ?thesis using assms by (simp add: l1_sim_def)
qed

lemmas l1_run = l1_sem l1_getState_def l1_fresh_def l1_getAccessPermission_def stable_rep_def busy_rep_def
lemmas l1_fin = msg_simps abs_cache_def abs_req_def stable_rep_def busy_rep_def fun_eq_iff readable_def

text \<open>Requests of the processor.\<close>

lemma ifetch_is_load: "l1_doTransition en Ifetch sl = l1_doTransition en Load sl"
  by (cases "l1_getState sl") (simp_all add: l1_doTransition_def)

lemma load_sim:
  assumes k: "l1_rep (caches p (version en)) (cache_entry sl) (tbe sl)" and inv: "aline_inv p gh"
    and en: "l1_fresh sl"
  shows "l1_sim p (version en) (address en) (home en) [] (l1_doTransition en Load sl)"
proof -
  have hit: "l1_sim p (version en) (address en) (home en) [] (Inr (Some sl'))"
    if "readable (caches p (version en)) d" "l1_rep (caches p (version en)) (cache_entry sl') (tbe sl')" "abs_cache (cache_entry sl') (tbe sl') = caches p (version en)"
      "requestNetwork_out sl' = []" "responseNetwork_out sl' = []" "callbacks sl' = [readCallback (version en) (address en) g d]"
      "popped sl' = [mandatoryQueue_in]" for sl' g d
    by (rule l1_sim_noop) (use that readable_current [OF inv that(1)] in simp_all)
  show ?thesis
  proof (cases "caches p (version en)")
    case A_I
    show ?thesis by (insert k en A_I) (auto simp: l1_run, rule l1_sim_step [OF cache_step.load_miss [OF A_I]], simp_all add: l1_fin)
  next
    case (A_S d)
    show ?thesis by (insert k en A_S) (auto simp: l1_run, rule hit, simp_all add: l1_fin)
  next
    case (A_M d)
    show ?thesis by (insert k en A_M) (auto simp: l1_run, rule hit, simp_all add: l1_fin)
  next
    case (A_SMAD q d)
    show ?thesis by (insert k en A_SMAD) (auto simp: l1_run, rule hit, simp_all add: l1_fin)
  next
    case (A_SMA q d)
    show ?thesis by (insert k en A_SMA) (auto simp: l1_run, rule hit, simp_all add: l1_fin)
  qed (use k en in \<open>auto simp: l1_run\<close>)
qed

lemma store_sim:
  assumes k: "l1_rep (caches p (version en)) (cache_entry sl) (tbe sl)" and inv: "aline_inv p gh"
    and en: "l1_fresh sl"
  shows "l1_sim p (version en) (address en) (home en) [] (l1_doTransition en Store sl)"
proof (cases "caches p (version en)")
  case A_I
  show ?thesis by (insert k en A_I) (auto simp: l1_run, rule l1_sim_step [OF cache_step.store_miss [OF A_I]], simp_all add: l1_fin)
next
  case (A_S d)
  show ?thesis by (insert k en A_S) (auto simp: l1_run, rule l1_sim_step [OF cache_step.upgrade [OF A_S]], simp_all add: l1_fin)
next
  case (A_M d)
  have dv: "d = val p" using readable_current [OF inv, of "version en" d] A_M by (simp add: readable_def)
  show ?thesis by (insert k en A_M dv) (auto simp: l1_run, rule l1_sim_step [OF cache_step.store_hit [OF A_M, where d' = "pending_store en d"]],
        simp_all add: l1_fin)
qed (use k en in \<open>auto simp: l1_run\<close>)

lemma replacement_sim:
  assumes k: "l1_rep (caches p (version en)) (cache_entry sl) (tbe sl)" and ne: "cache_entry sl \<noteq> None"
    and en: "l1_fresh sl"
  shows "l1_sim p (version en) (address en) (home en) [] (l1_doTransition en Repl sl)"
proof (cases "caches p (version en)")
  case (A_S d)
  show ?thesis by (insert k en A_S) (auto simp: l1_run, rule l1_sim_step [OF cache_step.replace_S [OF A_S]], simp_all add: l1_fin)
next
  case (A_M d)
  show ?thesis by (insert k en A_M) (auto simp: l1_run, rule l1_sim_step [OF cache_step.replace_M [OF A_M]], simp_all add: l1_fin)
qed (use k ne en in \<open>auto simp: l1_run\<close>)

text \<open>Requests that the directory forwards.\<close>

lemma forward_states:
  assumes "cache_ok s t c k g R (f # F) D"
  shows "f = FwdS r \<or> f = FwdM r \<Longrightarrow> waits_data k \<or> waits_acks k \<or> (\<exists>d. k = A_M d \<or> k = A_MIA d)"
    and "f = FInv r \<Longrightarrow> k = A_ISD \<or> k = A_SIA \<or> (\<exists>p d. k = A_S d \<or> k = A_SMAD p d)"
    and "f = FWb \<Longrightarrow> leaving k"
  using assms
  by (cases k; cases g; auto simp: tail_ok_def share_ok_def waits_data_def waits_acks_def leaving_def)+

lemmas fwd_fin = l1_fin abs_data_def mach_no_def leaving_def

lemma fwd_gets_sim:
  assumes k: "l1_rep (caches p (version en)) (cache_entry sl) (tbe sl)" and inv: "aline_inv p gh" and en: "l1_fresh sl"
    and m: "fwd_msg en = Some m" "rq_Requestor m = L1Cache r" and F: "fwds p (version en) = FwdS r # F"
  shows "l1_sim p (version en) (address en) (home en) [] (l1_doTransition en Fwd_GetS sl)"
proof -
  note ck = aline_invD(3) [OF inv, of "version en", unfolded F]
  consider "waits_data (caches p (version en))" | "waits_acks (caches p (version en))"
    | d where "caches p (version en) = A_M d" | d where "caches p (version en) = A_MIA d"
    using forward_states(1) [OF ck, of r] by blast
  then show ?thesis
  proof cases
    case (3 d)
    show ?thesis by (insert k en m F 3) (auto simp: l1_run,
        rule l1_sim_step [OF cache_step.share [OF F disjI1 [OF conjI [OF 3 refl]]]], simp_all add: fwd_fin)
  next
    case (4 d)
    show ?thesis by (insert k en m F 4) (auto simp: l1_run,
        rule l1_sim_step [OF cache_step.share [OF F disjI2 [OF conjI [OF 4 refl]]]], simp_all add: fwd_fin)
  qed (use k en in \<open>auto simp: l1_run waits_data_def waits_acks_def\<close>)
qed

lemma fwd_getm_sim:
  assumes k: "l1_rep (caches p (version en)) (cache_entry sl) (tbe sl)" and inv: "aline_inv p gh" and en: "l1_fresh sl"
    and m: "fwd_msg en = Some m" "rq_Requestor m = L1Cache r" and F: "fwds p (version en) = FwdM r # F"
  shows "l1_sim p (version en) (address en) (home en) [] (l1_doTransition en Fwd_GetM sl)"
proof -
  note ck = aline_invD(3) [OF inv, of "version en", unfolded F]
  consider "waits_data (caches p (version en))" | "waits_acks (caches p (version en))"
    | d where "caches p (version en) = A_M d" | d where "caches p (version en) = A_MIA d"
    using forward_states(1) [OF ck, of r] by blast
  then show ?thesis
  proof cases
    case (3 d)
    show ?thesis by (insert k en m F 3, cases "send_evictions en"; auto simp: l1_run,
        rule l1_sim_step [OF cache_step.hand_over [OF F disjI1 [OF conjI [OF 3 refl]]]], simp_all add: fwd_fin)
  next
    case (4 d)
    show ?thesis by (insert k en m F 4) (auto simp: l1_run,
        rule l1_sim_step [OF cache_step.hand_over [OF F disjI2 [OF conjI [OF 4 refl]]]], simp_all add: fwd_fin)
  qed (use k en in \<open>auto simp: l1_run waits_data_def waits_acks_def\<close>)
qed

lemma inv_sim:
  assumes k: "l1_rep (caches p (version en)) (cache_entry sl) (tbe sl)" and inv: "aline_inv p gh" and en: "l1_fresh sl"
    and m: "fwd_msg en = Some m" "rq_Requestor m = L1Cache r" and F: "fwds p (version en) = FInv r # F"
  shows "l1_sim p (version en) (address en) (home en) [] (l1_doTransition en Inv sl)"
proof -
  note ck = aline_invD(3) [OF inv, of "version en", unfolded F]
  consider d where "caches p (version en) = A_S d" | q d where "caches p (version en) = A_SMAD q d"
    | "caches p (version en) = A_SIA" | "caches p (version en) = A_ISD"
    using forward_states(2) [OF ck, of r] by blast
  then show ?thesis
  proof cases
    case (1 d)
    show ?thesis by (insert k en m F 1, cases "send_evictions en"; auto simp: l1_run,
        rule l1_sim_step [OF cache_step.invalidate [OF F disjI1 [OF conjI [OF 1 refl]]]], simp_all add: fwd_fin)
  next
    case (2 q d)
    show ?thesis by (insert k en m F 2) (auto simp: l1_run,
        rule l1_sim_step [OF cache_step.invalidate [OF F disjI2 [OF disjI1 [OF conjI [OF 2 refl]]]]], simp_all add: fwd_fin)
  next
    case 3
    show ?thesis by (insert k en m F 3) (auto simp: l1_run,
        rule l1_sim_step [OF cache_step.invalidate [OF F disjI2 [OF disjI2 [OF conjI [OF 3 refl]]]]], simp_all add: fwd_fin)
  qed (use k en in \<open>auto simp: l1_run\<close>)
qed

lemma wb_ack_sim:
  assumes k: "l1_rep (caches p (version en)) (cache_entry sl) (tbe sl)" and inv: "aline_inv p gh" and en: "l1_fresh sl"
    and F: "fwds p (version en) = FWb # F"
  shows "l1_sim p (version en) (address en) (home en) [] (l1_doTransition en WB_Ack sl)"
proof -
  note lv = forward_states(3) [OF aline_invD(3) [OF inv, of "version en", unfolded F] refl]
  note st = l1_sim_step [OF cache_step.written_back [OF F lv]]
  consider d where "caches p (version en) = A_MIA d" | "caches p (version en) = A_SIA" | "caches p (version en) = A_IIA"
    using lv by (auto simp: leaving_def)
  then show ?thesis
  proof cases
    case (1 d)
    show ?thesis by (insert k en F 1, cases "send_evictions en"; auto simp: l1_run, rule st, simp_all add: fwd_fin)
  next
    case 2
    show ?thesis by (insert k en F 2, cases "send_evictions en"; auto simp: l1_run, rule st, simp_all add: fwd_fin)
  next
    case 3
    show ?thesis by (insert k en F 3, cases "send_evictions en"; auto simp: l1_run, rule st, simp_all add: fwd_fin)
  qed
qed

lemma forward_sim:
  assumes k: "l1_rep (caches p (version en)) (cache_entry sl) (tbe sl)" and inv: "aline_inv p gh" and en: "l1_fresh sl"
    and m: "fwd_msg en = Some m" "fw_ok m" and F: "fwds p (version en) = abs_fwd m # F"
  shows "case l1_forward_event m of Inl e \<Rightarrow> False
    | Inr ev \<Rightarrow> l1_sim p (version en) (address en) (home en) [] (l1_doTransition en ev sl)"
proof -
  consider r where "rq_Type m = GETS" "rq_Requestor m = L1Cache r" | r where "rq_Type m = GETM" "rq_Requestor m = L1Cache r"
    | r where "rq_Type m = INV" "rq_Requestor m = L1Cache r" | "rq_Type m = WB_ACK"
    using m(2) by (auto simp: fw_ok_def)
  then show ?thesis
  proof cases
    case (1 r) then show ?thesis using fwd_gets_sim [OF k inv en m(1)] F
      by (simp add: l1_forward_event_def abs_fwd_def mach_no_def)
  next
    case (2 r) then show ?thesis using fwd_getm_sim [OF k inv en m(1)] F
      by (simp add: l1_forward_event_def abs_fwd_def mach_no_def)
  next
    case (3 r) then show ?thesis using inv_sim [OF k inv en m(1)] F
      by (simp add: l1_forward_event_def abs_fwd_def mach_no_def)
  next
    case 4 then show ?thesis using wb_ack_sim [OF k inv en] F
      by (simp add: l1_forward_event_def abs_fwd_def)
  qed
qed

text \<open>Data and acknowledgements.\<close>

lemma data_states:
  assumes "cache_ok s t c k g R F D" "x \<in># D"
  shows "k = A_ISD \<and> ackc x = 0 \<or> waits_data k"
  using assms by (cases k; cases g) (auto simp: waits_data_def)

lemma fill_S_sim:
  assumes k: "l1_rep (caches p (version en)) (cache_entry sl) (tbe sl)" and inv: "aline_inv p gh" and en: "l1_fresh sl"
    and m: "rsp_msg en = Some m" "rs_Address m = address en" "rs_Type m \<noteq> ACK" "abs_data m \<in># datas p (version en)"
      "data_of (abs_data m) = rs_DataBlk m"
    and c: "caches p (version en) = A_ISD" and a: "ackc (abs_data m) = 0" and ev: "ev \<in> {Data_from_Dir_No_Acks, Data_from_Owner}"
  shows "l1_sim p (version en) (address en) (home en) [m] (l1_doTransition en ev sl)"
proof -
  have dv: "rs_DataBlk m = val p" using aline_invD(3) [OF inv, of "version en"] c m(4,5) by (auto split: source.splits)
  have "l1_doTransition en ev sl = l1_doTransition en Data_from_Owner sl"
    using ev k c by (auto simp: l1_doTransition_def l1_getState_def busy_rep_def)
  moreover have "l1_sim p (version en) (address en) (home en) [m] (l1_doTransition en Data_from_Owner sl)"
    by (insert k en c m dv) (auto simp: l1_run, rule l1_sim_step [OF cache_step.fill_S [OF c m(4) a]], simp_all add: fwd_fin)
  ultimately show ?thesis by simp
qed

lemma fill_M_sim:
  assumes k: "l1_rep (caches p (version en)) (cache_entry sl) (tbe sl)" and inv: "aline_inv p gh" and en: "l1_fresh sl"
    and m: "rsp_msg en = Some m" "rs_Address m = address en" "rs_Type m \<noteq> ACK" "abs_data m \<in># datas p (version en)"
      "data_of (abs_data m) = rs_DataBlk m"
    and w: "waits_data (caches p (version en))"
    and ev: "ev \<in> {Data_from_Dir_No_Acks, Data_from_Owner} \<and> ackc (abs_data m) = 0
      \<or> ev = Data_from_Dir_Ack_Cnt_Last \<and> pend (caches p (version en)) = ackc (abs_data m)"
  shows "l1_sim p (version en) (address en) (home en) [m] (l1_doTransition en ev sl)"
proof -
  have dv: "rs_DataBlk m = val p" using waiting_data(5) [OF inv w m(4)] m(5) by simp
  have ak: "ackc (abs_data m) = 0 \<or> pend (caches p (version en)) = ackc (abs_data m)" using ev by auto
  note st = l1_sim_step [OF cache_step.fill_M [OF w m(4) ak, where d' = "pending_store en (rs_DataBlk m)"]]
  consider q where "caches p (version en) = A_IMAD q" | q d where "caches p (version en) = A_SMAD q d"
    using w by (auto simp: waits_data_def)
  then show ?thesis
  proof cases
    case (1 q)
    have "l1_sim p (version en) (address en) (home en) [m] (l1_doTransition en Data_from_Owner sl)"
      by (insert k en 1 m dv) (auto simp: l1_run, rule st, simp_all add: fwd_fin)
    moreover have "l1_sim p (version en) (address en) (home en) [m] (l1_doTransition en Data_from_Dir_Ack_Cnt_Last sl)"
      by (insert k en 1 m dv) (auto simp: l1_run, rule st, simp_all add: fwd_fin)
    moreover have "l1_doTransition en Data_from_Dir_No_Acks sl = l1_doTransition en Data_from_Owner sl"
      using k 1 by (auto simp: l1_doTransition_def l1_getState_def busy_rep_def)
    ultimately show ?thesis using ev by auto
  next
    case (2 q d)
    have "l1_sim p (version en) (address en) (home en) [m] (l1_doTransition en Data_from_Owner sl)"
      by (insert k en 2 m dv) (auto simp: l1_run, rule st, simp_all add: fwd_fin)
    moreover have "l1_sim p (version en) (address en) (home en) [m] (l1_doTransition en Data_from_Dir_Ack_Cnt_Last sl)"
      by (insert k en 2 m dv) (auto simp: l1_run, rule st, simp_all add: fwd_fin)
    moreover have "l1_doTransition en Data_from_Dir_No_Acks sl = l1_doTransition en Data_from_Owner sl"
      using k 2 by (auto simp: l1_doTransition_def l1_getState_def busy_rep_def)
    ultimately show ?thesis using ev by auto
  qed
qed

lemma fill_acks_sim:
  assumes k: "l1_rep (caches p (version en)) (cache_entry sl) (tbe sl)" and inv: "aline_inv p gh" and en: "l1_fresh sl"
    and m: "rsp_msg en = Some m" "rs_Address m = address en" "rs_Type m = DATA_FROM_DIR"
      "FromDir (rs_AckCount m) (rs_DataBlk m) \<in># datas p (version en)"
    and w: "waits_data (caches p (version en))" and n: "rs_AckCount m \<noteq> 0" "pend (caches p (version en)) \<noteq> rs_AckCount m"
  shows "l1_sim p (version en) (address en) (home en) [m] (l1_doTransition en Data_from_Dir_Ack_Cnt sl)"
proof -
  consider q where "caches p (version en) = A_IMAD q" | q d where "caches p (version en) = A_SMAD q d"
    using w by (auto simp: waits_data_def)
  then show ?thesis
  proof cases
    case (1 q)
    have q: "q \<noteq> rs_AckCount m" using n(2) 1 by simp
    show ?thesis by (insert k en 1 m) (auto simp: l1_run,
        rule l1_sim_step [OF cache_step.fill_acks [OF disjI1 [OF conjI [OF 1 refl]] m(4) n(1) q]], simp_all add: fwd_fin)
  next
    case (2 q d)
    have q: "q \<noteq> rs_AckCount m" using n(2) 2 by simp
    show ?thesis by (insert k en 2 m) (auto simp: l1_run,
        rule l1_sim_step [OF cache_step.fill_acks [OF disjI2 [OF conjI [OF 2 refl]] m(4) n(1) q]], simp_all add: fwd_fin)
  qed
qed

lemma ack_states:
  assumes inv: "aline_inv p gh" and a: "0 < acks p c"
  shows "waits_data (caches p c) \<and> pend (caches p c) \<le> 0 \<or> waits_acks (caches p c)"
proof -
  have t: "place gh = At c" using aline_invD(2) [OF inv] a by (auto simp: acks_ok_def)
  then have aw: "awaited (caches p c) (datas p c) = int (card (invs p)) + int (acks p c)"
    using aline_invD(2) [OF inv] by (simp add: acks_ok_def)
  show ?thesis using aline_invD(3) [OF inv, of c] t aw a
    by (cases "caches p c"; cases "source gh c") (auto simp: waits_data_def waits_acks_def awaited_def share_ok_def away_def)
qed

lemma ack_sim:
  assumes k: "l1_rep (caches p (version en)) (cache_entry sl) (tbe sl)" and inv: "aline_inv p gh" and en: "l1_fresh sl"
    and m: "rsp_msg en = Some m" "rs_Address m = address en" "rs_Type m = ACK" "rs_AckCount m = 1"
    and a: "0 < acks p (version en)"
  shows "pend (caches p (version en)) \<noteq> 1 \<Longrightarrow>
      l1_sim p (version en) (address en) (home en) [m] (l1_doTransition en Inv_Ack sl)"
    and "pend (caches p (version en)) = 1 \<Longrightarrow>
      l1_sim p (version en) (address en) (home en) [m] (l1_doTransition en Inv_Ack_all sl)"
proof -
  let ?k = "caches p (version en)"
  note st = ack_states [OF inv a]
  { assume n: "pend ?k \<noteq> 1"
    have wk: "waits_data ?k \<or> waits_acks ?k" using st by auto
    note rl = l1_sim_step [OF cache_step.ack [OF wk a n]]
    consider q where "?k = A_IMAD q" | q d where "?k = A_SMAD q d" | q d where "?k = A_IMA q d" | q d where "?k = A_SMA q d"
      using wk by (auto simp: waits_data_def waits_acks_def)
    then show "l1_sim p (version en) (address en) (home en) [m] (l1_doTransition en Inv_Ack sl)"
    proof cases
      case (1 q) show ?thesis by (insert k en 1 m) (auto simp: l1_run, rule rl, simp_all add: fwd_fin)
    next
      case (2 q d) show ?thesis by (insert k en 2 m) (auto simp: l1_run, rule rl, simp_all add: fwd_fin)
    next
      case (3 q d) show ?thesis by (insert k en 3 m) (auto simp: l1_run, rule rl, simp_all add: fwd_fin)
    next
      case (4 q d) show ?thesis by (insert k en 4 m) (auto simp: l1_run, rule rl, simp_all add: fwd_fin)
    qed
  }
  { assume n: "pend ?k = 1"
    have wk: "waits_acks ?k" using st n by auto
    consider d where "?k = A_IMA 1 d" | d where "?k = A_SMA 1 d" using wk n by (auto simp: waits_acks_def)
    then show "l1_sim p (version en) (address en) (home en) [m] (l1_doTransition en Inv_Ack_all sl)"
    proof cases
      case (1 d)
      have dv: "d = val p" using aline_invD(3) [OF inv, of "version en"] 1 by simp
      show ?thesis by (insert k en 1 m dv) (auto simp: l1_run,
          rule l1_sim_step [OF cache_step.last_ack [OF wk a n, where d' = "pending_store en d"]], simp_all add: fwd_fin)
    next
      case (2 d)
      have dv: "d = val p" using aline_invD(3) [OF inv, of "version en"] 2 by simp
      show ?thesis by (insert k en 2 m dv) (auto simp: l1_run,
          rule l1_sim_step [OF cache_step.last_ack [OF wk a n, where d' = "pending_store en d"]], simp_all add: fwd_fin)
    qed
  }
qed

lemma busy_tbe:
  assumes "l1_rep k e t" "k = A_ISD \<or> waits_data k \<or> waits_acks k"
  shows "\<exists>y. t = Some y \<and> (k = A_ISD \<or> pendingAcks y = pend k)"
  using assms by (auto simp: busy_rep_def waits_data_def waits_acks_def)

lemma response_sim:
  assumes k: "l1_rep (caches p (version en)) (cache_entry sl) (tbe sl)" and inv: "aline_inv p gh" and en: "l1_fresh sl"
    and m: "rsp_msg en = Some m" "rs_Address m = address en" "rs_ok m"
    and d: "rs_Type m \<noteq> ACK \<Longrightarrow> abs_data m \<in># datas p (version en)" and a: "rs_Type m = ACK \<Longrightarrow> 0 < acks p (version en)"
  shows "case l1_response_event (tbe sl) m of Inl e \<Rightarrow> False
    | Inr ev \<Rightarrow> l1_sim p (version en) (address en) (home en) [m] (l1_doTransition en ev sl)"
proof (cases "rs_Type m = ACK")
  case True
  then have n: "rs_AckCount m = 1" using m(3) by (simp add: rs_ok_def)
  have "waits_data (caches p (version en)) \<or> waits_acks (caches p (version en))" using ack_states [OF inv a [OF True]] by auto
  then obtain y where y: "tbe sl = Some y" "pendingAcks y = pend (caches p (version en))"
    using busy_tbe [OF k] by (auto simp: waits_data_def waits_acks_def)
  then show ?thesis using ack_sim [OF k inv en m(1,2) True n a [OF True]] True n
    by (simp add: l1_response_event_def getPendingAcks_def need_def)
next
  case False
  note dm = d [OF False]
  have da: "data_of (abs_data m) = rs_DataBlk m" by (simp add: abs_data_def)
  note cs = data_states [OF aline_invD(3) [OF inv] dm]
  then obtain y where y: "tbe sl = Some y" "caches p (version en) = A_ISD \<or> pendingAcks y = pend (caches p (version en))"
    using busy_tbe [OF k] by auto
  show ?thesis
  proof (cases "waits_data (caches p (version en))")
    case True
    then have yp: "pendingAcks y = pend (caches p (version en))" using y by (auto simp: waits_data_def)
    show ?thesis
    proof (cases "rs_Type m = DATA_FROM_DIR \<and> rs_AckCount m \<noteq> 0 \<and> pend (caches p (version en)) \<noteq> rs_AckCount m")
      case c: True
      then show ?thesis using fill_acks_sim [OF k inv en m(1,2) _ _ True] dm yp y(1)
        by (simp add: l1_response_event_def getPendingAcks_def need_def abs_data_def)
    next
      case c: False
      then show ?thesis using fill_M_sim [OF k inv en m(1,2) False dm da True] m(3) False yp y(1)
        by (auto simp: l1_response_event_def getPendingAcks_def need_def abs_data_def rs_ok_def)
    qed
  next
    case nw: False
    then have c: "caches p (version en) = A_ISD" "ackc (abs_data m) = 0" using cs by auto
    then show ?thesis using fill_S_sim [OF k inv en m(1,2) False dm da c] m(3) False
      by (auto simp: l1_response_event_def abs_data_def rs_ok_def)
  qed
qed

section \<open>The input ports keep the invariant of the system\<close>

definition l1_input_ok :: "nat \<Rightarrow> l1_event \<Rightarrow> addr \<Rightarrow> RequestMsg option \<Rightarrow> ResponseMsg list \<Rightarrow> msi_sys \<Rightarrow> bool" where
  "l1_input_ok c ev a fm rms s =
     ((ev \<in> {Fwd_GetS, Fwd_GetM, Inv} \<longrightarrow> (\<exists>m r. fm = Some m \<and> rq_Requestor m = L1Cache r))
    \<and> (l1_port_of ev = forwardRequestNetwork_in \<longrightarrow>
        (\<exists>m q. inport (forwards s) (L1Cache c) = m # q \<and> rq_Address m = a))
    \<and> (l1_port_of ev = responseNetwork_in \<longrightarrow>
        (\<exists>m q. inport (responses s) (L1Cache c) = m # q \<and> rs_Address m = a \<and> rms = [m])))"

lemma l1_trigger_inv:
  assumes inv: "sys_inv cf ram s" and i: "l1_input_ok c ev b fm rms s"
    and sim: "\<And>p gh. rep cf ram b s p \<Longrightarrow> aline_inv p gh \<Longrightarrow>
      l1_sim p c b (map_Address_to_Directory cf b) rms
        (l1_doTransition (l1_env_of cf c b w fm rm (l1s s c)) ev (l1_slot_of (l1s s c) b))"
  shows "case l1_trigger cf c ev b w fm rm s of Inl e \<Rightarrow> e = TBETable_full | Inr s' \<Rightarrow> sys_inv cf ram s'"
proof -
  let ?en = "l1_env_of cf c b w fm rm (l1s s c)" and ?sl = "l1_slot_of (l1s s c) b" and ?h = "map_Address_to_Directory cf b"
  have iD: "wf_sys cf s" "\<exists>p gh. rep cf ram a s p \<and> aline_inv p gh" for a
    using inv by (auto simp: sys_inv_def)
  obtain p gh where p: "rep cf ram b s p" "aline_inv p gh" using iD(2) by blast
  note sm = sim [OF p]
  show ?thesis
  proof (cases "l1_doTransition ?en ev ?sl")
    case (Inl e) then show ?thesis using sm by (simp add: l1_trigger_def)
  next
    case (Inr r)
    show ?thesis
    proof (cases r)
      case None then show ?thesis using Inr inv by (simp add: l1_trigger_def)
    next
      case (Some sl)
      have tr: "l1_doTransition ?en ev ?sl = Inr (Some sl)" using Inr Some by simp
      have "l1_outs_ok ?en sl \<and> set (popped sl) \<subseteq> {l1_port_of ev}"
        by (rule l1_outs [OF tr]) (use i in \<open>auto simp: l1_fresh_def l1_slot_of_def l1_env_of_def l1_input_ok_def\<close>)
      then have o: "l1_outs_ok ?en sl" and pp: "set (popped sl) \<subseteq> {l1_port_of ev}" by auto
      have hd: "l1_heads c b sl rms s" using pp i unfolding l1_heads_def l1_input_ok_def by auto
      let ?k = "abs_cache (cache_entry sl) (tbe sl)" and ?s = "l1_commit c b sl s"
      have sk: "l1_rep ?k (cache_entry sl) (tbe sl)" "line_coherent b (val p) (callbacks sl)"
        "l1_eff c b ?h ?k sl rms p = p \<or> cache_step p (l1_eff c b ?h ?k sl rms p)"
        using sm tr by (auto simp: l1_sim_def Let_def)
      have eh: "home ?en = ?h" "address ?en = b" by (simp_all add: l1_env_of_def)
      have "sys_inv cf ram ?s" unfolding sys_inv_def
      proof (intro conjI allI)
        show "wf_sys cf ?s" by (rule l1_commit_wf [OF iD(1) o eh])
        fix a
        obtain q gq where q: "rep cf ram a s q" "aline_inv q gq" using iD(2) by blast
        show "\<exists>p gh. rep cf ram a ?s p \<and> aline_inv p gh"
        proof (cases "a = b")
          case True
          have "rep cf ram b ?s (l1_eff c b ?h ?k sl rms p)" by (rule l1_commit_rep [OF p(1) sk(1) o eh(1) hd sk(2)])
          moreover have "\<exists>gh. aline_inv (l1_eff c b ?h ?k sl rms p) gh"
            using sk(3) p(2) cache_step_inv by metis
          ultimately show ?thesis using True by blast
        next
          case False
          then show ?thesis using l1_commit_other [OF q(1) False o eh(2) hd] q(2) by blast
        qed
      qed
      then show ?thesis using tr by (simp add: l1_trigger_def)
    qed
  qed
qed

lemma l1_slot_rep:
  assumes "rep cf ram a s p"
  shows "l1_rep (caches p c) (cache_entry (l1_slot_of (l1s s c) a)) (tbe (l1_slot_of (l1s s c) a))" "l1_fresh (l1_slot_of (l1s s c) a)"
  using assms by (simp_all add: rep_def Let_def l1_slot_of_def l1_fresh_def)

lemma l1_forward_inv:
  assumes inv: "sys_inv cf ram s"
  shows "case l1_forward cf c w s of Inl e \<Rightarrow> e = TBETable_full | Inr s' \<Rightarrow> sys_inv cf ram s'"
proof (cases "inport (forwards s) (L1Cache c)")
  case Nil then show ?thesis using inv by (simp add: l1_forward_def)
next
  case (Cons m q)
  have all: "vn_all (forwards s) (L1Cache c) = m # vn_all (vn_pop (L1Cache c) (forwards s)) (L1Cache c)" by (rule vn_all_pop [OF Cons])
  have fm: "fw_ok m" using inv all by (intro wf_sysD(2) [of cf s m c]) (simp_all add: sys_inv_def)
  let ?b = "rq_Address m"
  have sim: "case l1_forward_event m of Inl e \<Rightarrow> False | Inr ev \<Rightarrow> l1_sim p c ?b (map_Address_to_Directory cf ?b) []
      (l1_doTransition (l1_env_of cf c ?b w (Some m) None (l1s s c)) ev (l1_slot_of (l1s s c) ?b))"
    if r: "rep cf ram ?b s p" "aline_inv p gh" for p gh
  proof -
    let ?en = "l1_env_of cf c ?b w (Some m) None (l1s s c)"
    have v: "version ?en = c" "address ?en = ?b" "home ?en = map_Address_to_Directory cf ?b" "fwd_msg ?en = Some m"
      by (simp_all add: l1_env_of_def)
    have "fwds p c = fwds_of ?b (vn_all (forwards s) (L1Cache c))" using r(1) by (simp add: rep_def Let_def)
    then have "fwds p (version ?en) = abs_fwd m # tl (fwds p c)" using all v by (simp add: msg_simps)
    from forward_sim [of p ?en, OF _ r(2) l1_slot_rep(2) [OF r(1), of c] v(4) fm this]
    show ?thesis using l1_slot_rep(1) [OF r(1)] v by (simp split: sum.splits)
  qed
  obtain p gh where pg: "rep cf ram ?b s p" "aline_inv p gh" using inv unfolding sys_inv_def by blast
  obtain ev where ev: "l1_forward_event m = Inr ev" using sim [OF pg] by (cases "l1_forward_event m") auto
  have "l1_input_ok c ev ?b (Some m) [] s" using ev fm Cons
    by (auto simp: l1_input_ok_def l1_forward_event_def fw_ok_def split: if_splits)
  from l1_trigger_inv [OF inv this, of w None] sim ev
  show ?thesis using Cons ev by (simp add: l1_forward_def)
qed

lemma l1_respond_inv:
  assumes inv: "sys_inv cf ram s"
  shows "case l1_respond cf c w s of Inl e \<Rightarrow> e = TBETable_full | Inr s' \<Rightarrow> sys_inv cf ram s'"
proof (cases "inport (responses s) (L1Cache c)")
  case Nil then show ?thesis using inv by (simp add: l1_respond_def)
next
  case (Cons m q)
  have all: "vn_all (responses s) (L1Cache c) = m # vn_all (vn_pop (L1Cache c) (responses s)) (L1Cache c)" by (rule vn_all_pop [OF Cons])
  have rm: "rs_ok m" using inv all by (intro wf_sysD(4) [of cf s m c]) (simp_all add: sys_inv_def)
  let ?b = "rs_Address m"
  have sim: "case l1_response_event (TBEs (l1s s c) ?b) m of Inl e \<Rightarrow> False | Inr ev \<Rightarrow> l1_sim p c ?b (map_Address_to_Directory cf ?b) [m]
      (l1_doTransition (l1_env_of cf c ?b w None (Some m) (l1s s c)) ev (l1_slot_of (l1s s c) ?b))"
    if r: "rep cf ram ?b s p" "aline_inv p gh" for p gh
  proof -
    let ?en = "l1_env_of cf c ?b w None (Some m) (l1s s c)" and ?sl = "l1_slot_of (l1s s c) ?b"
    have v: "version ?en = c" "address ?en = ?b" "home ?en = map_Address_to_Directory cf ?b" "rsp_msg ?en = Some m"
      by (simp_all add: l1_env_of_def)
    have "datas p c = datas_of ?b (vn_all (responses s) (L1Cache c))" "acks p c = acks_of ?b (vn_all (responses s) (L1Cache c))"
      using r(1) by (simp_all add: rep_def Let_def)
    then have d: "rs_Type m \<noteq> ACK \<Longrightarrow> abs_data m \<in># datas p c" "rs_Type m = ACK \<Longrightarrow> 0 < acks p c"
      using all by (simp_all add: msg_simps)
    have "tbe ?sl = TBEs (l1s s c) ?b" by (simp add: l1_slot_of_def)
    then show ?thesis
      using response_sim [of p ?en ?sl gh m] l1_slot_rep [OF r(1), of c] r(2) v rm d by (simp split: sum.splits)
  qed
  obtain p gh where pg: "rep cf ram ?b s p" "aline_inv p gh" using inv unfolding sys_inv_def by blast
  obtain ev where ev: "l1_response_event (TBEs (l1s s c) ?b) m = Inr ev"
    using sim [OF pg] by (cases "l1_response_event (TBEs (l1s s c) ?b) m") auto
  have "l1_input_ok c ev ?b None [m] s" using ev Cons
    by (auto simp: l1_input_ok_def l1_response_event_def split: if_splits sum.splits)
  from l1_trigger_inv [OF inv this, of w "Some m"] sim ev
  show ?thesis using Cons ev by (simp add: l1_respond_def)
qed

definition unsupported_request :: "l1_cntrl \<Rightarrow> bool" where
  "unsupported_request k = (case mandatoryQueue k of [] \<Rightarrow> False
     | m # _ \<Rightarrow> rr_Type m \<notin> {LD, IFETCH, ST, ATOMIC})"

lemma l1_replace_inv:
  assumes inv: "sys_inv cf ram s" and b: "cacheMemory (l1s s c) b \<noteq> None"
  shows "case l1_trigger cf c Repl b w None None s of Inl e \<Rightarrow> e = TBETable_full | Inr s' \<Rightarrow> sys_inv cf ram s'"
proof (rule l1_trigger_inv [OF inv])
  show "l1_input_ok c Repl b None [] s" by (simp add: l1_input_ok_def)
  fix p gh assume r: "rep cf ram b s p" "aline_inv p gh"
  show "l1_sim p c b (map_Address_to_Directory cf b) []
      (l1_doTransition (l1_env_of cf c b w None None (l1s s c)) Repl (l1_slot_of (l1s s c) b))"
    using replacement_sim [of p "l1_env_of cf c b w None None (l1s s c)"] l1_slot_rep [OF r(1), of c] b
    by (simp add: l1_slot_of_def l1_env_of_def)
qed

lemma l1_access_inv:
  assumes inv: "sys_inv cf ram s" and ev: "ev \<in> {Load, Ifetch, Store}"
  shows "case l1_trigger cf c ev a w None None s of Inl e \<Rightarrow> e = TBETable_full | Inr s' \<Rightarrow> sys_inv cf ram s'"
proof (rule l1_trigger_inv [OF inv])
  show "l1_input_ok c ev a None [] s" using ev by (auto simp: l1_input_ok_def)
  fix p gh assume r: "rep cf ram a s p" "aline_inv p gh"
  let ?en = "l1_env_of cf c a w None None (l1s s c)"
  have v: "version ?en = c" "address ?en = a" "home ?en = map_Address_to_Directory cf a" by (simp_all add: l1_env_of_def)
  show "l1_sim p c a (map_Address_to_Directory cf a) [] (l1_doTransition ?en ev (l1_slot_of (l1s s c) a))"
    using load_sim [of p ?en _ gh] store_sim [of p ?en _ gh] ev ifetch_is_load l1_slot_rep [OF r(1), of c] r(2) v by auto
qed

lemma l1_mandatory_inv:
  assumes inv: "sys_inv cf ram s"
  shows "case l1_mandatory cf c w b s of Inl e \<Rightarrow> e = TBETable_full \<or> unsupported_request (l1s s c)
    | Inr s' \<Rightarrow> sys_inv cf ram s'"
proof (cases "mandatoryQueue (l1s s c)")
  case Nil then show ?thesis using inv by (simp add: l1_mandatory_def)
next
  case (Cons m q)
  let ?cm = "cacheMemory (l1s s c)" and ?a = "rr_LineAddress m"
  consider "?cm ?a = None \<and> \<not> l1_cacheAvail cf ?cm ?a"
    | e where "?cm ?a \<noteq> None \<or> l1_cacheAvail cf ?cm ?a" "mandatory_request_type_to_event (rr_Type m) = Inl e"
    | ev where "?cm ?a \<noteq> None \<or> l1_cacheAvail cf ?cm ?a" "mandatory_request_type_to_event (rr_Type m) = Inr ev"
    by (cases "mandatory_request_type_to_event (rr_Type m)"; blast)
  then show ?thesis
  proof cases
    case 1 then show ?thesis using Cons inv l1_replace_inv [OF inv, of c b w]
      by (auto simp: l1_mandatory_def split: sum.splits)
  next
    case 2 then show ?thesis using Cons by (auto simp: l1_mandatory_def mandatory_request_type_to_event_def
        unsupported_request_def split: if_splits)
  next
    case (3 ev)
    then have "ev \<in> {Load, Ifetch, Store}" by (auto simp: mandatory_request_type_to_event_def split: if_splits)
    from l1_access_inv [OF inv this, of c ?a w] show ?thesis using Cons 3
      by (auto simp: l1_mandatory_def split: sum.splits)
  qed
qed

end
