(* ===== verification/Msi_Sim_Dir.thy ===== *)
theory Msi_Sim_Dir
  imports Msi_Rep
begin

text \<open>
  Every transition of a directory controller is a step of the abstract machine of its line, or
  changes nothing there, and leaves the other lines alone.
\<close>

section \<open>What a transition sends\<close>

fun dir_port_of :: "dir_event \<Rightarrow> dir_port" where
  "dir_port_of ev = (if ev \<in> {Memory_Data, Memory_Ack} then memQueue_in
     else if ev = Data then responseQueue_in else requestQueue_in)"

definition dir_outs_ok :: "dir_env \<Rightarrow> dir_slot \<Rightarrow> bool" where
  "dir_outs_ok en sl = ((\<forall>m\<in>set (forwardNetwork_out sl). rq_Address m = daddress en \<and> fw_ok m)
     \<and> (\<forall>m\<in>set (dresponseNetwork_out sl). rs_Address m = daddress en \<and> rs_ok m \<and> rs_Type m \<noteq> ACK
         \<and> (\<exists>c. rs_Destination m = {L1Cache c}))
     \<and> (\<forall>m\<in>set (memQueue_out sl). mm_Address m = daddress en \<and> mm_Type m \<in> {MEMORY_READ, MEMORY_WB}
         \<and> (\<exists>c. mm_OriginalRequestorMachId m = L1Cache c)))"

definition dir_fresh :: "dir_slot \<Rightarrow> bool" where
  "dir_fresh sl = (forwardNetwork_out sl = [] \<and> dresponseNetwork_out sl = [] \<and> memQueue_out sl = [] \<and> dpopped sl = [])"

definition dir_input_ok :: "dir_env \<Rightarrow> bool" where
  "dir_input_ok en = ((\<forall>m. req_msg en = Some m \<longrightarrow> (\<exists>c. rq_Requestor m = L1Cache c))
     \<and> (\<forall>m. drsp_msg en = Some m \<longrightarrow> (\<exists>c. rs_Sender m = L1Cache c))
     \<and> (\<forall>m. mem_msg en = Some m \<longrightarrow> (\<exists>c. mm_OriginalRequestorMachId m = L1Cache c)))"

fun dpops :: "dir_action \<Rightarrow> dir_port set" where
  "dpops i_popIncomingRequestQueue = {requestQueue_in}"
| "dpops pr_popIncomingResponseQueue = {responseQueue_in}"
| "dpops qm_popMemQueue = {memQueue_in}"
| "dpops _ = {}"

lemma dir_outs_ok_simps [simp]:
  "dir_outs_ok en (sl \<lparr> dir_entry := e \<rparr>) = dir_outs_ok en sl" "dir_outs_ok en (sl \<lparr> dtbe := t \<rparr>) = dir_outs_ok en sl"
  "dir_outs_ok en (dpop p sl) = dir_outs_ok en sl" "dir_outs_ok en (upd_entry f sl) = dir_outs_ok en sl"
  by (auto simp: dir_outs_ok_def dpop_def upd_entry_def)

lemma dir_outs_ok_send:
  assumes "dir_outs_ok en sl"
  shows "ty = WB_ACK \<or> ty \<in> {GETS, GETM, INV} \<and> (\<exists>c. r = L1Cache c) \<Longrightarrow> dir_outs_ok en (dir_forward en ty r dst sl)"
    and "\<exists>c. x = L1Cache c \<Longrightarrow> dir_outs_ok en (dir_data en x d n sl)"
    and "mt \<in> {MEMORY_READ, MEMORY_WB} \<Longrightarrow> \<exists>c. x = L1Cache c \<Longrightarrow> dir_outs_ok en (dir_memory en mt x d sl)"
  using assms by (auto simp: dir_outs_ok_def dir_forward_def dir_data_def dir_memory_def fw_ok_def rs_ok_def)

lemma dpopped_simps [simp]:
  "dpopped (dir_forward en ty r dst sl) = dpopped sl" "dpopped (dir_data en x d n sl) = dpopped sl"
  "dpopped (dir_memory en mt x d sl) = dpopped sl" "dpopped (upd_entry f sl) = dpopped sl"
  "dpopped (dpop p sl) = dpopped sl @ [p]"
  by (simp_all add: dir_forward_def dir_data_def dir_memory_def upd_entry_def dpop_def)

lemma dir_act_outs:
  assumes "dir_act en x sl = Inr sl'" "dir_outs_ok en sl" "dir_input_ok en"
    and "x = f_forwardRequest \<Longrightarrow> \<exists>m. req_msg en = Some m \<and> rq_Type m \<in> {GETS, GETM}"
  shows "dir_outs_ok en sl' \<and> set (dpopped sl') \<subseteq> set (dpopped sl) \<union> dpops x"
  using assms
  by (cases x) (auto simp: need_def Let_def dir_input_ok_def copy_from_tbe_def intro!: dir_outs_ok_send
      split: option.splits if_splits sum.splits)

lemma dir_acts_outs:
  assumes "dir_acts en xs sl = Inr sl'" "dir_outs_ok en sl" "dir_input_ok en"
    and "f_forwardRequest \<in> set xs \<Longrightarrow> \<exists>m. req_msg en = Some m \<and> rq_Type m \<in> {GETS, GETM}"
  shows "dir_outs_ok en sl' \<and> set (dpopped sl') \<subseteq> set (dpopped sl) \<union> (\<Union>x\<in>set xs. dpops x)"
  using assms
proof (induction en xs sl rule: dir_acts.induct)
  case (2 en x xs sl)
  then obtain sl1 where s1: "dir_act en x sl = Inr sl1" "dir_acts en xs sl1 = Inr sl'" by (auto split: sum.splits)
  have "dir_outs_ok en sl1 \<and> set (dpopped sl1) \<subseteq> set (dpopped sl) \<union> dpops x"
    by (rule dir_act_outs [OF s1(1) 2(3,4)]) (use 2(5) in auto)
  moreover have "dir_outs_ok en sl' \<and> set (dpopped sl') \<subseteq> set (dpopped sl1) \<union> (\<Union>x\<in>set xs. dpops x)"
    by (rule 2(1) [OF s1]) (use 2(4,5) calculation in auto)
  ultimately show ?case by auto
qed simp

lemma dir_table_outs:
  assumes "dir_transition st ev = Some (acts, st')"
  shows "(\<Union>x\<in>set acts. dpops x) \<subseteq> {dir_port_of ev} \<and> (f_forwardRequest \<in> set acts \<longrightarrow> ev \<in> {DE_GETS, DE_GETM})"
  using assms by (cases st; cases ev) auto

lemma dir_setState_outs:
  assumes "dir_setState um z st sl = Inr sl'"
  shows "dpopped sl' = dpopped sl" "dir_outs_ok en sl' = dir_outs_ok en sl"
  using assms by (auto simp: dir_setState_def Let_def split: if_splits)

lemma dir_outs:
  assumes "dir_doTransition en ev sl = Inr (Some sl')" "dir_fresh sl" "dir_input_ok en"
    and "ev \<in> {DE_GETS, DE_GETM} \<Longrightarrow> \<exists>m. req_msg en = Some m \<and> rq_Type m \<in> {GETS, GETM}"
  shows "dir_outs_ok en sl' \<and> set (dpopped sl') \<subseteq> {dir_port_of ev}"
proof -
  obtain acts st' sl1 sl2 where tr: "dir_transition (dir_getState sl) ev = Some (acts, st')" "dir_acts en acts sl = Inr sl1"
      "dir_setState (use_map en) (dblk0 en) st' sl1 = Inr sl2" "sl' = dir_setAccessPermission st' sl2"
    using assms(1) by (auto simp: dir_doTransition_def split: option.splits sum.splits if_splits)
  have "dir_outs_ok en sl1 \<and> set (dpopped sl1) \<subseteq> set (dpopped sl) \<union> (\<Union>x\<in>set acts. dpops x)"
    by (rule dir_acts_outs [OF tr(2)])
      (use assms(2-4) dir_table_outs [OF tr(1)] in \<open>auto simp: dir_fresh_def dir_outs_ok_def\<close>)
  moreover have "dpopped sl' = dpopped sl1" "dir_outs_ok en sl' = dir_outs_ok en sl1"
    using dir_setState_outs [OF tr(3)] tr(4) by (simp_all add: dir_setAccessPermission_def)
  ultimately show ?thesis using dir_table_outs [OF tr(1)] assms(2)
    by (auto simp: dir_fresh_def simp del: dir_port_of.simps)
qed

section \<open>The effect of a transition on the lines\<close>

text \<open>The message that the transition was triggered by is in \<open>qms\<close>, \<open>rms\<close> or \<open>mms\<close>.\<close>

definition dir_eff :: "addr \<Rightarrow> dir_slot \<Rightarrow> RequestMsg list \<Rightarrow> ResponseMsg list \<Rightarrow> MemoryMsg list \<Rightarrow> aline \<Rightarrow> aline" where
  "dir_eff a sl qms rms mms p = p \<lparr>
     reqs := (\<lambda>x. if requestQueue_in \<in> set (dpopped sl) then reqs p x - reqs_of a qms x else reqs p x),
     fwds := (\<lambda>x. fwds p x @ fwds_of a (filter (\<lambda>m. L1Cache x \<in> rq_Destination m) (forwardNetwork_out sl))),
     datas := (\<lambda>x. datas p x + datas_of a (filter (\<lambda>m. L1Cache x \<in> rs_Destination m) (dresponseNetwork_out sl))),
     tohome := (if responseQueue_in \<in> set (dpopped sl) then tohome p - tohome_of a rms else tohome p),
     mems := (if memQueue_in \<in> set (dpopped sl) then mems p - mems_of a mms else mems p) + mems_of a (memQueue_out sl),
     dstate := DirectoryState (dir_entry sl), ddata := dDataBlk (dir_entry sl),
     sharers := {c. L1Cache c \<in> Sharers (dir_entry sl)}, owners := {c. L1Cache c \<in> Owner (dir_entry sl)},
     val := (if DirectoryState (dir_entry sl) = Dir_I then dDataBlk (dir_entry sl) else val p) \<rparr>"

definition dir_heads :: "nat \<Rightarrow> addr \<Rightarrow> nat \<Rightarrow> dir_slot \<Rightarrow> RequestMsg list \<Rightarrow> ResponseMsg list \<Rightarrow> MemoryMsg list
    \<Rightarrow> msi_sys \<Rightarrow> bool" where
  "dir_heads d a i sl qms rms mms s =
     ((requestQueue_in \<in> set (dpopped sl) \<longrightarrow>
        (\<exists>m q. inport (requests s) (Directory d) = m # q \<and> rq_Address m = a \<and> qms = [m]))
    \<and> (responseQueue_in \<in> set (dpopped sl) \<longrightarrow>
        (\<exists>m q. inport (responses s) (Directory d) = m # q \<and> rs_Address m = a \<and> rms = [m]))
    \<and> (memQueue_in \<in> set (dpopped sl) \<longrightarrow>
        (\<exists>m. i < length (memBuffer (dirs s d)) \<and> memBuffer (dirs s d) ! i = m \<and> mm_Address m = a \<and> mms = [m])))"

lemma vn_pop_request:
  assumes "inport v x = m # q"
  shows "reqs_of a (vn_all (vn_pop x v) x) c = reqs_of a (vn_all v x) c - reqs_of a [m] c"
  using vn_all_pop [OF assms] by (simp add: msg_simps)

lemma mems_of_remove:
  assumes "i < length q"
  shows "mems_of a (take i q @ drop (Suc i) q) = mems_of a q - mems_of a [q ! i]"
proof -
  have "q = take i q @ q ! i # drop (Suc i) q" using assms by (rule id_take_nth_drop)
  then have "mems_of a q = mems_of a (take i q @ q ! i # drop (Suc i) q)" by simp
  then show ?thesis by (simp add: msg_simps)
qed

lemma dir_commit_rep:
  assumes r: "rep cf ram a s p" and d: "d = map_Address_to_Directory cf a"
    and k: "dir_rep (dir_eff a sl qms rms mms p) (dir_entry sl) (dtbe sl)"
    and o: "dir_outs_ok en sl" and hd: "dir_heads d a i sl qms rms mms s"
    and v: "val (dir_eff a sl qms rms mms p) = val p
      \<or> sparse_directory cf \<and> val (dir_eff a sl qms rms mms p) = new_block cf"
  shows "rep cf ram a (dir_commit d a i sl s) (dir_eff a sl qms rms mms p)"
proof -
  let ?s = "dir_commit d a i sl s"
  let ?R = "if responseQueue_in \<in> set (dpopped sl) then vn_pop (Directory d) (responses s) else responses s"
  have q: "reqs_of a (vn_all (requests ?s) (Directory d)) x
      = (if requestQueue_in \<in> set (dpopped sl) then reqs p x - reqs_of a qms x else reqs p x)" for x
    using r hd d by (auto simp: dir_commit_def Let_def rep_def dir_heads_def vn_pop_request)
  have rc: "vn_all ?R (L1Cache x) = vn_all (responses s) (L1Cache x)" for x by (simp add: vn_all_pop_other)
  have noack: "acks_of a (filter P (dresponseNetwork_out sl)) = 0" for P
    using o by (auto simp: dir_outs_ok_def acks_of_def filter_mset_eq_conv)
  have nodir: "filter (\<lambda>m. Directory d \<in> rs_Destination m) (dresponseNetwork_out sl) = []"
    using o by (auto simp: dir_outs_ok_def filter_empty_conv)
  have th: "tohome_of a (vn_all ?R (Directory d)) = (if responseQueue_in \<in> set (dpopped sl) then tohome p - tohome_of a rms else tohome p)"
    using r hd d by (auto simp: rep_def Let_def dir_heads_def vn_pop_response)
  have mm: "mems_of a (if memQueue_in \<in> set (dpopped sl) then take i (memBuffer (dirs s d)) @ drop (Suc i) (memBuffer (dirs s d))
      else memBuffer (dirs s d)) = (if memQueue_in \<in> set (dpopped sl) then mems p - mems_of a mms else mems p)"
    using r hd d mems_of_remove [of i "memBuffer (dirs s d)" a] by (auto simp: rep_def Let_def dir_heads_def)
  let ?p = "dir_eff a sl qms rms mms p"
  have ef: "caches ?p = caches p" "acks ?p = acks p"
    "reqs ?p = (\<lambda>x. if requestQueue_in \<in> set (dpopped sl) then reqs p x - reqs_of a qms x else reqs p x)"
    "fwds ?p = (\<lambda>x. fwds p x @ fwds_of a (filter (\<lambda>m. L1Cache x \<in> rq_Destination m) (forwardNetwork_out sl)))"
    "datas ?p = (\<lambda>x. datas p x + datas_of a (filter (\<lambda>m. L1Cache x \<in> rs_Destination m) (dresponseNetwork_out sl)))"
    "tohome ?p = (if responseQueue_in \<in> set (dpopped sl) then tohome p - tohome_of a rms else tohome p)"
    "mems ?p = (if memQueue_in \<in> set (dpopped sl) then mems p - mems_of a mms else mems p) + mems_of a (memQueue_out sl)"
    by (simp_all add: dir_eff_def)
  have "line_run (sparse_directory cf) (new_block cf) a (initial_block cf ram a) (call_log s) (val ?p)"
    using v r by (auto simp: rep_def Let_def intro: line_lost)
  then show ?thesis using r k q rc noack nodir th mm unfolding rep_def Let_def ef d [symmetric]
    by (simp add: dir_commit_def Let_def msg_simps)
qed

lemma dir_commit_other:
  assumes r: "rep cf ram a s p" and ab: "a \<noteq> b" and o: "dir_outs_ok en sl" "daddress en = b"
    and hd: "dir_heads d b i sl qms rms mms s"
  shows "rep cf ram a (dir_commit d b i sl s) p"
proof -
  let ?s = "dir_commit d b i sl s"
  let ?R = "if responseQueue_in \<in> set (dpopped sl) then vn_pop (Directory d) (responses s) else responses s"
  let ?M = "if memQueue_in \<in> set (dpopped sl) then take i (memBuffer (dirs s d)) @ drop (Suc i) (memBuffer (dirs s d))
      else memBuffer (dirs s d)"
  have out: "fwds_of a (filter P (forwardNetwork_out sl)) = []" "datas_of a (filter Q (dresponseNetwork_out sl)) = {#}"
    "acks_of a (filter Q (dresponseNetwork_out sl)) = 0" "tohome_of a (filter Q (dresponseNetwork_out sl)) = {#}"
    "mems_of a (memQueue_out sl) = {#}" for P Q
    using o ab by (auto simp: dir_outs_ok_def intro!: other_line)
  have q: "reqs_of a (vn_all (requests ?s) y) x = reqs_of a (vn_all (requests s) y) x" for x y
    using hd ab by (cases "y = Directory d")
      (auto simp: dir_commit_def Let_def dir_heads_def vn_pop_request vn_all_pop_other msg_simps)
  have rs: "datas_of a (vn_all ?R y) = datas_of a (vn_all (responses s) y)" "acks_of a (vn_all ?R y) = acks_of a (vn_all (responses s) y)"
      "tohome_of a (vn_all ?R y) = tohome_of a (vn_all (responses s) y)" for y
    using hd ab by (cases "y = Directory d"; auto simp: dir_heads_def vn_pop_response vn_all_pop_other msg_simps)+
  have mm: "mems_of a ?M = mems_of a (memBuffer (dirs s d))"
    using hd ab mems_of_remove [of i "memBuffer (dirs s d)" a] by (auto simp: dir_heads_def msg_simps)
  show ?thesis using r ab out q rs mm
    by (auto simp: rep_def Let_def dir_commit_def msg_simps)
qed

lemma dir_commit_wf:
  assumes w: "wf_sys cf s" and o: "dir_outs_ok en sl" "daddress en = a" and d: "d = map_Address_to_Directory cf a"
  shows "wf_sys cf (dir_commit d a i sl s)"
proof -
  note wD = wf_sysD [OF w]
  show ?thesis
  proof (rule wf_sysI, goal_cases)
    case (1 x m)
    then have "m \<in> set (vn_all (requests s) (Directory x))" using vn_popD by (auto simp: dir_commit_def Let_def split: if_splits)
    then show ?case by (rule wD(1))
  next
    case (2 x m)
    then show ?case using wD(2) [of m x] o by (auto simp: dir_commit_def Let_def dir_outs_ok_def)
  next
    case (3 x y m)
    then show ?case using wD(3) [of y m x] o d by (auto simp: dir_commit_def Let_def dir_outs_ok_def vn_send_def)
  next
    case (4 x m)
    then have "m \<in> set (vn_all (responses s) (L1Cache x)) \<or> m \<in> set (dresponseNetwork_out sl)"
      using vn_popD by (fastforce simp: dir_commit_def Let_def split: if_splits)
    then show ?case using wD(4) [of m x] o by (auto simp: dir_outs_ok_def)
  next
    case (5 x m)
    then have "m \<in> set (vn_all (responses s) (Directory x)) \<or> m \<in> set (dresponseNetwork_out sl) \<and> Directory x \<in> rs_Destination m"
      using vn_popD by (fastforce simp: dir_commit_def Let_def split: if_splits)
    then show ?case using wD(5) [of m x] o by (auto simp: dir_outs_ok_def)
  next
    case (6 x m)
    then have "m \<in> set (memBuffer (dirs s x)) \<or> x = d \<and> m \<in> set (memQueue_out sl)"
      by (auto simp: dir_commit_def Let_def split: if_splits dest: in_set_takeD in_set_dropD)
    then show ?case using wD(6) [of m x] o d by (auto simp: dir_outs_ok_def mm_ok_def)
  qed
qed

section \<open>Transitions are steps of the line\<close>

text \<open>A step of the directory, and the loss of the value when a sparse directory removes its entry.\<close>

definition home_move :: "bool \<Rightarrow> blk \<Rightarrow> aline \<Rightarrow> aline \<Rightarrow> bool" where
  "home_move sp z p q = (home_step p q \<and> val q = val p
     \<or> sp \<and> (\<exists>q'. home_step p q' \<and> dstate q' = Dir_I \<and> q = q' \<lparr> ddata := z, val := z \<rparr>))"

lemma home_move_inv:
  assumes "home_move sp z p q" "aline_inv p gh"
  shows "\<exists>gh. aline_inv q gh" "val q = val p \<or> sp \<and> val q = z"
proof -
  show "\<exists>gh. aline_inv q gh"
    using assms home_step_inv [OF _ assms(2)] forget_inv unfolding home_move_def by metis
  show "val q = val p \<or> sp \<and> val q = z" using assms(1) by (auto simp: home_move_def)
qed

definition dir_sim :: "aline \<Rightarrow> dir_env \<Rightarrow> RequestMsg list \<Rightarrow> ResponseMsg list \<Rightarrow> MemoryMsg list
    \<Rightarrow> dir_slot option res \<Rightarrow> bool" where
  "dir_sim p en qms rms mms r = (case r of Inl e \<Rightarrow> e = TBETable_full | Inr None \<Rightarrow> True
     | Inr (Some sl) \<Rightarrow> (let q = dir_eff (daddress en) sl qms rms mms p in
         dir_rep q (dir_entry sl) (dtbe sl) \<and> home_move (use_map en) (dblk0 en) p q))"

lemma dir_sim_simps [simp]:
  "dir_sim p en qms rms mms (Inl e) = (e = TBETable_full)" "dir_sim p en qms rms mms (Inr None)"
  by (simp_all add: dir_sim_def)

lemma dir_eff_eq:
  assumes "dir_rep q (dir_entry sl) (dtbe sl)"
    and "reqs q = (\<lambda>x. if requestQueue_in \<in> set (dpopped sl) then reqs p x - reqs_of a qms x else reqs p x)"
    and "fwds q = (\<lambda>x. fwds p x @ fwds_of a (filter (\<lambda>m. L1Cache x \<in> rq_Destination m) (forwardNetwork_out sl)))"
    and "datas q = (\<lambda>x. datas p x + datas_of a (filter (\<lambda>m. L1Cache x \<in> rs_Destination m) (dresponseNetwork_out sl)))"
    and "tohome q = (if responseQueue_in \<in> set (dpopped sl) then tohome p - tohome_of a rms else tohome p)"
    and "mems q = (if memQueue_in \<in> set (dpopped sl) then mems p - mems_of a mms else mems p) + mems_of a (memQueue_out sl)"
    and "caches q = caches p" "acks q = acks p"
    and "val q = (if DirectoryState (dir_entry sl) = Dir_I then dDataBlk (dir_entry sl) else val p)"
  shows "dir_eff a sl qms rms mms p = q"
proof -
  have "{c. L1Cache c \<in> L1Cache ` S} = S" for S by auto
  then show ?thesis using assms by (intro aline.equality) (simp_all add: dir_eff_def dir_rep_def)
qed

lemma dir_sim_step:
  assumes "home_step p q" "dir_rep q (dir_entry sl) (dtbe sl)"
    and "reqs q = (\<lambda>x. if requestQueue_in \<in> set (dpopped sl) then reqs p x - reqs_of (daddress en) qms x else reqs p x)"
    and "fwds q = (\<lambda>x. fwds p x @ fwds_of (daddress en) (filter (\<lambda>m. L1Cache x \<in> rq_Destination m) (forwardNetwork_out sl)))"
    and "datas q = (\<lambda>x. datas p x + datas_of (daddress en) (filter (\<lambda>m. L1Cache x \<in> rs_Destination m) (dresponseNetwork_out sl)))"
    and "tohome q = (if responseQueue_in \<in> set (dpopped sl) then tohome p - tohome_of (daddress en) rms else tohome p)"
    and "mems q = (if memQueue_in \<in> set (dpopped sl) then mems p - mems_of (daddress en) mms else mems p) + mems_of (daddress en) (memQueue_out sl)"
    and "caches q = caches p" "acks q = acks p" "val q = val p"
    and "DirectoryState (dir_entry sl) = Dir_I \<Longrightarrow> dDataBlk (dir_entry sl) = val p"
  shows "dir_sim p en qms rms mms (Inr (Some sl))"
proof -
  have "dir_eff (daddress en) sl qms rms mms p = q"
    using assms(2-9) by (rule dir_eff_eq) (use assms(10,11) in auto)
  then show ?thesis using assms(1,2,10) by (simp add: dir_sim_def home_move_def)
qed

lemma dir_sim_forget:
  assumes "home_step p q" "dstate q = Dir_I" "use_map en" "dir_rep (q \<lparr> ddata := dblk0 en, val := dblk0 en \<rparr>) (dir_entry sl) (dtbe sl)"
    and "reqs q = (\<lambda>x. if requestQueue_in \<in> set (dpopped sl) then reqs p x - reqs_of (daddress en) qms x else reqs p x)"
    and "fwds q = (\<lambda>x. fwds p x @ fwds_of (daddress en) (filter (\<lambda>m. L1Cache x \<in> rq_Destination m) (forwardNetwork_out sl)))"
    and "datas q = (\<lambda>x. datas p x + datas_of (daddress en) (filter (\<lambda>m. L1Cache x \<in> rs_Destination m) (dresponseNetwork_out sl)))"
    and "tohome q = (if responseQueue_in \<in> set (dpopped sl) then tohome p - tohome_of (daddress en) rms else tohome p)"
    and "mems q = (if memQueue_in \<in> set (dpopped sl) then mems p - mems_of (daddress en) mms else mems p) + mems_of (daddress en) (memQueue_out sl)"
    and "caches q = caches p" "acks q = acks p"
  shows "dir_sim p en qms rms mms (Inr (Some sl))"
proof -
  let ?q = "q \<lparr> ddata := dblk0 en, val := dblk0 en \<rparr>"
  have "dir_eff (daddress en) sl qms rms mms p = ?q"
    by (rule dir_eff_eq [OF assms(4)]) (use assms in \<open>simp_all add: dir_rep_def\<close>)
  then show ?thesis using assms(1-4) unfolding dir_sim_def home_move_def Let_def by auto
qed

lemma getOffset_0: "0 < bb \<Longrightarrow> getOffset bb 0 = Some 0"
  by (simp add: getOffset_def bitSelect_def shr_def Let_def)

lemma copy_nothing: "0 < bb \<Longrightarrow> PhysicalAddress t = 0 \<Longrightarrow> Len t = 0 \<Longrightarrow> copy_from_tbe bb t dst f = f dst"
  by (simp add: copy_from_tbe_def need_def getOffset_0 copyPartial_def)

lemma card_L1 [simp]: "card (L1Cache ` S) = card S"
  by (rule card_image) (simp add: inj_on_def)

lemma L1_mem [simp]: "(L1Cache c \<in> L1Cache ` S) = (c \<in> S)"
  by auto

lemma L1_diff: "L1Cache ` S - {L1Cache c} = L1Cache ` (S - {c})"
  by auto

lemmas dir_run = dir_doTransition_def need_def Let_def dir_getState_def dir_setState_def dir_setAccessPermission_def
  upd_entry_def dir_forward_def dir_data_def dir_memory_def dpop_def dir_fresh_def dir_rep_def copy_nothing

lemmas dir_removed = invalidateBlock_def new_dir_entry_def

lemmas dir_fin = dir_rep_def msg_simps post_def fun_eq_iff abs_req_def abs_fwd_def abs_data_def abs_mem_def mach_no_def
  image_Un L1_diff

lemma gets_sim:
  assumes k: "dir_rep p (dir_entry sl) (dtbe sl)" and inv: "aline_inv p gh" and fr: "dir_fresh sl"
    and m: "req_msg en = Some m" "rq_Type m = GETS" "rq_Requestor m = L1Cache c" "rq_Address m = daddress en"
    and q: "GetS \<in># reqs p c"
  shows "dir_sim p en [m] [] [] (dir_doTransition en DE_GETS sl)"
proof -
  have h: "home_ok p (place gh)" by (rule aline_invD(1) [OF inv])
  consider "dstate p = Dir_I" | "dstate p = Dir_S" | "dstate p = Dir_M" | "dstate p \<notin> {Dir_I, Dir_S, Dir_M}" by blast
  then show ?thesis
  proof cases
    case 1
    show ?thesis by (insert k fr m 1) (auto simp: dir_run, rule dir_sim_step [OF home_step.gets_I [OF 1 q]], simp_all add: dir_fin)
  next
    case 2
    show ?thesis by (insert k fr m 2) (auto simp: dir_run, rule dir_sim_step [OF home_step.gets_S [OF 2 q]], simp_all add: dir_fin)
  next
    case 3
    show ?thesis by (insert k fr m 3) (auto simp: dir_run, rule dir_sim_step [OF home_step.gets_M [OF 3 q]], simp_all add: dir_fin)
  next
    case 4
    show ?thesis by (insert k 4, cases "dstate p") (auto simp: dir_run)
  qed
qed

lemma getm_sim:
  assumes k: "dir_rep p (dir_entry sl) (dtbe sl)" and inv: "aline_inv p gh" and fr: "dir_fresh sl"
    and m: "req_msg en = Some m" "rq_Type m = GETM" "rq_Requestor m = L1Cache c" "rq_Address m = daddress en"
    and q: "GetM \<in># reqs p c"
  shows "dir_sim p en [m] [] [] (dir_doTransition en DE_GETM sl)"
proof -
  have h: "home_ok p (place gh)" by (rule aline_invD(1) [OF inv])
  consider "dstate p = Dir_I" | "dstate p = Dir_S" | "dstate p = Dir_M" | "dstate p \<notin> {Dir_I, Dir_S, Dir_M}" by blast
  then show ?thesis
  proof cases
    case 1
    show ?thesis by (insert k fr m 1) (auto simp: dir_run, rule dir_sim_step [OF home_step.getm_I [OF 1 q]], simp_all add: dir_fin)
  next
    case 2
    have f: "finite (sharers p)" using h by (simp add: home_ok_def)
    show ?thesis
    proof (cases "c \<in> sharers p")
      case True
      then have "0 < card (sharers p)" using f card_gt_0_iff by blast
      then have n: "int (card (sharers p) - Suc 0) = int (card (sharers p)) - 1" by simp
      show ?thesis by (insert k fr m 2 True n) (auto simp: dir_run L1_diff,
          rule dir_sim_step [OF home_step.getm_S [OF 2 q]], simp_all add: dir_fin)
    next
      case False
      show ?thesis by (insert k fr m 2 False) (auto simp: dir_run L1_diff,
          rule dir_sim_step [OF home_step.getm_S [OF 2 q]], simp_all add: dir_fin)
    qed
  next
    case 3
    have sh: "sharers p = {}" using h 3 by (simp add: home_ok_def)
    show ?thesis by (insert k fr m 3 sh) (auto simp: dir_run, rule dir_sim_step [OF home_step.getm_M [OF 3 q]], simp_all add: dir_fin)
  next
    case 4
    show ?thesis by (insert k 4, cases "dstate p") (auto simp: dir_run)
  qed
qed

lemma put_late_sim:
  assumes k: "dir_rep p (dir_entry sl) (dtbe sl)" and inv: "aline_inv p gh" and fr: "dir_fresh sl"
    and m: "req_msg en = Some m" "rq_Requestor m = L1Cache c" "rq_Address m = daddress en"
    and x: "abs_req m = x" "x \<in># reqs p c" "x = PutS \<or> x = PutM d \<and> c \<notin> owners p"
    and ev: "ev = PUTM_NotOwner \<or> ev = PUTS_NotLast \<or> ev = PUTS_Last \<and> card (sharers p) < 2 \<and> c \<in> sharers p"
  shows "dir_sim p en [m] [] [] (dir_doTransition en ev sl)"
proof (cases "dstate p \<in> {Dir_IS_MD, Dir_IM_MD}")
  case True
  then show ?thesis using k ev by (auto simp: dir_run)
next
  case False
  have h: "home_ok p (place gh)" by (rule aline_invD(1) [OF inv])
  note st = home_step.put [OF x(2,3) False _ refl]
  consider "dstate p = Dir_I" | "dstate p = Dir_M" | "dstate p = Dir_S" "ev \<noteq> PUTS_Last" | "dstate p = Dir_S" "ev = PUTS_Last"
    | "dstate p \<in> {Dir_MS_OD, Dir_MS_MA, Dir_MI_MA}" "ev \<noteq> PUTS_Last" | "dstate p \<in> {Dir_MS_OD, Dir_MS_MA, Dir_MI_MA}" "ev = PUTS_Last"
    using False by (cases "dstate p") auto
  then show ?thesis
  proof cases
    case 1
    have s: "sharers p = {}" "owners p = {}" "ddata p = val p" using h 1 by (simp_all add: home_ok_def)
    show ?thesis
    proof (cases "use_map en")
      case True
      show ?thesis by (insert k fr m x(1) 1 s ev True, auto simp: dir_run dir_removed;
          rule dir_sim_forget [OF st [OF disjI1 [OF refl]]]; simp add: dir_fin)
    next
      case False
      show ?thesis by (insert k fr m x(1) 1 s ev False, auto simp: dir_run dir_removed;
          rule dir_sim_step [OF st [OF disjI1 [OF refl]]]; simp add: dir_fin)
    qed
  next
    case 2
    obtain o' where s: "sharers p = {}" "owners p = {o'}" using h 2 by (auto simp: home_ok_def)
    show ?thesis by (insert k fr m x(1) 2 s ev, auto simp: dir_run;
        rule dir_sim_step [OF st [OF disjI1 [OF refl]]]; simp add: dir_fin)
  next
    case 3
    show ?thesis by (insert k fr m x(1) 3 ev, auto simp: dir_run;
        rule dir_sim_step [OF st [OF disjI1 [OF refl]]]; simp add: dir_fin)
  next
    case 4
    have s: "owners p = {}" "ddata p = val p" "sharers p = {c}"
    proof -
      show "owners p = {}" "ddata p = val p" using h 4 by (simp_all add: home_ok_def)
      have "finite (sharers p)" "c \<in> sharers p" "card (sharers p) < 2" using h 4 ev by (auto simp: home_ok_def)
      then show "sharers p = {c}" by (auto simp: card_Suc_eq less_2_cases_iff)
    qed
    have e: "sharers p - {c} = {}" using s by simp
    note st4 = st [OF disjI2 [OF conjI [OF 4(1) conjI [OF refl e]]]]
    show ?thesis
    proof (cases "use_map en")
      case True
      show ?thesis by (insert k fr m x(1) 4 s True, auto simp: dir_run dir_removed; rule dir_sim_forget [OF st4]; simp add: dir_fin)
    next
      case False
      show ?thesis by (insert k fr m x(1) 4 s False, auto simp: dir_run dir_removed; rule dir_sim_step [OF st4]; simp add: dir_fin)
    qed
  next
    case 5
    show ?thesis by (insert k fr m x(1) 5 ev, cases "dstate p"; auto simp: dir_run;
        rule dir_sim_step [OF st [OF disjI1 [OF refl]]]; simp add: dir_fin)
  next
    case 6
    then show ?thesis using k by (auto simp: dir_run)
  qed
qed

lemma put_owner_sim:
  assumes k: "dir_rep p (dir_entry sl) (dtbe sl)" and inv: "aline_inv p gh" and fr: "dir_fresh sl"
    and m: "req_msg en = Some m" "rq_Requestor m = L1Cache c" "rq_Address m = daddress en" "rq_Type m = PUTM"
    and x: "PutM (rq_DataBlk m) \<in># reqs p c" "c \<in> owners p"
  shows "dir_sim p en [m] [] [] (dir_doTransition en PUTM_Owner sl)"
proof -
  have M: "dstate p = Dir_M"
    using unserved_put [OF aline_invD(3) [OF inv] x(1) disjI2 [OF refl]] x(2)
    by (auto simp: share_ok_def away_def tail_ok_def)
  show ?thesis by (insert k fr m M) (auto simp: dir_run, rule dir_sim_step [OF home_step.put_owner [OF M x]], simp_all add: dir_fin)
qed

lemma request_sim:
  assumes k: "dir_rep p (dir_entry sl) (dtbe sl)" and inv: "aline_inv p gh" and fr: "dir_fresh sl"
    and m: "req_msg en = Some m" "rq_Requestor m = L1Cache c" "rq_Address m = daddress en"
      "rq_Type m \<in> {GETS, GETM, PUTM, PUTS}" and q: "abs_req m \<in># reqs p c"
  shows "case dir_request_event (dir_entry sl) m of Inl e \<Rightarrow> False
    | Inr ev \<Rightarrow> dir_sim p en [m] [] [] (dir_doTransition en ev sl)"
proof -
  have s: "Sharers (dir_entry sl) = L1Cache ` sharers p" "Owner (dir_entry sl) = L1Cache ` owners p"
    using k by (simp_all add: dir_rep_def)
  consider "rq_Type m = GETS" | "rq_Type m = GETM" | "rq_Type m = PUTM" "c \<in> owners p" | "rq_Type m = PUTM" "c \<notin> owners p"
    | "rq_Type m = PUTS" using m(4) by auto
  then show ?thesis
  proof cases
    case 1 then show ?thesis using gets_sim [OF k inv fr m(1) 1 m(2,3)] q by (simp add: dir_request_event_def abs_req_def)
  next
    case 2 then show ?thesis using getm_sim [OF k inv fr m(1) 2 m(2,3)] q by (simp add: dir_request_event_def abs_req_def)
  next
    case 3 then show ?thesis using put_owner_sim [OF k inv fr m(1-3)] q s m(2) by (simp add: dir_request_event_def abs_req_def)
  next
    case 4
    have x: "abs_req m = PutM (rq_DataBlk m)" using 4 by (simp add: abs_req_def)
    show ?thesis using put_late_sim [OF k inv fr m(1-3) refl q, of "rq_DataBlk m" PUTM_NotOwner] x 4 s m(2)
      by (simp add: dir_request_event_def)
  next
    case 5
    have x: "abs_req m = PutS" using 5 by (simp add: abs_req_def)
    show ?thesis using put_late_sim [OF k inv fr m(1-3) refl q] x 5 s m(2)
      by (simp add: dir_request_event_def)
  qed
qed

lemma mem_read_sim:
  assumes k: "dir_rep p (dir_entry sl) (dtbe sl)" and inv: "aline_inv p gh" and fr: "dir_fresh sl" and bb: "0 < block_bits en"
    and m: "mem_msg en = Some m" "mm_Address m = daddress en" "mm_OriginalRequestorMachId m = L1Cache r" "mm_Type m = MEMORY_READ"
    and q: "MRead r (mm_DataBlk m) \<in># mems p"
  shows "dir_sim p en [] [] [m] (dir_doTransition en Memory_Data sl)"
proof -
  have h: "home_ok p (place gh)" by (rule aline_invD(1) [OF inv])
  then consider "dstate p = Dir_IS_MD" | "dstate p = Dir_IM_MD" using q by (cases "dstate p") (auto simp: home_ok_def)
  then show ?thesis
  proof cases
    case 1
    show ?thesis by (insert k fr m bb 1) (auto simp: dir_run, rule dir_sim_step [OF home_step.mem_S [OF 1 q]], simp_all add: dir_fin)
  next
    case 2
    obtain o' where s: "sharers p = {}" "owners p = {o'}" using h 2 by (auto simp: home_ok_def)
    show ?thesis by (insert k fr m bb 2 s) (auto simp: dir_run, rule dir_sim_step [OF home_step.mem_M [OF 2 q]], simp_all add: dir_fin)
  qed
qed

lemma mem_wb_sim:
  assumes k: "dir_rep p (dir_entry sl) (dtbe sl)" and inv: "aline_inv p gh" and fr: "dir_fresh sl"
    and m: "mem_msg en = Some m" "mm_Address m = daddress en" "mm_OriginalRequestorMachId m = L1Cache r" "mm_Type m = MEMORY_WB"
    and q: "MWb r \<in># mems p"
  shows "dir_sim p en [] [] [m] (dir_doTransition en Memory_Ack sl)"
proof -
  have h: "home_ok p (place gh)" by (rule aline_invD(1) [OF inv])
  then consider "dstate p = Dir_MS_MA" | "dstate p = Dir_MI_MA" using q by (cases "dstate p") (auto simp: home_ok_def)
  then show ?thesis
  proof cases
    case 1
    show ?thesis by (insert k fr m 1) (auto simp: dir_run, rule dir_sim_step [OF home_step.wb_done_S [OF 1 q]], simp_all add: dir_fin)
  next
    case 2
    have s: "sharers p = {}" "ddata p = val p" using h 2 by (simp_all add: home_ok_def)
    note st = home_step.wb_done_I [OF 2 q]
    show ?thesis
    proof (cases "use_map en")
      case True
      show ?thesis by (insert k fr m 2 s True, auto simp: dir_run dir_removed; rule dir_sim_forget [OF st]; simp add: dir_fin)
    next
      case False
      show ?thesis by (insert k fr m 2 s False, auto simp: dir_run dir_removed; rule dir_sim_step [OF st]; simp add: dir_fin)
    qed
  qed
qed

lemma owner_data_sim:
  assumes k: "dir_rep p (dir_entry sl) (dtbe sl)" and inv: "aline_inv p gh" and fr: "dir_fresh sl"
    and m: "drsp_msg en = Some m" "rs_Address m = daddress en" "rs_Sender m = L1Cache r" and q: "rs_DataBlk m \<in># tohome p"
  shows "dir_sim p en [] [m] [] (dir_doTransition en Data sl)"
proof -
  have "home_ok p (place gh)" by (rule aline_invD(1) [OF inv])
  then have d: "dstate p = Dir_MS_OD" using q by (auto simp: home_ok_def split: if_splits)
  show ?thesis by (insert k fr m d) (auto simp: dir_run, rule dir_sim_step [OF home_step.owner_data [OF d q, where r = r]], simp_all add: dir_fin)
qed

section \<open>The input ports keep the invariant of the system\<close>

lemma dir_trigger_inv:
  assumes inv: "sys_inv cf ram s" and d: "d = map_Address_to_Directory cf b"
    and io: "dir_input_ok (dir_env_of cf d b qm rm mm (dirs s d))"
      "ev \<in> {DE_GETS, DE_GETM} \<Longrightarrow> \<exists>m. qm = Some m \<and> rq_Type m \<in> {GETS, GETM}"
    and hds: "\<And>sl. set (dpopped sl) \<subseteq> {dir_port_of ev} \<Longrightarrow> dir_heads d b i sl qms rms mms s"
    and sim: "\<And>p gh. rep cf ram b s p \<Longrightarrow> aline_inv p gh \<Longrightarrow>
      dir_sim p (dir_env_of cf d b qm rm mm (dirs s d)) qms rms mms
        (dir_doTransition (dir_env_of cf d b qm rm mm (dirs s d)) ev (dir_slot_of (dirs s d) b))"
  shows "case dir_trigger cf d ev b qm rm mm i s of Inl e \<Rightarrow> e = TBETable_full | Inr s' \<Rightarrow> sys_inv cf ram s'"
proof -
  let ?en = "dir_env_of cf d b qm rm mm (dirs s d)" and ?sl = "dir_slot_of (dirs s d) b"
  have iD: "wf_sys cf s" "\<exists>p gh. rep cf ram a s p \<and> aline_inv p gh" for a
    using inv by (auto simp: sys_inv_def)
  obtain p gh where p: "rep cf ram b s p" "aline_inv p gh" using iD(2) by blast
  note sm = sim [OF p]
  show ?thesis
  proof (cases "dir_doTransition ?en ev ?sl")
    case (Inl e) then show ?thesis using sm by (simp add: dir_trigger_def)
  next
    case (Inr r)
    show ?thesis
    proof (cases r)
      case None then show ?thesis using Inr inv by (simp add: dir_trigger_def)
    next
      case (Some sl)
      have tr: "dir_doTransition ?en ev ?sl = Inr (Some sl)" using Inr Some by simp
      have "dir_outs_ok ?en sl \<and> set (dpopped sl) \<subseteq> {dir_port_of ev}"
        by (rule dir_outs [OF tr _ io(1)]) (use io(2) in \<open>auto simp: dir_fresh_def dir_slot_of_def dir_env_of_def\<close>)
      then have o: "dir_outs_ok ?en sl" and hd: "dir_heads d b i sl qms rms mms s" using hds by auto
      let ?p = "dir_eff b sl qms rms mms p" and ?s = "dir_commit d b i sl s"
      have ea: "daddress ?en = b" "use_map ?en = sparse_directory cf" "dblk0 ?en = new_block cf" by (simp_all add: dir_env_of_def)
      have sk: "dir_rep ?p (dir_entry sl) (dtbe sl)" "home_move (sparse_directory cf) (new_block cf) p ?p"
        using sm tr ea by (auto simp: dir_sim_def Let_def)
      note hm = home_move_inv [OF sk(2) p(2)]
      have "sys_inv cf ram ?s" unfolding sys_inv_def
      proof (intro conjI allI)
        show "wf_sys cf ?s" by (rule dir_commit_wf [OF iD(1) o ea(1) d])
        fix a
        obtain q gq where q: "rep cf ram a s q" "aline_inv q gq" using iD(2) by blast
        show "\<exists>p gh. rep cf ram a ?s p \<and> aline_inv p gh"
        proof (cases "a = b")
          case True
          have "rep cf ram b ?s ?p" by (rule dir_commit_rep [OF p(1) d sk(1) o hd hm(2)])
          then show ?thesis using hm(1) True by blast
        next
          case False
          then show ?thesis using dir_commit_other [OF q(1) False o ea(1) hd] q(2) by blast
        qed
      qed
      then show ?thesis using tr by (simp add: dir_trigger_def)
    qed
  qed
qed

lemma dir_slot_rep:
  assumes "rep cf ram a s p" "d = map_Address_to_Directory cf a"
  shows "dir_rep p (dir_entry (dir_slot_of (dirs s d) a)) (dtbe (dir_slot_of (dirs s d) a))" "dir_fresh (dir_slot_of (dirs s d) a)"
  using assms by (simp_all add: rep_def Let_def dir_slot_of_def dir_fresh_def)

lemma dir_request_inv:
  assumes inv: "sys_inv cf ram s"
  shows "case dir_request cf d s of Inl e \<Rightarrow> e = TBETable_full | Inr s' \<Rightarrow> sys_inv cf ram s'"
proof (cases "inport (requests s) (Directory d)")
  case Nil then show ?thesis using inv by (simp add: dir_request_def)
next
  case (Cons m q)
  have all: "vn_all (requests s) (Directory d) = m # vn_all (vn_pop (Directory d) (requests s)) (Directory d)" by (rule vn_all_pop [OF Cons])
  have ok: "rq_ok cf d m" using inv all by (intro wf_sysD(1) [of cf s m d]) (simp_all add: sys_inv_def)
  then obtain c where c: "rq_Requestor m = L1Cache c" by (auto simp: rq_ok_def)
  let ?b = "rq_Address m" let ?en = "dir_env_of cf d ?b (Some m) None None (dirs s d)"
  have d: "d = map_Address_to_Directory cf ?b" using ok by (simp add: rq_ok_def)
  have v: "req_msg ?en = Some m" "daddress ?en = ?b" "rq_Address m = daddress ?en" by (simp_all add: dir_env_of_def)
  have sim: "case dir_request_event (directory (dirs s d) ?b) m of Inl e \<Rightarrow> False
      | Inr ev \<Rightarrow> dir_sim p ?en [m] [] [] (dir_doTransition ?en ev (dir_slot_of (dirs s d) ?b))"
    if r: "rep cf ram ?b s p" "aline_inv p gh" for p gh
  proof -
    have "reqs p c = reqs_of ?b (vn_all (requests s) (Directory d)) c" using r(1) d by (simp add: rep_def Let_def)
    then have "abs_req m \<in># reqs p c" using all c by (simp add: msg_simps)
    from request_sim [OF dir_slot_rep(1) [OF r(1) d] r(2) dir_slot_rep(2) [OF r(1) d] v(1) c v(3) _ this] ok v(2)
    show ?thesis by (simp add: rq_ok_def dir_slot_of_def split: sum.splits)
  qed
  obtain p gh where pg: "rep cf ram ?b s p" "aline_inv p gh" using inv unfolding sys_inv_def by blast
  obtain ev where ev: "dir_request_event (directory (dirs s d) ?b) m = Inr ev"
    using sim [OF pg] by (cases "dir_request_event (directory (dirs s d) ?b) m") auto
  have "case dir_trigger cf d ev ?b (Some m) None None 0 s of Inl e \<Rightarrow> e = TBETable_full | Inr s' \<Rightarrow> sys_inv cf ram s'"
  proof (rule dir_trigger_inv [OF inv d, where qms = "[m]" and rms = "[]" and mms = "[]"])
    show "dir_input_ok ?en" using c by (simp add: dir_input_ok_def dir_env_of_def)
    have po: "dir_port_of ev = requestQueue_in" using ev by (auto simp: dir_request_event_def split: if_splits)
    show "dir_heads d ?b 0 sl [m] [] [] s" if "set (dpopped sl) \<subseteq> {dir_port_of ev}" for sl
      using that Cons unfolding po by (auto simp: dir_heads_def)
    show "\<exists>m'. Some m = Some m' \<and> rq_Type m' \<in> {GETS, GETM}" if "ev \<in> {DE_GETS, DE_GETM}"
      using that ev by (auto simp: dir_request_event_def split: if_splits)
  qed (use sim ev in simp)
  then show ?thesis using Cons ev by (simp add: dir_request_def)
qed

lemma dir_respond_inv:
  assumes inv: "sys_inv cf ram s"
  shows "case dir_respond cf d s of Inl e \<Rightarrow> e = TBETable_full | Inr s' \<Rightarrow> sys_inv cf ram s'"
proof (cases "inport (responses s) (Directory d)")
  case Nil then show ?thesis using inv by (simp add: dir_respond_def)
next
  case (Cons m q)
  have all: "vn_all (responses s) (Directory d) = m # vn_all (vn_pop (Directory d) (responses s)) (Directory d)" by (rule vn_all_pop [OF Cons])
  have ok: "rd_ok cf d m" using inv all by (intro wf_sysD(5) [of cf s m d]) (simp_all add: sys_inv_def)
  then obtain c where c: "rs_Sender m = L1Cache c" by (auto simp: rd_ok_def)
  let ?b = "rs_Address m" let ?en = "dir_env_of cf d ?b None (Some m) None (dirs s d)"
  have d: "d = map_Address_to_Directory cf ?b" using ok by (simp add: rd_ok_def)
  have v: "drsp_msg ?en = Some m" "daddress ?en = ?b" "rs_Address m = daddress ?en" by (simp_all add: dir_env_of_def)
  have ev: "dir_response_event m = Inr Data" using ok by (simp add: dir_response_event_def rd_ok_def)
  have "case dir_trigger cf d Data ?b None (Some m) None 0 s of Inl e \<Rightarrow> e = TBETable_full | Inr s' \<Rightarrow> sys_inv cf ram s'"
  proof (rule dir_trigger_inv [OF inv d, where qms = "[]" and rms = "[m]" and mms = "[]"])
    show "dir_input_ok ?en" using c by (simp add: dir_input_ok_def dir_env_of_def)
    show "dir_heads d ?b 0 sl [] [m] [] s" if "set (dpopped sl) \<subseteq> {dir_port_of Data}" for sl
      using that Cons by (auto simp: dir_heads_def)
    fix p gh assume r: "rep cf ram ?b s p" "aline_inv p gh"
    have "tohome p = tohome_of ?b (vn_all (responses s) (Directory d))" using r(1) d by (simp add: rep_def Let_def)
    then have "rs_DataBlk m \<in># tohome p" using all by (simp add: msg_simps)
    from owner_data_sim [OF dir_slot_rep(1) [OF r(1) d] r(2) dir_slot_rep(2) [OF r(1) d] v(1,3) c this] v(2)
    show "dir_sim p ?en [] [m] [] (dir_doTransition ?en Data (dir_slot_of (dirs s d) ?b))" by simp
  qed simp
  then show ?thesis using Cons ev by (simp add: dir_respond_def)
qed

lemma dir_mem_inv:
  assumes inv: "sys_inv cf ram s" and bb: "0 < block_size_bits cf"
  shows "case dir_mem cf d i s of Inl e \<Rightarrow> e = TBETable_full | Inr s' \<Rightarrow> sys_inv cf ram s'"
proof (cases "i < length (memBuffer (dirs s d))")
  case False then show ?thesis using inv by (simp add: dir_mem_def)
next
  case True
  define m where "m = memBuffer (dirs s d) ! i"
  have mem: "m \<in> set (memBuffer (dirs s d))" using True by (simp add: m_def)
  have ok: "mm_ok cf d m" using inv mem by (intro wf_sysD(6) [of cf s m d]) (simp_all add: sys_inv_def)
  then obtain c where c: "mm_OriginalRequestorMachId m = L1Cache c" by (auto simp: mm_ok_def)
  let ?b = "mm_Address m" let ?en = "dir_env_of cf d ?b None None (Some m) (dirs s d)"
  have d: "d = map_Address_to_Directory cf ?b" using ok by (simp add: mm_ok_def)
  have v: "mem_msg ?en = Some m" "daddress ?en = ?b" "mm_Address m = daddress ?en" "0 < block_bits ?en"
    using bb by (simp_all add: dir_env_of_def)
  have am: "abs_mem m \<in># mems p" if "rep cf ram ?b s p" for p
  proof -
    have "mems p = mems_of ?b (memBuffer (dirs s d))" using that d by (simp add: rep_def Let_def)
    then show ?thesis using mem by (simp add: mems_of_def)
  qed
  obtain ev where ev: "dir_memory_event m = Inr ev" "ev = Memory_Data \<and> mm_Type m = MEMORY_READ \<or> ev = Memory_Ack \<and> mm_Type m = MEMORY_WB"
    using ok by (auto simp: dir_memory_event_def mm_ok_def)
  have "case dir_trigger cf d ev ?b None None (Some m) i s of Inl e \<Rightarrow> e = TBETable_full | Inr s' \<Rightarrow> sys_inv cf ram s'"
  proof (rule dir_trigger_inv [OF inv d, where qms = "[]" and rms = "[]" and mms = "[m]"])
    show "dir_input_ok ?en" using c by (simp add: dir_input_ok_def dir_env_of_def)
    show "dir_heads d ?b i sl [] [] [m] s" if "set (dpopped sl) \<subseteq> {dir_port_of ev}" for sl
      using that True ev(2) m_def by (auto simp: dir_heads_def)
    fix p gh assume r: "rep cf ram ?b s p" "aline_inv p gh"
    note sr = dir_slot_rep(1) [OF r(1) d] and fr = dir_slot_rep(2) [OF r(1) d]
    show "dir_sim p ?en [] [] [m] (dir_doTransition ?en ev (dir_slot_of (dirs s d) ?b))"
      using mem_read_sim [OF sr r(2) fr v(4,1,3) c] mem_wb_sim [OF sr r(2) fr v(1,3) c] am [OF r(1)] ev(2) v(2) c
      by (auto simp: abs_mem_def mach_no_def)
  qed (use ev(2) in auto)
  then show ?thesis using True ev(1) by (simp add: dir_mem_def Let_def m_def)
qed

end
