(* ===== verification/Msi_Coherence.thy ===== *)
theory Msi_Coherence
  imports Msi_Sim_L1 Msi_Sim_Dir
begin

text \<open>
  Coherence of the Lab 5 memory system: what holds in every state that the controllers and the
  networks of \<^verbatim>\<open>Msi_System\<close> can reach, for any number of caches, directories and lines and any
  order of their steps.  The invariant of \<^verbatim>\<open>Msi_Line\<close>, carried to the controllers by \<^verbatim>\<open>Msi_Rep\<close>,
  \<^verbatim>\<open>Msi_Sim_L1\<close> and \<^verbatim>\<open>Msi_Sim_Dir\<close>, gives every one of the theorems.
\<close>

section \<open>The invariant holds in every reachable state\<close>

fun rejected :: "msi_sys \<Rightarrow> label \<Rightarrow> bool" where
  "rejected s (L1_Mandatory c w v) = unsupported_request (l1s s c)"
| "rejected s l = False"

lemma sys_inv_transfer:
  assumes "sys_inv cf ram s" "wf_sys cf s \<Longrightarrow> wf_sys cf s'"
    and "\<And>a p. rep cf ram a s p \<Longrightarrow> wf_sys cf s \<Longrightarrow> rep cf ram a s' p"
  shows "sys_inv cf ram s'"
  using assms unfolding sys_inv_def by metis

lemma deliver_sys_inv:
  assumes "sys_inv cf ram s"
  shows "sys_inv cf ram (s \<lparr> requests := vn_deliver x i (requests s) \<rparr>)"
    and "sys_inv cf ram (s \<lparr> forwards := vn_deliver x i (forwards s) \<rparr>)"
    and "sys_inv cf ram (s \<lparr> responses := vn_deliver x i (responses s) \<rparr>)"
  by (rule sys_inv_transfer [OF assms]; simp add: deliver_rep deliver_wf)+

lemma issue_sys_inv:
  assumes "sys_inv cf ram s"
  shows "sys_inv cf ram (s \<lparr> l1s := (l1s s)(c := (l1s s c) \<lparr> mandatoryQueue := q \<rparr>) \<rparr>)"
  by (rule sys_inv_transfer [OF assms]) (simp_all add: wf_sys_def issue_rep)

lemma outcome_weaken:
  "case x of Inl e \<Rightarrow> e = d | Inr s \<Rightarrow> Q s \<Longrightarrow> case x of Inl e \<Rightarrow> e = d \<or> R | Inr s \<Rightarrow> Q s"
  by (cases x) auto

lemma exec_sys_inv:
  assumes inv: "sys_inv cf ram s" and cf: "0 < block_size_bits cf"
  shows "case exec cf l s of Inl e \<Rightarrow> e = TBETable_full \<or> rejected s l | Inr s' \<Rightarrow> sys_inv cf ram s'"
proof (cases l)
  case (L1_Mandatory c w v) then show ?thesis using l1_mandatory_inv [OF inv, of c w v] by (simp split: sum.splits)
next
  case (L1_Forward c) then show ?thesis using outcome_weaken [OF l1_forward_inv [OF inv, of c id]] by simp
next
  case (L1_Response c w) then show ?thesis using outcome_weaken [OF l1_respond_inv [OF inv, of c w]] by simp
next
  case (Dir_Request d) then show ?thesis using outcome_weaken [OF dir_request_inv [OF inv, of d]] by simp
next
  case (Dir_Response d) then show ?thesis using outcome_weaken [OF dir_respond_inv [OF inv, of d]] by simp
next
  case (Dir_Memory d i) then show ?thesis using outcome_weaken [OF dir_mem_inv [OF inv, of d i]] cf by simp
qed (simp_all add: issue_sys_inv [OF inv] deliver_sys_inv [OF inv])

lemma reachable_sys_inv: "reachable cf ram s \<Longrightarrow> 0 < block_size_bits cf \<Longrightarrow> sys_inv cf ram s"
proof (induction rule: reachable.induct)
  case start show ?case by (rule sys_inv_init)
next
  case (step s l s') then show ?case using exec_sys_inv [of cf ram s l] by simp
qed

section \<open>What the states mean\<close>

text \<open>
  A load or a store hits in a state when the transition of the state has the action that hands
  the block of the cache to the sequencer.
\<close>

definition l1_state_of :: "msi_sys \<Rightarrow> nat \<Rightarrow> addr \<Rightarrow> l1_state" where
  "l1_state_of s c a = l1_getState (l1_slot_of (l1s s c) a)"

definition load_hits :: "l1_state \<Rightarrow> bool" where
  "load_hits st = (case l1_transition st Load of None \<Rightarrow> False | Some (acts, _) \<Rightarrow> r_load_hit \<in> set acts)"

definition store_hits :: "l1_state \<Rightarrow> bool" where
  "store_hits st = (case l1_transition st Store of None \<Rightarrow> False | Some (acts, _) \<Rightarrow> s_store_hit \<in> set acts)"

lemma hits_states:
  "load_hits st = (st \<in> {L1_S, L1_M, L1_SM_AD, L1_SM_A})" "store_hits st = (st = L1_M)"
  by (cases st; simp add: load_hits_def store_hits_def)+

lemma permission_hits:
  "l1_getAccessPermission (l1_slot_of (l1s s c) a) \<in> {Read_Only, Read_Write} \<Longrightarrow> load_hits (l1_state_of s c a)"
  "store_hits st \<Longrightarrow> load_hits st"
  by (auto simp: hits_states l1_getAccessPermission_def l1_state_of_def l1_getState_def l1_State_to_permission_def
    split: option.splits l1_state.splits)

lemma rep_state:
  assumes "rep cf ram a s p"
  shows "load_hits (l1_state_of s c a) \<Longrightarrow> \<exists>e. cacheMemory (l1s s c) a = Some e \<and> readable (caches p c) (DataBlk e)"
    and "l1_state_of s c a = L1_M \<Longrightarrow> \<exists>d. caches p c = A_M d"
proof -
  have r: "l1_rep (caches p c) (cacheMemory (l1s s c) a) (TBEs (l1s s c) a)" using assms by (simp add: rep_def Let_def)
  show "load_hits (l1_state_of s c a) \<Longrightarrow> \<exists>e. cacheMemory (l1s s c) a = Some e \<and> readable (caches p c) (DataBlk e)"
    using r by (cases "caches p c") (auto simp: hits_states l1_state_of_def l1_getState_def l1_slot_of_def
      stable_rep_def busy_rep_def readable_def)
  show "l1_state_of s c a = L1_M \<Longrightarrow> \<exists>d. caches p c = A_M d"
    using r by (cases "caches p c") (auto simp: l1_state_of_def l1_getState_def l1_slot_of_def
      stable_rep_def busy_rep_def)
qed

lemma sys_inv_line:
  assumes "sys_inv cf ram s"
  obtains p gh where "rep cf ram a s p" "aline_inv p gh"
  using assms unfolding sys_inv_def by blast

section \<open>The memory that the processors see\<close>

text \<open>
  The specification is a memory of blocks in which every callback of the sequencers happens at
  once: a load is handed the block of its line, a store is handed the block and replaces it.
\<close>

fun mem_step :: "callback \<Rightarrow> (addr \<Rightarrow> blk) \<Rightarrow> (addr \<Rightarrow> blk) option" where
  "mem_step (readCallback c a g d) m = (if m a = d then Some m else None)"
| "mem_step (writeCallback c a g d d') m = (if m a = d then Some (m(a := d')) else None)"
| "mem_step (evictionCallback c a) m = Some m"

fun mem_run :: "callback list \<Rightarrow> (addr \<Rightarrow> blk) \<Rightarrow> (addr \<Rightarrow> blk) option" where
  "mem_run [] m = Some m"
| "mem_run (k # ks) m = (case mem_step k m of None \<Rightarrow> None | Some m' \<Rightarrow> mem_run ks m')"

lemma mem_run_lines:
  "\<forall>a. line_coherent a (m a) ks \<Longrightarrow> mem_run ks m = Some (\<lambda>a. line_value a (m a) ks)"
proof (induction ks arbitrary: m)
  case Nil show ?case by simp
next
  case (Cons k ks)
  have h: "line_coherent a (m a) (k # ks)" for a using Cons.prems by blast
  show ?case
  proof (cases k)
    case (readCallback c b g d)
    then have "m b = d" "\<forall>a. line_coherent a (m a) ks" using h [of b] h by simp_all
    with Cons.IH [of m] readCallback show ?thesis by simp
  next
    case (writeCallback c b g d d')
    let ?m = "\<lambda>a. if b = a then d' else m a"
    have "m b = d" using h [of b] writeCallback by simp
    moreover have "\<forall>a. line_coherent a (?m a) ks" using h writeCallback by simp
    moreover have "m(b := d') = ?m" by auto
    ultimately show ?thesis using Cons.IH [of ?m] writeCallback by simp
  next
    case (evictionCallback c b) then show ?thesis using Cons.IH [of m] h by simp
  qed
qed

lemma mem_run_append:
  "mem_run (xs @ ys) m = (case mem_run xs m of None \<Rightarrow> None | Some m' \<Rightarrow> mem_run ys m')"
  by (induction xs arbitrary: m) (auto split: option.split)

lemma mem_run_split: "mem_run (xs @ ys) m = Some m' \<Longrightarrow> \<exists>m''. mem_run xs m = Some m'' \<and> mem_run ys m'' = Some m'"
  by (auto simp: mem_run_append split: option.splits)

fun stores_to :: "addr \<Rightarrow> callback \<Rightarrow> bool" where
  "stores_to a (writeCallback c b g d d') = (b = a)"
| "stores_to a (readCallback c b g d) = False"
| "stores_to a (evictionCallback c b) = False"

fun handed :: "addr \<Rightarrow> callback \<Rightarrow> blk \<Rightarrow> bool" where
  "handed a (readCallback c b g d) v = (b = a \<and> d = v)"
| "handed a (writeCallback c b g d d') v = (b = a \<and> d = v)"
| "handed a (evictionCallback c b) v = False"

lemma mem_run_unchanged: "mem_run ks m = Some m' \<Longrightarrow> \<forall>k\<in>set ks. \<not> stores_to a k \<Longrightarrow> m' a = m a"
proof (induction ks arbitrary: m)
  case (Cons k ks) then show ?case by (cases k) (fastforce split: if_splits)+
qed simp

lemma mem_run_handed: "mem_run (k # ks) m = Some m' \<Longrightarrow> handed a k v \<Longrightarrow> v = m a"
  by (cases k) (auto split: if_splits)

text \<open>
  What a processor can rely on, for any system whose callbacks are a run of a memory: an access is
  handed the block that the latest store to the line left, or the initial block.
\<close>

locale serial_memory =
  fixes valid :: "'s \<Rightarrow> bool" and log :: "'s \<Rightarrow> callback list" and ram :: "addr \<Rightarrow> blk"
  assumes serial: "valid s \<Longrightarrow> \<exists>m. mem_run (log s) ram = Some m"
begin

lemma access_initial:
  assumes "valid s" "log s = xs @ k # zs" "handed a k v" "\<forall>j\<in>set xs. \<not> stores_to a j"
  shows "v = ram a"
proof -
  obtain m m' where "mem_run xs ram = Some m" "mem_run (k # zs) m = Some m'"
    using serial [OF assms(1)] assms(2) by (metis mem_run_split)
  then show ?thesis using mem_run_unchanged [OF _ assms(4)] mem_run_handed [OF _ assms(3)] by metis
qed

lemma access_latest:
  assumes "valid s" "log s = xs @ writeCallback c a g d d' # ys @ k # zs" "handed a k v"
    and "\<forall>j\<in>set ys. \<not> stores_to a j"
  shows "v = d'"
proof -
  obtain m m1 where m: "mem_run (writeCallback c a g d d' # ys @ k # zs) m = Some m1"
    using serial [OF assms(1)] assms(2) by (metis mem_run_split)
  then have "mem_run (ys @ k # zs) (m(a := d')) = Some m1" by (simp split: if_splits)
  then obtain m2 where "mem_run ys (m(a := d')) = Some m2" "mem_run (k # zs) m2 = Some m1"
    using mem_run_split by blast
  then show ?thesis using mem_run_unchanged [OF _ assms(4)] mem_run_handed [OF _ assms(3)] by (metis fun_upd_same)
qed

end

text \<open>
  A memory that may lose blocks: between two callbacks any number of lines can become the block \<open>z\<close>.
\<close>

inductive lossy_run :: "blk \<Rightarrow> (addr \<Rightarrow> blk) \<Rightarrow> callback list \<Rightarrow> (addr \<Rightarrow> blk) \<Rightarrow> bool" for z m where
  lossy_start: "lossy_run z m [] m"
| lossy_drop: "lossy_run z m ks m' \<Longrightarrow> \<forall>a. m'' a = m' a \<or> m'' a = z \<Longrightarrow> lossy_run z m ks m''"
| lossy_call: "lossy_run z m ks m' \<Longrightarrow> mem_step k m' = Some m'' \<Longrightarrow> lossy_run z m (ks @ [k]) m''"

lemma mem_step_lines:
  assumes "\<forall>a. line_coherent a (m a) [k]"
  shows "mem_step k m = Some (\<lambda>a. line_value a (m a) [k])"
  using mem_run_lines [OF assms] by (simp split: option.splits)

lemma lossy_lines:
  "\<forall>a. line_run True z a (m a) ks (f a) \<Longrightarrow> lossy_run z m ks f"
proof (induction ks arbitrary: f rule: rev_induct)
  case Nil
  then show ?case using lossy_drop [OF lossy_start, of f m z] line_run_Nil by blast
next
  case (snoc k ks)
  then have "\<forall>a. \<exists>w. line_run True z a (m a) ks w \<and> line_coherent a w [k] \<and> (f a = line_value a w [k] \<or> f a = z)"
    using line_run_snoc [OF _ refl] by fastforce
  then obtain u where u: "\<forall>a. line_run True z a (m a) ks (u a)" "\<forall>a. line_coherent a (u a) [k]"
    "\<forall>a. f a = line_value a (u a) [k] \<or> f a = z" by metis
  show ?case using lossy_drop [OF lossy_call [OF snoc.IH [OF u(1)] mem_step_lines [OF u(2)]] u(3)] .
qed

text \<open>
  The system represents a memory when every block that a load or store would hit, and the block of
  every line that has not been handed to an owner, is the block of the memory.
\<close>

definition line_represents :: "msi_conf \<Rightarrow> msi_sys \<Rightarrow> addr \<Rightarrow> blk \<Rightarrow> bool" where
  "line_represents cf s a d =
     ((\<forall>c. load_hits (l1_state_of s c a) \<longrightarrow> map_option DataBlk (cacheMemory (l1s s c) a) = Some d)
     \<and> (let e = directory (dirs s (map_Address_to_Directory cf a)) a in
          DirectoryState e \<notin> {Dir_M, Dir_MS_OD} \<longrightarrow> dDataBlk e = d))"

definition represents :: "msi_conf \<Rightarrow> msi_sys \<Rightarrow> (addr \<Rightarrow> blk) \<Rightarrow> bool" where
  "represents cf s m = (\<forall>a. line_represents cf s a (m a))"

lemma rep_line_represents:
  assumes r: "rep cf ram a s p" and inv: "aline_inv p gh"
  shows "line_represents cf s a (val p)"
proof -
  have c: "load_hits (l1_state_of s c a) \<Longrightarrow> map_option DataBlk (cacheMemory (l1s s c) a) = Some (val p)" for c
    using rep_state(1) [OF r, of c] readable_current [OF inv, of c] by fastforce
  have d: "dir_rep p (directory (dirs s (map_Address_to_Directory cf a)) a) (dTBEs (dirs s (map_Address_to_Directory cf a)) a)"
    using r by (simp add: rep_def Let_def)
  have h: "dstate p \<notin> {Dir_M, Dir_MS_OD} \<Longrightarrow> ddata p = val p" using aline_invD(1) [OF inv] by (simp add: home_ok_def)
  show ?thesis using c d h by (simp add: line_represents_def Let_def dir_rep_def)
qed

lemma sys_inv_values:
  assumes inv: "sys_inv cf ram s"
  obtains m where "represents cf s m"
    "\<forall>a. line_run (sparse_directory cf) (new_block cf) a (initial_block cf ram a) (call_log s) (m a)"
proof -
  have "\<forall>a. \<exists>v. line_represents cf s a v
      \<and> line_run (sparse_directory cf) (new_block cf) a (initial_block cf ram a) (call_log s) v"
  proof
    fix a
    obtain p gh where p: "rep cf ram a s p" "aline_inv p gh" using inv by (rule sys_inv_line)
    then show "\<exists>v. line_represents cf s a v
        \<and> line_run (sparse_directory cf) (new_block cf) a (initial_block cf ram a) (call_log s) v"
      using rep_line_represents [OF p] by (intro exI [of _ "val p"]) (simp add: rep_def Let_def)
  qed
  then show thesis using that unfolding represents_def by metis
qed

lemma sys_inv_memory:
  assumes inv: "sys_inv cf ram s"
  shows "\<exists>m. represents cf s m \<and> (if sparse_directory cf
    then lossy_run (new_block cf) (\<lambda>_. new_block cf) (call_log s) m else mem_run (call_log s) ram = Some m)"
proof -
  obtain m where m: "represents cf s m"
    "\<forall>a. line_run (sparse_directory cf) (new_block cf) a (initial_block cf ram a) (call_log s) (m a)"
    using inv by (rule sys_inv_values)
  show ?thesis
  proof (cases "sparse_directory cf")
    case True
    then have "lossy_run (new_block cf) (initial_block cf ram) (call_log s) m" using m(2) by (intro lossy_lines) simp
    moreover have "initial_block cf ram = (\<lambda>_. new_block cf)" using True by (simp add: initial_block_def fun_eq_iff)
    ultimately show ?thesis using m(1) True by auto
  next
    case False
    then have "line_coherent a (ram a) (call_log s) \<and> m a = line_value a (ram a) (call_log s)" for a
      using line_run_exact [OF m(2) [rule_format, of a]] by (simp add: initial_block_def)
    then have "mem_run (call_log s) ram = Some m" using mem_run_lines [of ram "call_log s"] by presburger
    then show ?thesis using m(1) False by auto
  qed
qed

interpretation msi: serial_memory "\<lambda>s. reachable cf ram s \<and> 0 < block_size_bits cf \<and> \<not> sparse_directory cf" call_log ram
  for cf ram
proof unfold_locales
  fix s assume "reachable cf ram s \<and> 0 < block_size_bits cf \<and> \<not> sparse_directory cf"
  then show "\<exists>m. mem_run (call_log s) ram = Some m" using sys_inv_memory [OF reachable_sys_inv, of cf ram s] by auto
qed

section \<open>Well-formed controllers\<close>

text \<open>
  Between two transitions a line of an L1 controller has a transaction buffer exactly in a
  transient state, and then also a cache entry of the same state; the directory has a transaction
  buffer exactly in a transient state, and its sharers and its owner fit its state.
\<close>

definition l1_line_ok :: "l1_slot \<Rightarrow> bool" where
  "l1_line_ok sl = (case tbe sl of
     None \<Rightarrow> (case cache_entry sl of None \<Rightarrow> True | Some e \<Rightarrow> CacheState e \<in> {L1_S, L1_M})
   | Some t \<Rightarrow> TBEState t \<notin> {L1_I, L1_S, L1_M}
       \<and> (case cache_entry sl of None \<Rightarrow> False | Some e \<Rightarrow> CacheState e = TBEState t))"

definition dir_line_ok :: "dir_slot \<Rightarrow> bool" where
  "dir_line_ok sl = (let e = dir_entry sl; st = DirectoryState e in
     (case dtbe sl of None \<Rightarrow> st \<in> {Dir_I, Dir_S, Dir_M} | Some t \<Rightarrow> st \<notin> {Dir_I, Dir_S, Dir_M} \<and> dTBEState t = st)
     \<and> finite (Sharers e) \<and> (st \<in> {Dir_M, Dir_IM_MD, Dir_MI_MA} \<longrightarrow> card (Owner e) = 1 \<and> Sharers e = {})
     \<and> (st \<notin> {Dir_M, Dir_IM_MD, Dir_MI_MA} \<longrightarrow> Owner e = {}) \<and> (st = Dir_I \<longrightarrow> Sharers e = {}))"

lemma rep_l1_line_ok: "rep cf ram a s p \<Longrightarrow> l1_line_ok (l1_slot_of (l1s s c) a)"
  using l1_slot_rep [of cf ram a s p c]
  by (cases "caches p c") (auto simp: l1_line_ok_def stable_rep_def busy_rep_def)

lemma rep_dir_line_ok:
  assumes r: "rep cf ram a s p" and inv: "aline_inv p gh"
  shows "dir_line_ok (dir_slot_of (dirs s (map_Address_to_Directory cf a)) a)"
proof -
  have d: "dir_rep p (directory (dirs s (map_Address_to_Directory cf a)) a) (dTBEs (dirs s (map_Address_to_Directory cf a)) a)"
    using r by (simp add: rep_def Let_def)
  have h: "finite (sharers p)" "case dstate p of
          Dir_I \<Rightarrow> sharers p = {} \<and> owners p = {} \<and> mems p = {#}
        | Dir_S \<Rightarrow> owners p = {} \<and> mems p = {#}
        | Dir_M \<Rightarrow> sharers p = {} \<and> (\<exists>c. owners p = {c}) \<and> mems p = {#}
        | Dir_IS_MD \<Rightarrow> owners p = {} \<and> (\<exists>r. sharers p = {r} \<and> mems p = {#MRead r (val p)#})
        | Dir_IM_MD \<Rightarrow> sharers p = {} \<and> (\<exists>r. owners p = {r} \<and> mems p = {#MRead r (val p)#})
        | Dir_MS_OD \<Rightarrow> owners p = {} \<and> mems p = {#}
        | Dir_MS_MA \<Rightarrow> owners p = {} \<and> (\<exists>r. mems p = {#MWb r#})
        | Dir_MI_MA \<Rightarrow> sharers p = {} \<and> (\<exists>r. owners p = {r} \<and> mems p = {#MWb r#})"
    using aline_invD(1) [OF inv] unfolding home_ok_def by blast+
  show ?thesis using d h by (cases "dstate p") (auto simp: dir_line_ok_def dir_slot_of_def dir_rep_def Let_def)
qed

section \<open>Coherence\<close>

text \<open>C1: at most one writer or many readers.  In every reachable state, when a store to a line would
  hit in the cache of one processor, then neither a load nor a store of that line hits in
  the cache of any other processor, and no other cache has an access permission for the line.\<close>

theorem msi_single_writer:
  assumes "reachable cf ram s" "0 < block_size_bits cf" "store_hits (l1_state_of s c a)" "c' \<noteq> c"
  shows "\<not> load_hits (l1_state_of s c' a) \<and> \<not> store_hits (l1_state_of s c' a)
    \<and> l1_getAccessPermission (l1_slot_of (l1s s c') a) \<notin> {Read_Only, Read_Write}"
proof -
  obtain p gh where p: "rep cf ram a s p" "aline_inv p gh"
    using reachable_sys_inv [OF assms(1,2)] by (rule sys_inv_line)
  obtain d where "caches p c = A_M d" using rep_state(2) [OF p(1), of c] assms(3) by (auto simp: hits_states)
  then have "\<not> readable (caches p c') d'" for d' by (rule single_writer [OF p(2) _ assms(4)])
  then have "\<not> load_hits (l1_state_of s c' a)" using rep_state(1) [OF p(1)] by blast
  then show ?thesis by (auto simp: permission_hits)
qed

text \<open>C2: the caches, the directories and the networks together implement one memory of blocks.
  With a directory that is an array, the loads and stores that have been performed in a reachable
  state, in the order of their callbacks, are a run of that memory from its initial contents: each
  was handed the block of the latest store before it.  With a directory that is a sparse map, which
  starts from cleared blocks and forgets the data of a line when its last copy is given up, they are a
  run of a memory in which lines can become the cleared block at any time.  In both cases the blocks that
  a load or store would hit and the blocks at the directories that no cache owns are those of
  the memory at the end of the run.\<close>

theorem msi_refines_memory:
  assumes "reachable cf ram s" "0 < block_size_bits cf"
  shows "\<exists>m. represents cf s m \<and> (if sparse_directory cf
    then lossy_run (new_block cf) (\<lambda>_. new_block cf) (call_log s) m else mem_run (call_log s) ram = Some m)"
  by (rule sys_inv_memory [OF reachable_sys_inv [OF assms]])

text \<open>C3: with a directory that is an array, a load or a store is always handed the block that the latest
  store to its line left, by whichever processor, however the messages of the two were
  interleaved.  (With a sparse directory this fails, see \<open>msi_sparse_forgets\<close>.)\<close>

theorem msi_latest_store:
  assumes "reachable cf ram s" "0 < block_size_bits cf" "\<not> sparse_directory cf"
    and "call_log s = xs @ writeCallback c a g d d' # ys @ k # zs" "handed a k v" "\<forall>j\<in>set ys. \<not> stores_to a j"
  shows "v = d'"
  using assms by (intro msi.access_latest [of cf ram s]) auto

text \<open>C4: the protocol has no missing transition.  In every reachable state, every step that
  any controller can take succeeds: no pair of state and event is without a transition, no
  assertion fails and no message is of an unexpected type.  The exceptions are a transaction table
  with no room and a request of the processor that is not a load, an instruction fetch, a store
  or an atomic access.\<close>

theorem msi_no_errors:
  assumes "reachable cf ram s" "0 < block_size_bits cf" "\<not> rejected s l"
  shows "exec cf l s = Inl TBETable_full \<or> (\<exists>s'. exec cf l s = Inr s')"
  using exec_sys_inv [OF reachable_sys_inv [OF assms(1,2)], of l] assms(2,3) by (cases "exec cf l s") auto

text \<open>C5: every request on its way to a directory, every forwarded request on its way to a cache, every response and
  every memory request is one that its receiver handles, those for a directory are at the directory of their address,
  and every controller is well-formed in every reachable state: a line is
  in transition exactly when it has a transaction buffer, with the state of its cache entry, and
  the directory has one owner or a set of sharers, never both.\<close>

theorem msi_well_formed:
  assumes "reachable cf ram s" "0 < block_size_bits cf"
  shows "wf_sys cf s \<and> l1_line_ok (l1_slot_of (l1s s c) a)
    \<and> dir_line_ok (dir_slot_of (dirs s (map_Address_to_Directory cf a)) a)"
proof -
  have inv: "sys_inv cf ram s" by (rule reachable_sys_inv [OF assms])
  then obtain p gh where p: "rep cf ram a s p" "aline_inv p gh" by (rule sys_inv_line)
  with inv show ?thesis by (simp add: sys_inv_def rep_l1_line_ok [OF p(1)] rep_dir_line_ok [OF p])
qed

section \<open>A run\<close>

text \<open>
  Two processors and one directory.  The first stores to a line, the second loads it (the directory
  forwards the request to the owner) and then stores to it: the copy of the first is invalidated.
\<close>

definition msi_demo_conf :: msi_conf where
  "msi_demo_conf = \<lparr> map_Address_to_Directory = (\<lambda>_. 0), new_block = [0], block_size_bits = 6,
     evictions_sent = True, sparse_directory = False, l1_cacheAvail = (\<lambda>_ _. True),
     TBEs_room = (\<lambda>_. True), dTBEs_room = (\<lambda>_. True) \<rparr>"

definition msi_demo_run :: "label list" where
  "msi_demo_run = [Issue 0 \<lparr> rr_LineAddress = 64, rr_Type = ST \<rparr>, L1_Mandatory 0 id 64,
     Deliver_Request (Directory 0) 0, Dir_Request 0, Dir_Memory 0 0,
     Deliver_Response (L1Cache 0) 0, L1_Response 0 (\<lambda>_. [7]),
     Issue 1 \<lparr> rr_LineAddress = 64, rr_Type = LD \<rparr>, L1_Mandatory 1 id 64,
     Deliver_Request (Directory 0) 0, Dir_Request 0, Deliver_Forward (L1Cache 0) 0, L1_Forward 0,
     Deliver_Response (L1Cache 1) 0, L1_Response 1 id, Deliver_Response (Directory 0) 0,
     Dir_Response 0, Dir_Memory 0 0,
     Issue 1 \<lparr> rr_LineAddress = 64, rr_Type = ST \<rparr>, L1_Mandatory 1 id 64,
     Deliver_Request (Directory 0) 0, Dir_Request 0, Deliver_Forward (L1Cache 0) 0, L1_Forward 0,
     Deliver_Response (L1Cache 1) 1, L1_Response 1 id, Deliver_Response (L1Cache 1) 0,
     L1_Response 1 (\<lambda>_. [9])]"

definition msi_demo_state :: "nat \<Rightarrow> msi_sys" where
  "msi_demo_state n = (case exec_all msi_demo_conf (take n msi_demo_run) (init_sys msi_demo_conf (\<lambda>_. [0])) of
     Inl _ \<Rightarrow> init_sys msi_demo_conf (\<lambda>_. [0]) | Inr s \<Rightarrow> s)"

lemma msi_demo_reachable: "reachable msi_demo_conf (\<lambda>_. [0]) (msi_demo_state n)"
  using exec_all_reachable [OF reachable.start [of msi_demo_conf "\<lambda>_. [0]"], of "take n msi_demo_run"] reachable.start
  by (auto simp: msi_demo_state_def split: sum.splits)

lemma msi_demo_conf_ok: "0 < block_size_bits msi_demo_conf" "\<not> sparse_directory msi_demo_conf"
  by (simp_all add: msi_demo_conf_def)

lemma msi_demo_hits: "store_hits (l1_state_of (msi_demo_state 28) 1 64)" "load_hits (l1_state_of (msi_demo_state 18) 0 64)"
  by code_simp+

lemma msi_demo_log: "call_log (msi_demo_state 28) = [writeCallback 0 64 GM_Directory [0] [7],
    readCallback 1 64 GM_L1Cache_wCC [7], evictionCallback 0 64, writeCallback 1 64 GM_Directory [7] [9]]"
  by code_simp

theorem msi_single_writer_witness:
  "store_hits (l1_state_of (msi_demo_state 28) 1 64) \<and> load_hits (l1_state_of (msi_demo_state 18) 0 64)
    \<and> \<not> load_hits (l1_state_of (msi_demo_state 28) 0 64)"
  using msi_single_writer [OF msi_demo_reachable msi_demo_conf_ok(1) msi_demo_hits(1), of 0] msi_demo_hits by simp

theorem msi_refines_memory_witness:
  "\<exists>m. mem_run (call_log (msi_demo_state 28)) (\<lambda>_. [0]) = Some m \<and> represents msi_demo_conf (msi_demo_state 28) m \<and> m 64 = [9]"
  using msi_refines_memory [OF msi_demo_reachable msi_demo_conf_ok(1), of 28] msi_demo_conf_ok(2)
  by (auto simp: msi_demo_log split: if_splits)

theorem msi_latest_store_witness:
  "call_log (msi_demo_state 28) ! 0 = writeCallback 0 64 GM_Directory [0] [7]
    \<and> handed 64 (call_log (msi_demo_state 28) ! 3) [7]"
  using msi_latest_store [OF msi_demo_reachable msi_demo_conf_ok, of 28 "[]" 0 64 GM_Directory "[0]" "[7]"
      "[readCallback 1 64 GM_L1Cache_wCC [7], evictionCallback 0 64]"
      "writeCallback 1 64 GM_Directory [7] [9]" "[]" "[7]"] by (simp add: msi_demo_log)

theorem msi_no_errors_witness:
  "exec msi_demo_conf (Dir_Request 0) (msi_demo_state 21) = Inl TBETable_full
    \<or> (\<exists>s. exec msi_demo_conf (Dir_Request 0) (msi_demo_state 21) = Inr s)"
  using msi_no_errors [OF msi_demo_reachable msi_demo_conf_ok(1), of 21 "Dir_Request 0"] by simp

theorem msi_well_formed_witness:
  "wf_sys msi_demo_conf (msi_demo_state 22) \<and> l1_line_ok (l1_slot_of (l1s (msi_demo_state 22) 1) 64)
    \<and> dir_line_ok (dir_slot_of (dirs (msi_demo_state 22) 0) 64)"
  using msi_well_formed [OF msi_demo_reachable msi_demo_conf_ok(1), of 22 1 64] by (simp add: msi_demo_conf_def)

section \<open>A sparse directory loses data\<close>

text \<open>
  One processor stores to a line and evicts it, another loads it.  The same transitions are possible
  with a directory that is an array and with one that is a sparse map.  The array hands the load
  the block that was stored.  The sparse map deletes the entry of the line when the write-back brings it to
  state \<open>I\<close>, together with the block that was written back, and hands the load a cleared block.
\<close>

definition msi_evict_conf :: "bool \<Rightarrow> msi_conf" where
  "msi_evict_conf sp = msi_demo_conf \<lparr> sparse_directory := sp, l1_cacheAvail := (\<lambda>cm _. cm 64 = None) \<rparr>"

definition msi_evict_run :: "label list" where
  "msi_evict_run = take 7 msi_demo_run @
    [Issue 0 \<lparr> rr_LineAddress = 128, rr_Type = LD \<rparr>, L1_Mandatory 0 id 64,
     Deliver_Request (Directory 0) 0, Dir_Request 0, Dir_Memory 0 0,
     Deliver_Forward (L1Cache 0) 0, L1_Forward 0,
     Issue 1 \<lparr> rr_LineAddress = 64, rr_Type = LD \<rparr>, L1_Mandatory 1 id 64,
     Deliver_Request (Directory 0) 0, Dir_Request 0, Dir_Memory 0 0,
     Deliver_Response (L1Cache 1) 0, L1_Response 1 id]"

lemma msi_evict_log:
  "map_sum id call_log (exec_all (msi_evict_conf False) msi_evict_run (init_sys (msi_evict_conf False) (\<lambda>_. [0])))
    = Inr [writeCallback 0 64 GM_Directory [0] [7], evictionCallback 0 64, readCallback 1 64 GM_Directory [7]]"
  "map_sum id call_log (exec_all (msi_evict_conf True) msi_evict_run (init_sys (msi_evict_conf True) (\<lambda>_. [0])))
    = Inr [writeCallback 0 64 GM_Directory [0] [7], evictionCallback 0 64, readCallback 1 64 GM_Directory [0]]"
  by code_simp+

theorem msi_sparse_forgets:
  "\<exists>s. reachable (msi_evict_conf True) (\<lambda>_. [0]) s
    \<and> call_log s = [writeCallback 0 64 GM_Directory [0] [7], evictionCallback 0 64, readCallback 1 64 GM_Directory [0]]
    \<and> mem_run (call_log s) (\<lambda>_. [0]) = None"
  using msi_evict_log(2) exec_all_reachable [OF reachable.start, of "msi_evict_conf True" msi_evict_run "\<lambda>_. [0]"]
  by (auto simp: map_sum_def split: sum.splits)

end
