(* ===== verification/Spec2Isabelle.thy ===== *)
theory Spec2Isabelle
  imports Cbp_Driver Cache_Memory Message_Buffer Directory_Memory Tomasulo_Run Ss_Hierarchy Msi_Coherence
begin

text \<open>
  Verification library for the ECE552 laboratories: branch prediction (Lab 2), Tomasulo's
  algorithm (Lab 3), caches and prefetching (Lab 4) and cache coherence in gem5's Ruby (Lab 5).

  \<^bold>\<open>Conventions.\<close>  \<open>Prelude\<close> holds what all theories share.  Machine integers are words of their
  width (or integers where the code's arithmetic cannot overflow), arrays are lists that are
  accessed through \<open>rd\<close> and \<open>wr\<close>, state is a record that operations return updated.  A failed
  assertion, a \<^verbatim>\<open>panic\<close>, a \<^verbatim>\<open>fatal\<close>, a null pointer and an index out of range are the value \<open>None\<close>, so a
  statement \<open>succeeds m Q\<close> says that the operation returns and what it returns.

  \<^bold>\<open>Lab 2, branch predictors.\<close>  \<open>Branch_Predictors\<close> and \<open>Tage\<close> model
  \<^verbatim>\<open>src/Lab2/cbp4-assign2/predictor.cc\<close>, \<open>Cbp_Driver\<close> models \<^verbatim>\<open>tracer.cc\<close> and \<^verbatim>\<open>main.cc\<close>.  The locale
  \<open>branch_predictor\<close> is the interface of the three predictors, interpreted for each of them; the
  lemmas show that every table access is in range, that the two-level predictor
  implements a history and a table of counters, what the tagged predictor predicts, and that
  the driver counts the mispredictions of the trace.

  \<^bold>\<open>Lab 3, Tomasulo.\<close>  \<open>Tomasulo\<close> models \<^verbatim>\<open>tomasulo.c\<close> and \<^verbatim>\<open>instr.c\<close> of
  \<^verbatim>\<open>src/Lab3/simplesim-3.0d-assig3\<close>; \<open>Tomasulo_Correct\<close> has the invariant of the pipeline and the proofs
  for the back end, \<open>Tomasulo_Run\<close> those for the front end, the progress measure and the theorems
  on whole runs.  The loop of \<open>runTomasulo\<close> is a partial function; it is shown to return after at
  most \<open>12 (n + 1)\<close> cycles for \<open>n\<close> instructions.

  \<^bold>\<open>Lab 4, caches.\<close>  \<open>Way_List\<close> models the linked lists of a cache set in \<^verbatim>\<open>cache.c\<close> of
  \<^verbatim>\<open>src/Lab4/simplesim-3.0d-assig4\<close> at the level of pointers, \<open>Ss_Cache\<close> the rest of the module with its
  prefetchers and the miss handlers of \<^verbatim>\<open>sim-cache.c\<close>.  \<open>Ss_Cache_Correct\<close> and \<open>Ss_Cache_Run\<close> show that every
  operation keeps the invariant of a cache and what it does to the list of tags that a set represents, over any level
  below that satisfies the locale \<open>lower_level\<close>, or \<open>next_level\<close>, which extends it by excluding block 0 (an access to block 0 of a
  cache without a last block follows a null pointer); \<open>Ss_Hierarchy\<close> interprets the locales for main memory and for a
  second level cache and has the properties, among them exactly when an access fails.  The searches along linked lists are partial
  functions, shown to return on every set that satisfies the invariant.

  \<^bold>\<open>Lab 5, Ruby\<close> (under \<^verbatim>\<open>src/Lab5/gem5/src\<close>).  \<open>Int_Math\<close>: \<^verbatim>\<open>base/intmath.hh\<close>.  \<open>Ruby_Address\<close>: \<^verbatim>\<open>mem/ruby/common/Address\<close>.
  \<open>Replacement\<close>: the LRU and pseudo-LRU policies, both interpretations of the locale \<open>replacement_policy\<close>.
  \<open>Line_Store\<close>: the locale of stores of cache lines, interpreted by \<open>Cache_Memory\<close> (\<^verbatim>\<open>CacheMemory.cc\<close>), by the tables
  of \<open>Ruby_Tables\<close> (\<^verbatim>\<open>TBETable\<close>, \<^verbatim>\<open>PerfectCacheMemory\<close>, with \<^verbatim>\<open>TimerTable\<close> and \<^verbatim>\<open>PersistentTable\<close>) and by \<open>Sparse_Memory\<close>.
  \<open>Bit_Set\<close> and \<open>Net_Dest\<close>: \<^verbatim>\<open>Set\<close> and \<^verbatim>\<open>NetDest\<close>, interpretations of \<open>dest_set\<close>.  \<open>Message_Buffer\<close>: \<^verbatim>\<open>MessageBuffer\<close>, an
  interpretation of \<open>fifo_channel\<close>.  \<open>Memory_Vector\<close>: \<^verbatim>\<open>MemoryVector\<close> and \<^verbatim>\<open>DataBlock\<close>.
  \<open>Directory_Memory\<close>: \<^verbatim>\<open>DirectoryMemory\<close>.  The lemmas show that each container implements the set, map, queue or flat
  memory it stands for, and that the directories partition the memory.

  \<^bold>\<open>Lab 5, coherence protocol\<close> (\<^verbatim>\<open>mem/protocol/MSI-cache.sm\<close>, \<^verbatim>\<open>MSI-dir.sm\<close>, \<^verbatim>\<open>MSI-msg.sm\<close>).  \<open>Msi_L1\<close> and \<open>Msi_Dir\<close> are
  the two SLICC state machines: one equation per action, one line per transition, the input ports, and
  the code that \<^verbatim>\<open>mem/slicc/symbols/StateMachine.py\<close> generates to run a transition.  Errors are values of
  \<open>msi_error\<close>.  \<open>Msi_System\<close> puts any number of controllers and their virtual networks together:
  \<open>exec\<close> is one step, \<open>reachable\<close> what steps in any order lead to.  The containers of the last
  paragraph appear there as the maps, sets and queues they implement.  The proof goes through one line:
  \<open>Msi_Line\<close> and \<open>Msi_Home\<close> have a machine for a single line with an inductive step relation and the
  invariant of its messages and copies, \<open>Msi_Rep\<close> says when a state of the system represents a state of that machine for
  an address, and \<open>Msi_Sim_L1\<close> and \<open>Msi_Sim_Dir\<close> show that every transition of a controller is a step, a
  stall or a full table.  \<open>Msi_Coherence\<close> draws the conclusions: one writer or many readers, the accesses of
  the processors are a run of one memory (the locale \<open>serial_memory\<close> has what processors can rely on), no
  transition is missing, all controllers are well-formed.  A directory that is an array keeps the blocks that are written
  back to it.  One that is a sparse map (\<^verbatim>\<open>use_map\<close>) deletes the entry of a line that comes to state \<open>I\<close> and later allocates
  a cleared one: there the accesses are a run of a memory that can lose blocks (\<open>lossy_run\<close>), and
  \<open>msi_sparse_forgets\<close> is a run that does lose one.  That every request is served in the end is not
  shown: a stalled message blocks the queue behind it, also for other lines.

  \<^bold>\<open>Not modelled.\<close>  Printing, statistics and configuration; the instruction sets, processors, devices and
  networks of gem5 and the SimpleScalar simulators around the laboratory code, which the
  laboratories use unchanged; the SLICC compiler and vendored libraries.  Of the coherence protocol, the
  sizes and latencies of messages, the blocking of a port for a locked access (\<^verbatim>\<open>block_on\<close>), and the
  sequencer, of which only the callbacks it receives are recorded.
\<close>

end
